(* ===== verification/Prelude.thy ===== *)
theory Prelude
  imports Main "HOL-Library.Word"
begin

text \<open>
  Shared vocabulary of the Linux95 verification library: the fixed-width integer types of
  \<^verbatim>\<open><stdint.h>\<close>, byte access to little- and big-endian fields, and the lemmas that move
  word arithmetic to natural numbers.  Component theories put their unfolding rules into the
  collections declared here.
\<close>

unbundle bit_operations_syntax

type_synonym u8 = "8 word"
type_synonym u16 = "16 word"
type_synonym u32 = "32 word"
type_synonym u64 = "64 word"

abbreviation UINT64_MAX :: u64 where "UINT64_MAX \<equiv> - 1"
abbreviation UINT32_MAX :: u32 where "UINT32_MAX \<equiv> - 1"

named_theorems word_to_nat \<open>rules that replace a word operation by its value on natural numbers\<close>
named_theorems kernel_const \<open>definitions of the numeric constants of the kernel headers\<close>

subsection \<open>Word arithmetic on natural numbers\<close>

lemma unat_Suc_less [simp]:
  fixes i e :: "'a::len word"
  assumes "i < e"
  shows "unat (i + 1) = Suc (unat i)"
proof -
  have "unat i < unat e" using assms by (simp add: word_less_nat_alt)
  moreover have "unat e < 2 ^ LENGTH('a)" by simp
  ultimately have "unat i + 1 < 2 ^ LENGTH('a)" by linarith
  then show ?thesis by (simp add: unat_word_ariths)
qed

lemma unat_less_64: "unat (w :: u64) < 2 ^ 64"
  using unsigned_less [of w] by simp

lemma unat_less_32: "unat (w :: u32) < 2 ^ 32"
  using unsigned_less [of w] by simp

lemma unat_less_iff [word_to_nat]: "a < b \<longleftrightarrow> unat a < unat b"
  by (simp add: word_less_nat_alt)

lemma unat_le_iff [word_to_nat]: "a \<le> b \<longleftrightarrow> unat a \<le> unat b"
  by (simp add: word_le_nat_alt)

lemma unat_eq_iff: "a = b \<longleftrightarrow> unat a = unat b"
  by (rule word_unat_eq_iff)

lemma unat_of_nat_small: "k < 2 ^ LENGTH('a) \<Longrightarrow> unat (of_nat k :: 'a::len word) = k"
  by (simp add: unsigned_of_nat take_bit_nat_eq_self)

lemma unat_of_nat_64: "k < 2 ^ 64 \<Longrightarrow> unat (of_nat k :: u64) = k"
  by (rule unat_of_nat_small) simp

lemma of_nat_unat_id [simp]: "of_nat (unat w) = (w :: 'a::len word)"
  by (simp add: unat_eq_iff unat_of_nat_small)

lemma unat_max_minus [word_to_nat]:
  "unat (- 1 - a :: 'a::len word) = 2 ^ LENGTH('a) - 1 - unat a"
proof -
  have "unat (- 1 :: 'a word) = 2 ^ LENGTH('a) - 1"
    by (simp add: mask_eq_exp_minus_1 unsigned_minus_1_eq_mask)
  then show ?thesis by (simp add: unat_sub)
qed

lemma unat_UINT64_MAX [simp]: "unat UINT64_MAX = 18446744073709551615"
  by (simp add: mask_eq_exp_minus_1 unsigned_minus_1_eq_mask)

lemma unat_UINT32_MAX [simp]: "unat UINT32_MAX = 4294967295"
  by (simp add: mask_eq_exp_minus_1 unsigned_minus_1_eq_mask)

text \<open>The overflow guard the code writes as \<^verbatim>\<open>b > MAX - a\<close>.\<close>

lemma no_overflow_iff:
  fixes a b :: "'a::len word"
  shows "b \<le> - 1 - a \<longleftrightarrow> unat a + unat b < 2 ^ LENGTH('a)"
proof -
  have "unat a < 2 ^ LENGTH('a)" by simp
  then show ?thesis unfolding unat_le_iff unat_max_minus by arith
qed

lemma unat_add_no_overflow:
  fixes a b :: "'a::len word"
  assumes "b \<le> - 1 - a"
  shows "unat (a + b) = unat a + unat b"
  using assms by (simp add: no_overflow_iff unat_word_ariths)

lemma unat_div_word [word_to_nat]: "unat (a div b) = unat a div unat b"
  by (rule unat_div_distrib)

lemma unat_mod_word [word_to_nat]: "unat (a mod b) = unat a mod unat b"
  by (rule unat_mod_distrib)

subsection \<open>Masks and shifts\<close>

lemma and_not_mask_sub: "w AND NOT (mask n) = w - take_bit n w"
  for w :: "'a::len word"
proof -
  have "w - (w AND mask n) = w AND NOT (w AND mask n)"
    by (rule disjunctive_diff) (simp add: bit_and_iff)
  also have "\<dots> = w AND NOT (mask n)"
    by (rule bit_eqI) (auto simp: bit_simps simp del: bit.de_Morgan_conj bit.de_Morgan_disj)
  finally show ?thesis by (simp add: take_bit_eq_mask)
qed

lemma unat_take_bit: "unat (take_bit n w) = unat w mod 2 ^ n"
  for w :: "'a::len word"
  by (metis take_bit_eq_mod unsigned_take_bit_eq)

lemma unat_and_mask [word_to_nat]: "unat (w AND mask n) = unat w mod 2 ^ n"
  for w :: "'a::len word"
  by (simp add: unat_take_bit flip: take_bit_eq_mask)

lemma unat_and_not_mask [word_to_nat]:
  fixes w :: "'a::len word"
  shows "unat (w AND NOT (mask n)) = unat w - unat w mod 2 ^ n"
proof -
  have "take_bit n w \<le> w"
    by (simp add: word_le_nat_alt unat_take_bit)
  then show ?thesis by (simp add: and_not_mask_sub unat_sub unat_take_bit)
qed

lemma unat_drop_bit_div [word_to_nat]: "unat (drop_bit n w) = unat w div 2 ^ n"
  for w :: "'a::len word"
  by (metis drop_bit_eq_div unat_drop_bit_eq)

lemma unat_push_bit [word_to_nat]:
  "unat (push_bit n w) = (unat w * 2 ^ n) mod 2 ^ LENGTH('a)"
  for w :: "'a::len word"
  by (metis push_bit_eq_mult take_bit_eq_mod unsigned_push_bit_eq)

subsection \<open>Lists\<close>

lemma upt_split: "c \<le> n \<Longrightarrow> [0..<n] = [0..<c] @ map (\<lambda>k. c + k) [0..<n - c]"
  using upt_add_eq_append [of 0 c "n - c"] map_add_upt [of c "n - c"] by (simp add: add.commute)

subsection \<open>Arrays of slots\<close>

text \<open>The loop that looks for the first slot of a fixed array with a property, and the partial map an
  array of keyed slots stands for.\<close>

fun first_slot :: "('a \<Rightarrow> bool) \<Rightarrow> 'a list \<Rightarrow> nat option" where
  "first_slot P [] = None"
| "first_slot P (p # ps) = (if P p then Some 0 else map_option Suc (first_slot P ps))"

lemma first_slot_Some:
  "first_slot P ps = Some i \<longleftrightarrow> i < length ps \<and> P (ps ! i) \<and> (\<forall>j<i. \<not> P (ps ! j))"
proof (induction ps arbitrary: i)
  case (Cons p ps)
  show ?case
    by (cases i) (auto simp: Cons.IH All_less_Suc2)
qed simp

lemma first_slot_None: "first_slot P ps = None \<longleftrightarrow> (\<forall>p\<in>set ps. \<not> P p)"
  by (induction ps) auto

definition slots_ok :: "('e \<Rightarrow> bool) \<Rightarrow> ('e \<Rightarrow> 'k) \<Rightarrow> 'e list \<Rightarrow> bool" where
  "slots_ok used key es \<longleftrightarrow>
     (\<forall>i<length es. \<forall>j<length es. used (es ! i) \<longrightarrow> used (es ! j) \<longrightarrow> key (es ! i) = key (es ! j) \<longrightarrow> i = j)"

definition slot_map :: "('e \<Rightarrow> bool) \<Rightarrow> ('e \<Rightarrow> 'k) \<Rightarrow> 'e list \<Rightarrow> 'k \<rightharpoonup> 'e" where
  "slot_map used key es k = map_option (\<lambda>i. es ! i) (first_slot (\<lambda>e. used e \<and> key e = k) es)"

lemma slot_map_None: "slot_map used key es k = None \<longleftrightarrow> (\<forall>i<length es. used (es ! i) \<longrightarrow> key (es ! i) \<noteq> k)"
  by (auto simp: slot_map_def first_slot_None all_set_conv_all_nth)

lemma slot_map_Some:
  assumes "slots_ok used key es"
  shows "slot_map used key es k = Some e \<longleftrightarrow> (\<exists>i<length es. es ! i = e \<and> used e \<and> key e = k)"
proof
  assume "slot_map used key es k = Some e"
  then show "\<exists>i<length es. es ! i = e \<and> used e \<and> key e = k" by (auto simp: slot_map_def first_slot_Some)
next
  assume "\<exists>i<length es. es ! i = e \<and> used e \<and> key e = k"
  then obtain i where i: "i < length es" "es ! i = e" "used e" "key e = k" by blast
  then have "first_slot (\<lambda>e. used e \<and> key e = k) es \<noteq> None" unfolding first_slot_None by auto
  then obtain j where j: "first_slot (\<lambda>e. used e \<and> key e = k) es = Some j" by blast
  then have "j = i" using assms i unfolding first_slot_Some slots_ok_def by auto
  then show "slot_map used key es k = Some e" using i j by (simp add: slot_map_def)
qed

text \<open>Writing one slot: a free slot gains a new key, a used slot keeps or loses its key.\<close>

lemma slots_ok_write:
  assumes "slots_ok used key es" "i < length es"
    and "used e \<Longrightarrow> \<forall>j<length es. used (es ! j) \<longrightarrow> key (es ! j) = key e \<longrightarrow> j = i"
  shows "slots_ok used key (es[i := e])"
  using assms unfolding slots_ok_def by (auto simp: nth_list_update)

lemma slot_map_write:
  assumes "slots_ok used key es" "i < length es" "slots_ok used key (es[i := e])"
  shows "slot_map used key (es[i := e]) k =
    (if used e \<and> key e = k then Some e
     else if used (es ! i) \<and> key (es ! i) = k then None else slot_map used key es k)"
proof -
  have "slot_map used key (es[i := e]) k = Some x \<longleftrightarrow>
    (if used e \<and> key e = k then Some e
     else if used (es ! i) \<and> key (es ! i) = k then None else slot_map used key es k) = Some x" for x
    unfolding slot_map_Some [OF assms(3)]
  proof (cases "used e \<and> key e = k")
    case True
    have "y = i" if "y < length es" "used ((es[i := e]) ! y)" "key ((es[i := e]) ! y) = k" for y
      using assms(2,3) that True unfolding slots_ok_def by (metis length_list_update nth_list_update_eq)
    then show "(\<exists>j<length (es[i := e]). es[i := e] ! j = x \<and> used x \<and> key x = k) \<longleftrightarrow>
      (if used e \<and> key e = k then Some e
       else if used (es ! i) \<and> key (es ! i) = k then None else slot_map used key es k) = Some x"
      using True assms(2) by (metis length_list_update nth_list_update_eq option.inject)
  next
    case False
    show "(\<exists>j<length (es[i := e]). es[i := e] ! j = x \<and> used x \<and> key x = k) \<longleftrightarrow>
      (if used e \<and> key e = k then Some e
       else if used (es ! i) \<and> key (es ! i) = k then None else slot_map used key es k) = Some x"
      using False assms(1,2) slot_map_Some [OF assms(1), of k x] unfolding slots_ok_def
      by (auto simp: nth_list_update)
  qed
  then show ?thesis by (metis not_None_eq)
qed

end
