(* ===== verification/Address.thy ===== *)
theory Address
  imports Prelude
begin

text \<open>
  Addresses and the firmware memory map: \<^verbatim>\<open>kernel/memory/address.hpp\<close> (alignment and the
  direct physical map), \<^verbatim>\<open>kernel/boot_info.hpp\<close> (the E820 hand-over) and the scans of
  \<^verbatim>\<open>kernel/memory/memory.cpp\<close> over it.  Addresses are 64-bit words, so every wrap-around
  of the code is a wrap-around of the model.
\<close>

subsection \<open>Constants and alignment (address.hpp)\<close>

definition kPageSize :: u64 where [kernel_const]: "kPageSize = 4096"
definition kHugePageSize :: u64 where [kernel_const]: "kHugePageSize = 2 * 1024 * 1024"
definition kKernelRegionBase :: u64 where [kernel_const]: "kKernelRegionBase = 0xFFFFFFFF80000000"
definition kKernelVirtualBase :: u64 where [kernel_const]: "kKernelVirtualBase = 0xFFFFFFFF80100000"
definition kHhdmBase :: u64 where [kernel_const]: "kHhdmBase = 0xFFFF800000000000"
definition kBootstrapHhdmLimit :: u64 where
  [kernel_const]: "kBootstrapHhdmLimit = 64 * 1024 * 1024 * 1024"

definition align_down :: "u64 \<Rightarrow> u64 \<Rightarrow> u64" where
  "align_down v alignment = (if alignment = 0 then v else v AND NOT (alignment - 1))"

definition align_up :: "u64 \<Rightarrow> u64 \<Rightarrow> u64" where
  "align_up v alignment =
     (if alignment = 0 then v
      else let m = alignment - 1
           in if v > UINT64_MAX - m then UINT64_MAX AND NOT m else (v + m) AND NOT m)"

definition physical_to_hhdm :: "u64 \<Rightarrow> u64" where
  "physical_to_hhdm physical = kHhdmBase + physical"

definition hhdm_to_physical :: "u64 \<Rightarrow> u64" where
  "hhdm_to_physical virtual_address = virtual_address - kHhdmBase"

definition is_page_aligned :: "u64 \<Rightarrow> bool" where
  "is_page_aligned v \<longleftrightarrow> v AND (kPageSize - 1) = 0"

subsection \<open>The boot hand-over (boot\_info.hpp)\<close>

record e820_entry =
  e820_base :: u64
  e820_length :: u64
  e820_type :: u32
  e820_attributes :: u32

record framebuffer_info =
  fb_physical_address :: u64
  fb_width :: u32
  fb_height :: u32
  fb_pitch :: u32
  fb_bits_per_pixel :: u8
  fb_red_mask_size :: u8
  fb_red_mask_shift :: u8
  fb_green_mask_size :: u8
  fb_green_mask_shift :: u8
  fb_blue_mask_size :: u8
  fb_blue_mask_shift :: u8
  fb_available :: u8

text \<open>
  \<open>bi_entries\<close> is the array the pointer \<open>e820_address\<close> refers to; the code reads its first
  \<open>e820_count\<close> elements.
\<close>

record boot_info =
  bi_magic :: u32
  bi_e820_count :: u32
  bi_e820_address :: u64
  bi_entries :: "e820_entry list"
  bi_boot_drive :: u8
  bi_framebuffer :: framebuffer_info

definition kBootInfoMagic :: u32 where [kernel_const]: "kBootInfoMagic = 0x4C393542"
definition kMaxE820Entries :: u32 where [kernel_const]: "kMaxE820Entries = 128"

definition valid_boot_info :: "boot_info option \<Rightarrow> bool" where
  "valid_boot_info info =
     (case info of
        None \<Rightarrow> False
      | Some b \<Rightarrow> bi_magic b = kBootInfoMagic \<and> bi_e820_count b > 0 \<and>
          bi_e820_count b \<le> kMaxE820Entries \<and> bi_e820_address b \<noteq> 0)"

definition boot_entries :: "boot_info \<Rightarrow> e820_entry list" where
  "boot_entries b = take (unat (bi_e820_count b)) (bi_entries b)"

subsection \<open>Scans over the memory map (memory.cpp)\<close>

definition saturating_add :: "u64 \<Rightarrow> u64 \<Rightarrow> u64" where
  "saturating_add a b = (if UINT64_MAX - a < b then UINT64_MAX else a + b)"

definition boot_map_readable :: "boot_info \<Rightarrow> bool" where
  "boot_map_readable b \<longleftrightarrow>
     \<not> (bi_e820_count b = 0 \<or> bi_e820_count b > kMaxE820Entries \<or> bi_e820_address b = 0)"

fun max_end_scan :: "(e820_entry \<Rightarrow> bool) \<Rightarrow> e820_entry list \<Rightarrow> u64 \<Rightarrow> u64" where
  "max_end_scan skip [] maximum = maximum"
| "max_end_scan skip (e # es) maximum =
     (if skip e then max_end_scan skip es maximum
      else let end = saturating_add (e820_base e) (e820_length e)
           in max_end_scan skip es (if end > maximum then end else maximum))"

definition maximum_physical_address :: "boot_info \<Rightarrow> u64" where
  "maximum_physical_address b =
     (if \<not> boot_map_readable b then 0
      else max_end_scan (\<lambda>e. e820_length e = 0) (boot_entries b) 0)"

definition maximum_usable_physical_address :: "boot_info \<Rightarrow> u64" where
  "maximum_usable_physical_address b =
     (if \<not> boot_map_readable b then 0
      else max_end_scan (\<lambda>e. e820_type e \<noteq> 1 \<or> e820_length e = 0) (boot_entries b) 0)"

subsection \<open>Alignment on natural numbers\<close>

lemma pow2_minus_1_mask: "(2::'a::len word) ^ k - 1 = mask k"
  by (simp add: mask_eq_exp_minus_1)

lemma page_mask: "kPageSize - 1 = mask 12"
  by (simp add: kPageSize_def mask_eq_exp_minus_1)

lemma page_size_neq_0 [simp]: "kPageSize \<noteq> 0"
  by (simp add: kPageSize_def)

lemma unat_page_size [simp]: "unat kPageSize = 4096"
  by (simp add: kPageSize_def)

lemma unat_align_down_page: "unat (align_down v kPageSize) = unat v - unat v mod 4096"
  by (simp add: align_down_def page_mask unat_and_not_mask)

lemma is_page_aligned_iff: "is_page_aligned v \<longleftrightarrow> unat v mod 4096 = 0"
proof -
  have "is_page_aligned v \<longleftrightarrow> unat (v AND mask 12) = 0"
    by (simp add: is_page_aligned_def page_mask unat_eq_iff)
  then show ?thesis by (simp add: unat_and_mask)
qed

lemma unat_align_up_page:
  assumes "unat v \<le> 2 ^ 64 - 4096"
  shows "unat (align_up v kPageSize) = (unat v + 4095) div 4096 * 4096"
proof -
  have m: "unat (mask 12 :: u64) = 4095" by (simp add: mask_eq_exp_minus_1)
  have le: "mask 12 \<le> UINT64_MAX - v"
    using assms by (simp add: no_overflow_iff m)
  then have "\<not> v > UINT64_MAX - mask 12"
    by (simp add: not_less no_overflow_iff m)
  then have "align_up v kPageSize = (v + mask 12) AND NOT (mask 12)"
    by (simp add: align_up_def page_mask Let_def)
  then show ?thesis
    by (simp add: unat_and_not_mask unat_add_no_overflow [OF le] m minus_mod_eq_div_mult)
qed

lemma not_page_mask: "NOT (mask 12) = (0xFFFFFFFFFFFFF000 :: u64)"
  by (simp add: mask_eq_exp_minus_1)

lemma align_up_page_saturates:
  assumes "\<not> unat v \<le> 2 ^ 64 - 4096"
  shows "align_up v kPageSize = 0xFFFFFFFFFFFFF000"
proof -
  have m: "unat (mask 12 :: u64) = 4095" by (simp add: mask_eq_exp_minus_1)
  have "v > UINT64_MAX - mask 12"
    using assms by (simp add: unat_less_iff unat_max_minus m)
  then show ?thesis
    by (simp add: align_up_def page_mask Let_def not_page_mask)
qed

lemma align_up_page_aligned: "is_page_aligned (align_up v kPageSize)"
proof (cases "unat v \<le> 2 ^ 64 - 4096")
  case True
  then show ?thesis by (simp add: is_page_aligned_iff unat_align_up_page)
next
  case False
  then show ?thesis by (simp add: is_page_aligned_iff align_up_page_saturates)
qed

lemma align_up_page_ge:
  assumes "unat v \<le> 2 ^ 64 - 4096"
  shows "unat v \<le> unat (align_up v kPageSize)" "unat (align_up v kPageSize) - unat v < 4096"
  unfolding unat_align_up_page [OF assms] by arith+

text \<open>
  For every 64-bit value, \<open>align_down\<close> to a page gives the greatest page-aligned value that
  is not above it, and \<open>align_up\<close> the least page-aligned value that is not below it whenever
  such a value exists below \<open>2 ^ 64\<close>; otherwise \<open>align_up\<close> saturates at the last page.
\<close>

theorem align_page_spec:
  "is_page_aligned (align_down v kPageSize) \<and> align_down v kPageSize \<le> v \<and>
   unat v - unat (align_down v kPageSize) < 4096 \<and>
   is_page_aligned (align_up v kPageSize) \<and>
   (if unat v \<le> 2 ^ 64 - 4096
    then v \<le> align_up v kPageSize \<and> unat (align_up v kPageSize) - unat v < 4096
    else align_up v kPageSize = 0xFFFFFFFFFFFFF000)"
proof -
  have down: "is_page_aligned (align_down v kPageSize)" "align_down v kPageSize \<le> v"
    "unat v - unat (align_down v kPageSize) < 4096"
    by (simp_all add: is_page_aligned_iff unat_le_iff unat_align_down_page)
  show ?thesis
    using down align_up_page_ge align_up_page_aligned align_up_page_saturates by (simp add: unat_le_iff)
qed

subsection \<open>The direct map\<close>

lemma hhdm_roundtrip [simp]:
  "hhdm_to_physical (physical_to_hhdm p) = p" "physical_to_hhdm (hhdm_to_physical v) = v"
  by (simp_all add: hhdm_to_physical_def physical_to_hhdm_def)

subsection \<open>The scans bound every region they look at\<close>

lemma unat_saturating_add:
  "unat (saturating_add a b) = min (unat a + unat b) (2 ^ 64 - 1)"
proof (cases "UINT64_MAX - a < b")
  case True
  then have "2 ^ 64 \<le> unat a + unat b"
    using no_overflow_iff [of b a] by (simp add: not_le [symmetric])
  with True show ?thesis by (simp add: saturating_add_def)
next
  case False
  then have "b \<le> - 1 - a" by simp
  with False show ?thesis
    using no_overflow_iff [of b a] by (simp add: saturating_add_def unat_add_no_overflow)
qed

lemma max_end_scan_ge: "maximum \<le> max_end_scan skip es maximum"
proof (induction es arbitrary: maximum)
  case (Cons e es)
  then show ?case by (auto simp: Let_def intro: order_trans less_imp_le)
qed simp

lemma max_end_scan_upper:
  assumes "e \<in> set es" "\<not> skip e"
  shows "saturating_add (e820_base e) (e820_length e) \<le> max_end_scan skip es maximum"
  using assms
proof (induction es arbitrary: maximum)
  case (Cons e' es)
  show ?case
  proof (cases "e = e'")
    case True
    let ?fin = "saturating_add (e820_base e') (e820_length e')"
    have "?fin \<le> (if ?fin > maximum then ?fin else maximum)"
      by (simp add: not_less)
    also have "\<dots> \<le> max_end_scan skip es (if ?fin > maximum then ?fin else maximum)"
      by (rule max_end_scan_ge)
    finally show ?thesis using True Cons.prems(2) by (simp add: Let_def)
  next
    case False
    with Cons show ?thesis by (auto simp: Let_def)
  qed
qed simp

end
