(* ===== verification/Page_Bitmap.thy ===== *)
theory Page_Bitmap
  imports Prelude
begin

text \<open>
  The page bitmap of \<^verbatim>\<open>kernel/memory/page_bitmap.hpp\<close>: one bit per page, set while the
  page is used, a count of the clear bits and a search hint.  The invariant \<open>pb_inv\<close> ties the
  count to the bits; the locale \<open>page_set\<close> is the contract the physical allocator uses, a finite
  set of free page numbers, and \<open>pb\<close> is the bitmap's proof of it.
\<close>

subsection \<open>State and operations\<close>

text \<open>\<open>pb_storage = None\<close> is the null pointer; otherwise the bytes the pointer refers to.\<close>

record page_bitmap =
  pb_storage :: "u8 list option"
  pb_page_count :: u64
  pb_free_count :: u64
  pb_next_hint :: u64

definition kInvalid :: u64 where "kInvalid = UINT64_MAX"

definition pb_empty :: page_bitmap where
  "pb_empty = \<lparr>pb_storage = None, pb_page_count = 0, pb_free_count = 0, pb_next_hint = 0\<rparr>"

definition pb_initialize :: "u8 list option \<Rightarrow> u64 \<Rightarrow> page_bitmap \<Rightarrow> page_bitmap" where
  "pb_initialize storage page_count b =
     (let b = b\<lparr>pb_storage := storage, pb_page_count := page_count,
                pb_free_count := 0, pb_next_hint := 0\<rparr>
      in case storage of
           None \<Rightarrow> b\<lparr>pb_page_count := 0\<rparr>
         | Some s \<Rightarrow>
             if page_count = 0 then b\<lparr>pb_page_count := 0\<rparr>
             else let bytes = unat ((page_count + 7) div 8)
                  in b\<lparr>pb_storage := Some (replicate bytes 0xFF @ drop bytes s)\<rparr>)"

definition pb_byte :: "u64 \<Rightarrow> nat" where
  "pb_byte index = unat (drop_bit 3 index)"

definition pb_mask :: "u64 \<Rightarrow> u8" where
  "pb_mask index = push_bit (unat (index AND 7)) 1"

definition pb_is_used :: "page_bitmap \<Rightarrow> u64 \<Rightarrow> bool" where
  "pb_is_used b index =
     (case pb_storage b of
        None \<Rightarrow> True
      | Some s \<Rightarrow> if index \<ge> pb_page_count b then True
                  else (s ! pb_byte index) AND pb_mask index \<noteq> 0)"

definition pb_mark_free :: "u64 \<Rightarrow> page_bitmap \<Rightarrow> bool \<times> page_bitmap" where
  "pb_mark_free index b =
     (case pb_storage b of
        None \<Rightarrow> (False, b)
      | Some s \<Rightarrow>
          if index \<ge> pb_page_count b \<or> \<not> pb_is_used b index then (False, b)
          else (True, b\<lparr>pb_storage := Some (s[pb_byte index := s ! pb_byte index AND NOT (pb_mask index)]),
                        pb_free_count := pb_free_count b + 1,
                        pb_next_hint := (if index < pb_next_hint b then index else pb_next_hint b)\<rparr>))"

definition pb_mark_used :: "u64 \<Rightarrow> page_bitmap \<Rightarrow> bool \<times> page_bitmap" where
  "pb_mark_used index b =
     (case pb_storage b of
        None \<Rightarrow> (False, b)
      | Some s \<Rightarrow>
          if index \<ge> pb_page_count b \<or> pb_is_used b index then (False, b)
          else (True, b\<lparr>pb_storage := Some (s[pb_byte index := s ! pb_byte index OR pb_mask index]),
                        pb_free_count := pb_free_count b - 1,
                        pb_next_hint := (if index = pb_next_hint b then pb_next_hint b + 1
                                         else pb_next_hint b)\<rparr>))"

text \<open>The inner loop of \<open>allocate\<close>: the first clear bit in \<open>[index, end)\<close>.\<close>

function pb_scan :: "page_bitmap \<Rightarrow> u64 \<Rightarrow> u64 \<Rightarrow> u64 option" where
  "pb_scan b index end =
     (if index < end
      then if \<not> pb_is_used b index then Some index else pb_scan b (index + 1) end
      else None)"
  by pat_completeness auto
termination
  by (relation "measure (\<lambda>(b, index, end). unat end - unat index)")
    (simp_all add: unat_less_iff)

declare pb_scan.simps [simp del]

definition pb_take :: "u64 \<Rightarrow> page_bitmap \<Rightarrow> u64 \<times> page_bitmap" where
  "pb_take index b =
     (let b = snd (pb_mark_used index b);
          hint = index + 1
      in (index, b\<lparr>pb_next_hint := (if hint \<ge> pb_page_count b then 0 else hint)\<rparr>))"

definition pb_allocate :: "page_bitmap \<Rightarrow> u64 \<times> page_bitmap" where
  "pb_allocate b =
     (if pb_storage b = None \<or> pb_free_count b = 0 then (kInvalid, b)
      else case pb_scan b (pb_next_hint b) (pb_page_count b) of
             Some index \<Rightarrow> pb_take index b
           | None \<Rightarrow>
               (case pb_scan b 0 (pb_next_hint b) of
                  Some index \<Rightarrow> pb_take index b
                | None \<Rightarrow> (kInvalid, b)))"

subsection \<open>The free set and the invariant\<close>

definition pb_free :: "page_bitmap \<Rightarrow> u64 set" where
  "pb_free b = {i. \<not> pb_is_used b i}"

definition pb_inv :: "page_bitmap \<Rightarrow> bool" where
  "pb_inv b \<longleftrightarrow>
     (case pb_storage b of None \<Rightarrow> pb_page_count b = 0
      | Some s \<Rightarrow> (unat (pb_page_count b) + 7) div 8 \<le> length s) \<and>
     unat (pb_free_count b) = card (pb_free b) \<and>
     pb_next_hint b \<le> pb_page_count b"

lemma pb_free_below: "i \<in> pb_free b \<Longrightarrow> i < pb_page_count b"
  by (auto simp: pb_free_def pb_is_used_def not_le split: option.splits if_splits)

subsection \<open>Bits\<close>

definition pb_bit :: "u64 \<Rightarrow> nat" where
  "pb_bit index = unat (index AND 7)"

lemma pb_byte_div: "pb_byte i = unat i div 8"
  by (simp add: pb_byte_def unat_drop_bit_div)

lemma pb_bit_mod: "pb_bit i = unat i mod 8"
  using unat_and_mask [of i 3] by (simp add: pb_bit_def mask_eq_exp_minus_1)

lemma pb_bit_less [simp]: "pb_bit i < 8"
  by (simp add: pb_bit_mod)

lemma pb_position_inj: "pb_byte i = pb_byte j \<Longrightarrow> pb_bit i = pb_bit j \<Longrightarrow> i = j"
  by (metis div_mult_mod_eq pb_bit_mod pb_byte_div unat_eq_iff)

lemma and_pb_mask: "w AND pb_mask i \<noteq> 0 \<longleftrightarrow> bit w (pb_bit i)"
  by (simp add: pb_mask_def pb_bit_def bit_iff_and_push_bit_not_eq_0)

lemma bit_and_not_pb_mask:
  "n < 8 \<Longrightarrow> bit (w AND NOT (pb_mask i)) n \<longleftrightarrow> bit w n \<and> n \<noteq> pb_bit i"
  by (auto simp: pb_mask_def pb_bit_def bit_simps)

lemma bit_or_pb_mask:
  "n < 8 \<Longrightarrow> bit (w OR pb_mask i) n \<longleftrightarrow> bit w n \<or> n = pb_bit i"
  by (auto simp: pb_mask_def pb_bit_def bit_simps)

lemma pb_byte_in_range:
  assumes "(unat n + 7) div 8 \<le> length s" and "i < n"
  shows "pb_byte i < length s"
  using assms by (simp add: pb_byte_div unat_less_iff)

lemma pb_free_Some:
  assumes "pb_storage b = Some s"
  shows "i \<in> pb_free b \<longleftrightarrow> i < pb_page_count b \<and> \<not> bit (s ! pb_byte i) (pb_bit i)"
  using assms by (auto simp: pb_free_def pb_is_used_def and_pb_mask not_le)

lemma pb_free_None: "pb_storage b = None \<Longrightarrow> pb_free b = {}"
  by (auto simp: pb_free_def pb_is_used_def)

lemma pb_is_used_iff: "pb_is_used b i \<longleftrightarrow> i \<notin> pb_free b"
  by (simp add: pb_free_def)

lemma finite_pb_free [simp]: "finite (pb_free b)"
  by (rule finite_subset [OF subset_UNIV]) simp

lemma card_pb_free_le: "card (pb_free b) \<le> unat (pb_page_count b)"
proof -
  have "unat ` pb_free b \<subseteq> {..<unat (pb_page_count b)}"
    using pb_free_below by (auto simp: unat_less_iff)
  then have "card (unat ` pb_free b) \<le> unat (pb_page_count b)"
    by (metis card_lessThan card_mono finite_lessThan)
  moreover have "card (unat ` pb_free b) = card (pb_free b)"
    by (rule card_image) (simp add: inj_on_def unat_eq_iff)
  ultimately show ?thesis by simp
qed

subsection \<open>Marking pages\<close>

lemma pb_mark_free_fst:
  "pb_inv b \<Longrightarrow> fst (pb_mark_free i b) \<longleftrightarrow> i < pb_page_count b \<and> i \<notin> pb_free b"
  by (auto simp: pb_mark_free_def pb_is_used_iff pb_inv_def split: option.splits)

lemma pb_mark_free_set:
  assumes "pb_inv b" and "i < pb_page_count b"
  shows "pb_free (snd (pb_mark_free i b)) = insert i (pb_free b)"
proof (cases "i \<in> pb_free b")
  case True
  then show ?thesis
    by (auto simp: pb_mark_free_def pb_is_used_iff split: option.splits)
next
  case False
  from assms obtain s where s: "pb_storage b = Some s"
    by (auto simp: pb_inv_def split: option.splits)
  let ?s = "s[pb_byte i := s ! pb_byte i AND NOT (pb_mask i)]"
  let ?b = "snd (pb_mark_free i b)"
  have b: "pb_storage ?b = Some ?s" "pb_page_count ?b = pb_page_count b"
    using False assms(2) s by (auto simp: pb_mark_free_def pb_is_used_iff not_le)
  have len: "pb_byte i < length s"
    using assms s pb_byte_in_range by (auto simp: pb_inv_def)
  have "j \<in> pb_free ?b \<longleftrightarrow> j \<in> insert i (pb_free b)" for j
    using pb_position_inj [of i j] assms(2) len
    by (cases "pb_byte i = pb_byte j")
      (auto simp: pb_free_Some [OF b(1)] b(2) pb_free_Some [OF s] bit_and_not_pb_mask)
  then show ?thesis by blast
qed

lemma pb_mark_used_set:
  assumes "pb_inv b"
  shows "pb_free (snd (pb_mark_used i b)) = pb_free b - {i}"
proof (cases "i \<in> pb_free b")
  case False
  then show ?thesis
    by (auto simp: pb_mark_used_def pb_is_used_iff split: option.splits)
next
  case True
  then have i: "i < pb_page_count b" by (rule pb_free_below)
  with assms obtain s where s: "pb_storage b = Some s"
    by (auto simp: pb_inv_def split: option.splits)
  let ?s = "s[pb_byte i := s ! pb_byte i OR pb_mask i]"
  let ?b = "snd (pb_mark_used i b)"
  have b: "pb_storage ?b = Some ?s" "pb_page_count ?b = pb_page_count b"
    using True i s by (auto simp: pb_mark_used_def pb_is_used_iff not_le)
  have len: "pb_byte i < length s"
    using assms s i pb_byte_in_range by (auto simp: pb_inv_def)
  have "j \<in> pb_free ?b \<longleftrightarrow> j \<in> pb_free b - {i}" for j
    using pb_position_inj [of i j] len
    by (cases "pb_byte i = pb_byte j")
      (auto simp: pb_free_Some [OF b(1)] b(2) pb_free_Some [OF s] bit_or_pb_mask)
  then show ?thesis by blast
qed

lemma pb_mark_used_fst: "fst (pb_mark_used i b) \<longleftrightarrow> i \<in> pb_free b"
  using pb_free_below [of i b]
  by (auto simp: pb_mark_used_def pb_is_used_iff not_le pb_free_None split: option.splits)

lemma pb_mark_page_count [simp]:
  "pb_page_count (snd (pb_mark_free i b)) = pb_page_count b"
  "pb_page_count (snd (pb_mark_used i b)) = pb_page_count b"
  by (auto simp: pb_mark_free_def pb_mark_used_def split: option.splits)

lemma pb_mark_storage_length:
  "pb_storage b = Some s \<Longrightarrow> \<exists>t. pb_storage (snd (pb_mark_free i b)) = Some t \<and> length t = length s"
  "pb_storage b = Some s \<Longrightarrow> \<exists>t. pb_storage (snd (pb_mark_used i b)) = Some t \<and> length t = length s"
  by (auto simp: pb_mark_free_def pb_mark_used_def)

lemma pb_mark_free_inv:
  assumes "pb_inv b"
  shows "pb_inv (snd (pb_mark_free i b))"
proof (cases "fst (pb_mark_free i b)")
  case False
  then have "snd (pb_mark_free i b) = b"
    by (auto simp: pb_mark_free_def split: option.splits if_splits)
  with assms show ?thesis by simp
next
  case True
  then have i: "i < pb_page_count b" "i \<notin> pb_free b"
    using assms pb_mark_free_fst by auto
  with assms obtain s where s: "pb_storage b = Some s"
    by (auto simp: pb_inv_def split: option.splits)
  let ?b = "snd (pb_mark_free i b)"
  have "card (pb_free ?b) \<le> unat (pb_page_count b)"
    using card_pb_free_le [of ?b] by simp
  moreover have "unat (pb_page_count b) < 2 ^ 64" by (rule unat_less_64)
  moreover have "card (pb_free ?b) = Suc (card (pb_free b))"
    using i assms by (simp add: pb_mark_free_set)
  ultimately have "card (pb_free b) + 1 < 2 ^ 64" by linarith
  then have "unat (pb_free_count b + 1) = card (insert i (pb_free b))"
    using assms i by (simp add: pb_inv_def unat_word_ariths)
  moreover have "pb_free_count ?b = pb_free_count b + 1"
      "pb_next_hint ?b \<le> pb_page_count b"
    using True i s assms by (auto simp: pb_mark_free_def pb_inv_def pb_is_used_iff split: if_splits)
  ultimately show ?thesis
    using assms s i pb_mark_storage_length(1) [OF s, of i]
    by (auto simp: pb_inv_def pb_mark_free_set)
qed

lemma pb_mark_used_inv:
  assumes "pb_inv b"
  shows "pb_inv (snd (pb_mark_used i b))"
proof (cases "i \<in> pb_free b")
  case False
  then have "snd (pb_mark_used i b) = b"
    by (auto simp: pb_mark_used_def pb_is_used_iff split: option.splits)
  with assms show ?thesis by simp
next
  case True
  then have i: "i < pb_page_count b" by (rule pb_free_below)
  with assms obtain s where s: "pb_storage b = Some s"
    by (auto simp: pb_inv_def split: option.splits)
  let ?b = "snd (pb_mark_used i b)"
  have "card (pb_free b) > 0" using True by (auto simp: card_gt_0_iff)
  then have "pb_free_count b \<noteq> 0"
    using assms by (auto simp: pb_inv_def)
  then have "unat (pb_free_count b - 1) = card (pb_free b - {i})"
    using assms True by (simp add: pb_inv_def unat_minus_one)
  moreover have "pb_free_count ?b = pb_free_count b - 1"
    using True i s by (simp add: pb_mark_used_def pb_is_used_iff not_le)
  moreover have "pb_next_hint ?b \<le> pb_page_count b"
    using True i s assms
    by (auto simp: pb_mark_used_def pb_inv_def pb_is_used_iff not_le unat_le_iff unat_less_iff)
  ultimately show ?thesis
    using assms s pb_mark_storage_length(2) [OF s, of i]
    by (auto simp: pb_inv_def pb_mark_used_set)
qed

subsection \<open>Searching and allocating\<close>

lemma pb_scan_Some:
  "pb_scan b i e = Some k \<Longrightarrow> i \<le> k \<and> k < e \<and> k \<in> pb_free b \<and> (\<forall>j. i \<le> j \<and> j < k \<longrightarrow> j \<notin> pb_free b)"
proof (induction b i e rule: pb_scan.induct)
  case (1 b i e)
  show ?case
  proof (cases "i < e \<and> i \<notin> pb_free b")
    case True
    with 1 have IH: "i + 1 \<le> k \<and> k < e \<and> k \<in> pb_free b \<and>
        (\<forall>j. i + 1 \<le> j \<and> j < k \<longrightarrow> j \<notin> pb_free b)"
      by (simp add: pb_scan.simps [of b i e] pb_is_used_iff)
    have "i + 1 \<le> j" if "i \<le> j" "j \<noteq> i" for j
      using that True by (auto intro: inc_le)
    moreover have "i \<le> k"
      using IH True by (auto simp: unat_le_iff)
    ultimately show ?thesis using IH True by metis
  next
    case False
    with "1.prems" show ?thesis
      by (auto simp: pb_scan.simps [of b i e] pb_is_used_iff split: if_splits)
  qed
qed

lemma pb_scan_None: "pb_scan b i e = None \<Longrightarrow> i \<le> j \<Longrightarrow> j < e \<Longrightarrow> j \<notin> pb_free b"
proof (induction b i e rule: pb_scan.induct)
  case (1 b i e)
  have lt: "i < e" using "1.prems" by auto
  with "1.prems"(1) have i: "i \<notin> pb_free b" and rec: "pb_scan b (i + 1) e = None"
    by (auto simp: pb_scan.simps [of b i e] pb_is_used_iff split: if_splits)
  show ?case
  proof (cases "j = i")
    case False
    then have "i + 1 \<le> j"
      using "1.prems"(2) by (auto intro: inc_le)
    then show ?thesis using "1.IH" lt i rec "1.prems"(3) by (simp add: pb_is_used_iff)
  qed (use i in simp)
qed

lemma pb_take_result:
  assumes "pb_inv b" "i \<in> pb_free b"
  shows "fst (pb_take i b) = i" "pb_inv (snd (pb_take i b))"
    "pb_free (snd (pb_take i b)) = pb_free b - {i}"
    "pb_page_count (snd (pb_take i b)) = pb_page_count b"
proof -
  let ?b = "snd (pb_mark_used i b)"
  have hint: "pb_free (?b\<lparr>pb_next_hint := h\<rparr>) = pb_free ?b" for h
    by (simp add: pb_free_def pb_is_used_def cong: option.case_cong)
  have inv: "pb_inv (?b\<lparr>pb_next_hint := h\<rparr>)" if "h \<le> pb_page_count b" for h
    using that pb_mark_used_inv [OF assms(1), of i] by (simp add: pb_inv_def hint cong: option.case_cong)
  show "fst (pb_take i b) = i" by (simp add: pb_take_def Let_def)
  show "pb_free (snd (pb_take i b)) = pb_free b - {i}"
    using assms by (simp add: pb_take_def Let_def hint pb_mark_used_set)
  show "pb_page_count (snd (pb_take i b)) = pb_page_count b"
    by (simp add: pb_take_def Let_def)
  show "pb_inv (snd (pb_take i b))"
    by (simp add: pb_take_def Let_def inv)
qed

lemma pb_allocate_cases:
  assumes "pb_inv b"
  obtains (none) "pb_free b = {}" "pb_allocate b = (kInvalid, b)"
  | (some) i where "i \<in> pb_free b" "pb_allocate b = pb_take i b"
proof (cases "pb_storage b = None \<or> pb_free_count b = 0")
  case True
  then have "pb_free b = {}"
    using assms by (auto simp: pb_inv_def pb_free_None)
  with True none show ?thesis by (simp add: pb_allocate_def)
next
  case False
  show ?thesis
  proof (cases "pb_scan b (pb_next_hint b) (pb_page_count b)")
    case (Some i)
    then have "i \<in> pb_free b" "pb_allocate b = pb_take i b"
      using False pb_scan_Some [OF Some] by (auto simp: pb_allocate_def)
    then show ?thesis by (rule some)
  next
    case first: None
    show ?thesis
    proof (cases "pb_scan b 0 (pb_next_hint b)")
      case (Some i)
      then have "i \<in> pb_free b" "pb_allocate b = pb_take i b"
        using False first pb_scan_Some [OF Some] by (auto simp: pb_allocate_def)
      then show ?thesis by (rule some)
    next
      case None
      then have "j \<notin> pb_free b" for j
        using first pb_scan_None pb_free_below by (metis linorder_not_le word_zero_le)
      moreover have "pb_allocate b = (kInvalid, b)"
        using False first None by (auto simp: pb_allocate_def)
      ultimately show ?thesis using none by blast
    qed
  qed
qed

lemma pb_initialize_inv:
  assumes "case storage of None \<Rightarrow> True | Some s \<Rightarrow> (unat n + 7) div 8 \<le> length s"
    and "unat n + 7 < 2 ^ 64"
  shows "pb_inv (pb_initialize storage n b) \<and> pb_free (pb_initialize storage n b) = {}"
proof (cases storage)
  case None
  then show ?thesis
    by (simp add: pb_initialize_def Let_def pb_inv_def pb_free_None)
next
  case (Some s)
  show ?thesis
  proof (cases "n = 0")
    case True
    then show ?thesis using Some assms
      by (auto simp: pb_initialize_def Let_def pb_inv_def pb_free_Some)
  next
    case False
    let ?k = "(unat n + 7) div 8"
    have k: "unat ((n + 7) div 8) = ?k"
      using assms(2) by (simp add: unat_div_word unat_word_ariths)
    let ?b = "pb_initialize storage n b"
    have b: "pb_storage ?b = Some (replicate ?k 0xFF @ drop ?k s)" "pb_page_count ?b = n"
      "pb_free_count ?b = 0" "pb_next_hint ?b = 0"
      using False Some by (simp_all add: pb_initialize_def Let_def k)
    have "(0xFF :: u8) = - 1" by simp
    then have "bit (0xFF :: u8) m" if "m < 8" for m
      using that by (simp only: bit_minus_1_iff possible_bit_word) simp
    then have "pb_free ?b = {}"
      using pb_byte_in_range [of n "replicate ?k (0xFF::u8)"]
      by (auto simp: pb_free_Some [OF b(1)] b(2) nth_append)
    with b show ?thesis using assms(1) Some by (simp add: pb_inv_def)
  qed
qed

lemma pb_allocate_free_count:
  assumes "fst (pb_allocate b) \<noteq> kInvalid"
  shows "pb_free_count b \<noteq> 0 \<and> pb_free_count (snd (pb_allocate b)) = pb_free_count b - 1"
proof -
  have take: "pb_free_count (snd (pb_take i b)) = pb_free_count b - 1" if "i \<in> pb_free b" for i
    using that pb_free_below [OF that]
    by (cases "pb_storage b") (simp_all add: pb_free_None pb_take_def Let_def pb_mark_used_def
        pb_is_used_iff not_le)
  show ?thesis
    using assms take pb_scan_Some
    by (fastforce simp: pb_allocate_def split: if_splits option.splits)
qed

subsection \<open>The contract of a page set\<close>

text \<open>
  What a client of the bitmap may rely on: a finite set of free page numbers below the capacity,
  operations that add and remove one number, and an allocation that removes an element whenever
  there is one.
\<close>

locale page_set =
  fixes invar :: "'s \<Rightarrow> bool"
    and free_set :: "'s \<Rightarrow> u64 set"
    and capacity :: "'s \<Rightarrow> u64"
    and free_count :: "'s \<Rightarrow> u64"
    and mark_free :: "u64 \<Rightarrow> 's \<Rightarrow> bool \<times> 's"
    and mark_used :: "u64 \<Rightarrow> 's \<Rightarrow> bool \<times> 's"
    and allocate :: "'s \<Rightarrow> u64 \<times> 's"
  assumes free_below: "i \<in> free_set s \<Longrightarrow> i < capacity s"
    and free_count: "invar s \<Longrightarrow> unat (free_count s) = card (free_set s)"
    and mark_free_ok: "invar s \<Longrightarrow> fst (mark_free i s) \<longleftrightarrow> i < capacity s \<and> i \<notin> free_set s"
    and mark_free_set: "invar s \<Longrightarrow> free_set (snd (mark_free i s)) =
        (if i < capacity s then insert i (free_set s) else free_set s)"
    and mark_free_inv: "invar s \<Longrightarrow> invar (snd (mark_free i s))"
    and mark_free_cap: "capacity (snd (mark_free i s)) = capacity s"
    and mark_used_ok: "fst (mark_used i s) \<longleftrightarrow> i \<in> free_set s"
    and mark_used_set: "invar s \<Longrightarrow> free_set (snd (mark_used i s)) = free_set s - {i}"
    and mark_used_inv: "invar s \<Longrightarrow> invar (snd (mark_used i s))"
    and mark_used_cap: "capacity (snd (mark_used i s)) = capacity s"
    and allocate_empty: "invar s \<Longrightarrow> free_set s = {} \<Longrightarrow> allocate s = (UINT64_MAX, s)"
    and allocate_some: "invar s \<Longrightarrow> free_set s \<noteq> {} \<Longrightarrow>
        fst (allocate s) \<in> free_set s \<and>
        free_set (snd (allocate s)) = free_set s - {fst (allocate s)} \<and>
        invar (snd (allocate s)) \<and> capacity (snd (allocate s)) = capacity s"
begin

lemma finite_free [simp]: "finite (free_set s)"
  by (rule finite_subset [OF subset_UNIV]) simp

lemma allocate_inv: "invar s \<Longrightarrow> invar (snd (allocate s))"
  by (metis allocate_empty allocate_some snd_conv)

lemma allocate_fails_iff: "invar s \<Longrightarrow> fst (allocate s) = UINT64_MAX \<longleftrightarrow> free_set s = {}"
proof -
  assume inv: "invar s"
  have "\<not> UINT64_MAX < capacity s"
    using unat_less_64 [of "capacity s"] by (simp add: unat_less_iff)
  then have "UINT64_MAX \<notin> free_set s" using free_below by blast
  then show ?thesis
    using allocate_empty [OF inv] allocate_some [OF inv] by (metis fst_conv)
qed

lemma free_then_allocatable:
  assumes "invar s" "i < capacity s"
  shows "fst (allocate (snd (mark_free i s))) \<noteq> UINT64_MAX"
  using assms mark_free_set mark_free_inv allocate_fails_iff by auto

lemma allocate_then_free:
  assumes "invar s" "free_set s \<noteq> {}"
  shows "fst (mark_free (fst (allocate s)) (snd (allocate s))) \<and>
    free_set (snd (mark_free (fst (allocate s)) (snd (allocate s)))) = free_set s"
  using allocate_some [OF assms] mark_free_ok mark_free_set free_below by auto

text \<open>Allocating \<open>n\<close> times in a row hands out \<open>n\<close> different pages.\<close>

lemma allocate_sequence:
  assumes "invar s" "n \<le> card (free_set s)"
  shows "let after = (\<lambda>k. ((\<lambda>a. snd (allocate a)) ^^ k) s);
             pages = map (\<lambda>k. fst (allocate (after k))) [0..<n]
         in distinct pages \<and> set pages \<subseteq> free_set s \<and>
            free_set (after n) = free_set s - set pages \<and> invar (after n)"
  using assms(2)
proof (induction n)
  case 0
  with assms(1) show ?case by simp
next
  case (Suc n)
  let ?after = "\<lambda>k. ((\<lambda>a. snd (allocate a)) ^^ k) s"
  let ?pages = "\<lambda>n. map (\<lambda>k. fst (allocate (?after k))) [0..<n]"
  from Suc.prems have "n \<le> card (free_set s)" by simp
  from Suc.IH [OF this] have IH: "distinct (?pages n)" "set (?pages n) \<subseteq> free_set s"
    "free_set (?after n) = free_set s - set (?pages n)" "invar (?after n)"
    unfolding Let_def by blast+
  have "card (set (?pages n)) \<le> n"
    using card_length [of "?pages n"] by simp
  moreover have "card (free_set s) \<le> card (set (?pages n))" if "free_set (?after n) = {}"
    using that IH(3) by (intro card_mono) auto
  ultimately have "free_set (?after n) \<noteq> {}"
    using Suc.prems by linarith
  note step = allocate_some [OF IH(4) this, unfolded IH(3)]
  have after: "?after (Suc n) = snd (allocate (?after n))" by simp
  have pages: "?pages (Suc n) = ?pages n @ [fst (allocate (?after n))]" by simp
  have "distinct (?pages (Suc n))" "set (?pages (Suc n)) \<subseteq> free_set s"
    unfolding pages using step IH(1,2) by (simp_all only: distinct_append distinct_singleton) auto
  moreover have "free_set (?after (Suc n)) = free_set s - set (?pages (Suc n))"
    "invar (?after (Suc n))"
    unfolding pages after using step by auto
  ultimately show ?case unfolding Let_def by blast
qed

end

interpretation pb: page_set pb_inv pb_free pb_page_count pb_free_count pb_mark_free pb_mark_used pb_allocate
proof unfold_locales
  fix i b
  show "i \<in> pb_free b \<Longrightarrow> i < pb_page_count b" by (rule pb_free_below)
  show "pb_inv b \<Longrightarrow> unat (pb_free_count b) = card (pb_free b)" by (simp add: pb_inv_def)
  show "pb_inv b \<Longrightarrow> fst (pb_mark_free i b) \<longleftrightarrow> i < pb_page_count b \<and> i \<notin> pb_free b"
    by (rule pb_mark_free_fst)
  show "pb_free (snd (pb_mark_free i b)) = (if i < pb_page_count b then insert i (pb_free b) else pb_free b)"
    if "pb_inv b"
  proof (cases "i < pb_page_count b")
    case False
    then have "snd (pb_mark_free i b) = b"
      by (auto simp: pb_mark_free_def split: option.splits)
    with False show ?thesis by simp
  qed (use that pb_mark_free_set in simp)
  show "pb_inv b \<Longrightarrow> pb_inv (snd (pb_mark_free i b))" by (rule pb_mark_free_inv)
  show "pb_page_count (snd (pb_mark_free i b)) = pb_page_count b" by simp
  show "fst (pb_mark_used i b) \<longleftrightarrow> i \<in> pb_free b" by (rule pb_mark_used_fst)
  show "pb_inv b \<Longrightarrow> pb_free (snd (pb_mark_used i b)) = pb_free b - {i}" by (rule pb_mark_used_set)
  show "pb_inv b \<Longrightarrow> pb_inv (snd (pb_mark_used i b))" by (rule pb_mark_used_inv)
  show "pb_page_count (snd (pb_mark_used i b)) = pb_page_count b" by simp
  show "pb_allocate b = (UINT64_MAX, b)" if "pb_inv b" "pb_free b = {}"
    using pb_allocate_cases [OF that(1)] that by (metis empty_iff kInvalid_def)
  show "fst (pb_allocate b) \<in> pb_free b \<and>
      pb_free (snd (pb_allocate b)) = pb_free b - {fst (pb_allocate b)} \<and>
      pb_inv (snd (pb_allocate b)) \<and> pb_page_count (snd (pb_allocate b)) = pb_page_count b"
    if "pb_inv b" "pb_free b \<noteq> {}"
    using pb_allocate_cases [OF that(1)] that by (metis pb_take_result)
qed

end
