(* ===== verification/Physical.thy ===== *)
theory Physical
  imports Address Page_Bitmap
begin

text \<open>
  The physical page allocator of \<^verbatim>\<open>kernel/memory/physical.cpp\<close>.  Two page bitmaps, one of
  used and one of reserved pages, are placed in usable memory, filled from the E820 map, and
  served by \<open>allocate_page\<close> and \<open>free_page\<close>.  The state record holds the file's globals; the
  parameter \<open>ram\<close> is the content of the direct map, from which the bitmaps' storage is cut.
  Loops over addresses that could wrap around are partial, and proved to return where the code
  runs them.
\<close>

subsection \<open>State\<close>

record phys_state =
  g_used :: page_bitmap
  g_reserved :: page_bitmap
  g_page_count :: u64
  g_bitmap_physical :: u64
  g_bitmap_bytes :: u64

definition kLowReservedEnd :: u64 where [kernel_const]: "kLowReservedEnd = 0x00200000"
definition kInvalidPhysicalAddress :: u64 where
  [kernel_const]: "kInvalidPhysicalAddress = UINT64_MAX"

definition phys_boot :: phys_state where
  "phys_boot = \<lparr>g_used = pb_empty, g_reserved = pb_empty, g_page_count = 0,
     g_bitmap_physical = 0, g_bitmap_bytes = 0\<rparr>"

subsection \<open>Loops over page addresses\<close>

definition saturating_end :: "u64 \<Rightarrow> u64 \<Rightarrow> u64" where
  "saturating_end base len = (if len > UINT64_MAX - base then UINT64_MAX else base + len)"

text \<open>\<^verbatim>\<open>for (address = first; address < end; address += kPageSize) body(address / kPageSize)\<close>\<close>

partial_function (option) page_loop ::
  "(u64 \<Rightarrow> 's \<Rightarrow> 's) \<Rightarrow> u64 \<Rightarrow> u64 \<Rightarrow> 's \<Rightarrow> 's option" where
  "page_loop body address end s =
     (if address < end
      then page_loop body (address + kPageSize) end (body (address div kPageSize) s)
      else Some s)"

definition free_both :: "u64 \<Rightarrow> phys_state \<Rightarrow> phys_state" where
  "free_both index s =
     s\<lparr>g_used := snd (pb_mark_free index (g_used s)),
       g_reserved := snd (pb_mark_free index (g_reserved s))\<rparr>"

definition use_both :: "u64 \<Rightarrow> phys_state \<Rightarrow> phys_state" where
  "use_both index s =
     s\<lparr>g_used := snd (pb_mark_used index (g_used s)),
       g_reserved := snd (pb_mark_used index (g_reserved s))\<rparr>"

definition mark_range_free :: "u64 \<Rightarrow> u64 \<Rightarrow> phys_state \<Rightarrow> phys_state option" where
  "mark_range_free start end s =
     (if end \<le> start then Some s else page_loop free_both start end s)"

definition reserve_range_internal :: "u64 \<Rightarrow> u64 \<Rightarrow> phys_state \<Rightarrow> phys_state option" where
  "reserve_range_internal start len s =
     (if len = 0 \<or> g_page_count s = 0 then Some s
      else let raw_end = saturating_end start len;
               first = align_down start kPageSize;
               end = align_up raw_end kPageSize;
               managed_end = g_page_count s * kPageSize
           in if first \<ge> managed_end then Some s
              else let end = (if end > managed_end \<or> end = UINT64_MAX then managed_end else end)
                   in page_loop use_both first end s)"

definition reserve_range :: "u64 \<Rightarrow> u64 \<Rightarrow> phys_state \<Rightarrow> phys_state option" where
  "reserve_range start len s = reserve_range_internal start len s"

subsection \<open>Placing the bitmaps and reading the memory map\<close>

fun find_bitmap_storage :: "e820_entry list \<Rightarrow> u64 \<Rightarrow> u64 option" where
  "find_bitmap_storage [] metadata_bytes = None"
| "find_bitmap_storage (entry # entries) metadata_bytes =
     (if e820_type entry \<noteq> 1 \<or> e820_length entry = 0
      then find_bitmap_storage entries metadata_bytes
      else
        let raw_end = saturating_end (e820_base entry) (e820_length entry);
            first = align_up (e820_base entry) kPageSize;
            last_addr = align_down raw_end kPageSize;
            first = (if first < kLowReservedEnd then kLowReservedEnd else first);
            last_addr = (if last_addr > kBootstrapHhdmLimit then kBootstrapHhdmLimit else last_addr)
        in if first = UINT64_MAX \<or> last_addr \<le> first
           then find_bitmap_storage entries metadata_bytes
           else if metadata_bytes \<le> last_addr - first then Some first
           else find_bitmap_storage entries metadata_bytes)"

text \<open>The usable, page-aligned part \<open>[first, last_addr)\<close> of an entry, cut at the managed end.\<close>

definition usable_range :: "u64 \<Rightarrow> e820_entry \<Rightarrow> (u64 \<times> u64) option" where
  "usable_range managed_end entry =
     (if e820_type entry \<noteq> 1 \<or> e820_length entry = 0 then None
      else let raw_end = saturating_end (e820_base entry) (e820_length entry);
               first = align_up (e820_base entry) kPageSize;
               last_addr = align_down raw_end kPageSize
           in if first = UINT64_MAX \<or> last_addr \<le> first then None
              else let last_addr = (if last_addr > managed_end then managed_end else last_addr)
                   in if first < last_addr then Some (first, last_addr) else None)"

fun free_usable :: "u64 \<Rightarrow> e820_entry list \<Rightarrow> phys_state \<Rightarrow> phys_state option" where
  "free_usable managed_end [] s = Some s"
| "free_usable managed_end (entry # entries) s =
     (case usable_range managed_end entry of
        None \<Rightarrow> free_usable managed_end entries s
      | Some (first, last_addr) \<Rightarrow>
          Option.bind (mark_range_free first last_addr s) (free_usable managed_end entries))"

definition ram_bytes :: "(u64 \<Rightarrow> u8) \<Rightarrow> u64 \<Rightarrow> u64 \<Rightarrow> u8 list" where
  "ram_bytes ram start len = map (\<lambda>i. ram (start + of_nat i)) [0..<unat len]"

definition phys_initialize ::
  "(u64 \<Rightarrow> u8) \<Rightarrow> boot_info \<Rightarrow> phys_state \<Rightarrow> (bool \<times> phys_state) option" where
  "phys_initialize ram boot s =
     (let s = s\<lparr>g_page_count := 0, g_bitmap_physical := 0, g_bitmap_bytes := 0\<rparr>
      in if \<not> valid_boot_info (Some boot) then Some (False, s)
      else let maximum = maximum_usable_physical_address boot
      in if maximum = 0 \<or> maximum > kBootstrapHhdmLimit then Some (False, s)
      else let managed_end = align_up maximum kPageSize
      in if managed_end = UINT64_MAX \<or> managed_end > kBootstrapHhdmLimit then Some (False, s)
      else let page_count = managed_end div kPageSize;
               bytes = (page_count + 7) div 8;
               s = s\<lparr>g_page_count := page_count, g_bitmap_bytes := bytes\<rparr>;
               one_bitmap_storage = align_up bytes kPageSize
      in if one_bitmap_storage = UINT64_MAX \<or> one_bitmap_storage > UINT64_MAX div 2
         then Some (False, s)
      else let metadata_bytes = one_bitmap_storage * 2
      in case find_bitmap_storage (boot_entries boot) metadata_bytes of
           None \<Rightarrow> Some (False, s)
         | Some physical \<Rightarrow>
             let used_storage = ram_bytes ram (physical_to_hhdm physical) one_bitmap_storage;
                 reserved_storage =
                   ram_bytes ram (physical_to_hhdm (physical + one_bitmap_storage)) one_bitmap_storage;
                 s = s\<lparr>g_bitmap_physical := physical,
                       g_used := pb_initialize (Some used_storage) page_count (g_used s),
                       g_reserved := pb_initialize (Some reserved_storage) page_count (g_reserved s)\<rparr>
             in Option.bind (free_usable managed_end (boot_entries boot) s)
                  (\<lambda>s. Option.bind (reserve_range_internal 0 kLowReservedEnd s)
                     (\<lambda>s. Option.bind (reserve_range_internal physical metadata_bytes s)
                        (\<lambda>s. Some (pb_free_count (g_used s) > 0, s)))))"

subsection \<open>Allocating and freeing\<close>

function allocate_page :: "phys_state \<Rightarrow> u64 \<times> phys_state" where
  "allocate_page s =
     (let (index, used) = pb_allocate (g_used s); s' = s\<lparr>g_used := used\<rparr>
      in if index = kInvalid then (kInvalidPhysicalAddress, s')
         else if \<not> pb_is_used (g_reserved s') index then (index * kPageSize, s')
         else allocate_page s')"
  by pat_completeness auto
termination
proof (relation "measure (\<lambda>s. unat (pb_free_count (g_used s)))", goal_cases)
  case (2 s p index used s')
  then have "fst (pb_allocate (g_used s)) \<noteq> kInvalid" "used = snd (pb_allocate (g_used s))"
    by (metis fst_conv snd_conv)+
  with pb_allocate_free_count [of "g_used s"] show ?case
    using 2 measure_unat [of "pb_free_count (g_used s)"] by simp
qed simp

declare allocate_page.simps [simp del]

definition free_page :: "u64 \<Rightarrow> phys_state \<Rightarrow> bool \<times> phys_state" where
  "free_page physical_address s =
     (if \<not> is_page_aligned physical_address \<or> g_page_count s = 0 then (False, s)
      else let index = physical_address div kPageSize
           in if index \<ge> g_page_count s \<or> pb_is_used (g_reserved s) index then (False, s)
              else let (ok, used) = pb_mark_free index (g_used s)
                   in (ok, s\<lparr>g_used := used\<rparr>))"

definition total_pages :: "phys_state \<Rightarrow> u64" where
  "total_pages s = g_page_count s"

definition free_pages :: "phys_state \<Rightarrow> u64" where
  "free_pages s = pb_free_count (g_used s)"

definition used_pages :: "phys_state \<Rightarrow> u64" where
  "used_pages s = g_page_count s - pb_free_count (g_used s)"

subsection \<open>The address loops return and visit every page once\<close>

definition pages_between :: "u64 \<Rightarrow> u64 \<Rightarrow> u64 list" where
  "pages_between a e = map of_nat [unat a div 4096..<(unat e + 4095) div 4096]"

lemma round_down_le_iff: "a - a mod 4096 \<le> 4096 * i \<longleftrightarrow> a < 4096 * i + 4096" for a i :: nat
proof -
  have "a - a mod 4096 = 4096 * (a div 4096)" by (simp add: minus_mod_eq_mult_div)
  moreover have "a div 4096 < Suc i \<longleftrightarrow> a < Suc i * 4096"
    by (rule div_less_iff_less_mult) simp
  ultimately show ?thesis by auto
qed

lemma less_round_up_iff: "m < (n + 4095) div 4096 \<longleftrightarrow> 4096 * m < n" for m n :: nat
  by (simp add: less_eq_div_iff_mult_less_eq flip: Suc_le_eq) linarith

lemma div_less_round_up: "a < e \<Longrightarrow> a div 4096 < (e + 4095) div 4096" for a e :: nat
  by linarith

lemma round_up_div_le:
  "e \<le> a \<Longrightarrow> a mod 4096 = 0 \<Longrightarrow> (e + 4095) div 4096 \<le> a div 4096" for a e :: nat
proof -
  assume "e \<le> a" "a mod 4096 = 0"
  then obtain q where q: "a = 4096 * q" by (metis mod_0_imp_dvd dvdE)
  with \<open>e \<le> a\<close> have "(e + 4095) div 4096 \<le> (4096 * q + 4095) div 4096"
    by (intro div_le_mono) simp
  also have "\<dots> = q" by simp
  finally show ?thesis by (simp add: q)
qed

lemma page_loop_pages:
  assumes "unat e \<le> 2 ^ 64 - 4096" and "unat a mod 4096 = 0"
  shows "page_loop f a e s = Some (fold f (pages_between a e) s)"
  using assms(2)
proof (induction "unat e - unat a" arbitrary: a s rule: less_induct)
  case less
  show ?case
  proof (cases "a < e")
    case True
    then have lt: "unat a < unat e" by (simp add: unat_less_iff)
    have next_a: "unat (a + kPageSize) = unat a + 4096"
      using lt assms(1) by (simp add: unat_word_ariths)
    have "page_loop f (a + kPageSize) e (f (a div kPageSize) s) =
        Some (fold f (pages_between (a + kPageSize) e) (f (a div kPageSize) s))"
      using lt less.prems by (intro less.hyps) (simp_all add: next_a)
    moreover have "pages_between a e = (a div kPageSize) # pages_between (a + kPageSize) e"
    proof -
      have "unat a div 4096 < (unat e + 4095) div 4096" using lt by (rule div_less_round_up)
      moreover have "of_nat (unat a div 4096) = a div kPageSize"
        by (metis of_nat_unat_id unat_div_word unat_page_size)
      moreover have "unat (a + kPageSize) div 4096 = Suc (unat a div 4096)"
        by (simp add: next_a)
      ultimately show ?thesis by (simp add: pages_between_def upt_conv_Cons)
    qed
    ultimately show ?thesis using True by (simp add: page_loop.simps [of f a e s])
  next
    case False
    then have "unat e \<le> unat a" by (simp add: unat_less_iff)
    then have "(unat e + 4095) div 4096 \<le> unat a div 4096"
      using less.prems by (rule round_up_div_le)
    then have "pages_between a e = []" by (simp add: pages_between_def)
    with False show ?thesis by (simp add: page_loop.simps [of f a e s])
  qed
qed

lemma set_pages_between:
  assumes "unat a mod 4096 = 0" and "unat e \<le> 2 ^ 64 - 4096"
  shows "set (pages_between a e) = {i. unat a \<le> 4096 * unat i \<and> 4096 * unat i < unat e}"
proof (intro set_eqI iffI)
  fix i assume "i \<in> set (pages_between a e)"
  then obtain k where k: "i = of_nat k" "unat a div 4096 \<le> k" "k < (unat e + 4095) div 4096"
    by (auto simp: pages_between_def)
  then have "k < 2 ^ 64" using assms(2) by (simp add: div_less_iff_less_mult)
  then have "unat i = k" using k by (simp add: unat_of_nat_64)
  then show "i \<in> {i. unat a \<le> 4096 * unat i \<and> 4096 * unat i < unat e}"
    using k assms(1) by auto
next
  fix i :: u64 assume "i \<in> {i. unat a \<le> 4096 * unat i \<and> 4096 * unat i < unat e}"
  then have "unat a div 4096 \<le> unat i" "unat i < (unat e + 4095) div 4096" by auto
  then have "unat i \<in> set [unat a div 4096..<(unat e + 4095) div 4096]" by simp
  then have "of_nat (unat i) \<in> set (pages_between a e)"
    unfolding pages_between_def by (metis image_eqI set_map)
  then show "i \<in> set (pages_between a e)" by simp
qed

subsection \<open>Invariant\<close>

text \<open>
  Both bitmaps are well formed and cover the managed pages, and a reserved page is never free:
  what \<open>allocate_page\<close> finds in the first bitmap it never has to skip.
\<close>

definition phys_inv :: "phys_state \<Rightarrow> bool" where
  "phys_inv s \<longleftrightarrow>
     pb_inv (g_used s) \<and> pb_inv (g_reserved s) \<and>
     pb_page_count (g_used s) = g_page_count s \<and> pb_page_count (g_reserved s) = g_page_count s \<and>
     unat (g_page_count s) \<le> 2 ^ 24 \<and>
     pb_free (g_used s) \<subseteq> pb_free (g_reserved s)"

definition phys_layout :: "phys_state \<Rightarrow> u64 \<times> u64 \<times> u64" where
  "phys_layout s = (g_page_count s, g_bitmap_physical s, g_bitmap_bytes s)"

lemma phys_layout_eq [simp]:
  "phys_layout s = phys_layout t \<longleftrightarrow> g_page_count s = g_page_count t \<and>
     g_bitmap_physical s = g_bitmap_physical t \<and> g_bitmap_bytes s = g_bitmap_bytes t"
  by (simp add: phys_layout_def)

lemma both_page_count [simp]:
  "g_page_count (free_both i s) = g_page_count s" "g_page_count (use_both i s) = g_page_count s"
  by (simp_all add: free_both_def use_both_def)

lemma free_both_result:
  assumes "phys_inv s"
  shows "phys_inv (free_both i s)" "phys_layout (free_both i s) = phys_layout s"
    "pb_free (g_used (free_both i s)) = pb_free (g_used s) \<union> ({i} \<inter> {..<g_page_count s})"
    "pb_free (g_reserved (free_both i s)) = pb_free (g_reserved s) \<union> ({i} \<inter> {..<g_page_count s})"
  using assms
  by (auto simp: free_both_def phys_inv_def pb.mark_free_set pb.mark_free_inv split: if_splits)

lemma use_both_result:
  assumes "phys_inv s"
  shows "phys_inv (use_both i s)" "phys_layout (use_both i s) = phys_layout s"
    "pb_free (g_used (use_both i s)) = pb_free (g_used s) - {i}"
    "pb_free (g_reserved (use_both i s)) = pb_free (g_reserved s) - {i}"
  using assms by (auto simp: use_both_def phys_inv_def pb.mark_used_set pb.mark_used_inv)

lemma fold_free_both:
  assumes "phys_inv s"
  shows "phys_inv (fold free_both is s) \<and> phys_layout (fold free_both is s) = phys_layout s \<and>
    pb_free (g_used (fold free_both is s)) = pb_free (g_used s) \<union> (set is \<inter> {..<g_page_count s}) \<and>
    pb_free (g_reserved (fold free_both is s)) = pb_free (g_reserved s) \<union> (set is \<inter> {..<g_page_count s})"
  using assms
proof (induction "is" arbitrary: s)
  case (Cons i "is")
  from Cons.IH [OF free_both_result(1) [OF Cons.prems]] show ?case
    by (auto simp: free_both_result [OF Cons.prems])
qed simp

lemma fold_use_both:
  assumes "phys_inv s"
  shows "phys_inv (fold use_both is s) \<and> phys_layout (fold use_both is s) = phys_layout s \<and>
    pb_free (g_used (fold use_both is s)) = pb_free (g_used s) - set is \<and>
    pb_free (g_reserved (fold use_both is s)) = pb_free (g_reserved s) - set is"
  using assms
proof (induction "is" arbitrary: s)
  case (Cons i "is")
  from Cons.IH [OF use_both_result(1) [OF Cons.prems]] show ?case
    by (auto simp: use_both_result [OF Cons.prems])
qed simp

subsection \<open>Reserving a range\<close>

lemma saturating_end_eq: "saturating_end a b = saturating_add a b"
  by (simp add: saturating_end_def saturating_add_def)

lemma unat_saturating_end: "unat (saturating_end a b) = min (unat a + unat b) (2 ^ 64 - 1)"
  by (simp add: saturating_end_eq unat_saturating_add)

lemma unat_managed_end:
  assumes "unat n \<le> 2 ^ 24"
  shows "unat (n * kPageSize) = 4096 * unat n"
  using assms by (simp add: unat_word_ariths)

text \<open>Page \<open>i\<close> and the byte range \<open>[start, start + len)\<close> have an address in common.\<close>

definition page_touches :: "u64 \<Rightarrow> u64 \<Rightarrow> u64 \<Rightarrow> bool" where
  "page_touches start len i \<longleftrightarrow>
     unat start < 4096 * unat i + 4096 \<and> 4096 * unat i < unat start + unat len"

lemma align_up_le_iff:
  assumes "m \<le> 2 ^ 36"
  shows "4096 * m < unat (align_up v kPageSize) \<longleftrightarrow> 4096 * m < unat v"
proof (cases "unat v \<le> 2 ^ 64 - 4096")
  case True
  then show ?thesis by (simp add: unat_align_up_page less_round_up_iff)
next
  case False
  then show ?thesis using assms by (simp add: align_up_page_saturates)
qed

lemma reserve_range_result:
  assumes inv: "phys_inv s" and len: "len \<noteq> 0"
  obtains s' where "reserve_range_internal start len s = Some s'" "phys_inv s'"
    "phys_layout s' = phys_layout s"
    "pb_free (g_used s') = pb_free (g_used s) - {i. page_touches start len i}"
    "pb_free (g_reserved s') = pb_free (g_reserved s) - {i. page_touches start len i}"
proof -
  let ?n = "g_page_count s"
  let ?first = "align_down start kPageSize"
  let ?fin = "align_up (saturating_end start len) kPageSize"
  let ?managed = "?n * kPageSize"
  let ?cut = "if ?fin > ?managed \<or> ?fin = UINT64_MAX then ?managed else ?fin"
  have n: "unat ?n \<le> 2 ^ 24" using inv by (simp add: phys_inv_def)
  note managed = unat_managed_end [OF n]
  have free: "pb_free (g_used s) \<subseteq> {..<?n}" "pb_free (g_reserved s) \<subseteq> {..<?n}"
    using inv pb_free_below unfolding phys_inv_def by (metis lessThan_iff subsetI)+
  have first: "unat ?first \<le> 4096 * unat i \<longleftrightarrow> unat start < 4096 * unat i + 4096" for i :: u64
    unfolding unat_align_down_page by (rule round_down_le_iff)
  show ?thesis
  proof (cases "?n = 0 \<or> ?first \<ge> ?managed")
    case True
    then have id: "reserve_range_internal start len s = Some s"
      using len by (auto simp: reserve_range_internal_def Let_def)
    have "\<not> page_touches start len i" if "i < ?n" for i
      using that True managed first [of i]
      by (auto simp: page_touches_def unat_less_iff unat_le_iff)
    then have "{..<?n} \<inter> {i. page_touches start len i} = {}" by auto
    then have "pb_free (g_used s) - {i. page_touches start len i} = pb_free (g_used s)"
      "pb_free (g_reserved s) - {i. page_touches start len i} = pb_free (g_reserved s)"
      using free by blast+
    with id inv that show ?thesis by simp
  next
    case False
    have cut: "unat ?cut \<le> unat ?managed" by (auto simp: unat_le_iff not_less)
    also have "unat ?managed \<le> 2 ^ 36" using n by (simp add: managed)
    finally have cut36: "unat ?cut \<le> 2 ^ 36" .
    then have cut64: "unat ?cut \<le> 2 ^ 64 - 4096" by simp
    have aligned: "unat ?first mod 4096 = 0" by (simp add: unat_align_down_page)
    let ?is = "pages_between ?first ?cut"
    have run: "reserve_range_internal start len s = Some (fold use_both ?is s)"
      using False len page_loop_pages [OF cut64 aligned, of use_both s]
      by (auto simp: reserve_range_internal_def Let_def)
    have "set ?is \<inter> {..<?n} = {..<?n} \<inter> {i. page_touches start len i}"
    proof -
      have "4096 * unat i < unat ?cut \<longleftrightarrow> 4096 * unat i < unat start + unat len"
        if "i < ?n" for i
      proof -
        have i: "unat i < unat ?n" "unat i \<le> 2 ^ 36" using that n by (auto simp: unat_less_iff)
        then have "4096 * unat i < unat ?cut \<longleftrightarrow> 4096 * unat i < unat ?fin"
          using managed by (auto simp: unat_less_iff unat_eq_iff)
        also have "\<dots> \<longleftrightarrow> 4096 * unat i < unat (saturating_end start len)"
          using i by (rule_tac align_up_le_iff)
        also have "\<dots> \<longleftrightarrow> 4096 * unat i < unat start + unat len"
          using i n unfolding unat_saturating_end by simp
        finally show ?thesis .
      qed
      then show ?thesis
        using set_pages_between [OF aligned cut64] first by (auto simp: page_touches_def)
    qed
    then have "pb_free (g_used s) - set ?is = pb_free (g_used s) - {i. page_touches start len i}"
      "pb_free (g_reserved s) - set ?is = pb_free (g_reserved s) - {i. page_touches start len i}"
      using free by blast+
    with fold_use_both [OF inv, of ?is] run that show ?thesis by simp
  qed
qed

subsection \<open>Reading the memory map\<close>

text \<open>Page \<open>i\<close> lies wholly inside a region the firmware reports as usable.\<close>

definition entry_covers :: "e820_entry \<Rightarrow> u64 \<Rightarrow> bool" where
  "entry_covers e i \<longleftrightarrow> e820_type e = 1 \<and> unat (e820_base e) \<le> 4096 * unat i \<and>
     4096 * unat i + 4096 \<le> unat (e820_base e) + unat (e820_length e)"

definition page_usable :: "boot_info \<Rightarrow> u64 \<Rightarrow> bool" where
  "page_usable b i \<longleftrightarrow> (\<exists>e \<in> set (boot_entries b). entry_covers e i)"

lemma entry_covers_usable: "entry_covers e i \<Longrightarrow> e820_type e = 1 \<and> e820_length e \<noteq> 0"
  by (auto simp: entry_covers_def)

lemma usable_range_cases:
  fixes e :: e820_entry and managed_end :: u64
  assumes usable: "e820_type e = 1" "e820_length e \<noteq> 0"
    and top: "unat (e820_base e) + unat (e820_length e) \<le> unat managed_end"
    and managed: "unat managed_end \<le> 2 ^ 36"
  obtains (empty) "usable_range managed_end e = None" "\<And>i. \<not> entry_covers e i"
  | (pages) a l where "usable_range managed_end e = Some (a, l)" "unat a mod 4096 = 0"
      "unat l \<le> 2 ^ 36" "a < l" "set (pages_between a l) = {i. entry_covers e i}"
proof -
  let ?base = "unat (e820_base e)" and ?stop = "unat (e820_base e) + unat (e820_length e)"
  let ?first = "align_up (e820_base e) kPageSize"
  let ?last = "align_down (saturating_end (e820_base e) (e820_length e)) kPageSize"
  have stop: "unat (saturating_end (e820_base e) (e820_length e)) = ?stop"
    using top managed by (simp add: unat_saturating_end)
  have first: "unat ?first = (?base + 4095) div 4096 * 4096"
    using top managed by (simp add: unat_align_up_page)
  have last: "unat ?last = ?stop - ?stop mod 4096"
    by (simp add: unat_align_down_page stop)
  have neq: "?first \<noteq> UINT64_MAX"
    using first top managed by (auto simp: unat_eq_iff)
  have le: "\<not> ?last > managed_end" using last top by (simp add: unat_less_iff)
  have above: "unat ?first \<le> 4096 * unat i \<longleftrightarrow> ?base \<le> 4096 * unat i" for i :: u64
    using less_round_up_iff [of "unat i" ?base] first by linarith
  have below: "4096 * unat i < unat ?last \<longleftrightarrow> 4096 * unat i + 4096 \<le> ?stop" for i :: u64
    using round_down_le_iff [of ?stop "unat i"] last by linarith
  show ?thesis
  proof (cases "?last \<le> ?first")
    case True
    then have "usable_range managed_end e = None"
      by (auto simp: usable_range_def Let_def)
    moreover have "\<not> entry_covers e i" for i
      using True above [of i] below [of i] by (auto simp: entry_covers_def unat_le_iff)
    ultimately show ?thesis by (rule empty)
  next
    case False
    then have "usable_range managed_end e = Some (?first, ?last)"
      using usable neq le by (auto simp: usable_range_def Let_def)
    moreover have al: "unat ?first mod 4096 = 0" using first by simp
    moreover have "unat ?last \<le> 2 ^ 36" using last top managed by simp
    moreover have "?first < ?last" using False by simp
    moreover have "set (pages_between ?first ?last) = {i. entry_covers e i}"
      using set_pages_between [OF al, of ?last] \<open>unat ?last \<le> 2 ^ 36\<close> above below usable
      by (auto simp: entry_covers_def)
    ultimately show ?thesis by (rule pages)
  qed
qed

lemma free_usable_result:
  assumes "phys_inv s" and "unat managed_end \<le> 2 ^ 36"
    and "\<forall>e \<in> set es. e820_type e = 1 \<and> e820_length e \<noteq> 0 \<longrightarrow>
           unat (e820_base e) + unat (e820_length e) \<le> unat managed_end"
  shows "\<exists>s'. free_usable managed_end es s = Some s' \<and> phys_inv s' \<and>
    phys_layout s' = phys_layout s \<and>
    pb_free (g_used s') = pb_free (g_used s) \<union> {i. i < g_page_count s \<and> (\<exists>e \<in> set es. entry_covers e i)} \<and>
    pb_free (g_reserved s') =
      pb_free (g_reserved s) \<union> {i. i < g_page_count s \<and> (\<exists>e \<in> set es. entry_covers e i)}"
  using assms(1,3)
proof (induction es arbitrary: s)
  case Nil
  then show ?case by simp
next
  case (Cons e es)
  show ?case
  proof (cases "e820_type e = 1 \<and> e820_length e \<noteq> 0")
    case False
    then have "usable_range managed_end e = None" "\<And>i. \<not> entry_covers e i"
      using entry_covers_usable by (auto simp: usable_range_def)
    with Cons show ?thesis by simp
  next
    case True
    with Cons.prems(2) have top: "unat (e820_base e) + unat (e820_length e) \<le> unat managed_end" by simp
    from True have u: "e820_type e = 1" "e820_length e \<noteq> 0" by simp_all
    show ?thesis
    proof (cases rule: usable_range_cases [OF u top assms(2)])
      case 1
      with Cons show ?thesis by simp
    next
      case (2 a l)
      let ?s = "fold free_both (pages_between a l) s"
      have l: "unat l \<le> 2 ^ 64 - 4096" using 2(3) by simp
      have "mark_range_free a l s = Some ?s"
        using 2(4) page_loop_pages [OF l 2(2), of free_both s] by (simp add: mark_range_free_def)
      then have run: "free_usable managed_end (e # es) s = free_usable managed_end es ?s"
        using 2(1) by simp
      note step = fold_free_both [OF Cons.prems(1), of "pages_between a l"]
      from Cons.IH [of ?s] step Cons.prems(2) obtain s' where
        "free_usable managed_end es ?s = Some s'" "phys_inv s'" "phys_layout s' = phys_layout s"
        "pb_free (g_used s') = pb_free (g_used ?s) \<union> {i. i < g_page_count s \<and> (\<exists>e \<in> set es. entry_covers e i)}"
        "pb_free (g_reserved s') = pb_free (g_reserved ?s) \<union> {i. i < g_page_count s \<and> (\<exists>e \<in> set es. entry_covers e i)}"
        by auto
      with run step 2(5) show ?thesis by auto
    qed
  qed
qed

subsection \<open>Initialisation\<close>

lemma find_bitmap_storage_inside:
  assumes "find_bitmap_storage es n = Some p"
    and "\<forall>e \<in> set es. e820_type e = 1 \<and> e820_length e \<noteq> 0 \<longrightarrow>
           unat (e820_base e) + unat (e820_length e) \<le> 2 ^ 36"
  shows "\<exists>e \<in> set es. e820_type e = 1 \<and> unat (e820_base e) \<le> unat p \<and>
           unat p + unat n \<le> unat (e820_base e) + unat (e820_length e) \<and>
           2097152 \<le> unat p \<and> unat p + unat n \<le> 2 ^ 36"
  using assms
proof (induction es)
  case (Cons e es)
  let ?stop = "unat (e820_base e) + unat (e820_length e)"
  let ?first = "align_up (e820_base e) kPageSize"
  let ?last = "align_down (saturating_end (e820_base e) (e820_length e)) kPageSize"
  let ?f = "if ?first < kLowReservedEnd then kLowReservedEnd else ?first"
  let ?l = "if ?last > kBootstrapHhdmLimit then kBootstrapHhdmLimit else ?last"
  show ?case
  proof (cases "e820_type e = 1 \<and> e820_length e \<noteq> 0 \<and> \<not> ?l \<le> ?f \<and> n \<le> ?l - ?f \<and> p = ?f")
    case True
    then have stop: "?stop \<le> 2 ^ 36" using Cons.prems(2) by simp
    then have last: "unat ?last \<le> ?stop"
      by (simp add: unat_align_down_page unat_saturating_end)
    have "unat (e820_base e) \<le> unat ?first"
      using stop by (intro align_up_page_ge) simp
    then have f: "unat (e820_base e) \<le> unat ?f" "2097152 \<le> unat ?f"
      by (auto simp: kLowReservedEnd_def unat_less_iff)
    have l: "unat ?l \<le> unat ?last" by (auto simp: unat_less_iff)
    have "?f \<le> ?l" "n \<le> ?l - ?f" using True by (auto simp only: not_le intro: less_imp_le)
    then have "unat n \<le> unat ?l - unat ?f"
      using unat_sub [of ?f ?l] by (simp only: unat_le_iff)
    moreover have "unat ?f < unat ?l" using True by (simp only: unat_le_iff not_le)
    ultimately show ?thesis using True f l last stop by auto
  next
    case False
    then have "find_bitmap_storage es n = Some p"
      using Cons.prems(1) by (auto simp: Let_def split: if_splits)
    with Cons show ?thesis by auto
  qed
qed simp

lemma length_ram_bytes [simp]: "length (ram_bytes ram a n) = unat n"
  by (simp add: ram_bytes_def)

text \<open>The usable regions end at or below the address the allocator manages.\<close>

lemma usable_end_le:
  assumes "maximum_usable_physical_address b \<le> kBootstrapHhdmLimit" and "boot_map_readable b"
    and "e \<in> set (boot_entries b)" "e820_type e = 1" "e820_length e \<noteq> 0"
  shows "unat (e820_base e) + unat (e820_length e) \<le> unat (maximum_usable_physical_address b)"
proof -
  have "saturating_add (e820_base e) (e820_length e) \<le> maximum_usable_physical_address b"
    using assms max_end_scan_upper [of e "boot_entries b"]
    by (simp add: maximum_usable_physical_address_def)
  then have "min (unat (e820_base e) + unat (e820_length e)) (2 ^ 64 - 1)
      \<le> unat (maximum_usable_physical_address b)"
    by (simp add: unat_le_iff unat_saturating_add)
  moreover have "unat (maximum_usable_physical_address b) \<le> 2 ^ 36"
    using assms(1) by (simp add: unat_le_iff kBootstrapHhdmLimit_def)
  ultimately show ?thesis by simp
qed

lemma low_pages: "page_touches 0 kLowReservedEnd i \<longleftrightarrow> unat i < 512"
  by (auto simp: page_touches_def kLowReservedEnd_def)

lemma pb_initialize_page_count: "pb_page_count (pb_initialize (Some st) n b) = n"
  by (simp add: pb_initialize_def Let_def)

lemma phys_fill_result:
  assumes n: "unat n \<le> 2 ^ 24" "n \<noteq> 0" and managed: "unat managed_end = 4096 * unat n"
    and used: "(unat n + 7) div 8 \<le> length us" and reserved: "(unat n + 7) div 8 \<le> length rs"
    and top: "\<forall>e \<in> set es. e820_type e = 1 \<and> e820_length e \<noteq> 0 \<longrightarrow>
           unat (e820_base e) + unat (e820_length e) \<le> unat managed_end"
    and s: "g_used s = pb_initialize (Some us) n u" "g_reserved s = pb_initialize (Some rs) n r"
      "g_page_count s = n"
    and len: "len \<noteq> 0"
  shows "\<exists>s'. Option.bind (free_usable managed_end es s)
         (\<lambda>s. Option.bind (reserve_range_internal 0 kLowReservedEnd s)
            (reserve_range_internal start len)) = Some s' \<and> phys_inv s' \<and> phys_layout s' = phys_layout s \<and>
      pb_free (g_used s') = {i. (\<exists>e \<in> set es. entry_covers e i) \<and> 512 \<le> unat i \<and> \<not> page_touches start len i} \<and>
      pb_free (g_reserved s') = pb_free (g_used s')"
proof -
  have "unat n + 7 < 2 ^ 64" using n by simp
  then have u: "pb_inv (g_used s) \<and> pb_free (g_used s) = {}"
    and r: "pb_inv (g_reserved s) \<and> pb_free (g_reserved s) = {}"
    unfolding s using used reserved by (simp_all add: pb_initialize_inv)
  then have inv: "phys_inv s"
    using n s by (simp add: phys_inv_def pb_initialize_page_count)
  have m36: "unat managed_end \<le> 2 ^ 36" using n managed by simp
  obtain s1 where s1: "free_usable managed_end es s = Some s1" "phys_inv s1" "phys_layout s1 = phys_layout s"
    "pb_free (g_used s1) = {i. i < n \<and> (\<exists>e \<in> set es. entry_covers e i)}"
    "pb_free (g_reserved s1) = {i. i < n \<and> (\<exists>e \<in> set es. entry_covers e i)}"
    using free_usable_result [OF inv m36 top] u r s(3) by auto
  have low: "kLowReservedEnd \<noteq> 0" by (simp add: kLowReservedEnd_def)
  obtain s2 where s2: "reserve_range_internal 0 kLowReservedEnd s1 = Some s2" "phys_inv s2"
    "phys_layout s2 = phys_layout s1"
    "pb_free (g_used s2) = pb_free (g_used s1) - {i. page_touches 0 kLowReservedEnd i}"
    "pb_free (g_reserved s2) = pb_free (g_reserved s1) - {i. page_touches 0 kLowReservedEnd i}"
    by (rule reserve_range_result [OF s1(2) low])
  obtain s3 where s3: "reserve_range_internal start len s2 = Some s3" "phys_inv s3"
    "phys_layout s3 = phys_layout s2"
    "pb_free (g_used s3) = pb_free (g_used s2) - {i. page_touches start len i}"
    "pb_free (g_reserved s3) = pb_free (g_reserved s2) - {i. page_touches start len i}"
    by (rule reserve_range_result [OF s2(2) len])
  have "i < n" if "e \<in> set es" "entry_covers e i" for e i
    using that top managed entry_covers_usable by (fastforce simp: entry_covers_def unat_less_iff)
  then have "pb_free (g_used s3) =
      {i. (\<exists>e \<in> set es. entry_covers e i) \<and> 512 \<le> unat i \<and> \<not> page_touches start len i}"
    unfolding s3 s2 s1 by (auto simp: low_pages)
  moreover have "pb_free (g_reserved s3) = pb_free (g_used s3)"
    unfolding s3 s2 s1 ..
  ultimately show ?thesis
    using s1 s2 s3 by (intro exI [of _ s3]) simp
qed

text \<open>The sizes computed before the bitmaps are placed, and the guards on them.\<close>

definition managed_end_of :: "boot_info \<Rightarrow> u64" where
  "managed_end_of boot = align_up (maximum_usable_physical_address boot) kPageSize"

definition page_count_of :: "boot_info \<Rightarrow> u64" where
  "page_count_of boot = managed_end_of boot div kPageSize"

definition one_bitmap_of :: "boot_info \<Rightarrow> u64" where
  "one_bitmap_of boot = align_up ((page_count_of boot + 7) div 8) kPageSize"

definition phys_accepts :: "boot_info \<Rightarrow> bool" where
  "phys_accepts boot \<longleftrightarrow>
     valid_boot_info (Some boot) \<and> maximum_usable_physical_address boot \<noteq> 0 \<and>
     maximum_usable_physical_address boot \<le> kBootstrapHhdmLimit \<and>
     managed_end_of boot \<noteq> UINT64_MAX \<and> managed_end_of boot \<le> kBootstrapHhdmLimit \<and>
     one_bitmap_of boot \<noteq> UINT64_MAX \<and> one_bitmap_of boot \<le> UINT64_MAX div 2"

lemmas phys_size_defs = managed_end_of_def page_count_of_def one_bitmap_of_def

lemma ex_guard_fails:
  "(\<exists>s'. (if P then Some (False, x) else y) = Some (False, s')) \<longleftrightarrow> P \<or> (\<exists>s'. y = Some (False, s'))"
  by simp

lemma phys_initialize_rejects:
  assumes "\<not> phys_accepts boot \<or> find_bitmap_storage (boot_entries boot) (one_bitmap_of boot * 2) = None"
  shows "\<exists>s'. phys_initialize ram boot s = Some (False, s')"
proof (cases "phys_accepts boot")
  case True
  with assms show ?thesis
    unfolding phys_initialize_def Let_def by (auto simp: phys_size_defs phys_accepts_def)
next
  case False
  then show ?thesis
    unfolding phys_initialize_def Let_def phys_accepts_def phys_size_defs ex_guard_fails
      not_le [symmetric]
    by blast
qed

lemma phys_initialize_runs:
  assumes "phys_accepts boot" "find_bitmap_storage (boot_entries boot) (one_bitmap_of boot * 2) = Some p"
  shows "phys_initialize ram boot s =
    map_option (\<lambda>s. (pb_free_count (g_used s) > 0, s))
      (Option.bind
        (free_usable (managed_end_of boot) (boot_entries boot)
          (s\<lparr>g_page_count := page_count_of boot, g_bitmap_physical := p,
             g_bitmap_bytes := (page_count_of boot + 7) div 8,
             g_used := pb_initialize (Some (ram_bytes ram (physical_to_hhdm p) (one_bitmap_of boot)))
               (page_count_of boot) (g_used s),
             g_reserved := pb_initialize
               (Some (ram_bytes ram (physical_to_hhdm (p + one_bitmap_of boot)) (one_bitmap_of boot)))
               (page_count_of boot) (g_reserved s)\<rparr>))
        (\<lambda>s. Option.bind (reserve_range_internal 0 kLowReservedEnd s)
           (reserve_range_internal p (one_bitmap_of boot * 2))))"
  using assms unfolding phys_initialize_def Let_def
  by (cases s) (auto simp: phys_size_defs phys_accepts_def map_conv_bind_option o_def)

lemma phys_sizes:
  assumes "phys_accepts boot"
  shows "unat (managed_end_of boot) = 4096 * unat (page_count_of boot)"
    and "unat (page_count_of boot) \<le> 2 ^ 24" and "page_count_of boot \<noteq> 0"
    and "(unat (page_count_of boot) + 7) div 8 \<le> unat (one_bitmap_of boot)"
    and "one_bitmap_of boot * 2 \<noteq> 0"
    and "unat (maximum_usable_physical_address boot) \<le> unat (managed_end_of boot)"
proof -
  let ?max = "maximum_usable_physical_address boot"
  have max: "?max \<le> kBootstrapHhdmLimit" "?max \<noteq> 0" and e36: "unat (managed_end_of boot) \<le> 2 ^ 36"
    using assms by (auto simp: phys_accepts_def unat_le_iff kBootstrapHhdmLimit_def)
  then have "unat ?max \<le> 2 ^ 36" by (simp add: unat_le_iff kBootstrapHhdmLimit_def)
  then show max_le: "unat ?max \<le> unat (managed_end_of boot)"
    unfolding managed_end_of_def by (intro align_up_page_ge) simp
  show managed: "unat (managed_end_of boot) = 4096 * unat (page_count_of boot)"
    using align_up_page_aligned [of ?max]
    by (auto simp: is_page_aligned_iff managed_end_of_def page_count_of_def unat_div_word)
  with e36 show n: "unat (page_count_of boot) \<le> 2 ^ 24" by simp
  have "unat ?max \<noteq> 0" using max(2) by (simp add: unat_eq_iff)
  with managed max_le have n0: "unat (page_count_of boot) \<noteq> 0" by auto
  then show "page_count_of boot \<noteq> 0" by (auto simp: unat_eq_iff)
  have bytes: "unat ((page_count_of boot + 7) div 8) = (unat (page_count_of boot) + 7) div 8"
    using n by (simp add: unat_div_word unat_word_ariths)
  then have small: "unat ((page_count_of boot + 7) div 8) \<le> 2 ^ 22" using n by simp
  then have le: "unat ((page_count_of boot + 7) div 8) \<le> unat (one_bitmap_of boot)"
    and lt: "unat (one_bitmap_of boot) - unat ((page_count_of boot + 7) div 8) < 4096"
    unfolding one_bitmap_of_def by (auto intro!: align_up_page_ge)
  from le show "(unat (page_count_of boot) + 7) div 8 \<le> unat (one_bitmap_of boot)"
    by (simp add: bytes)
  then have "unat (one_bitmap_of boot) \<noteq> 0" using n0 by linarith
  moreover have "unat (one_bitmap_of boot) \<le> 2 ^ 23" using small lt by simp
  then have "unat (one_bitmap_of boot * 2) = 2 * unat (one_bitmap_of boot)"
    by (simp add: unat_word_ariths)
  ultimately show "one_bitmap_of boot * 2 \<noteq> 0" by (auto simp: unat_eq_iff)
qed

text \<open>
  C22: initialisation always returns; it reports success exactly when the memory map is accepted, a
  usable region can hold the two bitmaps and a page is left over.  Once the map is accepted and the
  bitmaps are placed, the allocator is well formed, the
  free pages are exactly those that lie wholly inside a usable E820 region, at or above 2 MiB and
  outside the allocator's own bitmaps, and no free page is reserved; the bitmaps themselves lie in
  a usable region above 2 MiB.
\<close>

theorem phys_initialize_spec:
  "\<exists>ok s'. phys_initialize ram boot s = Some (ok, s') \<and>
     (ok \<longleftrightarrow> phys_accepts boot \<and>
        find_bitmap_storage (boot_entries boot) (one_bitmap_of boot * 2) \<noteq> None \<and>
        pb_free (g_used s') \<noteq> {}) \<and>
     (phys_accepts boot \<and> find_bitmap_storage (boot_entries boot) (one_bitmap_of boot * 2) \<noteq> None \<longrightarrow>
        phys_inv s' \<and> g_page_count s' = page_count_of boot \<and>
        g_bitmap_bytes s' = (page_count_of boot + 7) div 8 \<and>
        find_bitmap_storage (boot_entries boot) (one_bitmap_of boot * 2) = Some (g_bitmap_physical s') \<and>
        (\<forall>i. i \<in> pb_free (g_used s') \<longleftrightarrow> page_usable boot i \<and> 512 \<le> unat i \<and>
           \<not> page_touches (g_bitmap_physical s') (align_up (g_bitmap_bytes s') kPageSize * 2) i) \<and>
        pb_free (g_reserved s') = pb_free (g_used s') \<and>
        (\<exists>e \<in> set (boot_entries boot). e820_type e = 1 \<and>
           unat (e820_base e) \<le> unat (g_bitmap_physical s') \<and> 2097152 \<le> unat (g_bitmap_physical s') \<and>
           unat (g_bitmap_physical s') + unat (align_up (g_bitmap_bytes s') kPageSize * 2)
             \<le> unat (e820_base e) + unat (e820_length e)))"
proof (cases "phys_accepts boot \<and> find_bitmap_storage (boot_entries boot) (one_bitmap_of boot * 2) \<noteq> None")
  case False
  then show ?thesis using phys_initialize_rejects by blast
next
  case True
  then obtain p where ok: "phys_accepts boot"
    and p: "find_bitmap_storage (boot_entries boot) (one_bitmap_of boot * 2) = Some p" by auto
  note sizes = phys_sizes [OF ok]
  have readable: "boot_map_readable boot"
    and max: "maximum_usable_physical_address boot \<le> kBootstrapHhdmLimit"
    using ok by (auto simp: phys_accepts_def valid_boot_info_def boot_map_readable_def)
  have top: "\<forall>e \<in> set (boot_entries boot). e820_type e = 1 \<and> e820_length e \<noteq> 0 \<longrightarrow>
      unat (e820_base e) + unat (e820_length e) \<le> unat (managed_end_of boot)"
    using usable_end_le [OF max readable] sizes(6) by (meson order.trans)
  have top36: "\<forall>e \<in> set (boot_entries boot). e820_type e = 1 \<and> e820_length e \<noteq> 0 \<longrightarrow>
      unat (e820_base e) + unat (e820_length e) \<le> 2 ^ 36"
    using top sizes(1,2) by fastforce
  let ?us = "ram_bytes ram (physical_to_hhdm p) (one_bitmap_of boot)"
  let ?rs = "ram_bytes ram (physical_to_hhdm (p + one_bitmap_of boot)) (one_bitmap_of boot)"
  let ?s = "s\<lparr>g_page_count := page_count_of boot, g_bitmap_physical := p,
      g_bitmap_bytes := (page_count_of boot + 7) div 8,
      g_used := pb_initialize (Some ?us) (page_count_of boot) (g_used s),
      g_reserved := pb_initialize (Some ?rs) (page_count_of boot) (g_reserved s)\<rparr>"
  have len: "(unat (page_count_of boot) + 7) div 8 \<le> length ?us"
    "(unat (page_count_of boot) + 7) div 8 \<le> length ?rs" using sizes(4) by simp_all
  obtain s' where s': "Option.bind (free_usable (managed_end_of boot) (boot_entries boot) ?s)
      (\<lambda>s. Option.bind (reserve_range_internal 0 kLowReservedEnd s)
        (reserve_range_internal p (one_bitmap_of boot * 2))) = Some s'" "phys_inv s'"
    "phys_layout s' = phys_layout ?s"
    "pb_free (g_used s') = {i. (\<exists>e \<in> set (boot_entries boot). entry_covers e i) \<and> 512 \<le> unat i \<and>
        \<not> page_touches p (one_bitmap_of boot * 2) i}"
    "pb_free (g_reserved s') = pb_free (g_used s')"
    using phys_fill_result [OF sizes(2,3,1) len top, of ?s "g_used s" "g_reserved s" "one_bitmap_of boot * 2" p]
      sizes(5) by auto
  have count: "pb_free_count (g_used s') > 0 \<longleftrightarrow> pb_free (g_used s') \<noteq> {}"
  proof -
    have "unat (pb_free_count (g_used s')) = card (pb_free (g_used s'))"
      using s'(2) by (simp add: phys_inv_def pb.free_count)
    then show ?thesis by (simp add: unat_less_iff card_gt_0_iff)
  qed
  have layout: "g_bitmap_physical s' = p" "g_page_count s' = page_count_of boot"
    "g_bitmap_bytes s' = (page_count_of boot + 7) div 8"
    "align_up ((page_count_of boot + 7) div 8) kPageSize = one_bitmap_of boot"
    using s'(3) by (simp_all add: one_bitmap_of_def)
  show ?thesis
    unfolding phys_initialize_runs [OF ok p] s'(1)
    using s'(2,4,5) find_bitmap_storage_inside [OF p top36]
    by (simp add: page_usable_def layout count ok p) blast
qed

definition demo_boot :: boot_info where
  "demo_boot = \<lparr>bi_magic = kBootInfoMagic, bi_e820_count = 1, bi_e820_address = 0x5000,
     bi_entries = [\<lparr>e820_base = 0x200000, e820_length = 0x4000, e820_type = 1, e820_attributes = 0\<rparr>],
     bi_boot_drive = 0x80,
     bi_framebuffer = \<lparr>fb_physical_address = 0, fb_width = 0, fb_height = 0, fb_pitch = 0,
       fb_bits_per_pixel = 0, fb_red_mask_size = 0, fb_red_mask_shift = 0, fb_green_mask_size = 0,
       fb_green_mask_shift = 0, fb_blue_mask_size = 0, fb_blue_mask_shift = 0, fb_available = 0\<rparr>\<rparr>"

lemma demo_boot_accepted:
  "phys_accepts demo_boot" "one_bitmap_of demo_boot = 4096"
  "find_bitmap_storage (boot_entries demo_boot) (one_bitmap_of demo_boot * 2) = Some 0x200000"
  by code_simp+

theorem phys_initialize_spec_witness:
  "\<exists>s'. phys_initialize (\<lambda>_. 0) demo_boot phys_boot = Some (True, s') \<and> phys_inv s' \<and>
     514 \<in> pb_free (g_used s') \<and> 513 \<notin> pb_free (g_used s') \<and> g_bitmap_physical s' = 0x200000"
proof -
  obtain ok s' where run: "phys_initialize (\<lambda>_. 0) demo_boot phys_boot = Some (ok, s')"
    and ok: "ok \<longleftrightarrow> pb_free (g_used s') \<noteq> {}"
    and inv: "phys_inv s'" and bytes: "g_bitmap_bytes s' = (page_count_of demo_boot + 7) div 8"
    and phys: "g_bitmap_physical s' = 0x200000"
    and free: "\<And>i. i \<in> pb_free (g_used s') \<longleftrightarrow> page_usable demo_boot i \<and> 512 \<le> unat i \<and>
        \<not> page_touches (g_bitmap_physical s') (align_up (g_bitmap_bytes s') kPageSize * 2) i"
    using phys_initialize_spec [of "\<lambda>_. 0" demo_boot phys_boot] demo_boot_accepted by auto
  have "(page_count_of demo_boot + 7) div 8 = 65" by code_simp
  note layout = phys bytes [unfolded this]
  have "align_up 65 kPageSize * 2 = 8192" by code_simp
  then have "page_usable demo_boot 514" "page_usable demo_boot 513"
    "\<not> page_touches 0x200000 (align_up 65 kPageSize * 2) 514"
    "page_touches 0x200000 (align_up 65 kPageSize * 2) 513"
    by (simp_all add: page_usable_def entry_covers_def page_touches_def demo_boot_def boot_entries_def)
  then have "514 \<in> pb_free (g_used s')" "513 \<notin> pb_free (g_used s')"
    unfolding free layout by simp_all
  moreover from this have ok unfolding ok by blast
  ultimately show ?thesis using run inv phys by simp
qed

subsection \<open>Allocation and release\<close>

lemma index_times_page:
  assumes "i < n" "unat n \<le> 2 ^ 24"
  shows "unat (i * kPageSize) = 4096 * unat i" "(i * kPageSize) div kPageSize = i"
    "is_page_aligned (i * kPageSize)" "i * kPageSize \<noteq> kInvalidPhysicalAddress"
proof -
  have "unat i < 2 ^ 24" using assms by (simp add: unat_less_iff)
  then show *: "unat (i * kPageSize) = 4096 * unat i" by (simp add: unat_word_ariths)
  show "(i * kPageSize) div kPageSize = i" by (simp add: unat_eq_iff unat_div_word *)
  show "is_page_aligned (i * kPageSize)" by (simp add: is_page_aligned_iff *)
  show "i * kPageSize \<noteq> kInvalidPhysicalAddress"
    using * \<open>unat i < 2 ^ 24\<close> by (auto simp: kInvalidPhysicalAddress_def unat_eq_iff)
qed

lemma allocate_page_empty:
  assumes "phys_inv s" "pb_free (g_used s) = {}"
  shows "allocate_page s = (kInvalidPhysicalAddress, s)"
  using assms by (subst allocate_page.simps)
    (simp add: phys_inv_def pb.allocate_empty kInvalid_def)

lemma allocate_page_some:
  assumes "phys_inv s" "pb_free (g_used s) \<noteq> {}"
  obtains i s' where "allocate_page s = (i * kPageSize, s')" "i \<in> pb_free (g_used s)"
    "i \<notin> pb_free (g_used s')" "phys_inv s'" "phys_layout s' = phys_layout s"
    "pb_free (g_used s') = pb_free (g_used s) - {i}" "g_reserved s' = g_reserved s"
proof -
  obtain i u where alloc: "pb_allocate (g_used s) = (i, u)" by fastforce
  have inv: "pb_inv (g_used s)" using assms(1) by (simp add: phys_inv_def)
  from pb.allocate_some [OF inv assms(2)] pb.allocate_fails_iff [OF inv] alloc assms(2)
  have i: "i \<in> pb_free (g_used s)" "i \<noteq> kInvalid"
    and u: "pb_free u = pb_free (g_used s) - {i}" "pb_inv u" "pb_page_count u = pb_page_count (g_used s)"
    by (simp_all add: kInvalid_def)
  have "i \<in> pb_free (g_reserved s)" using assms(1) i(1) by (auto simp: phys_inv_def)
  then have "allocate_page s = (i * kPageSize, s\<lparr>g_used := u\<rparr>)"
    using i(2) alloc by (subst allocate_page.simps) (simp add: pb_is_used_iff)
  moreover have "phys_inv (s\<lparr>g_used := u\<rparr>)" using assms(1) u by (auto simp: phys_inv_def)
  ultimately show ?thesis using that [of i "s\<lparr>g_used := u\<rparr>"] i(1) u(1) by simp
qed

text \<open>
  On a well-formed allocator \<open>allocate_page\<close> fails exactly when no page is free, changing
  nothing; otherwise it returns the page-aligned address of a page that was free and is not
  reserved, and removes exactly that page from the free set.  The allocator stays well formed.
\<close>

theorem allocate_page_spec:
  assumes "phys_inv s"
  shows "case allocate_page s of (p, s') \<Rightarrow>
    phys_inv s' \<and> (p = kInvalidPhysicalAddress \<longleftrightarrow> pb_free (g_used s) = {}) \<and>
    (if pb_free (g_used s) = {} then s' = s
     else is_page_aligned p \<and> p div kPageSize \<in> pb_free (g_used s) \<and>
       \<not> pb_is_used (g_reserved s) (p div kPageSize) \<and>
       pb_free (g_used s') = pb_free (g_used s) - {p div kPageSize} \<and>
       unat (free_pages s') + 1 = unat (free_pages s))"
proof (cases "pb_free (g_used s) = {}")
  case True
  then show ?thesis using assms by (simp add: allocate_page_empty)
next
  case False
  then obtain i s' where run: "allocate_page s = (i * kPageSize, s')" and i: "i \<in> pb_free (g_used s)"
    and s': "phys_inv s'" "pb_free (g_used s') = pb_free (g_used s) - {i}"
    using allocate_page_some [OF assms] by metis
  have "i < g_page_count s" "unat (g_page_count s) \<le> 2 ^ 24" "i \<in> pb_free (g_reserved s)"
    using assms i pb_free_below [OF i] by (auto simp: phys_inv_def)
  moreover have "unat (free_pages s') + 1 = unat (free_pages s)"
    using assms s' card.remove [OF finite_pb_free i] by (simp add: free_pages_def phys_inv_def pb.free_count)
  ultimately show ?thesis
    using run i s' False by (simp add: index_times_page pb_is_used_iff)
qed

lemma free_page_result:
  assumes "phys_inv s"
  shows "fst (free_page p s) \<longleftrightarrow> is_page_aligned p \<and> p div kPageSize < g_page_count s \<and>
      p div kPageSize \<in> pb_free (g_reserved s) \<and> p div kPageSize \<notin> pb_free (g_used s)"
    and "phys_inv (snd (free_page p s))" "phys_layout (snd (free_page p s)) = phys_layout s"
    and "g_reserved (snd (free_page p s)) = g_reserved s"
    and "pb_free (g_used (snd (free_page p s))) =
      (if fst (free_page p s) then insert (p div kPageSize) (pb_free (g_used s)) else pb_free (g_used s))"
proof -
  let ?i = "p div kPageSize"
  have inv: "pb_inv (g_used s)" and n: "pb_page_count (g_used s) = g_page_count s"
    using assms by (simp_all add: phys_inv_def)
  note mark = pb.mark_free_ok [OF inv, of ?i] pb.mark_free_set [OF inv, of ?i]
    pb.mark_free_inv [OF inv, of ?i] pb.mark_free_cap [of ?i "g_used s"]
  show ok: "fst (free_page p s) \<longleftrightarrow> is_page_aligned p \<and> ?i < g_page_count s \<and>
      ?i \<in> pb_free (g_reserved s) \<and> ?i \<notin> pb_free (g_used s)"
    using mark(1) n by (auto simp: free_page_def Let_def split_beta pb_is_used_iff)
  show "phys_layout (snd (free_page p s)) = phys_layout s"
    and "g_reserved (snd (free_page p s)) = g_reserved s"
    by (simp_all add: free_page_def Let_def split_beta)
  have same: "snd (free_page p s) = s" if "\<not> fst (free_page p s)"
  proof -
    have "snd (pb_mark_free ?i (g_used s)) = g_used s" if "\<not> fst (pb_mark_free ?i (g_used s))"
      using that by (auto simp: pb_mark_free_def split: option.splits)
    then show ?thesis using that by (auto simp: free_page_def Let_def split_beta split: if_splits)
  qed
  have upd: "snd (free_page p s) = s\<lparr>g_used := snd (pb_mark_free ?i (g_used s))\<rparr>" if "fst (free_page p s)"
    using that by (auto simp: free_page_def Let_def split_beta split: if_splits)
  show "pb_free (g_used (snd (free_page p s))) =
      (if fst (free_page p s) then insert ?i (pb_free (g_used s)) else pb_free (g_used s))"
    using same upd ok mark(2) n by (cases "fst (free_page p s)") auto
  show "phys_inv (snd (free_page p s))"
    using same upd ok mark n assms by (cases "fst (free_page p s)") (auto simp: phys_inv_def)
qed

text \<open>
  \<open>free_page\<close> succeeds exactly on the aligned address of a managed page that is neither
  reserved nor already free, so a double release and the release of a reserved page are refused; it
  adds exactly that page to the free set, changes nothing otherwise, and keeps the allocator well
  formed.
\<close>

theorem free_page_spec:
  assumes "phys_inv s"
  shows "(fst (free_page p s) \<longleftrightarrow> is_page_aligned p \<and> p div kPageSize < g_page_count s \<and>
        \<not> pb_is_used (g_reserved s) (p div kPageSize) \<and> pb_is_used (g_used s) (p div kPageSize)) \<and>
    phys_inv (snd (free_page p s)) \<and>
    pb_free (g_used (snd (free_page p s))) =
      (if fst (free_page p s) then insert (p div kPageSize) (pb_free (g_used s)) else pb_free (g_used s))"
  using free_page_result [OF assms] by (simp add: pb_is_used_iff)

subsection \<open>Ownership over a run of the allocator\<close>

text \<open>
  The kernel's use of the allocator: pages are handed out, returned by their owner, or reserved.
  The ghost component records the addresses handed out and not yet returned.
\<close>

inductive phys_step :: "phys_state \<times> u64 set \<Rightarrow> phys_state \<times> u64 set \<Rightarrow> bool" where
  step_alloc: "allocate_page s = (p, s') \<Longrightarrow> p \<noteq> kInvalidPhysicalAddress \<Longrightarrow>
    phys_step (s, owned) (s', insert p owned)"
| step_exhausted: "allocate_page s = (p, s') \<Longrightarrow> p = kInvalidPhysicalAddress \<Longrightarrow>
    phys_step (s, owned) (s', owned)"
| step_free: "p \<in> owned \<Longrightarrow> free_page p s = (ok, s') \<Longrightarrow>
    phys_step (s, owned) (s', if ok then owned - {p} else owned)"
| step_reserve: "len \<noteq> 0 \<Longrightarrow> reserve_range start len s = Some s' \<Longrightarrow> phys_step (s, owned) (s', owned)"

inductive_cases phys_stepE: "phys_step (s, owned) (s', owned')"

definition owned_inv :: "phys_state \<times> u64 set \<Rightarrow> bool" where
  "owned_inv c = (case c of (s, owned) \<Rightarrow>
     phys_inv s \<and> (\<forall>p \<in> owned. is_page_aligned p \<and> p div kPageSize < g_page_count s \<and>
        p div kPageSize \<notin> pb_free (g_used s)))"

lemma aligned_div_inj:
  assumes "is_page_aligned p" "is_page_aligned q" "p div kPageSize = q div kPageSize"
  shows "p = q"
  using assms unfolding is_page_aligned_iff unat_eq_iff unat_div_word
  by (metis div_mult_mod_eq unat_page_size)

lemma phys_step_owned_inv:
  assumes "phys_step c c'" "owned_inv c"
  shows "owned_inv c'"
  using assms
proof (induction rule: phys_step.induct)
  case (step_alloc s p s' owned)
  then have inv: "phys_inv s" by (simp add: owned_inv_def)
  show ?case
  proof (cases "pb_free (g_used s) = {}")
    case True
    then show ?thesis using allocate_page_empty [OF inv] step_alloc by simp
  next
    case False
    then obtain i where run: "p = i * kPageSize" "i \<in> pb_free (g_used s)" "i \<notin> pb_free (g_used s')"
      and s': "phys_inv s'" "phys_layout s' = phys_layout s"
        "pb_free (g_used s') = pb_free (g_used s) - {i}"
      using allocate_page_some [OF inv] step_alloc(1) by (metis prod.inject)
    have "i < g_page_count s" "unat (g_page_count s) \<le> 2 ^ 24"
      using inv pb_free_below [OF run(2)] by (auto simp: phys_inv_def)
    then show ?thesis
      using step_alloc(3) run s' by (auto simp: owned_inv_def index_times_page)
  qed
next
  case (step_exhausted s p s' owned)
  then have inv: "phys_inv s" by (simp add: owned_inv_def)
  have "pb_free (g_used s) = {}"
  proof (rule ccontr)
    assume "pb_free (g_used s) \<noteq> {}"
    then obtain i where "p = i * kPageSize" "i \<in> pb_free (g_used s)"
      using allocate_page_some [OF inv] step_exhausted(1) by (metis prod.inject)
    then show False
      using inv pb_free_below [of i "g_used s"] index_times_page(4) [of i "g_page_count s"] step_exhausted(2)
      by (auto simp: phys_inv_def)
  qed
  then show ?case using allocate_page_empty [OF inv] step_exhausted by simp
next
  case (step_free p owned s ok s')
  then have inv: "phys_inv s" by (simp add: owned_inv_def)
  note free = free_page_result [OF inv, of p, unfolded step_free(2), simplified]
  show ?case
    using step_free(1,3) free aligned_div_inj by (auto simp: owned_inv_def)
next
  case (step_reserve len start s s' owned)
  then have inv: "phys_inv s" by (simp add: owned_inv_def)
  from reserve_range_result [OF inv step_reserve(1), of start] step_reserve(2)
  have "phys_inv s'" "phys_layout s' = phys_layout s" "pb_free (g_used s') \<subseteq> pb_free (g_used s)"
    by (auto simp: reserve_range_def)
  then show ?case using step_reserve(3) by (auto simp: owned_inv_def)
qed

text \<open>
  C4: along every run of allocations, releases by the owner and reservations from a well-formed
  allocator with no page handed out, a page that is handed out is never handed out again before its
  owner returned it.
\<close>

theorem no_double_allocation:
  assumes "phys_inv s0" and "phys_step\<^sup>*\<^sup>* (s0, {}) (s, owned)"
    and "allocate_page s = (p, s')" and "p \<noteq> kInvalidPhysicalAddress"
  shows "p \<notin> owned"
proof -
  have "owned_inv (s, owned)"
    using assms(2)
  proof (induction rule: rtranclp_induct)
    case base
    then show ?case using assms(1) by (simp add: owned_inv_def)
  qed (rule phys_step_owned_inv)
  then have inv: "phys_inv s" and owned: "\<forall>q \<in> owned. q div kPageSize \<notin> pb_free (g_used s)"
    by (auto simp: owned_inv_def)
  have "p div kPageSize \<in> pb_free (g_used s)"
  proof (cases "pb_free (g_used s) = {}")
    case True
    then show ?thesis using allocate_page_empty [OF inv] assms(3,4) by simp
  next
    case False
    then obtain i where "p = i * kPageSize" "i \<in> pb_free (g_used s)"
      using allocate_page_some [OF inv] assms(3) by (metis prod.inject)
    then show ?thesis
      using inv pb_free_below [of i "g_used s"] index_times_page(2) [of i "g_page_count s"]
      by (auto simp: phys_inv_def)
  qed
  with owned show ?thesis by blast
qed

subsection \<open>A small allocator\<close>

definition demo_bitmap :: page_bitmap where
  "demo_bitmap = snd (pb_mark_free 5 (snd (pb_mark_free 3 (pb_initialize (Some [0, 0]) 16 pb_empty))))"

definition demo_phys :: phys_state where
  "demo_phys = \<lparr>g_used = demo_bitmap, g_reserved = demo_bitmap, g_page_count = 16,
     g_bitmap_physical = 0, g_bitmap_bytes = 2\<rparr>"

lemma demo_bitmap_free: "pb_inv demo_bitmap" "pb_free demo_bitmap = {3, 5}" "pb_page_count demo_bitmap = 16"
proof -
  let ?b = "pb_initialize (Some [0, 0]) 16 pb_empty"
  have b: "pb_inv ?b" "pb_free ?b = {}" "pb_page_count ?b = 16"
    using pb_initialize_inv [where storage = "Some [0, 0]" and n = 16 and b = pb_empty] by (simp_all add: pb_initialize_page_count)
  then show "pb_inv demo_bitmap" "pb_free demo_bitmap = {3, 5}" "pb_page_count demo_bitmap = 16"
    unfolding demo_bitmap_def
    by (simp_all add: pb.mark_free_inv pb.mark_free_set insert_commute)
qed

lemma demo_phys_inv: "phys_inv demo_phys"
  using demo_bitmap_free by (simp add: phys_inv_def demo_phys_def)

lemma demo_phys_allocates: "fst (allocate_page demo_phys) = 0x3000"
  by code_simp

theorem allocate_page_spec_witness:
  "phys_inv demo_phys \<and> fst (allocate_page demo_phys) = 0x3000 \<and>
   pb_free (g_used (snd (allocate_page demo_phys))) = {5}"
proof -
  have "(0x3000 :: u64) div kPageSize = 3" by code_simp
  with allocate_page_spec [OF demo_phys_inv] demo_phys_allocates demo_phys_inv demo_bitmap_free(2)
  show ?thesis by (auto simp: demo_phys_def split: prod.splits)
qed

theorem free_page_spec_witness:
  "\<not> fst (free_page 0x3000 demo_phys) \<and> phys_inv (snd (free_page 0x3000 demo_phys))"
proof -
  have "(0x3000 :: u64) div kPageSize = 3" by code_simp
  with free_page_spec [OF demo_phys_inv, of "0x3000"] demo_bitmap_free(2) show ?thesis
    by (simp add: demo_phys_def pb_is_used_iff)
qed

theorem no_double_allocation_witness:
  "phys_step\<^sup>*\<^sup>* (demo_phys, {}) (snd (allocate_page demo_phys), {0x3000}) \<and>
   fst (allocate_page (snd (allocate_page demo_phys))) = 0x5000 \<and> 0x5000 \<notin> {0x3000 :: u64}"
proof -
  have "phys_step (demo_phys, {}) (snd (allocate_page demo_phys), insert 0x3000 {})"
    using demo_phys_allocates
    by (intro step_alloc) (auto simp: kInvalidPhysicalAddress_def prod_eq_iff)
  then have reach: "phys_step\<^sup>*\<^sup>* (demo_phys, {}) (snd (allocate_page demo_phys), {0x3000})" by blast
  have second: "fst (allocate_page (snd (allocate_page demo_phys))) = 0x5000" by code_simp
  then have run: "allocate_page (snd (allocate_page demo_phys)) =
      (0x5000, snd (allocate_page (snd (allocate_page demo_phys))))"
    by (simp add: prod_eq_iff)
  have "0x5000 \<noteq> kInvalidPhysicalAddress" by (simp add: kInvalidPhysicalAddress_def)
  from no_double_allocation [OF demo_phys_inv reach run this] reach second show ?thesis by simp
qed

end
