(* ===== verification/Heap.thy ===== *)
theory Heap
  imports Address
begin

text \<open>
  The bump heap of \<^verbatim>\<open>kernel/memory/heap.cpp\<close> and the boot-time scan of
  \<^verbatim>\<open>kernel/memory/memory.cpp\<close> that places it.  The heap serves 16-byte aligned blocks from
  \<open>[start, end)\<close> and is rewound to a checkpoint; the null pointer is address 0.
\<close>

subsection \<open>The bump allocator (heap.cpp)\<close>

record heap_state =
  h_start :: u64
  h_current :: u64
  h_end :: u64

definition heap_boot :: heap_state where
  "heap_boot = \<lparr>h_start = 0, h_current = 0, h_end = 0\<rparr>"

text \<open>\<^verbatim>\<open>value & ~static_cast<uintptr_t>(15u)\<close>\<close>

definition round_down_16 :: "u64 \<Rightarrow> u64" where
  "round_down_16 v = v AND NOT 15"

definition align_up_16 :: "u64 \<Rightarrow> u64" where
  "align_up_16 v = (if v > UINT64_MAX - 15 then 0 else round_down_16 (v + 15))"

definition heap_initialize :: "u64 \<Rightarrow> u64 \<Rightarrow> heap_state \<Rightarrow> bool \<times> heap_state" where
  "heap_initialize start stop h =
     (let aligned_start = align_up_16 start; aligned_end = round_down_16 stop
      in if aligned_start = 0 \<or> aligned_end \<le> aligned_start
         then (False, \<lparr>h_start = 0, h_current = 0, h_end = 0\<rparr>)
         else (True, \<lparr>h_start = aligned_start, h_current = aligned_start, h_end = aligned_end\<rparr>))"

definition heap_allocate :: "u64 \<Rightarrow> heap_state \<Rightarrow> u64 \<times> heap_state" where
  "heap_allocate bytes h =
     (if bytes = 0 \<or> h_current h = 0 then (0, h)
      else if bytes > UINT64_MAX - 15 then (0, h)
      else let aligned_size = round_down_16 (bytes + 15)
           in if aligned_size > h_end h - h_current h then (0, h)
              else (h_current h, h\<lparr>h_current := h_current h + aligned_size\<rparr>))"

definition heap_checkpoint :: "heap_state \<Rightarrow> u64" where
  "heap_checkpoint h = h_current h"

definition heap_rewind :: "u64 \<Rightarrow> heap_state \<Rightarrow> bool \<times> heap_state" where
  "heap_rewind c h =
     (if h_current h = 0 \<or> c < h_start h \<or> c > h_current h \<or> c AND 0xF \<noteq> 0 then (False, h)
      else (True, h\<lparr>h_current := c\<rparr>))"

definition heap_used_bytes :: "heap_state \<Rightarrow> u64" where
  "heap_used_bytes h = (if h_current h \<ge> h_start h then h_current h - h_start h else 0)"

definition heap_capacity_bytes :: "heap_state \<Rightarrow> u64" where
  "heap_capacity_bytes h = (if h_end h \<ge> h_start h then h_end h - h_start h else 0)"

text \<open>A block as requested by one caller, and a sequence of requests.\<close>

fun heap_run :: "u64 list \<Rightarrow> heap_state \<Rightarrow> u64 list \<times> heap_state" where
  "heap_run [] h = ([], h)"
| "heap_run (n # ns) h =
     (let (p, h') = heap_allocate n h; (ps, h'') = heap_run ns h' in (p # ps, h''))"

subsection \<open>Placing the heap (memory.cpp)\<close>

record memory_state =
  g_total_bytes :: u64
  g_usable_bytes :: u64
  g_usable_regions :: u32
  g_maximum_physical :: u64
  g_heap_start :: u64
  g_heap_end :: u64

definition kIdentityMapEnd :: u64 where [kernel_const]: "kIdentityMapEnd = 0x200000"
definition kHeapLimit :: u64 where [kernel_const]: "kHeapLimit = 0x1F0000"

definition memory_scan_entry :: "u64 \<Rightarrow> memory_state \<Rightarrow> e820_entry \<Rightarrow> memory_state" where
  "memory_scan_entry kernel_end m entry =
     (if e820_length entry = 0 then m
      else let region_end = saturating_add (e820_base entry) (e820_length entry);
               m = (if region_end > g_maximum_physical m then m\<lparr>g_maximum_physical := region_end\<rparr> else m);
               m = m\<lparr>g_total_bytes := saturating_add (g_total_bytes m) (e820_length entry)\<rparr>
      in if e820_type entry \<noteq> 1 then m
      else let m = m\<lparr>g_usable_bytes := saturating_add (g_usable_bytes m) (e820_length entry),
                     g_usable_regions := g_usable_regions m + 1\<rparr>
      in if g_heap_start m \<noteq> 0 \<or> kernel_end = 0 then m
      else if e820_base entry \<le> kernel_end \<and> region_end > kernel_end \<and> kernel_end < kIdentityMapEnd
           then let candidate_end = (if region_end > kHeapLimit then kHeapLimit else region_end)
                in if candidate_end > kernel_end + 4096
                   then m\<lparr>g_heap_start := kernel_end, g_heap_end := candidate_end\<rparr>
                   else m
           else m)"

text \<open>\<open>kernel_end_symbol\<close> is the address of the linker symbol \<^verbatim>\<open>_kernel_end\<close>.\<close>

definition memory_initialize :: "u64 \<Rightarrow> boot_info \<Rightarrow> memory_state \<Rightarrow> bool \<times> memory_state" where
  "memory_initialize kernel_end_symbol boot m =
     (let m = \<lparr>g_total_bytes = 0, g_usable_bytes = 0, g_usable_regions = 0,
               g_maximum_physical = 0, g_heap_start = 0, g_heap_end = 0\<rparr>
      in if \<not> boot_map_readable boot then (False, m)
      else let kernel_end = align_up_16 kernel_end_symbol;
               m = foldl (memory_scan_entry kernel_end) m (boot_entries boot)
      in (g_usable_regions m > 0 \<and> g_maximum_physical m > 0 \<and> g_heap_start m \<noteq> 0 \<and>
          g_heap_end m > g_heap_start m, m))"

definition kernel_virtual_to_physical :: "u64 \<Rightarrow> u64 option" where
  "kernel_virtual_to_physical virtual_address =
     (let direct_map_end = kKernelRegionBase + kHugePageSize
      in if virtual_address < kKernelVirtualBase \<or> virtual_address \<ge> direct_map_end then None
         else Some (virtual_address - kKernelRegionBase))"

subsection \<open>Alignment to 16 bytes\<close>

lemma mask4: "(15 :: u64) = mask 4" "(0xF :: u64) = mask 4"
  by (simp_all add: mask_eq_exp_minus_1)

lemma unat_round_down_16: "unat (round_down_16 v) = unat v - unat v mod 16"
  unfolding round_down_16_def mask4 unat_and_not_mask by simp

lemma and_15_iff: "v AND (0xF :: u64) = 0 \<longleftrightarrow> unat v mod 16 = 0"
  unfolding mask4 unat_eq_iff unat_and_mask by simp

lemma unat_round_up_16:
  assumes "\<not> v > UINT64_MAX - 15"
  shows "unat (round_down_16 (v + 15)) = (unat v + 15) div 16 * 16"
proof -
  have "unat v + 15 < 2 ^ 64"
    using assms by (simp add: unat_less_iff unat_max_minus)
  then show ?thesis
    by (simp add: unat_round_down_16 unat_word_ariths minus_mod_eq_div_mult)
qed

lemma less_round_up_16D: "r < (n + 15) div 16 * 16 \<Longrightarrow> r mod 16 = 0 \<Longrightarrow> r < n" for r n :: nat
proof -
  assume "r < (n + 15) div 16 * 16" "r mod 16 = 0"
  then obtain q where "r = 16 * q" "q < (n + 15) div 16"
    by (metis dvdE dvd_eq_mod_eq_0 mult.commute mult_less_cancel1)
  then show ?thesis by (simp add: less_eq_div_iff_mult_less_eq flip: Suc_le_eq)
qed

subsection \<open>Invariant\<close>

definition heap_inv :: "heap_state \<Rightarrow> bool" where
  "heap_inv h \<longleftrightarrow> h = heap_boot \<or>
     (h_start h \<noteq> 0 \<and> h_start h \<le> h_current h \<and> h_current h \<le> h_end h \<and>
      unat (h_start h) mod 16 = 0 \<and> unat (h_current h) mod 16 = 0 \<and> unat (h_end h) mod 16 = 0)"

lemma heap_initialize_inv: "heap_inv (snd (heap_initialize start stop h))"
proof (cases "fst (heap_initialize start stop h)")
  case True
  then have "align_up_16 start \<noteq> 0" by (auto simp: heap_initialize_def Let_def split: if_splits)
  then have "unat (align_up_16 start) mod 16 = 0"
    by (simp add: align_up_16_def unat_round_down_16 split: if_splits)
  with True show ?thesis
    by (auto simp: heap_initialize_def Let_def heap_inv_def unat_round_down_16 split: if_splits)
next
  case False
  then show ?thesis
    by (auto simp: heap_initialize_def Let_def heap_inv_def heap_boot_def split: if_splits)
qed

lemma heap_allocate_cases:
  assumes "heap_inv h"
  obtains (fail) "heap_allocate n h = (0, h)"
      "n = 0 \<or> h_current h = 0 \<or> unat (h_end h) - unat (h_current h) < unat n"
  | (block) h' where "heap_allocate n h = (h_current h, h')" "h_current h \<noteq> 0" "n \<noteq> 0"
      "unat (h_current h') = unat (h_current h) + (unat n + 15) div 16 * 16"
      "h_current h' \<le> h_end h" "h_start h' = h_start h" "h_end h' = h_end h" "heap_inv h'"
proof (cases "n = 0 \<or> h_current h = 0")
  case True
  then show ?thesis using fail by (auto simp: heap_allocate_def)
next
  case False
  then have h: "h_start h \<noteq> 0" "h_start h \<le> h_current h" "h_current h \<le> h_end h"
    "unat (h_start h) mod 16 = 0" "unat (h_current h) mod 16 = 0" "unat (h_end h) mod 16 = 0"
    using assms by (auto simp: heap_inv_def heap_boot_def)
  have room: "unat (h_end h - h_current h) = unat (h_end h) - unat (h_current h)"
    using h(3) by (rule unat_sub)
  show ?thesis
  proof (cases "n > UINT64_MAX - 15")
    case True
    moreover have "unat (h_end h) < 2 ^ 64" by (rule unat_less_64)
    moreover have "16 \<le> unat (h_current h)"
      using False h(5) by (metis dvd_imp_le gr0I mod_0_imp_dvd unat_eq_zero)
    ultimately have "unat (h_end h) - unat (h_current h) < unat n"
      by (simp add: unat_less_iff unat_max_minus)
    with True False show ?thesis using fail by (simp add: heap_allocate_def)
  next
    case fits: False
    let ?size = "round_down_16 (n + 15)"
    note size = unat_round_up_16 [OF fits]
    show ?thesis
    proof (cases "?size > h_end h - h_current h")
      case True
      then have "unat (h_end h) - unat (h_current h) < (unat n + 15) div 16 * 16"
        by (simp add: unat_less_iff room size)
      moreover have "(unat (h_end h) - unat (h_current h)) mod 16 = 0"
        using h(5,6) by (metis dvd_diff_nat dvd_eq_mod_eq_0)
      ultimately have "unat (h_end h) - unat (h_current h) < unat n" by (rule less_round_up_16D)
      with True False fits show ?thesis using fail by (simp add: heap_allocate_def Let_def)
    next
      case ok: False
      let ?h = "h\<lparr>h_current := h_current h + ?size\<rparr>"
      have le: "unat (h_current h) + unat ?size \<le> unat (h_end h)"
        using ok h(3) by (simp add: unat_less_iff unat_le_iff room)
      then have cur: "unat (h_current h + ?size) = unat (h_current h) + unat ?size"
        using unat_less_64 [of "h_end h"] by (simp add: unat_word_ariths)
      have "heap_inv ?h"
        using h le cur size by (simp add: heap_inv_def unat_le_iff mod_add_eq [symmetric] mod_simps)
      with False fits ok le cur size show ?thesis
        by (intro block [of ?h]) (auto simp: heap_allocate_def Let_def unat_le_iff)
    qed
  qed
qed

lemma heap_allocate_inv: "heap_inv h \<Longrightarrow> heap_inv (snd (heap_allocate n h))"
  by (cases rule: heap_allocate_cases [of h n]) auto

lemma heap_current_bounds:
  "heap_inv h \<Longrightarrow> h_start h \<le> h_current h \<and> h_current h \<le> h_end h \<and> unat (h_current h) mod 16 = 0"
  by (auto simp: heap_inv_def heap_boot_def)

text \<open>
  A request is refused exactly when it is for no bytes, the heap is not initialised or fewer
  bytes than requested are left, and then nothing changes.  Otherwise the block is 16-byte aligned,
  starts where the previous one ended, is at least as long as requested, and lies below the end of
  the heap.
\<close>

theorem heap_allocate_spec:
  assumes "heap_inv h"
  shows "case heap_allocate n h of (p, h') \<Rightarrow>
    heap_inv h' \<and>
    (p = 0 \<longleftrightarrow> n = 0 \<or> h_current h = 0 \<or> unat (h_end h) - unat (h_current h) < unat n) \<and>
    (if p = 0 then h' = h
     else p = h_current h \<and> unat p mod 16 = 0 \<and> unat p + unat n \<le> unat (h_current h') \<and>
       unat (h_current h') < unat p + unat n + 16 \<and> h_current h' \<le> h_end h \<and>
       h_start h' = h_start h \<and> h_end h' = h_end h)"
proof (cases rule: heap_allocate_cases [OF assms, of n])
  case 1
  then show ?thesis using assms by simp
next
  case (2 h')
  have "unat n \<le> (unat n + 15) div 16 * 16" "(unat n + 15) div 16 * 16 < unat n + 16" by arith+
  with 2 heap_current_bounds [OF assms] show ?thesis by (auto simp: unat_le_iff)
qed

lemma heap_run_inv:
  "heap_inv h \<Longrightarrow> heap_inv (snd (heap_run ns h)) \<and> h_current h \<le> h_current (snd (heap_run ns h)) \<and>
     h_start (snd (heap_run ns h)) = h_start h \<and> h_end (snd (heap_run ns h)) = h_end h"
proof (induction ns arbitrary: h)
  case (Cons n ns)
  have "heap_inv (snd (heap_allocate n h)) \<and> h_current h \<le> h_current (snd (heap_allocate n h)) \<and>
      h_start (snd (heap_allocate n h)) = h_start h \<and> h_end (snd (heap_allocate n h)) = h_end h"
    using Cons.prems by (cases rule: heap_allocate_cases [OF Cons.prems, of n]) (auto simp: unat_le_iff)
  with Cons.IH [of "snd (heap_allocate n h)"] show ?case
    by (auto simp: split_beta Let_def)
qed simp

lemma heap_run_length [simp]: "length (fst (heap_run ns h)) = length ns"
  by (induction ns arbitrary: h) (auto simp: split_beta Let_def)

lemma heap_run_bounds:
  assumes "heap_inv h" "i < length ns" "fst (heap_run ns h) ! i \<noteq> 0"
  shows "unat (h_current h) \<le> unat (fst (heap_run ns h) ! i) \<and>
    unat (fst (heap_run ns h) ! i) + unat (ns ! i) \<le> unat (h_end h)"
  using assms
proof (induction ns arbitrary: h i)
  case (Cons n ns)
  let ?h = "snd (heap_allocate n h)"
  have step: "heap_inv ?h" "h_current h \<le> h_current ?h" "h_end ?h = h_end h"
    using heap_run_inv [OF Cons.prems(1), of "[n]"] by (simp_all add: split_beta Let_def)
  show ?case
  proof (cases i)
    case 0
    with Cons.prems show ?thesis
      by (cases rule: heap_allocate_cases [OF Cons.prems(1), of n])
        (auto simp: split_beta Let_def unat_le_iff)
  next
    case (Suc j)
    with Cons.prems Cons.IH [OF step(1), of j] step(2,3) show ?thesis
      by (auto simp: split_beta Let_def unat_le_iff)
  qed
qed simp

text \<open>
  C39: in any sequence of requests the blocks that are handed out lie inside the heap and do not
  overlap: each ends before every later one starts.
\<close>

theorem heap_run_disjoint:
  assumes "heap_inv h" and "i < j" and "j < length ns"
    and "fst (heap_run ns h) ! i \<noteq> 0" and "fst (heap_run ns h) ! j \<noteq> 0"
  shows "unat (h_start h) \<le> unat (fst (heap_run ns h) ! i) \<and>
    unat (fst (heap_run ns h) ! i) + unat (ns ! i) \<le> unat (fst (heap_run ns h) ! j) \<and>
    unat (fst (heap_run ns h) ! j) + unat (ns ! j) \<le> unat (h_end h)"
  using assms
proof (induction ns arbitrary: h i j)
  case (Cons n ns)
  let ?h = "snd (heap_allocate n h)"
  have step: "heap_inv ?h" "h_start ?h = h_start h" "h_end ?h = h_end h"
    using heap_run_inv [OF Cons.prems(1), of "[n]"] by (simp_all add: split_beta Let_def)
  obtain j' where j: "j = Suc j'" using Cons.prems(2) by (cases j) auto
  have block: "unat (h_start h) \<le> unat p \<and> unat p + unat n \<le> unat (h_current ?h)"
    if "fst (heap_allocate n h) = p" "p \<noteq> 0" for p
  proof -
    have "unat n \<le> (unat n + 15) div 16 * 16" by arith
    with that show ?thesis
      using heap_current_bounds [OF Cons.prems(1)]
      by (cases rule: heap_allocate_cases [OF Cons.prems(1), of n]) (auto simp: unat_le_iff)
  qed
  show ?case
  proof (cases i)
    case 0
    with j Cons.prems heap_run_bounds [OF step(1), of j' ns] step block show ?thesis
      by (fastforce simp: split_beta Let_def)
  next
    case (Suc i')
    with j Cons.prems Cons.IH [OF step(1), of i' j'] step show ?thesis
      by (auto simp: split_beta Let_def)
  qed
qed simp

text \<open>
  rewinding to a checkpoint after any sequence of requests succeeds and restores exactly the
  heap the checkpoint was taken from.
\<close>

lemma heap_rewind_restores:
  assumes "heap_inv h" and "h_current h \<noteq> 0"
  shows "heap_rewind (heap_checkpoint h) (snd (heap_run ns h)) = (True, h)"
proof -
  have run: "h_current h \<le> h_current (snd (heap_run ns h))" "h_start (snd (heap_run ns h)) = h_start h"
    "h_end (snd (heap_run ns h)) = h_end h" using heap_run_inv [OF assms(1)] by auto
  moreover have "h_current (snd (heap_run ns h)) \<noteq> 0"
    using run(1) assms(2) by (auto simp: unat_le_iff unat_eq_iff)
  ultimately show ?thesis
    using heap_current_bounds [OF assms(1)]
    by (auto simp: heap_rewind_def heap_checkpoint_def and_15_iff)
qed

subsection \<open>Where the heap is placed\<close>

definition heap_in_region :: "u64 \<Rightarrow> e820_entry \<Rightarrow> memory_state \<Rightarrow> bool" where
  "heap_in_region kernel_end e m \<longleftrightarrow>
     e820_type e = 1 \<and> g_heap_start m = kernel_end \<and> e820_base e \<le> g_heap_start m \<and>
     unat (g_heap_end m) \<le> unat (e820_base e) + unat (e820_length e) \<and>
     unat (g_heap_start m) + 4096 < unat (g_heap_end m) \<and> g_heap_end m \<le> kHeapLimit"

lemma memory_scan_entry_heap:
  "memory_scan_entry k m e = m' \<Longrightarrow>
     (g_heap_start m' = g_heap_start m \<and> g_heap_end m' = g_heap_end m) \<or>
     (g_heap_start m = 0 \<and> heap_in_region k e m')"
proof -
  assume scan: "memory_scan_entry k m e = m'"
  let ?re = "saturating_add (e820_base e) (e820_length e)"
  let ?cand = "if ?re > kHeapLimit then kHeapLimit else ?re"
  show ?thesis
  proof (cases "g_heap_start m' = g_heap_start m \<and> g_heap_end m' = g_heap_end m")
    case False
    then have placed: "e820_type e = 1" "g_heap_start m = 0" "e820_base e \<le> k" "k < kIdentityMapEnd"
      "?cand > k + 4096" "g_heap_start m' = k" "g_heap_end m' = ?cand"
      using scan by (auto simp: memory_scan_entry_def Let_def split: if_splits)
    have "unat (k + 4096) = unat k + 4096"
      using placed(4) by (simp add: kIdentityMapEnd_def unat_less_iff unat_word_ariths)
    then have "unat k + 4096 < unat ?cand" using placed(5) by (simp only: unat_less_iff)
    moreover have "unat ?cand \<le> unat ?re" "?cand \<le> kHeapLimit" by (auto simp: unat_less_iff unat_le_iff)
    moreover have "unat ?re \<le> unat (e820_base e) + unat (e820_length e)"
      by (simp add: unat_saturating_add)
    ultimately have "heap_in_region k e m'"
      using placed by (auto simp: heap_in_region_def)
    then show ?thesis using placed(2) by simp
  qed simp
qed

lemma memory_scan_max:
  "g_maximum_physical (memory_scan_entry k m e) =
     max_end_scan (\<lambda>e. e820_length e = 0) [e] (g_maximum_physical m)"
  by (auto simp: memory_scan_entry_def Let_def)

lemma foldl_memory_scan:
  "g_maximum_physical (foldl (memory_scan_entry k) m es) =
     max_end_scan (\<lambda>e. e820_length e = 0) es (g_maximum_physical m)"
proof (induction es arbitrary: m)
  case (Cons e es)
  then show ?case by (simp add: memory_scan_max Let_def)
qed simp

lemma foldl_memory_heap:
  assumes "g_heap_start m = 0" "g_heap_start (foldl (memory_scan_entry k) m es) \<noteq> 0"
  shows "\<exists>e \<in> set es. heap_in_region k e (foldl (memory_scan_entry k) m es)"
  using assms
proof (induction es rule: rev_induct)
  case (snoc e es)
  let ?m = "foldl (memory_scan_entry k) m es"
  from memory_scan_entry_heap [of k ?m e, OF refl] show ?case
  proof (elim disjE)
    assume same: "g_heap_start (memory_scan_entry k ?m e) = g_heap_start ?m \<and>
        g_heap_end (memory_scan_entry k ?m e) = g_heap_end ?m"
    with snoc obtain e' where "e' \<in> set es" "heap_in_region k e' ?m" by auto
    with same show ?thesis by (auto simp: heap_in_region_def)
  qed auto
qed simp

lemma align_up_16_aligned: "unat (align_up_16 v) mod 16 = 0"
  by (simp add: align_up_16_def unat_round_down_16)

lemma align_up_16_id: "unat v mod 16 = 0 \<Longrightarrow> align_up_16 v = v"
proof -
  assume v: "unat v mod 16 = 0"
  then obtain q where q: "unat v = 16 * q" by (auto elim: dvdE simp flip: dvd_eq_mod_eq_0)
  show ?thesis
  proof (cases "v > UINT64_MAX - 15")
    case True
    have "unat v \<le> 18446744073709551600"
    proof -
      have "16 * q < 16 * 1152921504606846976" using q unat_less_64 [of v] by simp
      then have "q \<le> 1152921504606846975" by simp
      then show ?thesis unfolding q by simp
    qed
    with True show ?thesis by (simp add: unat_less_iff unat_max_minus)
  next
    case False
    then have "unat (align_up_16 v) = (unat v + 15) div 16 * 16"
      by (simp add: align_up_16_def unat_round_up_16)
    also have "\<dots> = unat v" unfolding q by simp
    finally show ?thesis by (simp add: unat_eq_iff)
  qed
qed

text \<open>
  when \<open>memory::initialize\<close> succeeds, the heap range it reports starts at the 16-byte aligned
  end of the kernel, lies inside one usable E820 region and below \<open>0x1F0000\<close>, is longer than a
  page, and is accepted by the heap, which then serves it in full; the maximum address reported is
  that of the stand-alone scan.
\<close>

lemma memory_initialize_heap:
  assumes "memory_initialize kernel_end_symbol boot m0 = (True, m)"
  shows "(\<exists>e \<in> set (boot_entries boot). e820_type e = 1 \<and>
      g_heap_start m = align_up_16 kernel_end_symbol \<and> e820_base e \<le> g_heap_start m \<and>
      unat (g_heap_end m) \<le> unat (e820_base e) + unat (e820_length e) \<and>
      unat (g_heap_start m) + 4096 < unat (g_heap_end m) \<and> g_heap_end m \<le> kHeapLimit) \<and>
    fst (heap_initialize (g_heap_start m) (g_heap_end m) h) \<and>
    h_start (snd (heap_initialize (g_heap_start m) (g_heap_end m) h)) = g_heap_start m \<and>
    g_maximum_physical m = maximum_physical_address boot"
proof -
  let ?k = "align_up_16 kernel_end_symbol"
  let ?m0 = "\<lparr>g_total_bytes = 0, g_usable_bytes = 0, g_usable_regions = 0,
      g_maximum_physical = 0, g_heap_start = 0, g_heap_end = 0\<rparr>"
  have readable: "boot_map_readable boot" and m: "m = foldl (memory_scan_entry ?k) ?m0 (boot_entries boot)"
    and start: "g_heap_start m \<noteq> 0"
    using assms by (auto simp: memory_initialize_def Let_def split: if_splits)
  from foldl_memory_heap [of ?m0 ?k "boot_entries boot"] start
  obtain e where e: "e \<in> set (boot_entries boot)" "heap_in_region ?k e m" by (auto simp: m)
  have "align_up_16 (g_heap_start m) = g_heap_start m"
    using e(2) by (intro align_up_16_id) (simp add: heap_in_region_def align_up_16_aligned)
  moreover have "\<not> round_down_16 (g_heap_end m) \<le> g_heap_start m"
  proof -
    have "unat (g_heap_end m) mod 16 < 16" by simp
    moreover have "unat (g_heap_start m) + 4096 < unat (g_heap_end m)"
      using e(2) unfolding heap_in_region_def by blast
    ultimately show ?thesis unfolding unat_le_iff unat_round_down_16 by linarith
  qed
  ultimately have "fst (heap_initialize (g_heap_start m) (g_heap_end m) h) \<and>
      h_start (snd (heap_initialize (g_heap_start m) (g_heap_end m) h)) = g_heap_start m"
    using start by (simp add: heap_initialize_def Let_def)
  moreover have "g_maximum_physical m = maximum_physical_address boot"
    using readable by (simp add: m foldl_memory_scan maximum_physical_address_def)
  ultimately show ?thesis using e by (auto simp: heap_in_region_def)
qed

subsection \<open>A small heap\<close>

definition demo_heap :: heap_state where
  "demo_heap = snd (heap_initialize 0x1001 0x2000 heap_boot)"

lemma demo_heap_inv: "heap_inv demo_heap"
  unfolding demo_heap_def by (rule heap_initialize_inv)

lemma demo_heap_eq: "demo_heap = \<lparr>h_start = 0x1010, h_current = 0x1010, h_end = 0x2000\<rparr>"
  by code_simp

lemma demo_heap_run:
  "heap_run [20, 0x10000, 1] demo_heap =
     ([0x1010, 0, 0x1030], \<lparr>h_start = 0x1010, h_current = 0x1040, h_end = 0x2000\<rparr>)"
  by code_simp

theorem heap_allocate_spec_witness:
  "heap_inv demo_heap \<and> fst (heap_allocate 20 demo_heap) = 0x1010 \<and> fst (heap_allocate 0x10000 demo_heap) = 0"
  using heap_allocate_spec [OF demo_heap_inv, of 20] heap_allocate_spec [OF demo_heap_inv, of "0x10000"] demo_heap_inv
  by (auto simp: demo_heap_eq split: prod.splits if_splits)

theorem heap_run_disjoint_witness:
  "unat (fst (heap_run [20, 0x10000, 1] demo_heap) ! 0) + 20 \<le>
     unat (fst (heap_run [20, 0x10000, 1] demo_heap) ! 2)"
  using heap_run_disjoint [OF demo_heap_inv, of 0 2 "[20, 0x10000, 1]"]
  by (simp add: demo_heap_run del: heap_run.simps)

lemma heap_rewind_demo:
  "heap_rewind (heap_checkpoint demo_heap) (snd (heap_run [20, 0x10000, 1] demo_heap)) = (True, demo_heap)"
  using heap_rewind_restores [OF demo_heap_inv, of "[20, 0x10000, 1]"] by (simp add: demo_heap_eq)

definition demo_low_boot :: boot_info where
  "demo_low_boot = \<lparr>bi_magic = kBootInfoMagic, bi_e820_count = 1, bi_e820_address = 0x5000,
     bi_entries = [\<lparr>e820_base = 0x100000, e820_length = 0x700000, e820_type = 1, e820_attributes = 0\<rparr>],
     bi_boot_drive = 0x80,
     bi_framebuffer = \<lparr>fb_physical_address = 0, fb_width = 0, fb_height = 0, fb_pitch = 0,
       fb_bits_per_pixel = 0, fb_red_mask_size = 0, fb_red_mask_shift = 0, fb_green_mask_size = 0,
       fb_green_mask_shift = 0, fb_blue_mask_size = 0, fb_blue_mask_shift = 0, fb_available = 0\<rparr>\<rparr>"

definition demo_memory :: memory_state where
  "demo_memory = \<lparr>g_total_bytes = 0x700000, g_usable_bytes = 0x700000, g_usable_regions = 1,
     g_maximum_physical = 0x800000, g_heap_start = 0x150010, g_heap_end = 0x1F0000\<rparr>"

lemma memory_initialize_demo:
  "memory_initialize 0x150001 demo_low_boot demo_memory = (True, demo_memory) \<and>
   fst (heap_initialize (g_heap_start demo_memory) (g_heap_end demo_memory) heap_boot) \<and>
   g_maximum_physical demo_memory = maximum_physical_address demo_low_boot"
proof -
  have run: "memory_initialize 0x150001 demo_low_boot demo_memory = (True, demo_memory)" by code_simp
  from memory_initialize_heap [OF run, of heap_boot] run show ?thesis by simp
qed

end
