(* ===== verification/Paging.thy ===== *)
theory Paging
  imports Physical
begin

text \<open>
  Four-level page tables (\<^verbatim>\<open>kernel/memory/paging.hpp\<close>, \<^verbatim>\<open>paging.cpp\<close>).  Physical memory is a
  function from the physical address of an aligned 8-byte cell to its value; a table pointer
  obtained through the direct map is the physical address of the table.  The state also holds the
  page allocator, \<^verbatim>\<open>CR3\<close>, the NX-enable bit of \<^verbatim>\<open>EFER\<close> and the addresses given to
  \<^verbatim>\<open>invlpg\<close>.  The lemmas relate the unrolled walks of the code to one recursive walk over a
  well-formed tree of tables: mapping and unmapping change the translation of one page only.
\<close>

unbundle bit_operations_syntax

subsection \<open>Entries\<close>

record page_info =
  pi_present :: bool
  pi_user :: bool
  pi_writable :: bool
  pi_executable :: bool
  pi_physical :: u64

definition kInvalidAddress :: u64 where [kernel_const]: "kInvalidAddress = UINT64_MAX"
definition kPagePresent :: u64 where [kernel_const]: "kPagePresent = push_bit 0 1"
definition kPageWritable :: u64 where [kernel_const]: "kPageWritable = push_bit 1 1"
definition kPageUser :: u64 where [kernel_const]: "kPageUser = push_bit 2 1"
definition kPageHuge :: u64 where [kernel_const]: "kPageHuge = push_bit 7 1"
definition kPageGlobal :: u64 where [kernel_const]: "kPageGlobal = push_bit 8 1"
definition kPageNoExecute :: u64 where [kernel_const]: "kPageNoExecute = push_bit 63 1"
definition kAddressMask :: u64 where [kernel_const]: "kAddressMask = 0x000FFFFFFFFFF000"
definition kOneGiBAddressMask :: u64 where [kernel_const]: "kOneGiBAddressMask = 0x000FFFFFC0000000"
definition kTwoMiBAddressMask :: u64 where [kernel_const]: "kTwoMiBAddressMask = 0x000FFFFFFFE00000"
definition kEntriesPerTable :: nat where "kEntriesPerTable = 512"

definition pml4_index :: "u64 \<Rightarrow> u16" where
  "pml4_index va = ucast (drop_bit 39 va AND 0x1FF)"
definition pdpt_index :: "u64 \<Rightarrow> u16" where
  "pdpt_index va = ucast (drop_bit 30 va AND 0x1FF)"
definition pd_index :: "u64 \<Rightarrow> u16" where
  "pd_index va = ucast (drop_bit 21 va AND 0x1FF)"
definition pt_index :: "u64 \<Rightarrow> u16" where
  "pt_index va = ucast (drop_bit 12 va AND 0x1FF)"

subsection \<open>State and tables\<close>

record vm_state =
  vm_phys :: phys_state
  vm_mem :: "u64 \<Rightarrow> u64"
  vm_cr3 :: u64
  vm_nxe :: bool
  vm_flushed :: "u64 list"

definition entry_addr :: "u64 \<Rightarrow> u16 \<Rightarrow> u64" where
  "entry_addr table i = table + 8 * ucast i"

definition zero_table :: "u64 \<Rightarrow> (u64 \<Rightarrow> u64) \<Rightarrow> u64 \<Rightarrow> u64" where
  "zero_table table mem =
     fold (\<lambda>i m. m(entry_addr table (of_nat i) := 0)) [0..<kEntriesPerTable] mem"

definition allocate_table :: "vm_state \<Rightarrow> u64 \<times> vm_state" where
  "allocate_table s =
     (let (p, ph) = allocate_page (vm_phys s); s = s\<lparr>vm_phys := ph\<rparr>
      in if p = kInvalidPhysicalAddress then (kInvalidAddress, s)
         else (p, s\<lparr>vm_mem := zero_table p (vm_mem s)\<rparr>))"

definition child_table :: "u64 \<Rightarrow> u16 \<Rightarrow> bool \<Rightarrow> vm_state \<Rightarrow> u64 \<times> vm_state" where
  "child_table table i create s =
     (let e = vm_mem s (entry_addr table i)
      in if e AND kPagePresent \<noteq> 0 then
           (if e AND kPageHuge \<noteq> 0 then (kInvalidAddress, s) else (e AND kAddressMask, s))
         else if \<not> create then (kInvalidAddress, s)
         else let (child, s) = allocate_table s
              in if child = kInvalidAddress then (kInvalidAddress, s)
                 else (child, s\<lparr>vm_mem := (vm_mem s)
                        (entry_addr table i := child OR kPagePresent OR kPageWritable)\<rparr>))"

definition table_empty :: "u64 \<Rightarrow> (u64 \<Rightarrow> u64) \<Rightarrow> bool" where
  "table_empty table mem \<longleftrightarrow>
     list_all (\<lambda>i. mem (entry_addr table (of_nat i)) AND kPagePresent = 0) [0..<kEntriesPerTable]"

definition root_physical :: "vm_state \<Rightarrow> u64" where
  "root_physical s = vm_cr3 s AND kAddressMask"

definition invlpg :: "u64 \<Rightarrow> vm_state \<Rightarrow> vm_state" where
  "invlpg va s = s\<lparr>vm_flushed := va # vm_flushed s\<rparr>"

subsection \<open>Operations\<close>

definition map_page :: "u64 \<Rightarrow> u64 \<Rightarrow> u64 \<Rightarrow> vm_state \<Rightarrow> bool \<times> vm_state" where
  "map_page va pa flags s =
     (if \<not> is_page_aligned va \<or> \<not> is_page_aligned pa \<or>
         (flags AND kPageNoExecute \<noteq> 0 \<and> \<not> vm_nxe s) then (False, s)
      else let (pdpt, s) = child_table (root_physical s) (pml4_index va) True s
      in if pdpt = kInvalidAddress then (False, s)
      else let (pd, s) = child_table pdpt (pdpt_index va) True s
      in if pd = kInvalidAddress then (False, s)
      else let (pt, s) = child_table pd (pd_index va) True s
      in if pt = kInvalidAddress then (False, s)
      else let pte = entry_addr pt (pt_index va)
      in if vm_mem s pte AND kPagePresent \<noteq> 0 then (False, s)
      else let allowed = kPageWritable OR kPageUser OR kPageGlobal OR kPageNoExecute;
               s = s\<lparr>vm_mem := (vm_mem s)
                     (pte := (pa AND kAddressMask) OR (flags AND allowed) OR kPagePresent)\<rparr>
      in (True, invlpg va s))"

definition translate :: "vm_state \<Rightarrow> u64 \<Rightarrow> u64" where
  "translate s va =
     (let pml4e = vm_mem s (entry_addr (root_physical s) (pml4_index va))
      in if pml4e AND kPagePresent = 0 then kInvalidAddress
      else let pdpte = vm_mem s (entry_addr (pml4e AND kAddressMask) (pdpt_index va))
      in if pdpte AND kPagePresent = 0 then kInvalidAddress
      else if pdpte AND kPageHuge \<noteq> 0 then (pdpte AND kOneGiBAddressMask) OR (va AND 0x3FFFFFFF)
      else let pde = vm_mem s (entry_addr (pdpte AND kAddressMask) (pd_index va))
      in if pde AND kPagePresent = 0 then kInvalidAddress
      else if pde AND kPageHuge \<noteq> 0 then (pde AND kTwoMiBAddressMask) OR (va AND 0x1FFFFF)
      else let pte = vm_mem s (entry_addr (pde AND kAddressMask) (pt_index va))
      in if pte AND kPagePresent = 0 then kInvalidAddress
      else (pte AND kAddressMask) OR (va AND 0xFFF))"

definition is_mapped :: "vm_state \<Rightarrow> u64 \<Rightarrow> bool" where
  "is_mapped s va \<longleftrightarrow> translate s va \<noteq> kInvalidAddress"

definition no_page :: page_info where
  "no_page = \<lparr>pi_present = False, pi_user = False, pi_writable = False, pi_executable = False, pi_physical = 0\<rparr>"

definition query_page :: "u64 \<Rightarrow> u64 \<Rightarrow> (u64 \<Rightarrow> u64) \<Rightarrow> bool \<times> page_info" where
  "query_page root va mem =
     (if \<not> is_page_aligned root then (False, no_page)
      else let pml4e = mem (entry_addr root (pml4_index va))
      in if pml4e AND kPagePresent = 0 then (True, no_page)
      else let user = (pml4e AND kPageUser \<noteq> 0);
               writable = (pml4e AND kPageWritable \<noteq> 0);
               executable = (pml4e AND kPageNoExecute = 0);
               pdpte = mem (entry_addr (pml4e AND kAddressMask) (pdpt_index va))
      in if pdpte AND kPagePresent = 0 then (True, no_page)
      else let user = (user \<and> pdpte AND kPageUser \<noteq> 0);
               writable = (writable \<and> pdpte AND kPageWritable \<noteq> 0);
               executable = (executable \<and> pdpte AND kPageNoExecute = 0)
      in if pdpte AND kPageHuge \<noteq> 0 then
           (True, \<lparr>pi_present = True, pi_user = user, pi_writable = writable, pi_executable = executable,
                   pi_physical = (pdpte AND kOneGiBAddressMask) OR (va AND 0x3FFFFFFF)\<rparr>)
      else let pde = mem (entry_addr (pdpte AND kAddressMask) (pd_index va))
      in if pde AND kPagePresent = 0 then (True, no_page)
      else let user = (user \<and> pde AND kPageUser \<noteq> 0);
               writable = (writable \<and> pde AND kPageWritable \<noteq> 0);
               executable = (executable \<and> pde AND kPageNoExecute = 0)
      in if pde AND kPageHuge \<noteq> 0 then
           (True, \<lparr>pi_present = True, pi_user = user, pi_writable = writable, pi_executable = executable,
                   pi_physical = (pde AND kTwoMiBAddressMask) OR (va AND 0x1FFFFF)\<rparr>)
      else let pte = mem (entry_addr (pde AND kAddressMask) (pt_index va))
      in if pte AND kPagePresent = 0 then (True, no_page)
      else (True, \<lparr>pi_present = True, pi_user = (user \<and> pte AND kPageUser \<noteq> 0),
                   pi_writable = (writable \<and> pte AND kPageWritable \<noteq> 0),
                   pi_executable = (executable \<and> pte AND kPageNoExecute = 0),
                   pi_physical = (pte AND kAddressMask) OR (va AND 0xFFF)\<rparr>))"

definition release_page :: "u64 \<Rightarrow> vm_state \<Rightarrow> bool \<times> vm_state" where
  "release_page p s = (let (ok, ph) = free_page p (vm_phys s) in (ok, s\<lparr>vm_phys := ph\<rparr>))"

definition write_entry :: "u64 \<Rightarrow> u64 \<Rightarrow> vm_state \<Rightarrow> vm_state" where
  "write_entry a v s = s\<lparr>vm_mem := (vm_mem s)(a := v)\<rparr>"

definition unmap_page :: "u64 \<Rightarrow> vm_state \<Rightarrow> bool \<times> vm_state" where
  "unmap_page va s =
     (if \<not> is_page_aligned va then (False, s)
      else let pml4e_at = entry_addr (root_physical s) (pml4_index va); pml4e = vm_mem s pml4e_at
      in if pml4e AND kPagePresent = 0 \<or> pml4e AND kPageHuge \<noteq> 0 then (False, s)
      else let pdpt = pml4e AND kAddressMask; pdpte_at = entry_addr pdpt (pdpt_index va); pdpte = vm_mem s pdpte_at
      in if pdpte AND kPagePresent = 0 \<or> pdpte AND kPageHuge \<noteq> 0 then (False, s)
      else let pd = pdpte AND kAddressMask; pde_at = entry_addr pd (pd_index va); pde = vm_mem s pde_at
      in if pde AND kPagePresent = 0 \<or> pde AND kPageHuge \<noteq> 0 then (False, s)
      else let pt = pde AND kAddressMask; pte_at = entry_addr pt (pt_index va)
      in if vm_mem s pte_at AND kPagePresent = 0 then (False, s)
      else let s = invlpg va (write_entry pte_at 0 s)
      in if \<not> table_empty pt (vm_mem s) then (True, s)
      else let (ok, s) = release_page pt (write_entry pde_at 0 s)
      in if \<not> ok then (False, s)
      else if \<not> table_empty pd (vm_mem s) then (True, s)
      else let (ok, s) = release_page pd (write_entry pdpte_at 0 s)
      in if \<not> ok then (False, s)
      else if \<not> table_empty pdpt (vm_mem s) then (True, s)
      else release_page pdpt (write_entry pml4e_at 0 s))"

subsection \<open>Bits of entries\<close>

lemma and_flag_iff:
  "e AND kPagePresent = 0 \<longleftrightarrow> \<not> bit e 0" "e AND kPageHuge = 0 \<longleftrightarrow> \<not> bit e 7"
  "e AND kPageUser = 0 \<longleftrightarrow> \<not> bit e 2" "e AND kPageWritable = 0 \<longleftrightarrow> \<not> bit e 1"
  "e AND kPageNoExecute = 0 \<longleftrightarrow> \<not> bit e 63"
  unfolding kPagePresent_def kPageHuge_def kPageUser_def kPageWritable_def kPageNoExecute_def
  by (simp_all only: bit_iff_and_push_bit_not_eq_0 not_not)

lemma address_mask_eq: "kAddressMask = mask 52 AND NOT (mask 12)"
  by (simp add: kAddressMask_def mask_eq_exp_minus_1)

lemma bit_address_mask [simp]: "bit kAddressMask n \<longleftrightarrow> 12 \<le> n \<and> n < 52"
  unfolding address_mask_eq by (auto simp: bit_simps)

lemma and_address_mask_id:
  assumes "is_page_aligned p" and "unat p < 2 ^ 52"
  shows "p AND kAddressMask = p"
proof -
  have "take_bit 52 p = p" using assms(2) by (simp add: unat_eq_iff unat_take_bit)
  moreover have "take_bit 12 p = 0" using assms(1) by (simp add: unat_eq_iff unat_take_bit is_page_aligned_iff)
  ultimately have "n < 52" "12 \<le> n" if "bit p n" for n
    using that by (metis bit_take_bit_iff, metis bit_take_bit_iff bit_0_eq bot_apply bot_bool_def not_le)
  then show ?thesis by (intro bit_eqI) (auto simp: bit_and_iff)
qed

lemma masked_address: "is_page_aligned (e AND kAddressMask)" "unat (e AND kAddressMask) < 2 ^ 52"
proof -
  have "(e AND kAddressMask) AND mask 12 = 0"
    by (rule bit_eqI) (auto simp: bit_simps)
  then show "is_page_aligned (e AND kAddressMask)" by (simp add: is_page_aligned_def page_mask)
  have "e AND kAddressMask = take_bit 52 (e AND kAddressMask)"
    by (rule bit_eqI) (auto simp: bit_simps)
  then have "unat (e AND kAddressMask) = unat (e AND kAddressMask) mod 2 ^ 52"
    by (metis unat_take_bit)
  then show "unat (e AND kAddressMask) < 2 ^ 52"
    by (metis mod_less_divisor zero_less_numeral zero_less_power)
qed

lemma masked_valid [simp]: "e AND kAddressMask \<noteq> kInvalidAddress"
  using masked_address(2) [of e] by (auto simp: kInvalidAddress_def)

subsection \<open>Entry addresses\<close>

lemma unat_entry_addr:
  assumes "unat t < 2 ^ 52"
  shows "unat (entry_addr t i) = unat t + 8 * unat i"
proof -
  have i: "unat i < 2 ^ 16" using unsigned_less [of i] by simp
  have "unat (ucast i :: u64) = unat i"
    using i by (simp add: unsigned_ucast_eq take_bit_nat_eq_self)
  then have "unat (8 * ucast i :: u64) = 8 * unat i"
    using i by (simp add: unat_word_ariths)
  then show ?thesis using assms i unfolding entry_addr_def by (simp add: unat_word_ariths)
qed

lemma entry_addr_inj:
  assumes "is_page_aligned t" "is_page_aligned t'" "unat t < 2 ^ 52" "unat t' < 2 ^ 52"
    and "unat i < 512" "unat i' < 512"
  shows "entry_addr t i = entry_addr t' i' \<longleftrightarrow> t = t' \<and> i = i'"
proof
  assume "entry_addr t i = entry_addr t' i'"
  then have eq: "unat t + 8 * unat i = unat t' + 8 * unat i'"
    using assms unat_entry_addr by metis
  obtain q q' where q: "unat t = 4096 * q" "unat t' = 4096 * q'"
    using assms(1,2) by (auto simp: is_page_aligned_iff elim!: dvdE simp flip: dvd_eq_mod_eq_0)
  have "(4096 * q + 8 * unat i) div 4096 = q" "(4096 * q' + 8 * unat i') div 4096 = q'"
    using assms(5,6) by simp_all
  with eq q have "unat t = unat t'" by metis
  with eq show "t = t' \<and> i = i'" by (simp add: unat_eq_iff)
qed simp

definition table_index :: "nat \<Rightarrow> u64 \<Rightarrow> u16" where
  "table_index l va = ucast (drop_bit (9 * l + 3) va AND 0x1FF)"

lemma index_levels:
  "pml4_index va = table_index 4 va" "pdpt_index va = table_index 3 va"
  "pd_index va = table_index 2 va" "pt_index va = table_index 1 va"
  by (simp_all add: pml4_index_def pdpt_index_def pd_index_def pt_index_def table_index_def)

lemma mask_9: "(0x1FF :: u64) = mask 9"
  by (simp add: mask_eq_exp_minus_1)

lemma bit_table_index: "bit (table_index l va) n \<longleftrightarrow> n < 9 \<and> bit va (9 * l + 3 + n)"
  by (auto simp: table_index_def mask_9 bit_simps)

lemma table_index_less [simp]: "unat (table_index l va) < 512"
proof -
  have "table_index l va = take_bit 9 (table_index l va)"
    by (rule bit_eqI) (auto simp: bit_table_index bit_take_bit_iff)
  then have "unat (table_index l va) = unat (table_index l va) mod 2 ^ 9" by (metis unat_take_bit)
  also have "\<dots> < 512" by simp
  finally show ?thesis .
qed

text \<open>The 48-bit page number: what the four indices read of an address.\<close>

definition page_of :: "u64 \<Rightarrow> u64" where
  "page_of va = take_bit 36 (drop_bit 12 va)"

lemma page_of_eq_iff: "page_of va = page_of va' \<longleftrightarrow> (\<forall>l\<in>{1..4}. table_index l va = table_index l va')"
proof
  assume eq: "page_of va = page_of va'"
  have b: "bit va (12 + n) = bit va' (12 + n)" if "n < 36" for n
  proof -
    have "bit (page_of va) n = bit (page_of va') n" using eq by simp
    then show ?thesis using that by (simp add: page_of_def bit_simps)
  qed
  have c: "bit va m = bit va' m" if "12 \<le> m" "m < 48" for m
    using b [of "m - 12"] that by simp
  show "\<forall>l\<in>{1..4}. table_index l va = table_index l va'"
  proof (intro ballI bit_eqI)
    fix l n :: nat assume "l \<in> {1..4}"
    then have "9 \<le> 9 * l" "9 * l \<le> 36" by auto
    then show "bit (table_index l va) n = bit (table_index l va') n"
      unfolding bit_table_index using c [of "9 * l + 3 + n"] by linarith
  qed
next
  assume eq: "\<forall>l\<in>{1..4}. table_index l va = table_index l va'"
  have "bit va (12 + n) = bit va' (12 + n)" if "n < 36" for n
  proof -
    let ?l = "n div 9 + 1"
    have "?l \<in> {1..4}" using that by auto
    with eq have "bit (table_index ?l va) (n mod 9) = bit (table_index ?l va') (n mod 9)" by simp
    moreover have "9 * ?l + 3 + n mod 9 = 12 + n" by simp
    ultimately show ?thesis by (simp only: bit_table_index) simp
  qed
  then show "page_of va = page_of va'"
    by (intro bit_eqI) (simp add: page_of_def bit_simps, blast)
qed

subsection \<open>Zeroed and empty tables\<close>

lemma zero_table_eq:
  assumes "is_page_aligned t" "unat t < 2 ^ 52"
  shows "zero_table t mem a = (if \<exists>i. unat i < 512 \<and> a = entry_addr t i then 0 else mem a)"
proof -
  have "fold (\<lambda>i m. m(entry_addr t (of_nat i) := 0)) is mem a =
      (if \<exists>i\<in>set is. a = entry_addr t (of_nat i) then 0 else mem a)" for "is"
    by (induction "is" arbitrary: mem) auto
  moreover have "(\<exists>i\<in>set [0..<512]. a = entry_addr t (of_nat i)) \<longleftrightarrow> (\<exists>i. unat i < 512 \<and> a = entry_addr t i)"
  proof (intro iffI; elim bexE exE conjE)
    fix i :: nat assume "i \<in> set [0..<512]" "a = entry_addr t (of_nat i)"
    then show "\<exists>i. unat i < 512 \<and> a = entry_addr t i"
      by (intro exI [of _ "of_nat i"]) (simp add: unat_of_nat_small)
  next
    fix i :: u16 assume "unat i < 512" "a = entry_addr t i"
    then show "\<exists>i\<in>set [0..<512]. a = entry_addr t (of_nat i)"
      by (intro bexI [of _ "unat i"]) auto
  qed
  ultimately show ?thesis by (simp add: zero_table_def kEntriesPerTable_def)
qed

lemma table_empty_iff: "table_empty t mem \<longleftrightarrow> (\<forall>i. unat i < 512 \<longrightarrow> \<not> bit (mem (entry_addr t i)) 0)"
proof -
  have "(\<forall>i\<in>set [0..<512]. \<not> bit (mem (entry_addr t (of_nat i))) 0) \<longleftrightarrow>
      (\<forall>i. unat i < 512 \<longrightarrow> \<not> bit (mem (entry_addr t i)) 0)"
  proof (intro iffI allI ballI impI)
    fix i :: u16 assume "\<forall>i\<in>set [0..<512]. \<not> bit (mem (entry_addr t (of_nat i))) 0" "unat i < 512"
    then show "\<not> bit (mem (entry_addr t i)) 0" by (metis atLeast0LessThan lessThan_iff of_nat_unat_id set_upt)
  next
    fix i :: nat assume "\<forall>i. unat i < 512 \<longrightarrow> \<not> bit (mem (entry_addr t i)) 0" "i \<in> set [0..<512]"
    then show "\<not> bit (mem (entry_addr t (of_nat i))) 0" by (simp add: unat_of_nat_small)
  qed
  then show ?thesis by (simp add: table_empty_def kEntriesPerTable_def list_all_iff and_flag_iff)
qed

subsection \<open>The recursive walk\<close>

definition leaf_value :: "nat \<Rightarrow> u64 \<Rightarrow> u64 \<Rightarrow> u64" where
  "leaf_value l e va =
     (if l = 1 then (e AND kAddressMask) OR (va AND 0xFFF)
      else if l = 2 then (e AND kTwoMiBAddressMask) OR (va AND 0x1FFFFF)
      else (e AND kOneGiBAddressMask) OR (va AND 0x3FFFFFFF))"

fun walk :: "(u64 \<Rightarrow> u64) \<Rightarrow> nat \<Rightarrow> u64 \<Rightarrow> u64 \<Rightarrow> u64" where
  "walk mem 0 t va = kInvalidAddress"
| "walk mem (Suc l) t va =
     (let e = mem (entry_addr t (table_index (Suc l) va))
      in if \<not> bit e 0 then kInvalidAddress
         else if l = 0 \<or> (l < 3 \<and> bit e 7) then leaf_value (Suc l) e va
         else walk mem l (e AND kAddressMask) va)"

text \<open>The level-1 table a walk ends in, if it gets there.\<close>

fun leaf_table :: "(u64 \<Rightarrow> u64) \<Rightarrow> nat \<Rightarrow> u64 \<Rightarrow> u64 \<Rightarrow> u64 option" where
  "leaf_table mem 0 t va = None"
| "leaf_table mem (Suc l) t va =
     (if l = 0 then Some t
      else let e = mem (entry_addr t (table_index (Suc l) va))
           in if bit e 0 \<and> \<not> bit e 7 then leaf_table mem l (e AND kAddressMask) va else None)"

lemmas walk_numeral =
  walk.simps(2) [of _ 3, simplified] walk.simps(2) [of _ 2, simplified]
  walk.simps(2) [of _ 1, unfolded Suc_1, simplified] walk.simps(2) [of _ 0]

lemmas leaf_table_numeral =
  leaf_table.simps(2) [of _ 3, simplified] leaf_table.simps(2) [of _ 2, simplified]
  leaf_table.simps(2) [of _ 1, unfolded Suc_1, simplified]

lemma translate_walk: "translate s va = walk (vm_mem s) 4 (root_physical s) va"
  unfolding translate_def index_levels and_flag_iff Let_def
  by (simp add: walk_numeral leaf_value_def Let_def del: walk.simps split del: if_split cong: if_cong)

subsection \<open>Well-formed trees of tables\<close>

text \<open>
  \<open>T\<close> gives the level of every table page: the root is at level 4, a present entry that is no huge
  page points to a table one level below, and no two entries point to the same table.  Table pages
  are allocated, so that the allocator never hands one out again.
\<close>

definition points_to :: "(u64 \<Rightarrow> u64) \<Rightarrow> u64 \<Rightarrow> u16 \<Rightarrow> u64 \<Rightarrow> bool" where
  "points_to mem t i c \<longleftrightarrow> unat i < 512 \<and> bit (mem (entry_addr t i)) 0 \<and>
     \<not> bit (mem (entry_addr t i)) 7 \<and> c = mem (entry_addr t i) AND kAddressMask"

definition page_taken :: "phys_state \<Rightarrow> u64 \<Rightarrow> bool" where
  "page_taken ph p \<longleftrightarrow> is_page_aligned p \<and> unat p < 2 ^ 52 \<and> p div kPageSize \<notin> pb_free (g_used ph)"

definition tree_ok :: "(u64 \<rightharpoonup> nat) \<Rightarrow> (u64 \<Rightarrow> u64) \<Rightarrow> bool" where
  "tree_ok T mem \<longleftrightarrow>
     (\<forall>t l i c. T t = Some l \<longrightarrow> 2 \<le> l \<longrightarrow> points_to mem t i c \<longrightarrow> T c = Some (l - 1)) \<and>
     (\<forall>t i. T t = Some 4 \<longrightarrow> unat i < 512 \<longrightarrow> bit (mem (entry_addr t i)) 0 \<longrightarrow> \<not> bit (mem (entry_addr t i)) 7) \<and>
     (\<forall>t l i t' l' i' c. T t = Some l \<longrightarrow> 2 \<le> l \<longrightarrow> T t' = Some l' \<longrightarrow> 2 \<le> l' \<longrightarrow>
        points_to mem t i c \<longrightarrow> points_to mem t' i' c \<longrightarrow> t = t' \<and> i = i')"

definition vm_tree :: "(u64 \<rightharpoonup> nat) \<Rightarrow> u64 \<Rightarrow> vm_state \<Rightarrow> bool" where
  "vm_tree T root s \<longleftrightarrow> phys_inv (vm_phys s) \<and> T root = Some 4 \<and>
     (\<forall>t l. T t = Some l \<longrightarrow> 1 \<le> l \<and> l \<le> 4 \<and> page_taken (vm_phys s) t) \<and> tree_ok T (vm_mem s)"

lemma tree_child: "tree_ok T mem \<Longrightarrow> T t = Some l \<Longrightarrow> 2 \<le> l \<Longrightarrow> points_to mem t i c \<Longrightarrow> T c = Some (l - 1)"
  unfolding tree_ok_def by blast

lemma tree_inj:
  "tree_ok T mem \<Longrightarrow> T t = Some l \<Longrightarrow> 2 \<le> l \<Longrightarrow> T t' = Some l' \<Longrightarrow> 2 \<le> l' \<Longrightarrow>
     points_to mem t i c \<Longrightarrow> points_to mem t' i' c \<Longrightarrow> t = t' \<and> i = i'"
  unfolding tree_ok_def by blast

lemma tree_root_not_huge:
  "tree_ok T mem \<Longrightarrow> T t = Some 4 \<Longrightarrow> unat i < 512 \<Longrightarrow> bit (mem (entry_addr t i)) 0 \<Longrightarrow>
     \<not> bit (mem (entry_addr t i)) 7"
  unfolding tree_ok_def by blast

lemma entry_addr_eq_taken:
  "page_taken ph t \<Longrightarrow> page_taken ph' t' \<Longrightarrow> unat i < 512 \<Longrightarrow> unat i' < 512 \<Longrightarrow>
     entry_addr t i = entry_addr t' i' \<longleftrightarrow> t = t' \<and> i = i'"
  unfolding page_taken_def by (rule entry_addr_inj) auto

lemma leaf_table_level:
  assumes "tree_ok T mem"
  shows "leaf_table mem l t va = Some x \<Longrightarrow> T t = Some l \<Longrightarrow> T x = Some 1"
proof (induction l arbitrary: t)
  case (Suc l)
  then show ?case
    using tree_child [OF assms Suc.prems(2), of "table_index (Suc l) va"]
    by (auto simp: points_to_def Let_def split: if_splits)
qed simp

text \<open>Two walks that end in the same level-1 table used the same indices on the way.\<close>

lemma leaf_table_inj:
  assumes "tree_ok T mem"
  shows "leaf_table mem l t va = Some x \<Longrightarrow> leaf_table mem l t' va' = Some x \<Longrightarrow>
    T t = Some l \<Longrightarrow> T t' = Some l \<Longrightarrow> t = t' \<and> (\<forall>k\<in>{2..l}. table_index k va = table_index k va')"
proof (induction l arbitrary: t t')
  case (Suc l)
  show ?case
  proof (cases "l = 0")
    case False
    let ?i = "table_index (Suc l) va" and ?i' = "table_index (Suc l) va'"
    let ?c = "mem (entry_addr t ?i) AND kAddressMask" and ?c' = "mem (entry_addr t' ?i') AND kAddressMask"
    have p: "points_to mem t ?i ?c" "points_to mem t' ?i' ?c'"
      and sub: "leaf_table mem l ?c va = Some x" "leaf_table mem l ?c' va' = Some x"
      using Suc.prems(1,2) False by (auto simp: points_to_def Let_def split: if_splits)
    have T: "T ?c = Some l" "T ?c' = Some l"
      using tree_child [OF assms Suc.prems(3) _ p(1)] tree_child [OF assms Suc.prems(4) _ p(2)] False by auto
    from Suc.IH [OF sub T] have eq: "?c = ?c'" "\<forall>k\<in>{2..l}. table_index k va = table_index k va'" by auto
    have "t = t' \<and> ?i = ?i'"
      using tree_inj [OF assms Suc.prems(3) _ Suc.prems(4) _ p(1) p(2) [folded eq(1)]] False by simp
    then show ?thesis using eq(2) by (auto simp: le_Suc_eq)
  qed (use Suc.prems in auto)
qed simp

subsection \<open>Writing an entry of a leaf table\<close>

lemma walk_frame:
  assumes tree: "tree_ok T mem"
    and same: "\<And>t l i. T t = Some l \<Longrightarrow> 2 \<le> l \<Longrightarrow> unat i < 512 \<Longrightarrow> mem' (entry_addr t i) = mem (entry_addr t i)"
  shows "T t = Some l \<Longrightarrow> l \<le> 4 \<Longrightarrow>
      (\<And>x. leaf_table mem l t va = Some x \<Longrightarrow>
         mem' (entry_addr x (table_index 1 va)) = mem (entry_addr x (table_index 1 va))) \<Longrightarrow>
      walk mem' l t va = walk mem l t va"
    and "T t = Some l \<Longrightarrow> leaf_table mem' l t va = leaf_table mem l t va"
proof (induction l arbitrary: t)
  case (Suc l)
  define en where "en t = mem (entry_addr t (table_index (Suc l) va))" for t
  have child: "T (en t AND kAddressMask) = Some l"
    if "l \<noteq> 0" "bit (en t) 0" "\<not> bit (en t) 7" "T t = Some (Suc l)" for t
    using tree_child [OF tree that(4), of "table_index (Suc l) va" "en t AND kAddressMask"] that
    by (simp add: points_to_def en_def)
  have e: "mem' (entry_addr t (table_index (Suc l) va)) = en t" if "l \<noteq> 0" "T t = Some (Suc l)" for t
    using same [of t "Suc l"] that by (simp add: en_def)
  { case 1
    have nh: "\<not> bit (en t) 7" if "l = 3" "bit (en t) 0"
      using tree_root_not_huge [OF tree _ table_index_less that(2) [unfolded en_def]] 1(1) that(1)
      by (simp add: en_def)
    show ?case
    proof (cases "l \<noteq> 0 \<and> bit (en t) 0 \<and> \<not> bit (en t) 7")
      case True
      then have "walk mem' l (en t AND kAddressMask) va = walk mem l (en t AND kAddressMask) va"
        using 1 child by (intro Suc.IH(1)) (auto simp: Let_def en_def)
      then show ?thesis using True 1 e by (simp add: Let_def flip: en_def)
    next
      case False
      then show ?thesis using 1 e nh by (cases "l = 0") (auto simp: Let_def simp flip: en_def)
    qed
  next
    case 2
    then show ?case using e child Suc.IH(2) by (cases "l = 0") (auto simp: Let_def simp flip: en_def)
  }
qed simp_all

lemma tree_ok_frame:
  assumes "tree_ok T mem"
    and same: "\<And>t l i. T t = Some l \<Longrightarrow> 2 \<le> l \<Longrightarrow> unat i < 512 \<Longrightarrow> mem' (entry_addr t i) = mem (entry_addr t i)"
  shows "tree_ok T mem'"
proof -
  have pt: "points_to mem' t i c \<longleftrightarrow> points_to mem t i c" if "T t = Some l" "2 \<le> l" for t l i c
    using same [OF that] by (auto simp: points_to_def)
  show ?thesis
    unfolding tree_ok_def
  proof (intro conjI allI impI)
    fix t l i c assume "T t = Some l" "2 \<le> l" "points_to mem' t i c"
    then show "T c = Some (l - 1)" using pt tree_child [OF assms(1)] by blast
  next
    fix t i assume "T t = Some 4" "unat i < 512" "bit (mem' (entry_addr t i)) 0"
    then show "\<not> bit (mem' (entry_addr t i)) 7"
      using same [of t 4 i] tree_root_not_huge [OF assms(1)] by simp
  next
    fix t l i t' l' i' c
    assume "T t = Some l" "2 \<le> l" "T t' = Some l'" "2 \<le> l'" "points_to mem' t i c" "points_to mem' t' i' c"
    then have "t = t' \<and> i = i'" using pt tree_inj [OF assms(1)] by blast
    then show "t = t'" "i = i'" by auto
  qed
qed

subsection \<open>Installing a fresh table\<close>

definition entry_flags :: "u64 \<Rightarrow> bool" where
  "entry_flags fl \<longleftrightarrow> bit fl 0 \<and> \<not> bit fl 7 \<and> fl AND kAddressMask = 0"

lemma install_entry:
  assumes "entry_flags fl" "is_page_aligned q" "unat q < 2 ^ 52"
  shows "bit (q OR fl) 0" "\<not> bit (q OR fl) 7" "(q OR fl) AND kAddressMask = q"
proof -
  have m: "q AND kAddressMask = q" using assms(2,3) by (rule and_address_mask_id)
  have "\<not> bit (q AND kAddressMask) 7" by (simp add: bit_and_iff)
  then have "\<not> bit q 7" unfolding m .
  with assms(1) m show "bit (q OR fl) 0" "\<not> bit (q OR fl) 7" "(q OR fl) AND kAddressMask = q"
    by (auto simp: entry_flags_def bit_or_iff and.commute bit.conj_disj_distrib)
qed

text \<open>An absent entry of a table of the tree, and a page outside the tree that is to become its child.\<close>

definition fresh_slot :: "(u64 \<rightharpoonup> nat) \<Rightarrow> (u64 \<Rightarrow> u64) \<Rightarrow> u64 \<Rightarrow> u16 \<Rightarrow> nat \<Rightarrow> u64 \<Rightarrow> u64 \<Rightarrow> bool" where
  "fresh_slot T mem t0 i0 l0 q fl \<longleftrightarrow> tree_ok T mem \<and>
     (\<forall>t l. T t = Some l \<longrightarrow> is_page_aligned t \<and> unat t < 2 ^ 52 \<and> 1 \<le> l \<and> l \<le> 4) \<and>
     T t0 = Some l0 \<and> 2 \<le> l0 \<and> unat i0 < 512 \<and> \<not> bit (mem (entry_addr t0 i0)) 0 \<and>
     T q = None \<and> is_page_aligned q \<and> unat q < 2 ^ 52 \<and> entry_flags fl"

definition installed :: "u64 \<Rightarrow> u64 \<Rightarrow> u64 \<Rightarrow> u16 \<Rightarrow> (u64 \<Rightarrow> u64) \<Rightarrow> u64 \<Rightarrow> u64" where
  "installed q fl t0 i0 mem = (zero_table q mem)(entry_addr t0 i0 := q OR fl)"

lemma installed_old:
  "fresh_slot T mem t0 i0 l0 q fl \<Longrightarrow> T t = Some l \<Longrightarrow> unat i < 512 \<Longrightarrow>
     installed q fl t0 i0 mem (entry_addr t i) = (if t = t0 \<and> i = i0 then q OR fl else mem (entry_addr t i))"
  by (auto simp: fresh_slot_def installed_def entry_addr_inj zero_table_eq)

lemma installed_new:
  "fresh_slot T mem t0 i0 l0 q fl \<Longrightarrow> unat i < 512 \<Longrightarrow> installed q fl t0 i0 mem (entry_addr q i) = 0"
  by (auto simp: fresh_slot_def installed_def entry_addr_inj zero_table_eq)

lemma fresh_slot_entry:
  "fresh_slot T mem t0 i0 l0 q fl \<Longrightarrow>
     bit (q OR fl) 0 \<and> \<not> bit (q OR fl) 7 \<and> (q OR fl) AND kAddressMask = q"
  using install_entry [of fl q] by (simp add: fresh_slot_def)

lemma walk_installed_new:
  "fresh_slot T mem t0 i0 l0 q fl \<Longrightarrow> walk (installed q fl t0 i0 mem) l q va = kInvalidAddress"
  by (cases l) (auto simp: Let_def installed_new)

lemma walk_installed:
  assumes fresh: "fresh_slot T mem t0 i0 l0 q fl"
  shows "T t = Some l \<Longrightarrow> walk (installed q fl t0 i0 mem) l t va = walk mem l t va"
proof (induction l arbitrary: t)
  case (Suc l)
  let ?i = "table_index (Suc l) va"
  let ?e = "mem (entry_addr t ?i)"
  have tree: "tree_ok T mem" and l: "Suc l \<le> 4" using fresh Suc.prems unfolding fresh_slot_def by blast+
  note e = installed_old [OF fresh Suc.prems, of ?i, OF table_index_less]
  show ?case
  proof (cases "t = t0 \<and> ?i = i0")
    case True
    then have "l \<noteq> 0" "\<not> bit ?e 0" using fresh Suc.prems by (auto simp: fresh_slot_def)
    then show ?thesis
      using True e fresh_slot_entry [OF fresh] walk_installed_new [OF fresh, of l va]
      by (simp add: Let_def split: if_splits)
  next
    case False
    have "walk (installed q fl t0 i0 mem) l (?e AND kAddressMask) va = walk mem l (?e AND kAddressMask) va"
      if "bit ?e 0" "\<not> (l = 0 \<or> (l < 3 \<and> bit ?e 7))"
    proof (rule Suc.IH)
      have "l = 3 \<Longrightarrow> \<not> bit ?e 7"
        using tree_root_not_huge [OF tree _ table_index_less that(1)] Suc.prems by simp
      then have "points_to mem t ?i (?e AND kAddressMask)" using that l by (auto simp: points_to_def)
      then show "T (?e AND kAddressMask) = Some l"
        using tree_child [OF tree Suc.prems] that(2) by simp
    qed
    then show ?thesis using e False by (auto simp: Let_def)
  qed
qed simp

lemma points_to_installed:
  assumes "fresh_slot T mem t0 i0 l0 q fl"
  shows "T t = Some l \<Longrightarrow> points_to (installed q fl t0 i0 mem) t i c \<longleftrightarrow>
     (if t = t0 \<and> i = i0 then c = q else points_to mem t i c)"
    and "\<not> points_to (installed q fl t0 i0 mem) q i c"
    and "T t = Some l \<Longrightarrow> 2 \<le> l \<Longrightarrow> \<not> points_to mem t i q"
  using installed_old [OF assms, of t l i] installed_new [OF assms, of i] fresh_slot_entry [OF assms]
    assms tree_child [of T mem t l i q]
  by (auto simp: points_to_def fresh_slot_def)

lemma tree_installed:
  assumes fresh: "fresh_slot T mem t0 i0 l0 q fl"
  shows "tree_ok (T(q \<mapsto> l0 - 1)) (installed q fl t0 i0 mem)" (is "tree_ok ?T ?mem")
  unfolding tree_ok_def
proof (intro conjI allI impI)
  have tree: "tree_ok T mem" and q: "T q = None" and slot: "T t0 = Some l0" using fresh by (auto simp: fresh_slot_def)
  note pt = points_to_installed [OF fresh]
  { fix t l i c assume a: "?T t = Some l" "2 \<le> l" "points_to ?mem t i c"
    then have t: "t \<noteq> q" "T t = Some l" using pt(2) by (auto split: if_splits)
    with a show "?T c = Some (l - 1)"
      using pt(1) [OF t(2)] slot tree_child [OF tree t(2) a(2)] q by (auto split: if_splits) }
  { fix t i assume a: "?T t = Some 4" "unat i < 512" "bit (?mem (entry_addr t i)) 0"
    then have t: "T t = Some 4" using installed_new [OF fresh a(2)] by (auto split: if_splits)
    then show "\<not> bit (?mem (entry_addr t i)) 7"
      using installed_old [OF fresh t a(2)] a fresh_slot_entry [OF fresh] tree_root_not_huge [OF tree t a(2)]
      by (auto split: if_splits) }
  fix t l i t' l' i' c
  assume a: "?T t = Some l" "2 \<le> l" "?T t' = Some l'" "2 \<le> l'" "points_to ?mem t i c" "points_to ?mem t' i' c"
  then have t: "T t = Some l" "T t' = Some l'" using pt(2) by (auto split: if_splits)
  have "t = t' \<and> i = i'"
    using pt(1) [OF t(1)] pt(1) [OF t(2)] a(5,6) pt(3) [OF t(1) a(2)] pt(3) [OF t(2) a(4)]
      tree_inj [OF tree t(1) a(2) t(2) a(4)]
    by (auto split: if_splits)
  then show "t = t'" "i = i'" by auto
qed

subsection \<open>Descending and creating tables\<close>

text \<open>
  The two \<^verbatim>\<open>child\<close> routines of the kernel differ in the flags of the entry they create; the
  lemmas are about this common form.
\<close>

definition table_child :: "u64 \<Rightarrow> u64 \<Rightarrow> u16 \<Rightarrow> vm_state \<Rightarrow> u64 \<times> vm_state" where
  "table_child fl t i s =
     (let e = vm_mem s (entry_addr t i)
      in if bit e 0 then (if bit e 7 then (kInvalidAddress, s) else (e AND kAddressMask, s))
         else let (c, s) = allocate_table s
              in if c = kInvalidAddress then (kInvalidAddress, s)
                 else (c, write_entry (entry_addr t i) (c OR fl) s))"

fun table_path :: "u64 \<Rightarrow> nat \<Rightarrow> u64 \<Rightarrow> u64 \<Rightarrow> vm_state \<Rightarrow> u64 \<times> vm_state" where
  "table_path fl 0 t va s = (kInvalidAddress, s)"
| "table_path fl (Suc l) t va s =
     (if l = 0 then (t, s)
      else let (c, s) = table_child fl t (table_index (Suc l) va) s
           in if c = kInvalidAddress then (kInvalidAddress, s) else table_path fl l c va s)"

definition free_set :: "vm_state \<Rightarrow> u64 set" where
  "free_set s = pb_free (g_used (vm_phys s))"

definition vm_grows :: "(u64 \<rightharpoonup> nat) \<Rightarrow> vm_state \<Rightarrow> (u64 \<rightharpoonup> nat) \<Rightarrow> vm_state \<Rightarrow> bool" where
  "vm_grows T s T' s' \<longleftrightarrow> T \<subseteq>\<^sub>m T' \<and>
     (\<forall>t l va. T t = Some l \<longrightarrow> walk (vm_mem s') l t va = walk (vm_mem s) l t va) \<and>
     (\<forall>t l i. T t = Some l \<longrightarrow> unat i < 512 \<longrightarrow> bit (vm_mem s (entry_addr t i)) 0 \<longrightarrow>
        vm_mem s' (entry_addr t i) = vm_mem s (entry_addr t i)) \<and>
     vm_cr3 s' = vm_cr3 s \<and> vm_nxe s' = vm_nxe s \<and> vm_flushed s' = vm_flushed s"

lemma vm_grows_refl [simp]: "vm_grows T s T s"
  by (simp add: vm_grows_def)

lemma vm_grows_Some: "vm_grows T s T' s' \<Longrightarrow> T t = Some l \<Longrightarrow> T' t = Some l"
  unfolding vm_grows_def map_le_def by (metis domI)

lemma vm_grows_trans:
  assumes "vm_grows T s T' s'" "vm_grows T' s' T'' s''"
  shows "vm_grows T s T'' s''"
proof -
  have up: "T' t = Some l" if "T t = Some l" for t l
    using assms(1) that by (rule vm_grows_Some)
  show ?thesis
    unfolding vm_grows_def
  proof (intro conjI allI impI)
    show "T \<subseteq>\<^sub>m T''" using assms map_le_trans unfolding vm_grows_def by blast
  next
    fix t l va assume "T t = Some l"
    then show "walk (vm_mem s'') l t va = walk (vm_mem s) l t va"
      using up assms unfolding vm_grows_def by simp
  next
    fix t l i assume "T t = Some l" "unat i < 512" "bit (vm_mem s (entry_addr t i)) 0"
    moreover from this have "vm_mem s' (entry_addr t i) = vm_mem s (entry_addr t i)"
      using assms(1) unfolding vm_grows_def by blast
    ultimately show "vm_mem s'' (entry_addr t i) = vm_mem s (entry_addr t i)"
      using up assms(2) unfolding vm_grows_def by metis
  qed (use assms in \<open>simp_all add: vm_grows_def\<close>)
qed

lemma allocate_table_cases:
  assumes "phys_inv (vm_phys s)" and "allocate_table s = (c, s')"
  shows "(c = kInvalidAddress \<and> free_set s = {} \<and> s' = s) \<or>
    (c \<noteq> kInvalidAddress \<and> c div kPageSize \<in> free_set s \<and> is_page_aligned c \<and> unat c < 2 ^ 52 \<and>
     phys_inv (vm_phys s') \<and> free_set s' = free_set s - {c div kPageSize} \<and>
     s' = s\<lparr>vm_phys := vm_phys s', vm_mem := zero_table c (vm_mem s)\<rparr>)"
proof (cases "free_set s = {}")
  case True
  then have "allocate_page (vm_phys s) = (kInvalidPhysicalAddress, vm_phys s)"
    using allocate_page_empty [OF assms(1)] by (simp add: free_set_def)
  then show ?thesis using assms(2) True by (simp add: allocate_table_def)
next
  case False
  then obtain i ph where run: "allocate_page (vm_phys s) = (i * kPageSize, ph)"
    and i: "i \<in> free_set s" and ph: "phys_inv ph" "pb_free (g_used ph) = free_set s - {i}"
    using allocate_page_some [OF assms(1)] unfolding free_set_def by metis
  have "i < g_page_count (vm_phys s)" "unat (g_page_count (vm_phys s)) \<le> 2 ^ 24"
    using assms(1) i pb_free_below [of i "g_used (vm_phys s)"] by (auto simp: phys_inv_def free_set_def)
  note ix = index_times_page [OF this]
  have "unat i < 2 ^ 24" using \<open>i < _\<close> \<open>unat (g_page_count _) \<le> _\<close> by (simp add: unat_less_iff)
  then have small: "unat (i * kPageSize) < 2 ^ 52" using ix(1) by simp
  have cs: "c = i * kPageSize" "s' = s\<lparr>vm_phys := ph, vm_mem := zero_table c (vm_mem s)\<rparr>"
    using assms(2) ix(4) by (auto simp: allocate_table_def run)
  have "c \<noteq> kInvalidAddress" using ix(4) cs(1) by (simp add: kInvalidPhysicalAddress_def kInvalidAddress_def)
  moreover have "vm_phys s' = ph" "c div kPageSize = i" using cs ix(2) by simp_all
  ultimately show ?thesis using cs ix(3) small i ph by (simp add: free_set_def)
qed

lemma allocate_table_reserved:
  assumes "phys_inv (vm_phys s)" and "allocate_table s = (c, s')"
  shows "g_reserved (vm_phys s') = g_reserved (vm_phys s)"
proof (cases "free_set s = {}")
  case True
  then show ?thesis using assms allocate_page_empty [OF assms(1)] by (auto simp: allocate_table_def free_set_def)
next
  case False
  then obtain i ph where "allocate_page (vm_phys s) = (i * kPageSize, ph)" "g_reserved ph = g_reserved (vm_phys s)"
    using allocate_page_some [OF assms(1)] unfolding free_set_def by metis
  then show ?thesis using assms(2) by (auto simp: allocate_table_def Let_def split: if_splits)
qed

lemma table_child_result:
  assumes inv: "vm_tree T r s" and t: "T t = Some l" "2 \<le> l" "unat i < 512" and fl: "entry_flags fl"
    and run: "table_child fl t i s = (c, s')"
  shows "\<exists>T'. vm_grows T s T' s' \<and> vm_tree T' r s' \<and> card (free_set s) \<le> Suc (card (free_set s')) \<and>
    (if c = kInvalidAddress
     then free_set s = {} \<or> (bit (vm_mem s (entry_addr t i)) 0 \<and> bit (vm_mem s (entry_addr t i)) 7)
     else T' c = Some (l - 1) \<and> points_to (vm_mem s') t i c \<and>
       (if bit (vm_mem s (entry_addr t i)) 0 then s' = s
        else vm_mem s' (entry_addr t i) = c OR fl \<and> (\<forall>j. unat j < 512 \<longrightarrow> vm_mem s' (entry_addr c j) = 0)))"
proof (cases "bit (vm_mem s (entry_addr t i)) 0")
  case True
  then have s': "s' = s" using run by (auto simp: table_child_def Let_def split: if_splits)
  have "points_to (vm_mem s) t i c" if "c \<noteq> kInvalidAddress"
    using run True that t(3) by (auto simp: table_child_def Let_def points_to_def split: if_splits)
  moreover have "bit (vm_mem s (entry_addr t i)) 7" if "c = kInvalidAddress"
    using run True that by (auto simp: table_child_def Let_def split: if_splits)
  ultimately show ?thesis
    using s' inv True tree_child [of T "vm_mem s" t l i c] t by (intro exI [of _ T]) (auto simp: vm_tree_def)
next
  case False
  obtain c0 s0 where a: "allocate_table s = (c0, s0)" by fastforce
  have ph: "phys_inv (vm_phys s)" using inv by (simp add: vm_tree_def)
  from allocate_table_cases [OF ph a] show ?thesis
  proof (elim disjE conjE)
    assume "c0 = kInvalidAddress" "free_set s = {}" "s0 = s"
    then show ?thesis using run False a inv by (intro exI [of _ T]) (auto simp: table_child_def Let_def)
  next
    assume c: "c0 \<noteq> kInvalidAddress" "c0 div kPageSize \<in> free_set s" "is_page_aligned c0" "unat c0 < 2 ^ 52"
      "phys_inv (vm_phys s0)" "free_set s0 = free_set s - {c0 div kPageSize}"
      "s0 = s\<lparr>vm_phys := vm_phys s0, vm_mem := zero_table c0 (vm_mem s)\<rparr>"
    then have r: "c = c0" "s' = write_entry (entry_addr t i) (c OR fl) s0"
      using run False a by (auto simp: table_child_def Let_def)
    have s': "vm_mem s' = installed c fl t i (vm_mem s)" "vm_phys s' = vm_phys s0"
      "vm_cr3 s' = vm_cr3 s" "vm_nxe s' = vm_nxe s" "vm_flushed s' = vm_flushed s"
      by (subst r(2), subst c(7), simp add: write_entry_def installed_def r(1))+
    have Tc: "T c = None" using inv c(2) r(1) by (cases "T c") (auto simp: vm_tree_def page_taken_def free_set_def)
    have fresh: "fresh_slot T (vm_mem s) t i l c fl"
      using inv t fl False c Tc r(1) by (auto simp: fresh_slot_def vm_tree_def page_taken_def)
    have f': "free_set s' = free_set s - {c div kPageSize}" using c(6) r(1) s'(2) by (simp add: free_set_def)
    have taken: "page_taken (vm_phys s') u" if "T u = Some k \<or> u = c" for u k
      using that inv c r(1) f' by (auto simp: vm_tree_def page_taken_def free_set_def)
    have "l \<le> 4" using inv t(1) by (auto simp: vm_tree_def)
    have "vm_tree (T(c \<mapsto> l - 1)) r s'"
      using inv tree_installed [OF fresh] s' c(5) taken t(2) \<open>l \<le> 4\<close> Tc
      by (auto simp: vm_tree_def split: if_splits)
    moreover have "vm_grows T s (T(c \<mapsto> l - 1)) s'"
      using walk_installed [OF fresh] installed_old [OF fresh] False Tc s'
      by (auto simp: vm_grows_def map_le_def)
    moreover have "points_to (vm_mem s') t i c" "vm_mem s' (entry_addr t i) = c OR fl"
      "\<forall>j. unat j < 512 \<longrightarrow> vm_mem s' (entry_addr c j) = 0"
      using points_to_installed(1) [OF fresh t(1)] installed_old [OF fresh t(1) t(3)] installed_new [OF fresh] s'(1)
      by simp_all
    moreover have "card (free_set s) \<le> Suc (card (free_set s'))"
      unfolding f' by (auto simp: card_Diff_singleton_if free_set_def)
    ultimately show ?thesis using c(1) r(1) False by (intro exI [of _ "T(c \<mapsto> l - 1)"]) simp
  qed
qed

lemma leaf_value_valid [simp]: "leaf_value l e va \<noteq> kInvalidAddress"
proof -
  have "\<not> bit (leaf_value l e va) 63"
    by (simp add: leaf_value_def bit_simps kTwoMiBAddressMask_def kOneGiBAddressMask_def)
  moreover have "bit kInvalidAddress 63" by (simp add: kInvalidAddress_def)
  ultimately show ?thesis by metis
qed

lemma walk_points_to:
  assumes "points_to mem t (table_index (Suc l) va) c" "l \<noteq> 0"
  shows "walk mem (Suc l) t va = walk mem l c va" "leaf_table mem (Suc l) t va = leaf_table mem l c va"
  using assms by (auto simp: points_to_def Let_def)

lemma vm_tree_taken: "vm_tree T r s \<Longrightarrow> T t = Some l \<Longrightarrow> page_taken (vm_phys s) t \<and> 1 \<le> l \<and> l \<le> 4"
  unfolding vm_tree_def by blast

lemma vm_tree_valid: "vm_tree T r s \<Longrightarrow> T t = Some l \<Longrightarrow> t \<noteq> kInvalidAddress"
  using vm_tree_taken [of T r s t l] by (auto simp: page_taken_def kInvalidAddress_def)

lemma table_path_result:
  assumes fl: "entry_flags fl"
  shows "vm_tree T r s \<Longrightarrow> T t = Some l \<Longrightarrow> table_path fl l t va s = (pt, s') \<Longrightarrow>
    \<exists>T'. vm_grows T s T' s' \<and> vm_tree T' r s' \<and>
      (if pt = kInvalidAddress then walk (vm_mem s) l t va \<noteq> kInvalidAddress \<or> card (free_set s) < l - 1
       else T' pt = Some 1 \<and> leaf_table (vm_mem s') l t va = Some pt)"
proof (induction l arbitrary: T t s)
  case 0
  then show ?case by (auto simp: vm_tree_def)
next
  case (Suc l)
  let ?i = "table_index (Suc l) va"
  show ?case
  proof (cases "l = 0")
    case True
    have "t \<noteq> kInvalidAddress" using vm_tree_valid Suc.prems(1,2) .
    then show ?thesis using Suc.prems True by (intro exI [of _ T]) auto
  next
    case False
    obtain c s1 where child: "table_child fl t ?i s = (c, s1)" by fastforce
    from table_child_result [OF Suc.prems(1,2) _ _ fl child] False obtain T1 where
      g1: "vm_grows T s T1 s1" and t1: "vm_tree T1 r s1" and k1: "card (free_set s) \<le> Suc (card (free_set s1))"
      and c: "if c = kInvalidAddress
        then free_set s = {} \<or> (bit (vm_mem s (entry_addr t ?i)) 0 \<and> bit (vm_mem s (entry_addr t ?i)) 7)
        else T1 c = Some l \<and> points_to (vm_mem s1) t ?i c"
      by (auto split: if_splits)
    show ?thesis
    proof (cases "c = kInvalidAddress")
      case True
      have "walk (vm_mem s) (Suc l) t va \<noteq> kInvalidAddress"
        if "bit (vm_mem s (entry_addr t ?i)) 0" "bit (vm_mem s (entry_addr t ?i)) 7"
      proof -
        have "Suc l \<noteq> 4"
          using that tree_root_not_huge [of T "vm_mem s" t ?i] Suc.prems(1,2) table_index_less
          unfolding vm_tree_def by metis
        moreover have "Suc l \<le> 4" using vm_tree_taken [OF Suc.prems(1,2)] by simp
        ultimately show ?thesis using that by (simp add: Let_def)
      qed
      then show ?thesis
        using True False c child Suc.prems(3) g1 t1 by (intro exI [of _ T1]) auto
    next
      case valid: False
      then have p: "T1 c = Some l" "points_to (vm_mem s1) t ?i c" using c by simp_all
      have "table_path fl l c va s1 = (pt, s')" using Suc.prems(3) False child valid by simp
      from Suc.IH [OF t1 p(1) this] obtain T' where g2: "vm_grows T1 s1 T' s'" and t2: "vm_tree T' r s'"
        and res: "if pt = kInvalidAddress then walk (vm_mem s1) l c va \<noteq> kInvalidAddress \<or> card (free_set s1) < l - 1
          else T' pt = Some 1 \<and> leaf_table (vm_mem s') l c va = Some pt" by blast
      have same: "walk (vm_mem s) (Suc l) t va = walk (vm_mem s1) l c va"
        using g1 Suc.prems(2) walk_points_to(1) [OF p(2) False] unfolding vm_grows_def by metis
      have "points_to (vm_mem s') t ?i c"
        using g2 p(2) vm_grows_Some [OF g1 Suc.prems(2)] unfolding vm_grows_def points_to_def by metis
      from walk_points_to(2) [OF this False]
      have "leaf_table (vm_mem s') (Suc l) t va = leaf_table (vm_mem s') l c va" .
      then show ?thesis
        using res same k1 False vm_grows_trans [OF g1 g2] t2
        by (intro exI [of _ T']) (auto split: if_splits simp del: walk.simps leaf_table.simps)
    qed
  qed
qed

lemma child_table_create: "child_table t i True s = table_child (kPagePresent OR kPageWritable) t i s"
  by (simp add: child_table_def table_child_def and_flag_iff write_entry_def Let_def or.assoc split_beta)

definition pte_value :: "u64 \<Rightarrow> u64 \<Rightarrow> u64" where
  "pte_value pa flags = (pa AND kAddressMask) OR
     (flags AND (kPageWritable OR kPageUser OR kPageGlobal OR kPageNoExecute)) OR kPagePresent"

lemmas table_path_numeral =
  table_path.simps(2) [of _ 3, simplified] table_path.simps(2) [of _ 2, simplified]
  table_path.simps(2) [of _ 1, unfolded Suc_1, simplified]

lemma map_page_path:
  "map_page va pa flags s =
     (if \<not> is_page_aligned va \<or> \<not> is_page_aligned pa \<or> (bit flags 63 \<and> \<not> vm_nxe s) then (False, s)
      else let (pt, s) = table_path (kPagePresent OR kPageWritable) 4 (root_physical s) va s
           in if pt = kInvalidAddress then (False, s)
              else let a = entry_addr pt (table_index 1 va)
                   in if bit (vm_mem s a) 0 then (False, s)
                      else (True, invlpg va (write_entry a (pte_value pa flags) s)))"
  unfolding map_page_def child_table_create index_levels table_path_numeral and_flag_iff not_not
    Let_def pte_value_def write_entry_def
  by (auto split: prod.splits)

subsection \<open>Writing one leaf entry\<close>

lemma walk_leaf:
  "leaf_table mem l t va = Some x \<Longrightarrow> walk mem l t va =
     (if bit (mem (entry_addr x (table_index 1 va))) 0 then leaf_value 1 (mem (entry_addr x (table_index 1 va))) va
      else kInvalidAddress)"
  by (induction l arbitrary: t) (auto simp: Let_def split: if_splits)

lemma leaf_table_cong:
  "\<forall>k\<in>{2..l}. table_index k va = table_index k va' \<Longrightarrow> leaf_table mem l t va = leaf_table mem l t va'"
  by (induction l arbitrary: t) (auto simp: Let_def)

lemma leaf_write:
  fixes v :: u64
  assumes inv: "vm_tree T r s" and pt: "T pt = Some 1" and reach: "leaf_table (vm_mem s) 4 r va = Some pt"
  defines "s' \<equiv> write_entry (entry_addr pt (table_index 1 va)) v s"
  shows "vm_tree T r s'"
    and "page_of va' = page_of va \<Longrightarrow> walk (vm_mem s') 4 r va' = (if bit v 0 then leaf_value 1 v va' else kInvalidAddress)"
    and "page_of va' \<noteq> page_of va \<Longrightarrow> walk (vm_mem s') 4 r va' = walk (vm_mem s) 4 r va'"
    and "leaf_table (vm_mem s') 4 r va' = leaf_table (vm_mem s) 4 r va'"
proof -
  let ?a = "entry_addr pt (table_index 1 va)"
  have mem': "vm_mem s' = (vm_mem s)(?a := v)" by (simp add: s'_def write_entry_def)
  have tree: "tree_ok T (vm_mem s)" and root: "T r = Some 4" using inv by (simp_all add: vm_tree_def)
  have addr: "entry_addr t i = ?a \<longleftrightarrow> t = pt \<and> i = table_index 1 va" if "T t = Some l" "unat i < 512" for t l i
    using entry_addr_eq_taken vm_tree_taken [OF inv] that pt table_index_less by metis
  have same: "vm_mem s' (entry_addr t i) = vm_mem s (entry_addr t i)"
    if "T t = Some l" "2 \<le> l" "unat i < 512" for t l i
    using addr [OF that(1,3)] that pt by (auto simp: mem')
  have "tree_ok T (vm_mem s')" by (rule tree_ok_frame [OF tree]) (rule same)
  then show "vm_tree T r s'"
    using inv by (simp add: vm_tree_def s'_def write_entry_def)
  show leaf: "leaf_table (vm_mem s') 4 r va' = leaf_table (vm_mem s) 4 r va'" for va'
    using walk_frame(2) [OF tree same root] .
  show "walk (vm_mem s') 4 r va' = (if bit v 0 then leaf_value 1 v va' else kInvalidAddress)"
    if "page_of va' = page_of va"
  proof -
    have ix: "table_index k va' = table_index k va" if "k \<in> {1..4}" for k
      using \<open>page_of va' = page_of va\<close> that by (auto simp: page_of_eq_iff)
    then have "leaf_table (vm_mem s') 4 r va' = Some pt"
      using leaf leaf_table_cong [of 4 va' va] reach by simp
    from walk_leaf [OF this] ix [of 1] show ?thesis by (simp add: mem')
  qed
  show "walk (vm_mem s') 4 r va' = walk (vm_mem s) 4 r va'" if other: "page_of va' \<noteq> page_of va"
  proof (rule walk_frame(1) [OF tree same root order.refl])
    fix x assume x: "leaf_table (vm_mem s) 4 r va' = Some x"
    have "table_index 1 va' \<noteq> table_index 1 va" if "x = pt"
    proof
      assume "table_index 1 va' = table_index 1 va"
      moreover have "\<forall>k\<in>{2..4}. table_index k va' = table_index k va"
        using leaf_table_inj [OF tree x reach [folded that] root root] by simp
      ultimately have "\<forall>k\<in>{1..4}. table_index k va' = table_index k va"
        using le_neq_implies_less by (metis Suc_1 Suc_leI atLeastAtMost_iff)
      with other show False by (simp add: page_of_eq_iff)
    qed
    moreover have "\<exists>l. T x = Some l"
      using x tree root leaf_table_level [OF tree x root] by blast
    ultimately show "vm_mem s' (entry_addr x (table_index 1 va')) = vm_mem s (entry_addr x (table_index 1 va'))"
      using addr [of x _ "table_index 1 va'"] by (auto simp: mem')
  qed
qed

lemma invlpg_same [simp]:
  "vm_mem (invlpg va s) = vm_mem s" "vm_phys (invlpg va s) = vm_phys s" "vm_cr3 (invlpg va s) = vm_cr3 s"
  "vm_tree T r (invlpg va s) = vm_tree T r s" "free_set (invlpg va s) = free_set s" "vm_nxe (invlpg va s) = vm_nxe s"
  "vm_flushed (invlpg va s) = va # vm_flushed s"
  by (simp_all add: invlpg_def vm_tree_def free_set_def)

lemma write_entry_same [simp]:
  "vm_phys (write_entry a v s) = vm_phys s" "vm_cr3 (write_entry a v s) = vm_cr3 s"
  "vm_nxe (write_entry a v s) = vm_nxe s" "vm_flushed (write_entry a v s) = vm_flushed s"
  by (simp_all add: write_entry_def)

lemma pte_value_leaf: "bit (pte_value pa flags) 0" "leaf_value 1 (pte_value pa flags) va = (pa AND kAddressMask) OR (va AND 0xFFF)"
proof -
  have "(kPageWritable OR kPageUser OR kPageGlobal OR kPageNoExecute) AND kAddressMask = 0"
    "kPagePresent AND kAddressMask = 0" by (simp_all add: kernel_const)
  then have "pte_value pa flags AND kAddressMask = pa AND kAddressMask"
    unfolding pte_value_def bit.conj_disj_distrib2 and.assoc by simp
  then show "leaf_value 1 (pte_value pa flags) va = (pa AND kAddressMask) OR (va AND 0xFFF)"
    by (simp add: leaf_value_def)
  show "bit (pte_value pa flags) 0" by (simp add: pte_value_def bit_simps kPagePresent_def)
qed

lemma entry_flags_kernel: "entry_flags (kPagePresent OR kPageWritable)"
  by (simp add: entry_flags_def kernel_const)

text \<open>
  C5: over a well-formed tree of page tables, \<open>map_page\<close> either fails and leaves every translation
  as it was, or succeeds, only when the page was unmapped, and then exactly the addresses of that
  page translate to the given frame and all others are unchanged; the tree stays well formed, and
  the call cannot fail when the request is valid, the page is unmapped and three frames are free.
\<close>

theorem map_page_spec:
  assumes "vm_tree T (root_physical s) s"
  shows "case map_page va pa flags s of (ok, s') \<Rightarrow>
    (\<exists>T'. T \<subseteq>\<^sub>m T' \<and> vm_tree T' (root_physical s') s') \<and> root_physical s' = root_physical s \<and>
    (\<forall>va'. translate s' va' =
       (if ok \<and> page_of va' = page_of va then (pa AND kAddressMask) OR (va' AND 0xFFF) else translate s va')) \<and>
    (ok \<longrightarrow> \<not> is_mapped s va \<and> vm_flushed s' = va # vm_flushed s) \<and>
    (is_page_aligned va \<and> is_page_aligned pa \<and> (flags AND kPageNoExecute = 0 \<or> vm_nxe s) \<and>
       \<not> is_mapped s va \<and> 3 \<le> card (free_set s) \<longrightarrow> ok)"
proof (cases "\<not> is_page_aligned va \<or> \<not> is_page_aligned pa \<or> (bit flags 63 \<and> \<not> vm_nxe s)")
  case True
  then have run: "map_page va pa flags s = (False, s)" by (simp add: map_page_path)
  show ?thesis unfolding run using assms True by (auto simp: and_flag_iff intro!: exI [of _ T])
next
  case False
  let ?fl = "kPagePresent OR kPageWritable" and ?r = "root_physical s"
  obtain pt s1 where path: "table_path ?fl 4 ?r va s = (pt, s1)" by fastforce
  have root: "T ?r = Some 4" using assms by (simp add: vm_tree_def)
  from table_path_result [OF entry_flags_kernel assms root path] obtain T' where
    grows: "vm_grows T s T' s1" and tree: "vm_tree T' ?r s1" and
    res: "if pt = kInvalidAddress then is_mapped s va \<or> card (free_set s) < 4 - 1
      else T' pt = Some 1 \<and> leaf_table (vm_mem s1) 4 ?r va = Some pt"
    unfolding is_mapped_def translate_walk by blast
  have r1: "root_physical s1 = ?r" "vm_flushed s1 = vm_flushed s" and le: "T \<subseteq>\<^sub>m T'"
    using grows by (simp_all add: vm_grows_def root_physical_def)
  have t1: "translate s1 va' = translate s va'" for va'
    using grows root unfolding translate_walk r1(1) vm_grows_def by blast
  let ?a = "entry_addr pt (table_index 1 va)"
  show ?thesis
  proof (cases "pt = kInvalidAddress \<or> bit (vm_mem s1 ?a) 0")
    case True
    then have run: "map_page va pa flags s = (False, s1)" using False path by (auto simp: map_page_path Let_def)
    have "is_mapped s va" if "pt \<noteq> kInvalidAddress"
      using res True that walk_leaf [of "vm_mem s1" 4 ?r va pt] t1 [of va] leaf_value_valid
      unfolding is_mapped_def translate_walk r1(1) by metis
    then show ?thesis unfolding run using tree r1 t1 le res by (auto split: if_splits)
  next
    case ok: False
    let ?s = "write_entry ?a (pte_value pa flags) s1"
    have run: "map_page va pa flags s = (True, invlpg va ?s)"
      using False ok path by (simp add: map_page_path Let_def)
    have pt: "T' pt = Some 1" "leaf_table (vm_mem s1) 4 ?r va = Some pt" using res ok by simp_all
    note w = leaf_write [OF tree pt, where v = "pte_value pa flags"]
    have "\<not> is_mapped s va"
      using walk_leaf [OF pt(2)] ok t1 [of va] by (simp add: is_mapped_def translate_walk r1(1))
    moreover have r: "root_physical (invlpg va ?s) = ?r" using r1 by (simp add: root_physical_def)
    moreover have "translate (invlpg va ?s) va' =
        (if page_of va' = page_of va then (pa AND kAddressMask) OR (va' AND 0xFFF) else translate s va')" for va'
      unfolding t1 [symmetric] unfolding translate_walk r r1(1)
      using w(2) [of va'] w(3) [of va'] pte_value_leaf [of pa flags] by simp
    ultimately show ?thesis unfolding run using w(1) le r1(2) by auto
  qed
qed

subsection \<open>Removing an empty table\<close>

lemma release_page_result:
  assumes "phys_inv (vm_phys s)"
  shows "phys_inv (vm_phys (snd (release_page c s)))" "vm_mem (snd (release_page c s)) = vm_mem s"
    "vm_cr3 (snd (release_page c s)) = vm_cr3 s"
    "g_reserved (vm_phys (snd (release_page c s))) = g_reserved (vm_phys s)"
    "free_set (snd (release_page c s)) \<subseteq> insert (c div kPageSize) (free_set s)"
    "is_page_aligned c \<Longrightarrow> c div kPageSize \<in> pb_free (g_reserved (vm_phys s)) - free_set s \<Longrightarrow>
       fst (release_page c s)"
proof -
  have "c div kPageSize < g_page_count (vm_phys s)" if "c div kPageSize \<in> pb_free (g_reserved (vm_phys s))"
    using that assms pb_free_below unfolding phys_inv_def by metis
  then show "is_page_aligned c \<Longrightarrow> c div kPageSize \<in> pb_free (g_reserved (vm_phys s)) - free_set s \<Longrightarrow>
       fst (release_page c s)"
    using free_page_result(1) [OF assms, of c] by (simp add: release_page_def split_beta free_set_def)
qed (use free_page_result [OF assms, of c] in \<open>auto simp: release_page_def split_beta free_set_def\<close>)

lemma walk_table_empty: "table_empty c mem \<Longrightarrow> walk mem l c va = kInvalidAddress"
  by (cases l) (auto simp: table_empty_iff Let_def)

lemma unlink_child:
  assumes inv: "vm_tree T r s" and t: "T t = Some l" "2 \<le> l" and p: "points_to (vm_mem s) t i c"
    and empty: "table_empty c (vm_mem s)"
  defines "s' \<equiv> snd (release_page c (write_entry (entry_addr t i) 0 s))"
  shows "vm_tree (T(c := None)) r s'"
    and "walk (vm_mem s') 4 r va = walk (vm_mem s) 4 r va"
    and "T u = Some k \<Longrightarrow> unat j < 512 \<Longrightarrow> u \<noteq> t \<Longrightarrow> vm_mem s' (entry_addr u j) = vm_mem s (entry_addr u j)"
proof -
  have tree: "tree_ok T (vm_mem s)" and root: "T r = Some 4" and ph: "phys_inv (vm_phys s)"
    using inv by (simp_all add: vm_tree_def)
  have i: "unat i < 512" using p by (simp add: points_to_def)
  have c: "T c = Some (l - 1)" using tree_child [OF tree t p] .
  have ph0: "phys_inv (vm_phys (write_entry (entry_addr t i) 0 s))" using ph by simp
  note rel = release_page_result [OF ph0, of c]
  have mem': "vm_mem s' = (vm_mem s)(entry_addr t i := 0)"
    using rel(2) by (simp add: s'_def write_entry_def)
  have ent: "vm_mem s' (entry_addr u j) = (if u = t \<and> j = i then 0 else vm_mem s (entry_addr u j))"
    if "T u = Some k" "unat j < 512" for u j k
    using entry_addr_eq_taken [of _ u _ t j i] vm_tree_taken [OF inv] that t i by (simp add: mem') metis
  show "vm_mem s' (entry_addr u j) = vm_mem s (entry_addr u j)" if "T u = Some k" "unat j < 512" "u \<noteq> t"
    using ent [OF that(1,2)] that(3) by simp
  have pt: "points_to (vm_mem s') u j d \<longleftrightarrow> points_to (vm_mem s) u j d \<and> \<not> (u = t \<and> j = i)"
    if "T u = Some k" for u j d k
    using ent [OF that, of j] by (auto simp: points_to_def split: if_splits)
  have notc: "d \<noteq> c" if "T u = Some k" "2 \<le> k" "points_to (vm_mem s') u j d" for u j d k
    using tree_inj [OF tree that(1,2) t _ p] that pt by blast
  have tree': "tree_ok (T(c := None)) (vm_mem s')"
    unfolding tree_ok_def
  proof (intro conjI allI impI)
    fix u k j d assume a: "(T(c := None)) u = Some k" "2 \<le> k" "points_to (vm_mem s') u j d"
    then have u: "T u = Some k" by (auto split: if_splits)
    with a show "(T(c := None)) d = Some (k - 1)"
      using notc [OF u a(2,3)] pt [OF u] tree_child [OF tree u a(2)] by auto
  next
    fix u j assume a: "(T(c := None)) u = Some 4" "unat j < 512" "bit (vm_mem s' (entry_addr u j)) 0"
    then have u: "T u = Some 4" by (auto split: if_splits)
    show "\<not> bit (vm_mem s' (entry_addr u j)) 7"
      using ent [OF u a(2)] tree_root_not_huge [OF tree u a(2)] a(3) by auto
  next
    fix u k j u' k' j' d
    assume a: "(T(c := None)) u = Some k" "2 \<le> k" "(T(c := None)) u' = Some k'" "2 \<le> k'"
      "points_to (vm_mem s') u j d" "points_to (vm_mem s') u' j' d"
    then have u: "T u = Some k" "T u' = Some k'" by (auto split: if_splits)
    have "u = u' \<and> j = j'"
      using tree_inj [OF tree u(1) a(2) u(2) a(4)] pt [OF u(1)] pt [OF u(2)] a(5,6) by blast
    then show "u = u'" "j = j'" by auto
  qed
  have "page_taken (vm_phys s') u" if "(T(c := None)) u = Some k" for u k
  proof -
    have u: "u \<noteq> c" "page_taken (vm_phys s) u" using that vm_tree_taken [OF inv] by (auto split: if_splits)
    moreover have "page_taken (vm_phys s) c" using vm_tree_taken [OF inv c] by simp
    ultimately have "u div kPageSize \<noteq> c div kPageSize" using aligned_div_inj unfolding page_taken_def by blast
    then show ?thesis using u rel(5) by (auto simp: page_taken_def free_set_def s'_def)
  qed
  moreover have "r \<noteq> c" using root c t vm_tree_taken [OF inv t(1)] by auto
  ultimately show "vm_tree (T(c := None)) r s'"
    using rel(1) tree' root vm_tree_taken [OF inv] by (auto simp: vm_tree_def s'_def split: if_splits)
  have "T u = Some k \<Longrightarrow> u \<noteq> c \<Longrightarrow> k \<le> 4 \<Longrightarrow> walk (vm_mem s') k u va = walk (vm_mem s) k u va" for k u
  proof (induction k arbitrary: u)
    case (Suc k)
    let ?j = "table_index (Suc k) va"
    let ?e = "vm_mem s (entry_addr u ?j)"
    show ?case
    proof (cases "u = t \<and> ?j = i")
      case True
      then have "k \<noteq> 0" "points_to (vm_mem s) u ?j c" using t p Suc.prems(1) by auto
      then have "walk (vm_mem s) (Suc k) u va = kInvalidAddress"
        using walk_points_to(1) walk_table_empty [OF empty] by metis
      moreover have "vm_mem s' (entry_addr u ?j) = 0"
        using ent [OF Suc.prems(1) table_index_less [of "Suc k" va]] True by simp
      ultimately show ?thesis by (simp add: Let_def)
    next
      case False
      have e: "vm_mem s' (entry_addr u ?j) = ?e" using ent [OF Suc.prems(1), of ?j] False by auto
      have "walk (vm_mem s') k (?e AND kAddressMask) va = walk (vm_mem s) k (?e AND kAddressMask) va"
        if "bit ?e 0" "\<not> (k = 0 \<or> (k < 3 \<and> bit ?e 7))"
      proof -
        have "k = 3 \<Longrightarrow> \<not> bit ?e 7"
          using tree_root_not_huge [OF tree _ table_index_less that(1)] Suc.prems by simp
        then have q: "points_to (vm_mem s') u ?j (?e AND kAddressMask)" using that Suc.prems(3) e by (auto simp: points_to_def)
        then have "T (?e AND kAddressMask) = Some k"
          using pt [OF Suc.prems(1)] tree_child [OF tree Suc.prems(1)] that(2) by fastforce
        with q show ?thesis using Suc.IH notc [OF Suc.prems(1) _ q] that(2) Suc.prems(3) by simp
      qed
      then show ?thesis using e by (simp add: Let_def)
    qed
  qed simp
  with root \<open>r \<noteq> c\<close> show "walk (vm_mem s') 4 r va = walk (vm_mem s) 4 r va" by simp
qed

text \<open>
  Unmapping prunes the tables that became empty from the leaf upwards; each list element is a table
  and the address of the entry that points to it.
\<close>

fun prune :: "(u64 \<times> u64) list \<Rightarrow> vm_state \<Rightarrow> bool \<times> vm_state" where
  "prune [] s = (True, s)"
| "prune ((c, a) # rest) s =
     (if \<not> table_empty c (vm_mem s) then (True, s)
      else let (ok, s) = release_page c (write_entry a 0 s)
           in if \<not> ok then (False, s) else prune rest s)"

fun parents :: "(u64 \<rightharpoonup> nat) \<Rightarrow> (u64 \<Rightarrow> u64) \<Rightarrow> nat \<Rightarrow> (u64 \<times> u64) list \<Rightarrow> bool" where
  "parents T mem l [] \<longleftrightarrow> True"
| "parents T mem l ((c, a) # rest) \<longleftrightarrow>
     (\<exists>t i. a = entry_addr t i \<and> T t = Some l \<and> points_to mem t i c) \<and> parents T mem (Suc l) rest"

lemma parents_frame:
  assumes "\<And>u k j. T u = Some k \<Longrightarrow> l < k \<Longrightarrow> unat j < 512 \<Longrightarrow> T' u = Some k \<and> mem' (entry_addr u j) = mem (entry_addr u j)"
  shows "parents T mem k ps \<Longrightarrow> l < k \<Longrightarrow> parents T' mem' k ps"
proof (induction ps arbitrary: k)
  case (Cons x ps)
  obtain c a where x: "x = (c, a)" by fastforce
  with Cons.prems obtain t i where t: "a = entry_addr t i" "T t = Some k" "points_to mem t i c" by auto
  have i: "unat i < 512" using t(3) by (simp add: points_to_def)
  have "T' t = Some k \<and> points_to mem' t i c"
    using assms [OF t(2) Cons.prems(2) i] t(3) by (simp add: points_to_def)
  then show ?case using Cons x t(1) by auto
qed simp

definition unreserved :: "(u64 \<rightharpoonup> nat) \<Rightarrow> vm_state \<Rightarrow> bool" where
  "unreserved T s \<longleftrightarrow> (\<forall>t l. T t = Some l \<longrightarrow> l < 4 \<longrightarrow> t div kPageSize \<in> pb_free (g_reserved (vm_phys s)))"

lemma prune_result:
  "vm_tree T r s \<Longrightarrow> parents T (vm_mem s) l ps \<Longrightarrow> 2 \<le> l \<Longrightarrow> prune ps s = (ok, s') \<Longrightarrow>
     (\<exists>T'. vm_tree T' r s') \<and> vm_cr3 s' = vm_cr3 s \<and> (\<forall>va. walk (vm_mem s') 4 r va = walk (vm_mem s) 4 r va) \<and>
     (unreserved T s \<longrightarrow> ok)"
proof (induction ps arbitrary: T s l)
  case (Cons x ps)
  obtain c a where x: "x = (c, a)" by fastforce
  with Cons.prems obtain t i where t: "a = entry_addr t i" "T t = Some l" "points_to (vm_mem s) t i c"
    and rest: "parents T (vm_mem s) (Suc l) ps" by auto
  show ?case
  proof (cases "table_empty c (vm_mem s)")
    case False
    then show ?thesis using Cons.prems x by auto
  next
    case True
    let ?T = "T(c := None)" and ?s = "snd (release_page c (write_entry a 0 s))"
    let ?ok = "fst (release_page c (write_entry a 0 s))"
    note un = unlink_child [OF Cons.prems(1) t(2) Cons.prems(3) t(3) True, folded t(1)]
    have ph: "phys_inv (vm_phys s)" and tree: "tree_ok T (vm_mem s)" using Cons.prems(1) by (simp_all add: vm_tree_def)
    note rel = release_page_result [of "write_entry a 0 s" c, simplified, OF ph]
    have c: "T c = Some (l - 1)" using tree_child [OF tree t(2) Cons.prems(3) t(3)] .
    have "c div kPageSize \<in> pb_free (g_reserved (vm_phys s)) - free_set s \<and> is_page_aligned c" if "unreserved T s"
      using that c vm_tree_taken [OF Cons.prems(1) c] vm_tree_taken [OF Cons.prems(1) t(2)] Cons.prems(3)
      by (auto simp: unreserved_def page_taken_def free_set_def)
    then have ok: "?ok" if "unreserved T s"
      using that rel(6) by (simp add: free_set_def)
    have unres: "unreserved ?T ?s" if "unreserved T s" using that rel(4) by (auto simp: unreserved_def)
    have "parents ?T (vm_mem ?s) (Suc l) ps"
    proof (rule parents_frame [OF _ rest])
      fix u k j assume u: "T u = Some k" "l < k" "unat (j :: u16) < 512"
      then have "u \<noteq> t" "u \<noteq> c" using t(2) c by auto
      with u show "?T u = Some k \<and> vm_mem ?s (entry_addr u j) = vm_mem s (entry_addr u j)"
        using un(3) [of u k j] by auto
    qed simp
    note IH = Cons.IH [OF un(1) this]
    show ?thesis
    proof (cases ?ok)
      case True
      then have "prune ps ?s = (ok, s')" using Cons.prems(4) x \<open>table_empty c _\<close> by (simp add: split_beta)
      from IH [OF _ this] Cons.prems(3) show ?thesis using un(2) rel(3) unres by (auto simp del: fun_upd_apply)
    next
      case False
      then have "ok = False" "s' = ?s" using Cons.prems(4) x \<open>table_empty c _\<close> by (simp_all add: split_beta)
      then show ?thesis using un(1,2) rel(3) ok False by auto
    qed
  qed
qed auto

lemma unmap_page_path:
  fixes s :: vm_state
  assumes "is_page_aligned va"
  defines "r \<equiv> root_physical s"
  defines "pdpt \<equiv> vm_mem s (entry_addr r (table_index 4 va)) AND kAddressMask"
  defines "pd \<equiv> vm_mem s (entry_addr pdpt (table_index 3 va)) AND kAddressMask"
  defines "pt \<equiv> vm_mem s (entry_addr pd (table_index 2 va)) AND kAddressMask"
  shows "unmap_page va s =
    (if leaf_table (vm_mem s) 4 r va = None \<or> \<not> bit (vm_mem s (entry_addr pt (table_index 1 va))) 0 then (False, s)
     else prune [(pt, entry_addr pd (table_index 2 va)), (pd, entry_addr pdpt (table_index 3 va)),
                 (pdpt, entry_addr r (table_index 4 va))]
            (invlpg va (write_entry (entry_addr pt (table_index 1 va)) 0 s)))"
proof -
  have "leaf_table (vm_mem s) 4 r va \<noteq> None \<longleftrightarrow> points_to (vm_mem s) r (table_index 4 va) pdpt \<and>
      points_to (vm_mem s) pdpt (table_index 3 va) pd \<and> points_to (vm_mem s) pd (table_index 2 va) pt"
    by (auto simp: leaf_table_numeral points_to_def Let_def pdpt_def pd_def pt_def)
  then show ?thesis
    using assms(1) unfolding unmap_page_def index_levels and_flag_iff Let_def points_to_def
    unfolding r_def [symmetric] unfolding pdpt_def [symmetric] unfolding pd_def [symmetric] unfolding pt_def [symmetric]
    by (auto split: prod.splits)
qed


subsection \<open>The permission query agrees with the translation\<close>

lemma leaf_values_valid:
  "(e AND kAddressMask) OR (va AND 0xFFF) \<noteq> kInvalidAddress"
  "(e AND kTwoMiBAddressMask) OR (va AND 0x1FFFFF) \<noteq> kInvalidAddress"
  "(e AND kOneGiBAddressMask) OR (va AND 0x3FFFFFFF) \<noteq> kInvalidAddress"
  using leaf_value_valid [of 1 e va] leaf_value_valid [of 2 e va] leaf_value_valid [of 3 e va]
  by (simp_all add: leaf_value_def)

lemma query_page_walk:
  assumes "is_page_aligned root"
  shows "fst (query_page root va mem)"
    and "pi_present (snd (query_page root va mem)) \<longleftrightarrow> walk mem 4 root va \<noteq> kInvalidAddress"
    and "pi_physical (snd (query_page root va mem)) =
      (if walk mem 4 root va = kInvalidAddress then 0 else walk mem 4 root va)"
proof -
  have walk: "walk mem 4 root va =
    (let pml4e = mem (entry_addr root (pml4_index va))
      in if pml4e AND kPagePresent = 0 then kInvalidAddress
      else let pdpte = mem (entry_addr (pml4e AND kAddressMask) (pdpt_index va))
      in if pdpte AND kPagePresent = 0 then kInvalidAddress
      else if pdpte AND kPageHuge \<noteq> 0 then (pdpte AND kOneGiBAddressMask) OR (va AND 0x3FFFFFFF)
      else let pde = mem (entry_addr (pdpte AND kAddressMask) (pd_index va))
      in if pde AND kPagePresent = 0 then kInvalidAddress
      else if pde AND kPageHuge \<noteq> 0 then (pde AND kTwoMiBAddressMask) OR (va AND 0x1FFFFF)
      else let pte = mem (entry_addr (pde AND kAddressMask) (pt_index va))
      in if pte AND kPagePresent = 0 then kInvalidAddress
      else (pte AND kAddressMask) OR (va AND 0xFFF))"
    unfolding index_levels and_flag_iff Let_def
    by (simp add: walk_numeral leaf_value_def Let_def del: walk.simps split del: if_split cong: if_cong)
  show "fst (query_page root va mem)"
    "pi_present (snd (query_page root va mem)) \<longleftrightarrow> walk mem 4 root va \<noteq> kInvalidAddress"
    "pi_physical (snd (query_page root va mem)) =
      (if walk mem 4 root va = kInvalidAddress then 0 else walk mem 4 root va)"
    using assms unfolding query_page_def walk Let_def no_page_def
    by (simp_all add: leaf_values_valid)
qed

text \<open>
  \<open>query_page\<close> on the current root always answers, reports a page present exactly when
  \<open>translate\<close> finds a mapping (4 KiB, 2 MiB or 1 GiB), and then with the same physical address.
\<close>

theorem query_page_translate:
  "fst (query_page (root_physical s) va (vm_mem s)) \<and>
   pi_present (snd (query_page (root_physical s) va (vm_mem s))) = is_mapped s va \<and>
   pi_physical (snd (query_page (root_physical s) va (vm_mem s))) = (if is_mapped s va then translate s va else 0)"
  using query_page_walk [OF masked_address(1) [of "vm_cr3 s"], folded root_physical_def]
  unfolding is_mapped_def translate_walk by simp

subsection \<open>A small address space\<close>

definition demo_bitmap4 :: page_bitmap where
  "demo_bitmap4 = snd (pb_mark_free 7 (snd (pb_mark_free 6 demo_bitmap)))"

definition demo_vm :: vm_state where
  "demo_vm = \<lparr>vm_phys = demo_phys\<lparr>g_used := demo_bitmap4, g_reserved := demo_bitmap4\<rparr>,
     vm_mem = (\<lambda>_. 0), vm_cr3 = 0x1000, vm_nxe = True, vm_flushed = []\<rparr>"

lemma demo_bitmap4_free:
  "pb_inv demo_bitmap4" "pb_free demo_bitmap4 = {3, 5, 6, 7}" "pb_page_count demo_bitmap4 = 16"
  using demo_bitmap_free unfolding demo_bitmap4_def
  by (auto simp: pb.mark_free_inv pb.mark_free_set)

lemma demo_vm_root: "root_physical demo_vm = 0x1000"
  by (simp add: root_physical_def demo_vm_def kAddressMask_def)

lemma demo_vm_tree: "vm_tree [0x1000 \<mapsto> 4] (root_physical demo_vm) demo_vm"
proof -
  have "(0x1000 :: u64) div kPageSize = 1" "is_page_aligned 0x1000" by code_simp+
  then show ?thesis
    unfolding demo_vm_root using demo_bitmap4_free
    by (auto simp: vm_tree_def demo_vm_def phys_inv_def demo_phys_def page_taken_def tree_ok_def points_to_def
        split: if_splits)
qed

lemma demo_vm_unmapped: "\<not> is_mapped demo_vm va"
  by (simp add: is_mapped_def translate_def demo_vm_def kPagePresent_def)

lemma demo_vm_free: "card (free_set demo_vm) = 4"
  using demo_bitmap4_free by (simp add: free_set_def demo_vm_def)

theorem map_page_spec_witness:
  "fst (map_page 0x400000 0x9000 3 demo_vm) \<and>
   translate (snd (map_page 0x400000 0x9000 3 demo_vm)) 0x400123 = 0x9123 \<and>
   translate (snd (map_page 0x400000 0x9000 3 demo_vm)) 0x401123 = kInvalidAddress"
proof -
  have "is_page_aligned 0x400000" "is_page_aligned 0x9000" "(3 :: u64) AND kPageNoExecute = 0"
    "page_of 0x400123 = page_of 0x400000" "page_of 0x401123 \<noteq> page_of 0x400000"
    "((0x9000 :: u64) AND kAddressMask) OR (0x400123 AND 0xFFF) = 0x9123"
    by code_simp+
  then show ?thesis
    using map_page_spec [OF demo_vm_tree, of "0x400000" "0x9000" 3] demo_vm_unmapped demo_vm_free
    by (auto simp: is_mapped_def split: prod.splits)
qed

text \<open>The same address space with one page mapped at \<^verbatim>\<open>0x400000\<close>.\<close>

definition demo_mapped :: vm_state where
  "demo_mapped = demo_vm\<lparr>vm_mem := (\<lambda>_. 0)
     (entry_addr 0x1000 0 := 0x2003, entry_addr 0x2000 0 := 0x4003, entry_addr 0x4000 2 := 0x8003,
      entry_addr 0x8000 0 := 0x9003)\<rparr>"

definition demo_tables :: "u64 \<rightharpoonup> nat" where
  "demo_tables = [0x1000 \<mapsto> 4, 0x2000 \<mapsto> 3, 0x4000 \<mapsto> 2, 0x8000 \<mapsto> 1]"

lemma demo_mapped_entry:
  assumes "t \<in> {0x1000, 0x2000, 0x4000, 0x8000}" "unat i < 512"
  shows "vm_mem demo_mapped (entry_addr t i) =
    (if t = 0x1000 \<and> i = 0 then 0x2003 else if t = 0x2000 \<and> i = 0 then 0x4003
     else if t = 0x4000 \<and> i = 2 then 0x8003 else if t = 0x8000 \<and> i = 0 then 0x9003 else 0)"
proof -
  have "\<forall>t \<in> {0x1000, 0x2000, 0x4000, 0x8000 :: u64}. is_page_aligned t" by code_simp
  then have "entry_addr t i = entry_addr u j \<longleftrightarrow> t = u \<and> i = j"
    if "u \<in> {0x1000, 0x2000, 0x4000, 0x8000}" "unat j < 512" for u j
    using assms that by (intro entry_addr_inj) auto
  from this [of "0x1000" 0] this [of "0x2000" 0] this [of "0x4000" 2] this [of "0x8000" 0]
  show ?thesis by (auto simp: demo_mapped_def)
qed

lemma demo_mapped_points:
  "demo_tables t = Some l \<Longrightarrow> 2 \<le> l \<Longrightarrow> points_to (vm_mem demo_mapped) t i c \<longleftrightarrow>
     (t, i, c) \<in> {(0x1000, 0, 0x2000), (0x2000, 0, 0x4000), (0x4000, 2, 0x8000)}"
  using demo_mapped_entry [of t i]
  by (auto simp: points_to_def demo_tables_def kAddressMask_def split: if_splits)

lemma demo_mapped_tree: "vm_tree demo_tables (root_physical demo_mapped) demo_mapped"
proof -
  have r: "root_physical demo_mapped = 0x1000" using demo_vm_root by (simp add: root_physical_def demo_mapped_def)
  have al: "\<forall>t \<in> {0x1000, 0x2000, 0x4000, 0x8000 :: u64}. is_page_aligned t \<and> t div kPageSize \<notin> {3, 5, 6, 7}" by code_simp
  have taken: "page_taken (vm_phys demo_mapped) t" if t: "t \<in> {0x1000, 0x2000, 0x4000, 0x8000}" for t
  proof -
    have "g_used (vm_phys demo_mapped) = demo_bitmap4" by (simp add: demo_mapped_def demo_vm_def)
    moreover have "unat t < 2 ^ 52" using t by auto
    ultimately show ?thesis unfolding page_taken_def demo_bitmap4_free(2) using bspec [OF al t] by (simp only: demo_bitmap4_free simp_thms)
  qed
  have "\<not> bit (vm_mem demo_mapped (entry_addr 0x1000 i)) 7" if "unat i < 512" for i
    using demo_mapped_entry [of "0x1000" i] that by (auto split: if_splits)
  then have "tree_ok demo_tables (vm_mem demo_mapped)"
    unfolding tree_ok_def
    by (auto simp: demo_mapped_points) (auto simp: demo_tables_def split: if_splits)
  moreover have "phys_inv (vm_phys demo_mapped)" using demo_vm_tree by (simp add: vm_tree_def demo_mapped_def)
  ultimately show ?thesis
    unfolding vm_tree_def r using taken by (auto simp: demo_tables_def split: if_splits)
qed

lemma demo_mapped_translate: "translate demo_mapped 0x400123 = 0x9123" "translate demo_mapped 0x400000 = 0x9000"
  by code_simp+


end
