(* ===== verification/User_Space.thy ===== *)
theory User_Space
  imports Paging
begin

text \<open>
  User address spaces (\<^verbatim>\<open>kernel/memory/user_space.hpp\<close>, \<^verbatim>\<open>user_space.cpp\<close>): a page-table root whose
  kernel half is copied from the current root with the user bit cleared and whose image and stack
  slots are private, the mapping of user pages, the validation of user ranges against the page
  tables, and the copy of user memory into the kernel.  User memory is read through the direct
  map, byte by byte from the little-endian 8-byte cells of physical memory.
\<close>

unbundle bit_operations_syntax

subsection \<open>Layout and access\<close>

definition kUserImageBase :: u64 where [kernel_const]: "kUserImageBase = 0x0000400000000000"
definition kUserImageLimit :: u64 where [kernel_const]: "kUserImageLimit = 0x0000400100000000"
definition kUserStackTop :: u64 where [kernel_const]: "kUserStackTop = 0x00007FFFFFF00000"
definition kUserStackPages :: u64 where [kernel_const]: "kUserStackPages = 8"

datatype user_access = Read | Write | Execute

definition make_user_page_flags :: "bool \<Rightarrow> bool \<Rightarrow> bool \<Rightarrow> u64 option" where
  "make_user_page_flags writable executable nxe =
     (if \<not> executable \<and> \<not> nxe then None
      else Some (kPagePresent OR kPageUser OR (if writable then kPageWritable else 0) OR
                 (if \<not> executable then kPageNoExecute else 0)))"

definition is_canonical_user_address :: "u64 \<Rightarrow> bool" where
  "is_canonical_user_address a \<longleftrightarrow> a < 0x0000800000000000"

definition user_range_arithmetic_valid :: "u64 \<Rightarrow> u64 \<Rightarrow> bool" where
  "user_range_arithmetic_valid a len \<longleftrightarrow> is_canonical_user_address a \<and>
     (len = 0 \<or> (a \<le> UINT64_MAX - len \<and> is_canonical_user_address (a + len - 1)))"

definition user_page_span :: "u64 \<Rightarrow> u64 \<Rightarrow> u64 \<times> u64" where
  "user_page_span a len =
     (let first = a AND NOT (kPageSize - 1);
          last_page = (if len = 0 then first else (a + len - 1) AND NOT (kPageSize - 1))
      in (first, last_page))"

definition user_page_access_allowed :: "page_info \<Rightarrow> user_access \<Rightarrow> bool" where
  "user_page_access_allowed page access =
     (if \<not> pi_present page \<or> \<not> pi_user page then False
      else if access = Write then pi_writable page
      else if access = Execute then pi_executable page
      else True)"

fun validate_page_sequence :: "page_info list \<Rightarrow> user_access \<Rightarrow> bool" where
  "validate_page_sequence [] access = True"
| "validate_page_sequence (p # ps) access =
     (if \<not> user_page_access_allowed p access then False else validate_page_sequence ps access)"

subsection \<open>Creating and destroying an address space\<close>

definition user_child :: "u64 \<Rightarrow> u16 \<Rightarrow> vm_state \<Rightarrow> u64 \<times> vm_state" where
  "user_child parent i s =
     (let e = vm_mem s (entry_addr parent i)
      in if e AND kPagePresent \<noteq> 0 then
           (if e AND kPageHuge \<noteq> 0 then kInvalidAddress else e AND kAddressMask, s)
         else let (physical, s) = allocate_table s
              in if physical = kInvalidAddress then (physical, s)
                 else (physical, write_entry (entry_addr parent i)
                         (physical OR kPagePresent OR kPageWritable OR kPageUser) s))"

function release_table :: "nat \<Rightarrow> u64 \<Rightarrow> vm_state \<Rightarrow> vm_state" where
  "release_table level p s =
     (if p = 0 \<or> p = kInvalidAddress then s
      else let s = (if level > 1 then
                      fold (\<lambda>i s. let e = vm_mem s (entry_addr p (of_nat i))
                                  in if e AND kPagePresent \<noteq> 0 \<and> e AND kPageHuge = 0
                                     then release_table (level - 1) (e AND kAddressMask) s else s)
                        [0..<kEntriesPerTable] s
                    else s)
           in snd (release_page p s))"
  by pat_completeness auto
termination by (relation "measure fst") auto

declare release_table.simps [simp del]

definition copy_kernel_half :: "u64 \<Rightarrow> u64 \<Rightarrow> (u64 \<Rightarrow> u64) \<Rightarrow> u64 \<Rightarrow> u64" where
  "copy_kernel_half source destination mem =
     fold (\<lambda>i m. m(entry_addr destination (of_nat i) := m (entry_addr source (of_nat i)) AND NOT kPageUser))
       [0..<kEntriesPerTable] mem"

definition create_user_address_space :: "vm_state \<Rightarrow> bool \<times> u64 \<times> vm_state" where
  "create_user_address_space s =
     (let (root, s) = allocate_table s
      in if root = kInvalidAddress then (False, kInvalidAddress, s)
         else let source = vm_cr3 s AND kAddressMask;
                  s = s\<lparr>vm_mem := copy_kernel_half source root (vm_mem s)\<rparr>;
                  image_slot = pml4_index kUserImageBase; stack_slot = pml4_index kUserStackTop
              in if vm_mem s (entry_addr source image_slot) AND kPagePresent \<noteq> 0 \<or>
                    vm_mem s (entry_addr source stack_slot) AND kPagePresent \<noteq> 0
                 then (False, kInvalidAddress, snd (release_page root s))
                 else (True, root,
                       write_entry (entry_addr root stack_slot) 0 (write_entry (entry_addr root image_slot) 0 s)))"

definition destroy_user_address_space :: "u64 \<Rightarrow> vm_state \<Rightarrow> u64 \<times> vm_state" where
  "destroy_user_address_space root s =
     (if root = kInvalidAddress \<or> root = 0 then (root, s)
      else let image_slot = pml4_index kUserImageBase; stack_slot = pml4_index kUserStackTop;
               e = vm_mem s (entry_addr root image_slot);
               s = (if e AND kPagePresent \<noteq> 0 then release_table 3 (e AND kAddressMask) s else s);
               e = vm_mem s (entry_addr root stack_slot);
               s = (if e AND kPagePresent \<noteq> 0 \<and> stack_slot \<noteq> image_slot
                    then release_table 3 (e AND kAddressMask) s else s)
           in (kInvalidAddress, snd (release_page root s)))"

definition map_user_page :: "u64 \<Rightarrow> u64 \<Rightarrow> u64 \<Rightarrow> bool \<Rightarrow> bool \<Rightarrow> vm_state \<Rightarrow> bool \<times> vm_state" where
  "map_user_page root va pa writable executable s =
     (if root = kInvalidAddress \<or> \<not> is_page_aligned va \<or> \<not> is_page_aligned pa \<or>
         \<not> is_canonical_user_address va then (False, s)
      else case make_user_page_flags writable executable (vm_nxe s) of
        None \<Rightarrow> (False, s)
      | Some flags \<Rightarrow>
          let (pdpt, s) = user_child root (pml4_index va) s
          in if pdpt = kInvalidAddress then (False, s)
          else let (pd, s) = user_child pdpt (pdpt_index va) s
          in if pd = kInvalidAddress then (False, s)
          else let (pt, s) = user_child pd (pd_index va) s
          in if pt = kInvalidAddress then (False, s)
          else let pte = entry_addr pt (pt_index va)
          in if vm_mem s pte AND kPagePresent \<noteq> 0 then (False, s)
          else (True, write_entry pte ((pa AND kAddressMask) OR flags) s))"

subsection \<open>Validating and copying user memory\<close>

text \<open>
  The page loop of \<^verbatim>\<open>validate_user_range_with_lookup\<close>: it stops at the last page of the span.  The
  first argument bounds the iterations; \<open>None\<close> would mean that the loop is still running.
\<close>

fun lookup_loop :: "nat \<Rightarrow> u64 \<Rightarrow> u64 \<Rightarrow> user_access \<Rightarrow> (u64 \<Rightarrow> bool \<times> page_info) \<Rightarrow> bool option" where
  "lookup_loop 0 page last_page access lookup = None"
| "lookup_loop (Suc n) page last_page access lookup =
     (let (ok, info) = lookup page
      in if \<not> ok \<or> \<not> user_page_access_allowed info access then Some False
         else if page = last_page then Some True
         else lookup_loop n (page + kPageSize) last_page access lookup)"

definition validate_user_range_with_lookup ::
  "u64 \<Rightarrow> u64 \<Rightarrow> user_access \<Rightarrow> (u64 \<Rightarrow> bool \<times> page_info) option \<Rightarrow> bool option" where
  "validate_user_range_with_lookup a len access lookup =
     (case lookup of None \<Rightarrow> Some False
      | Some f \<Rightarrow>
          if \<not> user_range_arithmetic_valid a len then Some False
          else if len = 0 then Some True
          else let (first, last_page) = user_page_span a len
               in lookup_loop (Suc (unat ((last_page - first) div kPageSize))) first last_page access f)"

definition validate_user_range :: "u64 \<Rightarrow> u64 \<Rightarrow> u64 \<Rightarrow> user_access \<Rightarrow> (u64 \<Rightarrow> u64) \<Rightarrow> bool option" where
  "validate_user_range root a len access mem =
     validate_user_range_with_lookup a len access (Some (\<lambda>va. query_page root va mem))"

definition phys_byte :: "(u64 \<Rightarrow> u64) \<Rightarrow> u64 \<Rightarrow> u8" where
  "phys_byte mem p = ucast (drop_bit (8 * unat (p mod 8)) (mem (p - p mod 8)))"

function copy_loop :: "u64 \<Rightarrow> (u64 \<Rightarrow> u64) \<Rightarrow> u64 \<Rightarrow> u64 \<Rightarrow> u8 list \<Rightarrow> bool \<times> u8 list" where
  "copy_loop root mem source remaining dest =
     (if remaining = 0 then (True, dest)
      else let (ok, info) = query_page root source mem
           in if \<not> ok then (False, dest)
              else let offset = source AND (kPageSize - 1);
                       chunk = (if remaining < kPageSize - offset then remaining else kPageSize - offset);
                       bytes = map (\<lambda>i. phys_byte mem (pi_physical info + of_nat i)) [0..<unat chunk]
                   in copy_loop root mem (source + chunk) (remaining - chunk) (dest @ bytes))"
  by pat_completeness auto
termination
proof (relation "measure (\<lambda>(_, _, _, remaining, _). unat remaining)", goal_cases)
  case (2 root mem source remaining dest p ok info offset chunk bytes)
  have "unat (source AND mask 12) < 4096" by (simp add: unat_and_mask)
  then have "offset < kPageSize" using 2 by (simp add: page_mask unat_less_iff)
  then have "kPageSize - offset \<noteq> 0" by auto
  then have "chunk \<noteq> 0" "chunk \<le> remaining" using 2 by (auto split: if_splits)
  then have "0 < unat chunk" "unat chunk \<le> unat remaining" by (simp_all add: unat_le_iff unat_gt_0)
  then show ?case using \<open>chunk \<le> remaining\<close> by (simp add: unat_sub)
qed simp

declare copy_loop.simps [simp del]

definition copy_from_user :: "u64 \<Rightarrow> u64 \<Rightarrow> u64 \<Rightarrow> (u64 \<Rightarrow> u64) \<Rightarrow> bool \<times> u8 list" where
  "copy_from_user root source len mem =
     (if validate_user_range root source len Read mem \<noteq> Some True then (False, [])
      else copy_loop root mem source len [])"

subsection \<open>Page spans and the validation loop\<close>

lemma unat_page_base: "unat (a AND NOT (kPageSize - 1)) = unat a - unat a mod 4096"
  by (simp add: page_mask unat_and_not_mask)

lemma canonical_iff: "is_canonical_user_address a \<longleftrightarrow> unat a < 2 ^ 47"
  by (simp add: is_canonical_user_address_def unat_less_iff)

lemma user_range_iff:
  "user_range_arithmetic_valid a len \<longleftrightarrow> unat a < 2 ^ 47 \<and> (len = 0 \<or> unat a + unat len \<le> 2 ^ 47)"
proof (cases "len = 0 \<or> \<not> unat a < 2 ^ 47")
  case True
  then show ?thesis by (auto simp: user_range_arithmetic_valid_def canonical_iff)
next
  case False
  then have pos: "0 < unat len" "unat a < 2 ^ 47" by (simp_all add: unat_gt_0)
  have lt: "a \<le> UINT64_MAX - len \<longleftrightarrow> unat len + unat a < 2 ^ 64" using no_overflow_iff [of a len] by simp
  have "unat (a + len - 1) = unat a + unat len - 1" if "unat len + unat a < 2 ^ 64"
  proof -
    have "unat (a + len) = unat a + unat len" using that by (simp add: unat_word_ariths)
    moreover have "1 \<le> a + len" using calculation pos(1) by (simp add: unat_le_iff)
    ultimately show ?thesis by (simp add: unat_sub)
  qed
  then show ?thesis
    using False pos by (auto simp: user_range_arithmetic_valid_def canonical_iff lt)
qed

lemma lookup_loop_result:
  assumes "unat page + 4096 * n < 2 ^ 64" and "unat last_page = unat page + 4096 * n"
  shows "lookup_loop (Suc n) page last_page access f =
    Some (\<forall>k\<le>n. fst (f (page + of_nat k * kPageSize)) \<and>
      user_page_access_allowed (snd (f (page + of_nat k * kPageSize))) access)"
  using assms
proof (induction n arbitrary: page)
  case 0
  then have "last_page = page" by (simp add: unat_eq_iff)
  then show ?case by (auto split: prod.splits)
next
  case (Suc n)
  have step: "unat (page + kPageSize) = unat page + 4096" using Suc.prems(1) by (simp add: unat_word_ariths)
  have ne: "page \<noteq> last_page" using Suc.prems(2) by auto
  let ?P = "\<lambda>p. fst (f p) \<and> user_page_access_allowed (snd (f p)) access"
  have IH: "lookup_loop (Suc n) (page + kPageSize) last_page access f =
      Some (\<forall>k\<le>n. ?P (page + kPageSize + of_nat k * kPageSize))"
    using Suc.prems step by (intro Suc.IH) simp_all
  have all: "(\<forall>k\<le>Suc n. Q k) \<longleftrightarrow> Q 0 \<and> (\<forall>k\<le>n. Q (Suc k))" for Q :: "nat \<Rightarrow> bool"
    by (metis Suc_le_mono le0 not0_implies_Suc)
  have "(\<forall>k\<le>Suc n. ?P (page + of_nat k * kPageSize)) \<longleftrightarrow>
      ?P page \<and> (\<forall>k\<le>n. ?P (page + of_nat (Suc k) * kPageSize))"
    unfolding all by simp
  also have "\<dots> \<longleftrightarrow> ?P page \<and> (\<forall>k\<le>n. ?P (page + kPageSize + of_nat k * kPageSize))"
    by (simp add: algebra_simps)
  finally have split: "(\<forall>k\<le>Suc n. ?P (page + of_nat k * kPageSize)) \<longleftrightarrow>
      ?P page \<and> (\<forall>k\<le>n. ?P (page + kPageSize + of_nat k * kPageSize))" .
  show ?case
    unfolding split lookup_loop.simps(2) [of "Suc n"] IH using ne
    by (auto split: prod.splits simp del: lookup_loop.simps)
qed

subsection \<open>Addresses of one page\<close>

lemma page_of_div: "unat va div 4096 = unat va' div 4096 \<Longrightarrow> page_of va = page_of va'"
proof -
  assume "unat va div 4096 = unat va' div 4096"
  then have "drop_bit 12 va = drop_bit 12 va'" by (simp add: unat_eq_iff unat_drop_bit_div)
  then show ?thesis by (simp add: page_of_def)
qed

lemma query_page_same_page:
  assumes "page_of va = page_of va'"
  shows "fst (query_page root va mem) = fst (query_page root va' mem)"
    and "user_page_access_allowed (snd (query_page root va mem)) access =
      user_page_access_allowed (snd (query_page root va' mem)) access"
proof -
  have i: "table_index 4 va = table_index 4 va'" "table_index 3 va = table_index 3 va'"
    "table_index 2 va = table_index 2 va'" "table_index 1 va = table_index 1 va'"
    using assms by (simp_all add: page_of_eq_iff)
  show "fst (query_page root va mem) = fst (query_page root va' mem)"
    by (simp add: query_page_def Let_def)
  show "user_page_access_allowed (snd (query_page root va mem)) access =
      user_page_access_allowed (snd (query_page root va' mem)) access"
    by (simp add: query_page_def Let_def index_levels i user_page_access_allowed_def no_page_def
        del: One_nat_def)
qed

lemma in_page_add:
  fixes va :: u64
  assumes "unat va mod 4096 + i < 4096"
  shows "unat (va + of_nat i) = unat va + i" "(unat va + i) div 4096 = unat va div 4096"
    "(unat va + i) mod 4096 = unat va mod 4096 + i"
proof -
  obtain q m where q: "unat va = 4096 * q + m" "m = unat va mod 4096" "m < 4096"
    by (metis mult.commute div_mult_mod_eq mod_less_divisor zero_less_numeral)
  have "4096 * q < 4096 * 2 ^ 52" using q(1) unat_less_64 [of va] by simp
  then have "q + 1 \<le> 2 ^ 52" by simp
  then have "4096 * q + 4096 \<le> 2 ^ 64" by simp
  then have "unat va + i < 2 ^ 64" using q assms by linarith
  moreover have "unat (of_nat i :: u64) = i" using assms by (simp add: unat_of_nat_64)
  ultimately show "unat (va + of_nat i) = unat va + i" by (simp add: unat_word_ariths)
  have "m + i < 4096" using assms q(2) by simp
  then show "(unat va + i) div 4096 = unat va div 4096" "(unat va + i) mod 4096 = unat va mod 4096 + i"
    unfolding q(2) [symmetric] unfolding q(1) add.assoc using q(3) by simp_all
qed

lemma and_mask_add:
  fixes va :: u64
  assumes "12 \<le> k" "unat va mod 4096 + i < 4096"
  shows "(va + of_nat i) AND mask k = (va AND mask k) + of_nat i"
proof -
  obtain j where k: "k = 12 + j" using assms(1) le_Suc_ex by blast
  have i: "unat (of_nat i :: u64) = i" using assms(2) by (simp add: unat_of_nat_64)
  note sum = in_page_add(1) [OF assms(2)] and d = in_page_add(2,3) [OF assms(2)]
  have pow: "(2 :: nat) ^ k = 4096 * 2 ^ j" by (simp add: k power_add)
  have sp: "x mod 2 ^ k = 4096 * ((x div 4096) mod 2 ^ j) + x mod 4096" for x :: nat
    unfolding pow by (simp add: mod_mult2_eq)
  have "unat ((va + of_nat i) AND mask k) = unat (va AND mask k) + i"
    unfolding unat_and_mask sum sp d by simp
  moreover have "unat ((va AND mask k) + of_nat i) = unat (va AND mask k) + i"
  proof -
    have "unat (va AND mask k) + i < 2 ^ 64"
      using calculation unat_less_64 [of "(va + of_nat i) AND mask k"] by simp
    then show ?thesis using i by (simp add: unat_word_ariths)
  qed
  ultimately show ?thesis by (simp add: unat_eq_iff)
qed

lemma leaf_value_add:
  assumes "unat va mod 4096 + i < 4096"
  shows "leaf_value l e (va + of_nat i) = leaf_value l e va + of_nat i"
proof -
  have masks: "(0xFFF :: u64) = mask 12" "(0x1FFFFF :: u64) = mask 21" "(0x3FFFFFFF :: u64) = mask 30"
    by (simp_all add: mask_eq_exp_minus_1)
  have m: "kTwoMiBAddressMask AND mask 21 = 0" "kOneGiBAddressMask AND mask 30 = 0" "kAddressMask AND mask 12 = 0"
    by (simp_all add: kernel_const mask_eq_exp_minus_1)
  have or: "(e AND M) OR (w AND mask k) = (e AND M) + (w AND mask k)" if "M AND mask k = 0" for M w :: u64 and k
  proof (rule disjunctive_add [symmetric])
    fix n
    have "\<not> bit (M AND mask k) n" using that by simp
    then show "\<not> bit (e AND M) n \<or> \<not> bit (w AND mask k) n" by (auto simp: bit_and_iff)
  qed
  show ?thesis
    unfolding leaf_value_def masks or [OF m(1)] or [OF m(2)] or [OF m(3)]
    using assms by (simp add: and_mask_add add.assoc)
qed

lemma walk_same_page:
  assumes "unat va mod 4096 + i < 4096"
  shows "l \<le> 4 \<Longrightarrow> walk mem l t (va + of_nat i) =
    (if walk mem l t va = kInvalidAddress then kInvalidAddress else walk mem l t va + of_nat i)"
proof (induction l arbitrary: t)
  case (Suc l)
  have "unat (va + of_nat i) div 4096 = unat va div 4096" using in_page_add [OF assms] by simp
  from page_of_div [OF this] have "table_index (Suc l) (va + of_nat i) = table_index (Suc l) va"
    using Suc.prems by (simp add: page_of_eq_iff)
  then show ?case using Suc by (simp add: Let_def leaf_value_add [OF assms])
qed simp

subsection \<open>What validation establishes\<close>

definition user_accessible :: "u64 \<Rightarrow> (u64 \<Rightarrow> u64) \<Rightarrow> user_access \<Rightarrow> u64 \<Rightarrow> bool" where
  "user_accessible root mem access x \<longleftrightarrow>
     fst (query_page root x mem) \<and> user_page_access_allowed (snd (query_page root x mem)) access"

lemma user_accessible_present: "user_accessible root mem access x \<Longrightarrow> pi_present (snd (query_page root x mem))"
  by (auto simp: user_accessible_def user_page_access_allowed_def split: if_splits)

lemma user_accessible_page:
  "unat x div 4096 = unat y div 4096 \<Longrightarrow> user_accessible root mem access x = user_accessible root mem access y"
  using query_page_same_page [OF page_of_div [of x y]] by (simp add: user_accessible_def)

lemma user_page_span_unat:
  assumes "len \<noteq> 0" "user_range_arithmetic_valid a len" "user_page_span a len = (first, last_page)"
  shows "unat first = 4096 * (unat a div 4096)"
    and "unat last_page = 4096 * ((unat a + unat len - 1) div 4096)"
    and "unat (a + len - 1) = unat a + unat len - 1"
proof -
  have pos: "0 < unat len" using assms(1) by (simp add: unat_gt_0)
  have "unat a + unat len \<le> 2 ^ 47" using assms(1,2) by (simp add: user_range_iff)
  then have "unat (a + len) = unat a + unat len" by (simp add: unat_word_ariths)
  moreover have "1 \<le> a + len" using calculation pos by (simp add: unat_le_iff)
  ultimately show e: "unat (a + len - 1) = unat a + unat len - 1" by (simp add: unat_sub)
  have r: "n - n mod 4096 = 4096 * (n div 4096)" for n :: nat by (metis minus_mod_eq_mult_div)
  have fl: "first = a AND NOT (kPageSize - 1)" "last_page = (a + len - 1) AND NOT (kPageSize - 1)"
    using assms(1,3) by (auto simp: user_page_span_def Let_def)
  show "unat first = 4096 * (unat a div 4096)" "unat last_page = 4096 * ((unat a + unat len - 1) div 4096)"
    unfolding fl unat_page_base e r by simp_all
qed

text \<open>Every page between the two ends contains a byte of the range.\<close>

lemma pages_of_range:
  fixes a n :: nat
  assumes "0 < n"
  shows "(\<forall>k\<le>(a + n - 1) div 4096 - a div 4096. P (a div 4096 + k)) \<longleftrightarrow> (\<forall>x\<in>{a..<a + n}. P (x div 4096))"
proof (intro iffI ballI allI impI)
  fix x assume all: "\<forall>k\<le>(a + n - 1) div 4096 - a div 4096. P (a div 4096 + k)" and x: "x \<in> {a..<a + n}"
  have le: "a div 4096 \<le> x div 4096" "x div 4096 \<le> (a + n - 1) div 4096" using x by (auto intro: div_le_mono)
  then have "x div 4096 - a div 4096 \<le> (a + n - 1) div 4096 - a div 4096" by (intro diff_le_mono)
  with all have "P (a div 4096 + (x div 4096 - a div 4096))" by blast
  with le show "P (x div 4096)" by simp
next
  fix k assume all: "\<forall>x\<in>{a..<a + n}. P (x div 4096)" and k: "k \<le> (a + n - 1) div 4096 - a div 4096"
  show "P (a div 4096 + k)"
  proof (cases "k = 0")
    case True
    then show ?thesis using all assms by simp
  next
    case False
    let ?x = "4096 * (a div 4096 + k)"
    have "a < 4096 * (a div 4096 + 1)" by (metis add.commute dividend_less_div_times plus_1_eq_Suc zero_less_numeral mult.commute mult_Suc_right)
    moreover have "a div 4096 + 1 \<le> a div 4096 + k" using False by simp
    ultimately have "a < ?x" by (meson less_le_trans mult_le_mono2)
    moreover have "a div 4096 + k \<le> (a + n - 1) div 4096" using k False by simp
    then have "?x \<le> a + n - 1" by (simp add: less_eq_div_iff_mult_less_eq mult.commute)
    ultimately have "?x \<in> {a..<a + n}" using assms by simp
    with all have "P (?x div 4096)" by blast
    then show ?thesis by simp
  qed
qed

lemma validate_user_range_result:
  "validate_user_range root a len access mem =
     Some (user_range_arithmetic_valid a len \<and>
       (\<forall>k<unat len. user_accessible root mem access (a + of_nat k)))"
proof (cases "len = 0 \<or> \<not> user_range_arithmetic_valid a len")
  case True
  then show ?thesis by (auto simp: validate_user_range_def validate_user_range_with_lookup_def)
next
  case False
  obtain first last_page where span: "user_page_span a len = (first, last_page)" by fastforce
  have valid: "user_range_arithmetic_valid a len" "len \<noteq> 0" using False by auto
  note sp = user_page_span_unat [OF valid(2,1) span]
  have pos: "0 < unat len" and range: "unat a + unat len \<le> 2 ^ 47"
    using valid by (simp_all add: unat_gt_0 user_range_iff)
  let ?n = "(unat a + unat len - 1) div 4096 - unat a div 4096"
  have le: "unat a div 4096 \<le> (unat a + unat len - 1) div 4096" using pos by (intro div_le_mono) simp
  then have "first \<le> last_page" using sp by (simp add: unat_le_iff)
  then have "unat (last_page - first) = 4096 * ?n"
    by (simp only: unat_sub sp(1,2) diff_mult_distrib2)
  then have n: "unat ((last_page - first) div kPageSize) = ?n" by (simp only: unat_div_word unat_page_size) simp
  have last_eq: "unat last_page = unat first + 4096 * ?n"
    unfolding sp(1,2) distrib_left [symmetric] using le by simp
  have "unat last_page < 2 ^ 64" by (rule unat_less_64)
  then have "lookup_loop (Suc ?n) first last_page access (\<lambda>va. query_page root va mem) =
      Some (\<forall>k\<le>?n. user_accessible root mem access (first + of_nat k * kPageSize))"
    unfolding user_accessible_def using last_eq by (intro lookup_loop_result) simp_all
  moreover have "(\<forall>k\<le>?n. user_accessible root mem access (first + of_nat k * kPageSize)) \<longleftrightarrow>
      (\<forall>k\<le>?n. user_accessible root mem access (of_nat (4096 * (unat a div 4096 + k))))"
  proof -
    have "first = of_nat (4096 * (unat a div 4096))" by (metis of_nat_unat_id sp(1))
    then have "first + of_nat k * kPageSize = of_nat (4096 * (unat a div 4096 + k))" for k
      by (simp add: kPageSize_def algebra_simps)
    then show ?thesis by simp
  qed
  moreover have "(\<forall>k\<le>?n. user_accessible root mem access (of_nat (4096 * (unat a div 4096 + k)))) \<longleftrightarrow>
      (\<forall>x\<in>{unat a..<unat a + unat len}. user_accessible root mem access (of_nat (4096 * (x div 4096))))"
    using pages_of_range [OF pos, of "unat a" "\<lambda>p. user_accessible root mem access (of_nat (4096 * p))"] by simp
  moreover have "(\<forall>x\<in>{unat a..<unat a + unat len}. user_accessible root mem access (of_nat (4096 * (x div 4096)))) \<longleftrightarrow>
      (\<forall>x\<in>{unat a..<unat a + unat len}. user_accessible root mem access (of_nat x))"
  proof (intro ball_cong refl user_accessible_page)
    fix x assume "x \<in> {unat a..<unat a + unat len}"
    then have "x < 2 ^ 64" using range by simp
    moreover have "4096 * (x div 4096) \<le> x" by simp
    ultimately have "unat (of_nat x :: u64) = x" "unat (of_nat (4096 * (x div 4096)) :: u64) = 4096 * (x div 4096)"
      using unat_of_nat_64 le_less_trans by blast+
    then show "unat (of_nat (4096 * (x div 4096)) :: u64) div 4096 = unat (of_nat x :: u64) div 4096" by simp
  qed
  moreover have "(\<forall>x\<in>{unat a..<unat a + unat len}. user_accessible root mem access (of_nat x)) \<longleftrightarrow>
      (\<forall>k<unat len. user_accessible root mem access (a + of_nat k))"
  proof -
    have "{unat a..<unat a + unat len} = (+) (unat a) ` {0..<unat len}" by (simp add: add.commute)
    then show ?thesis by (simp only: ball_simps of_nat_add of_nat_unat_id) auto
  qed
  ultimately show ?thesis
    using valid by (simp add: validate_user_range_def validate_user_range_with_lookup_def span n
        del: lookup_loop.simps)
qed


subsection \<open>What a copy from user memory reads\<close>

definition user_byte :: "u64 \<Rightarrow> (u64 \<Rightarrow> u64) \<Rightarrow> u64 \<Rightarrow> u8" where
  "user_byte root mem va = phys_byte mem (pi_physical (snd (query_page root va mem)))"

lemma copy_loop_result:
  "is_page_aligned root \<Longrightarrow> (\<forall>k<unat remaining. pi_present (snd (query_page root (source + of_nat k) mem))) \<Longrightarrow>
     copy_loop root mem source remaining dest =
       (True, dest @ map (\<lambda>k. user_byte root mem (source + of_nat k)) [0..<unat remaining])"
proof (induction root mem source remaining dest rule: copy_loop.induct)
  case (1 root mem source remaining dest)
  show ?case
  proof (cases "remaining = 0")
    case True
    then show ?thesis by (simp add: copy_loop.simps)
  next
    case False
    obtain ok info where q: "query_page root source mem = (ok, info)" by fastforce
    let ?off = "source AND (kPageSize - 1)"
    let ?chunk = "if remaining < kPageSize - ?off then remaining else kPageSize - ?off"
    let ?bytes = "map (\<lambda>i. phys_byte mem (pi_physical info + of_nat i)) [0..<unat ?chunk]"
    have ok: ok using query_page_walk(1) [OF 1(2), of source mem] q by simp
    have off: "unat ?off = unat source mod 4096" by (simp add: page_mask unat_and_mask)
    have room: "unat (kPageSize - ?off) = 4096 - unat source mod 4096"
      using off by (simp add: unat_sub unat_le_iff)
    have le: "?chunk \<le> remaining" by auto
    have "0 < unat remaining" using False by (simp add: unat_gt_0)
    then have first: "pi_present (snd (query_page root source mem))" using 1(3) by force
    have byte: "phys_byte mem (pi_physical info + of_nat i) = user_byte root mem (source + of_nat i)"
      if "i < unat ?chunk" for i
    proof -
      have "unat ?chunk \<le> 4096 - unat source mod 4096" using room by (auto simp: unat_less_iff)
      then have "unat source mod 4096 + i < 4096" using that by linarith
      note same = walk_same_page [OF this, of 4 mem root]
      have "i < unat remaining" using that le unfolding unat_le_iff by (rule less_le_trans)
      then have "walk mem 4 root (source + of_nat i) \<noteq> kInvalidAddress"
        using 1(3) query_page_walk(2) [OF 1(2)] by blast
      then have "walk mem 4 root (source + of_nat i) = walk mem 4 root source + of_nat i"
        "walk mem 4 root source \<noteq> kInvalidAddress" using same by (simp_all split: if_splits)
      moreover have "info = snd (query_page root source mem)" using q by simp
      ultimately have "pi_physical (snd (query_page root (source + of_nat i) mem)) = pi_physical info + of_nat i"
        using query_page_walk(3) [OF 1(2)] \<open>walk mem 4 root (source + of_nat i) \<noteq> kInvalidAddress\<close> by simp
      then show ?thesis by (simp add: user_byte_def)
    qed
    have rest: "\<forall>k<unat (remaining - ?chunk). pi_present (snd (query_page root (source + ?chunk + of_nat k) mem))"
    proof (intro allI impI)
      fix k assume "k < unat (remaining - ?chunk)"
      then have "unat ?chunk + k < unat remaining" unfolding unat_sub [OF le] by linarith
      with 1(3) have "pi_present (snd (query_page root (source + of_nat (unat ?chunk + k)) mem))" by blast
      then show "pi_present (snd (query_page root (source + ?chunk + of_nat k) mem))"
        unfolding of_nat_add of_nat_unat_id by (simp only: add.assoc)
    qed
    have IH: "copy_loop root mem (source + ?chunk) (remaining - ?chunk) (dest @ ?bytes) =
        (True, (dest @ ?bytes) @ map (\<lambda>k. user_byte root mem (source + ?chunk + of_nat k)) [0..<unat (remaining - ?chunk)])"
      by (rule 1(1) [OF False q [symmetric] refl _ refl refl refl 1(2) rest]) (use ok in simp)
    have "map (\<lambda>k. user_byte root mem (source + of_nat k)) [0..<unat remaining] =
        ?bytes @ map (\<lambda>k. user_byte root mem (source + ?chunk + of_nat k)) [0..<unat (remaining - ?chunk)]"
    proof -
      have split: "[0..<unat remaining] = [0..<unat ?chunk] @ map (\<lambda>k. unat ?chunk + k) [0..<unat (remaining - ?chunk)]"
        unfolding unat_sub [OF le] using le unfolding unat_le_iff by (rule upt_split)
      have "map (\<lambda>k. user_byte root mem (source + of_nat k)) [0..<unat ?chunk] = ?bytes"
        using byte by simp
      then show ?thesis
        unfolding split by (simp add: o_def add.assoc del: if_distrib)
    qed
    then show ?thesis
      unfolding copy_loop.simps [of root mem source] q Let_def using False ok IH by simp
  qed
qed

text \<open>
  C10: \<open>copy_from_user\<close> succeeds exactly on the ranges that validation accepts for reading, and then
  the kernel buffer holds, byte for byte, the contents of the user range as the page tables
  translate it, across any number of pages; a refused copy writes nothing.
\<close>

theorem copy_from_user_spec:
  "copy_from_user root source len mem =
     (if unat source < 2 ^ 47 \<and> unat source + unat len \<le> 2 ^ 47 \<and>
         (\<forall>k<unat len. user_accessible root mem Read (source + of_nat k))
      then (True, map (\<lambda>k. user_byte root mem (source + of_nat k)) [0..<unat len])
      else (False, []))"
proof (cases "len = 0")
  case True
  then show ?thesis
    by (simp add: copy_from_user_def validate_user_range_result user_range_iff copy_loop.simps)
next
  case False
  let ?ok = "\<forall>k<unat len. user_accessible root mem Read (source + of_nat k)"
  have "copy_loop root mem source len [] = (True, map (\<lambda>k. user_byte root mem (source + of_nat k)) [0..<unat len])"
    if ok: ?ok
  proof -
    have "0 < unat len" using False by (simp add: unat_gt_0)
    then have "user_accessible root mem Read (source + of_nat 0)" using ok by blast
    then have "is_page_aligned root" by (auto simp: user_accessible_def query_page_def split: if_splits)
    moreover have "\<forall>k<unat len. pi_present (snd (query_page root (source + of_nat k) mem))"
      using ok user_accessible_present by blast
    ultimately show ?thesis using copy_loop_result [of root len source mem "[]"] by simp
  qed
  then show ?thesis
    using False by (auto simp: copy_from_user_def validate_user_range_result user_range_iff)
qed

subsection \<open>The kernel half of a new address space\<close>

lemma fold_copy_other:
  "a \<notin> g ` set is \<Longrightarrow> fold (\<lambda>i m. m(g i := h (m (k i)))) is mem a = mem a"
  by (induction "is" arbitrary: mem) auto

lemma fold_copy_target:
  assumes "inj_on g (set is)" "distinct is" "\<forall>i\<in>set is. \<forall>j\<in>set is. g i \<noteq> k j" "i \<in> set is"
  shows "fold (\<lambda>i m. m(g i := h (m (k i)))) is mem (g i) = h (mem (k i))"
  using assms
proof (induction "is" arbitrary: mem)
  case (Cons j js)
  let ?m = "mem(g j := h (mem (k j)))"
  show ?case
  proof (cases "i = j")
    case True
    then have "g j \<notin> g ` set js" using Cons.prems(1,2) by (auto simp: inj_on_def)
    then have "fold (\<lambda>i m. m(g i := h (m (k i)))) js ?m (g j) = ?m (g j)" by (rule fold_copy_other)
    then show ?thesis using True by (simp add: fun_upd_same del: fun_upd_apply)
  next
    case False
    then have "fold (\<lambda>i m. m(g i := h (m (k i)))) js ?m (g i) = h (?m (k i))"
      using Cons.prems by (intro Cons.IH) (auto simp: inj_on_def)
    moreover have "k i \<noteq> g j" using Cons.prems(3,4) by auto
    ultimately show ?thesis by (simp add: fun_upd_other del: fun_upd_apply)
  qed
qed simp

lemma copy_kernel_half_entry:
  assumes "is_page_aligned src" "unat src < 2 ^ 52" "is_page_aligned dst" "unat dst < 2 ^ 52" "src \<noteq> dst" "unat i < 512"
  shows "copy_kernel_half src dst mem (entry_addr dst i) = mem (entry_addr src i) AND NOT kPageUser"
    and "is_page_aligned t \<Longrightarrow> unat t < 2 ^ 52 \<Longrightarrow> t \<noteq> dst \<Longrightarrow>
      copy_kernel_half src dst mem (entry_addr t i) = mem (entry_addr t i)"
proof -
  let ?g = "\<lambda>i :: nat. entry_addr dst (of_nat i)" and ?k = "\<lambda>i :: nat. entry_addr src (of_nat i)"
  have small: "unat (of_nat j :: u16) = j" if "j \<in> set [0..<512]" for j using that by (simp add: unat_of_nat_small)
  have inj: "inj_on ?g (set [0..<512])"
  proof (rule inj_onI)
    fix x y assume xy: "x \<in> set [0..<512]" "y \<in> set [0..<512]" "?g x = ?g y"
    then have "(of_nat x :: u16) = of_nat y" using entry_addr_inj [OF assms(3,3,4,4)] small by (metis atLeastLessThan_iff set_upt)
    then show "x = y" using small xy by metis
  qed
  have apart: "\<forall>x\<in>set [0..<512]. \<forall>y\<in>set [0..<512]. ?g x \<noteq> ?k y"
    using entry_addr_inj [OF assms(3,1,4,2)] small assms(5) by (metis atLeastLessThan_iff set_upt)
  have "unat i \<in> set [0..<512]" using assms(6) by simp
  from fold_copy_target [OF inj _ apart this, of "\<lambda>v. v AND NOT kPageUser" mem]
  show "copy_kernel_half src dst mem (entry_addr dst i) = mem (entry_addr src i) AND NOT kPageUser"
    by (simp add: copy_kernel_half_def kEntriesPerTable_def)
  assume t: "is_page_aligned t" "unat t < 2 ^ 52" "t \<noteq> dst"
  have "entry_addr t i \<notin> ?g ` set [0..<512]"
  proof
    assume "entry_addr t i \<in> ?g ` set [0..<512]"
    then obtain j where j: "j \<in> set [0..<512]" "entry_addr t i = ?g j" by auto
    then have "unat (of_nat j :: u16) < 512" using small [OF j(1)] by simp
    from entry_addr_inj [OF t(1) assms(3) t(2) assms(4) assms(6) this] j(2) t(3) show False by simp
  qed
  then show "copy_kernel_half src dst mem (entry_addr t i) = mem (entry_addr t i)"
    unfolding copy_kernel_half_def kEntriesPerTable_def by (rule fold_copy_other)
qed

lemma query_user_top:
  "\<not> bit (mem (entry_addr root (table_index 4 va))) 2 \<Longrightarrow> \<not> pi_user (snd (query_page root va mem))"
  by (simp add: query_page_def Let_def index_levels and_flag_iff no_page_def)

lemma clear_user_bit:
  "bit (e AND NOT kPageUser) 0 = bit e 0" "bit (e AND NOT kPageUser) 7 = bit e 7" "\<not> bit (e AND NOT kPageUser) 2"
  "(e AND NOT kPageUser) AND kAddressMask = e AND kAddressMask"
proof -
  have "NOT kPageUser AND kAddressMask = kAddressMask" by (simp add: kernel_const)
  then show "(e AND NOT kPageUser) AND kAddressMask = e AND kAddressMask" by (simp add: and.assoc)
qed (simp_all add: bit_simps kPageUser_def)

lemma new_root_frame:
  assumes inv: "vm_tree T r s" and new: "T root = None" "is_page_aligned root" "unat root < 2 ^ 52"
    and mem: "\<And>t i l. T t = Some l \<Longrightarrow> unat i < 512 \<Longrightarrow> mem' (entry_addr t i) = vm_mem s (entry_addr t i)"
  shows "T t = Some l \<Longrightarrow> walk mem' l t va = walk (vm_mem s) l t va"
proof -
  assume t: "T t = Some l"
  have tree: "tree_ok T (vm_mem s)" using inv by (simp add: vm_tree_def)
  have l: "l \<le> 4" using vm_tree_taken [OF inv t] by simp
  show ?thesis
  proof (rule walk_frame(1) [OF tree _ t l])
    fix x assume "leaf_table (vm_mem s) l t va = Some x"
    from leaf_table_level [OF tree this t] show "mem' (entry_addr x (table_index 1 va)) = vm_mem s (entry_addr x (table_index 1 va))"
      by (rule mem) simp
  qed (use mem in blast)
qed

lemma slots_distinct: "pml4_index kUserImageBase = 128" "pml4_index kUserStackTop = 255"
  by code_simp+

lemma release_fresh_table:
  assumes ph: "phys_inv (vm_phys s)" and alloc: "allocate_table s = (root, s0)"
    and a: "root div kPageSize \<in> free_set s" "is_page_aligned root" "phys_inv (vm_phys s0)"
      "free_set s0 = free_set s - {root div kPageSize}"
  shows "free_set (snd (release_page root (s0\<lparr>vm_mem := m\<rparr>))) = free_set s"
proof -
  let ?s1 = "s0\<lparr>vm_mem := m\<rparr>"
  have ph1: "phys_inv (vm_phys ?s1)" using a(3) by simp
  have "root div kPageSize \<in> pb_free (g_reserved (vm_phys s0))"
    using allocate_table_reserved [OF ph alloc] a(1) ph unfolding phys_inv_def free_set_def by auto
  then have "fst (release_page root ?s1)" using release_page_result(6) [OF ph1, of root] a(2,4) by (simp add: free_set_def)
  then have "free_set (snd (release_page root ?s1)) = insert (root div kPageSize) (free_set s0)"
    using free_page_result(1,5) [OF a(3), of root] by (simp add: release_page_def split_beta free_set_def)
  then show ?thesis using a(1,4) by auto
qed

lemma copied_root_walk:
  assumes inv: "vm_tree T (root_physical s) s" and new: "T root = None" "is_page_aligned root" "unat root < 2 ^ 52"
    and old: "\<And>t j l. T t = Some l \<Longrightarrow> unat j < 512 \<Longrightarrow> m (entry_addr t j) = vm_mem s (entry_addr t j)"
    and top: "\<And>j. unat j < 512 \<Longrightarrow> m (entry_addr root j) =
      (if j \<in> I then 0 else vm_mem s (entry_addr (root_physical s) j) AND NOT kPageUser)"
  shows "walk m 4 root va = (if pml4_index va \<in> I then kInvalidAddress else translate s va)"
    and "\<not> pi_user (snd (query_page root va m))"
proof -
  let ?j = "table_index 4 va"
  let ?e = "vm_mem s (entry_addr (root_physical s) ?j)"
  have child: "walk m 3 (?e AND kAddressMask) va = walk (vm_mem s) 3 (?e AND kAddressMask) va" if "bit ?e 0"
  proof (rule new_root_frame [OF inv new])
    have tree: "tree_ok T (vm_mem s)" and T: "T (root_physical s) = Some 4" using inv by (simp_all add: vm_tree_def)
    have "\<not> bit ?e 7" by (rule tree_root_not_huge [OF tree T table_index_less that])
    then show "T (?e AND kAddressMask) = Some 3"
      using tree_child [OF tree T, of ?j "?e AND kAddressMask"] that by (simp add: points_to_def)
  qed (rule old)
  show "walk m 4 root va = (if pml4_index va \<in> I then kInvalidAddress else translate s va)"
    unfolding translate_walk walk_numeral(1) Let_def index_levels(1) [of va] top [OF table_index_less]
    using child by (auto simp: clear_user_bit simp del: walk.simps)
  show "\<not> pi_user (snd (query_page root va m))" by (rule query_user_top) (simp add: top clear_user_bit)
qed

text \<open>
  C23: over a well-formed kernel address space, \<open>create_user_address_space\<close> either fails with no
  change to any kernel translation and no page lost (exactly when no page is free or the kernel
  uses a private slot), or returns a root under which no address is
  accessible to user mode, the image and stack slots are empty and every other address translates
  as in the kernel; the kernel's own translations are untouched.
\<close>

theorem create_user_address_space_spec:
  assumes inv: "vm_tree T (root_physical s) s"
  shows "case create_user_address_space s of (ok, root, s') \<Rightarrow>
    (\<forall>va. translate s' va = translate s va) \<and>
    (ok \<longleftrightarrow> free_set s \<noteq> {} \<and>
       vm_mem s (entry_addr (root_physical s) (pml4_index kUserImageBase)) AND kPagePresent = 0 \<and>
       vm_mem s (entry_addr (root_physical s) (pml4_index kUserStackTop)) AND kPagePresent = 0) \<and>
    (if ok then is_page_aligned root \<and> root \<noteq> root_physical s \<and>
       (\<forall>va. \<not> pi_user (snd (query_page root va (vm_mem s'))) \<and>
         walk (vm_mem s') 4 root va =
           (if pml4_index va \<in> {pml4_index kUserImageBase, pml4_index kUserStackTop} then kInvalidAddress
            else translate s va))
     else root = kInvalidAddress \<and> free_set s' = free_set s)"
proof -
  let ?src = "root_physical s"
  obtain root s0 where alloc: "allocate_table s = (root, s0)" by fastforce
  have ph: "phys_inv (vm_phys s)" and T: "T ?src = Some 4" using inv by (simp_all add: vm_tree_def)
  from allocate_table_cases [OF ph alloc] show ?thesis
  proof (elim disjE conjE)
    assume "root = kInvalidAddress" "free_set s = {}" "s0 = s"
    then show ?thesis using alloc by (simp add: create_user_address_space_def)
  next
    assume a: "root \<noteq> kInvalidAddress" "root div kPageSize \<in> free_set s" "is_page_aligned root" "unat root < 2 ^ 52"
      "phys_inv (vm_phys s0)" "free_set s0 = free_set s - {root div kPageSize}"
      "s0 = s\<lparr>vm_phys := vm_phys s0, vm_mem := zero_table root (vm_mem s)\<rparr>"
    have new: "T root = None" using a(2) vm_tree_taken [OF inv] by (cases "T root") (auto simp: page_taken_def free_set_def)
    then have ne: "?src \<noteq> root" using T by auto
    have taken: "is_page_aligned t" "unat t < 2 ^ 52" "t \<noteq> root" if "T t = Some l" for t l
      using vm_tree_taken [OF inv that] new that by (auto simp: page_taken_def)
    let ?m0 = "zero_table root (vm_mem s)"
    let ?m1 = "copy_kernel_half ?src root ?m0"
    have z: "?m0 (entry_addr t i) = vm_mem s (entry_addr t i)" if "T t = Some l" "unat i < 512" for t l i
      using taken [OF that(1)] a(3,4) that(2) by (auto simp: zero_table_eq entry_addr_inj)
    note ck = copy_kernel_half_entry [OF taken(1,2) [OF T] a(3,4) ne]
    have old: "?m1 (entry_addr t i) = vm_mem s (entry_addr t i)" if "T t = Some l" "unat i < 512" for t l i
      using ck(2) [OF that(2) taken [OF that(1)]] z [OF that] by simp
    let ?i1 = "pml4_index kUserImageBase" and ?i2 = "pml4_index kUserStackTop"
    have i: "unat ?i1 < 512" "unat ?i2 < 512" by (simp_all add: index_levels)
    let ?s1 = "s0\<lparr>vm_mem := ?m1\<rparr>"
    have m0: "vm_mem s0 = ?m0" "vm_cr3 s0 = vm_cr3 s" by (subst a(7), simp)+
    have step: "create_user_address_space s =
        (if bit (?m1 (entry_addr ?src ?i1)) 0 \<or> bit (?m1 (entry_addr ?src ?i2)) 0
         then (False, kInvalidAddress, snd (release_page root ?s1))
         else (True, root, write_entry (entry_addr root ?i2) 0 (write_entry (entry_addr root ?i1) 0 ?s1)))"
      using a(1) by (simp add: create_user_address_space_def alloc m0 and_flag_iff root_physical_def)
    have tr: "walk m 4 ?src va = translate s va"
      if "\<And>t i l. T t = Some l \<Longrightarrow> unat i < 512 \<Longrightarrow> m (entry_addr t i) = vm_mem s (entry_addr t i)" for m va
      unfolding translate_walk using new_root_frame [OF inv new a(3,4) that T] .
    show ?thesis
    proof (cases "bit (?m1 (entry_addr ?src ?i1)) 0 \<or> bit (?m1 (entry_addr ?src ?i2)) 0")
      case True
      let ?s2 = "snd (release_page root ?s1)"
      have ph1: "phys_inv (vm_phys ?s1)" using a(5) by simp
      note rel = release_page_result [OF ph1, of root]
      have "free_set ?s2 = free_set s" by (rule release_fresh_table [OF ph alloc a(2,3,5,6)])
      moreover have "translate ?s2 va = translate s va" for va
        using tr [OF old] rel(2,3) m0(2) by (simp add: translate_walk root_physical_def)
      ultimately show ?thesis unfolding step using True old [OF T] i by (auto simp: and_flag_iff)
    next
      case False
      let ?s2 = "write_entry (entry_addr root ?i2) 0 (write_entry (entry_addr root ?i1) 0 ?s1)"
      have m2: "vm_mem ?s2 = ?m1(entry_addr root ?i1 := 0, entry_addr root ?i2 := 0)" by (simp add: write_entry_def)
      have old2: "vm_mem ?s2 (entry_addr t j) = vm_mem s (entry_addr t j)" if "T t = Some l" "unat j < 512" for t l j
        using old [OF that] taken [OF that(1)] a(3,4) i that(2) by (simp add: m2 entry_addr_inj)
      have top: "vm_mem ?s2 (entry_addr root j) = (if j \<in> {?i1, ?i2} then 0 else vm_mem s (entry_addr ?src j) AND NOT kPageUser)"
        if "unat j < 512" for j
        using ck(1) [OF that] z [OF T that] a(3,4) i that by (auto simp: m2 entry_addr_inj)
      note view = copied_root_walk [where m = "vm_mem ?s2", OF inv new a(3,4) old2 top]
      have "translate ?s2 va = translate s va" for va
        using tr [OF old2] m0(2) by (simp add: translate_walk root_physical_def)
      then show ?thesis unfolding step using view False a(2,3) ne old [OF T] i by (auto simp: and_flag_iff)
    qed
  qed
qed

subsection \<open>Mapping a user page\<close>

text \<open>The upper-level entries on the way to an address allow user access, writing and execution.\<close>

fun user_path :: "(u64 \<Rightarrow> u64) \<Rightarrow> nat \<Rightarrow> u64 \<Rightarrow> u64 \<Rightarrow> bool" where
  "user_path mem 0 t va \<longleftrightarrow> True"
| "user_path mem (Suc l) t va \<longleftrightarrow> l = 0 \<or>
     (let e = mem (entry_addr t (table_index (Suc l) va))
      in bit e 0 \<longrightarrow> bit e 1 \<and> bit e 2 \<and> \<not> bit e 63 \<and> (\<not> bit e 7 \<longrightarrow> user_path mem l (e AND kAddressMask) va))"

abbreviation user_entry_flags :: u64 where
  "user_entry_flags \<equiv> kPagePresent OR kPageWritable OR kPageUser"

lemma entry_flags_user: "entry_flags user_entry_flags"
  by (simp add: entry_flags_def kernel_const)

lemma user_child_table: "user_child t i s = table_child user_entry_flags t i s"
  by (simp add: user_child_def table_child_def and_flag_iff Let_def or.assoc split_beta)

lemma user_flags_bits:
  assumes "unat c < 2 ^ 52"
  shows "bit (c OR user_entry_flags) 1" "bit (c OR user_entry_flags) 2" "\<not> bit (c OR user_entry_flags) 63"
proof -
  have "c = take_bit 52 c" using assms by (simp add: unat_eq_iff unat_take_bit)
  moreover have "\<not> bit (take_bit 52 c) 63" by (simp add: bit_take_bit_iff)
  ultimately have "\<not> bit c 63" by metis
  then show "bit (c OR user_entry_flags) 1" "bit (c OR user_entry_flags) 2" "\<not> bit (c OR user_entry_flags) 63"
    by (simp_all add: bit_or_iff kernel_const)
qed

lemma user_path_frame:
  assumes tree: "tree_ok T mem"
    and same: "\<And>t l i. T t = Some l \<Longrightarrow> 2 \<le> l \<Longrightarrow> unat i < 512 \<Longrightarrow> mem' (entry_addr t i) = mem (entry_addr t i)"
  shows "T t = Some l \<Longrightarrow> user_path mem' l t va = user_path mem l t va"
proof (induction l arbitrary: t)
  case (Suc l)
  let ?e = "mem (entry_addr t (table_index (Suc l) va))"
  show ?case
  proof (cases "l = 0")
    case False
    then have e: "mem' (entry_addr t (table_index (Suc l) va)) = ?e" using same [OF Suc.prems] by simp
    have "T (?e AND kAddressMask) = Some l" if "bit ?e 0" "\<not> bit ?e 7"
      using tree_child [OF tree Suc.prems, of "table_index (Suc l) va" "?e AND kAddressMask"] that False
      by (simp add: points_to_def)
    then show ?thesis using Suc.IH e by (auto simp: Let_def)
  qed simp
qed simp

lemma table_path_user:
  "vm_tree T r s \<Longrightarrow> T t = Some l \<Longrightarrow> user_path (vm_mem s) l t va \<Longrightarrow>
     table_path user_entry_flags l t va s = (pt, s') \<Longrightarrow> pt \<noteq> kInvalidAddress \<Longrightarrow> user_path (vm_mem s') l t va"
proof (induction l arbitrary: T t s)
  case (Suc l)
  let ?i = "table_index (Suc l) va"
  show ?case
  proof (cases "l = 0")
    case False
    obtain c s1 where child: "table_child user_entry_flags t ?i s = (c, s1)" by fastforce
    have c: "c \<noteq> kInvalidAddress" "table_path user_entry_flags l c va s1 = (pt, s')"
      using Suc.prems(4,5) False child by (auto split: if_splits)
    have "2 \<le> Suc l" using False by simp
    from table_child_result [OF Suc.prems(1,2) this table_index_less entry_flags_user child] c(1) obtain T1 where
      T1: "vm_grows T s T1 s1" "vm_tree T1 r s1" "T1 c = Some l" "points_to (vm_mem s1) t ?i c"
      and e: "if bit (vm_mem s (entry_addr t ?i)) 0 then s1 = s
        else vm_mem s1 (entry_addr t ?i) = c OR user_entry_flags \<and> (\<forall>j. unat j < 512 \<longrightarrow> vm_mem s1 (entry_addr c j) = 0)"
      by auto
    have cs: "unat c < 2 ^ 52" using vm_tree_taken [OF T1(2,3)] by (simp add: page_taken_def)
    have path: "user_path (vm_mem s1) l c va" and bits: "bit (vm_mem s1 (entry_addr t ?i)) 1"
        "bit (vm_mem s1 (entry_addr t ?i)) 2" "\<not> bit (vm_mem s1 (entry_addr t ?i)) 63"
    proof -
      have "user_path (vm_mem s1) l c va \<and> bit (vm_mem s1 (entry_addr t ?i)) 1 \<and>
        bit (vm_mem s1 (entry_addr t ?i)) 2 \<and> \<not> bit (vm_mem s1 (entry_addr t ?i)) 63"
      proof (cases "bit (vm_mem s (entry_addr t ?i)) 0")
        case True
        then show ?thesis using e Suc.prems(3) False T1(4) by (auto simp: Let_def points_to_def)
      next
        case False
        then show ?thesis using e user_flags_bits [OF cs] by (cases l) (auto simp: Let_def)
      qed
      then show "user_path (vm_mem s1) l c va" "bit (vm_mem s1 (entry_addr t ?i)) 1"
        "bit (vm_mem s1 (entry_addr t ?i)) 2" "\<not> bit (vm_mem s1 (entry_addr t ?i)) 63" by auto
    qed
    from table_path_result [OF entry_flags_user T1(2,3) c(2)] obtain T' where "vm_grows T1 s1 T' s'" by blast
    then have "vm_mem s' (entry_addr t ?i) = vm_mem s1 (entry_addr t ?i)"
      using vm_grows_Some [OF T1(1) Suc.prems(2)] T1(4) unfolding vm_grows_def points_to_def by blast
    then show ?thesis
      using Suc.IH [OF T1(2,3) path c(2) Suc.prems(5)] bits T1(4) by (simp add: Let_def points_to_def)
  qed simp
qed simp

lemma query_user_path:
  assumes "is_page_aligned root" "leaf_table mem 4 root va = Some pt" "user_path mem 4 root va"
    and "bit (mem (entry_addr pt (table_index 1 va))) 0"
  shows "query_page root va mem =
    (True, let e = mem (entry_addr pt (table_index 1 va))
       in \<lparr>pi_present = True, pi_user = bit e 2, pi_writable = bit e 1, pi_executable = (\<not> bit e 63),
           pi_physical = leaf_value 1 e va\<rparr>)"
proof -
  note up = user_path.simps(2) [of _ 3, simplified] user_path.simps(2) [of _ 2, simplified]
    user_path.simps(2) [of _ 1, unfolded Suc_1, simplified]
  show ?thesis
    using assms unfolding query_page_def index_levels and_flag_iff Let_def leaf_table_numeral up
    by (auto simp: leaf_value_def split: if_splits)
qed

lemma map_user_page_path:
  "map_user_page root va pa w x s =
     (if root = kInvalidAddress \<or> \<not> is_page_aligned va \<or> \<not> is_page_aligned pa \<or>
         \<not> is_canonical_user_address va \<or> (\<not> x \<and> \<not> vm_nxe s) then (False, s)
      else let (pt, s) = table_path user_entry_flags 4 root va s
           in if pt = kInvalidAddress then (False, s)
              else let a = entry_addr pt (table_index 1 va)
                   in if bit (vm_mem s a) 0 then (False, s)
                      else (True, write_entry a ((pa AND kAddressMask) OR the (make_user_page_flags w x True)) s))"
  unfolding map_user_page_def user_child_table index_levels table_path_numeral and_flag_iff not_not
    Let_def make_user_page_flags_def
  by (auto split: prod.splits)

lemma user_pte_bits:
  fixes pa :: u64 and w x :: bool
  defines "v \<equiv> (pa AND kAddressMask) OR the (make_user_page_flags w x True)"
  shows "bit v 0" "bit v 1 = w" "bit v 2" "bit v 63 = (\<not> x)" "v AND kAddressMask = pa AND kAddressMask"
proof -
  have "the (make_user_page_flags w x True) AND kAddressMask = 0"
    by (simp add: make_user_page_flags_def kernel_const)
  then show "v AND kAddressMask = pa AND kAddressMask"
    unfolding v_def bit.conj_disj_distrib2 and.assoc by simp
  show "bit v 0" "bit v 1 = w" "bit v 2" "bit v 63 = (\<not> x)"
    unfolding v_def
    by (auto simp: bit_or_iff bit_and_iff make_user_page_flags_def kPagePresent_def kPageUser_def kPageWritable_def
        kPageNoExecute_def)
qed

text \<open>
  Mapping a user page under a well-formed root whose existing upper-level entries on the path
  are user entries: a refused call changes no translation; an accepted one finds the page
  unmapped, leaves every other page alone, and afterwards the page tables grant user mode exactly
  the requested write and execute permission on the given frame.  A valid request for an unmapped
  page is accepted when three frames are free.
\<close>

theorem map_user_page_spec:
  assumes inv: "vm_tree T root s" and up: "user_path (vm_mem s) 4 root va"
  shows "case map_user_page root va pa w x s of (ok, s') \<Rightarrow>
    (\<exists>T'. T \<subseteq>\<^sub>m T' \<and> vm_tree T' root s') \<and>
    (\<forall>va'. \<not> (ok \<and> page_of va' = page_of va) \<longrightarrow> walk (vm_mem s') 4 root va' = walk (vm_mem s) 4 root va') \<and>
    (root \<noteq> kInvalidAddress \<and> is_page_aligned va \<and> is_page_aligned pa \<and> is_canonical_user_address va \<and>
       (x \<or> vm_nxe s) \<and> walk (vm_mem s) 4 root va = kInvalidAddress \<and> 3 \<le> card (free_set s) \<longrightarrow> ok) \<and>
    (ok \<longrightarrow> walk (vm_mem s) 4 root va = kInvalidAddress \<and>
      query_page root va (vm_mem s') =
        (True, \<lparr>pi_present = True, pi_user = True, pi_writable = w, pi_executable = x,
                pi_physical = (pa AND kAddressMask) OR (va AND 0xFFF)\<rparr>))"
proof (cases "root = kInvalidAddress \<or> \<not> is_page_aligned va \<or> \<not> is_page_aligned pa \<or>
         \<not> is_canonical_user_address va \<or> (\<not> x \<and> \<not> vm_nxe s)")
  case True
  then have run: "map_user_page root va pa w x s = (False, s)" unfolding map_user_page_path by (rule if_P)
  show ?thesis unfolding run using inv True by (auto intro!: exI [of _ T])
next
  case False
  obtain pt s1 where path: "table_path user_entry_flags 4 root va s = (pt, s1)" by fastforce
  have root: "T root = Some 4" using inv by (simp add: vm_tree_def)
  from table_path_result [OF entry_flags_user inv root path] obtain T' where
    grows: "vm_grows T s T' s1" and tree: "vm_tree T' root s1" and
    cases: "if pt = kInvalidAddress then walk (vm_mem s) 4 root va \<noteq> kInvalidAddress \<or> card (free_set s) < 4 - 1
      else T' pt = Some 1 \<and> leaf_table (vm_mem s1) 4 root va = Some pt" by blast
  have res: "pt \<noteq> kInvalidAddress \<Longrightarrow> T' pt = Some 1 \<and> leaf_table (vm_mem s1) 4 root va = Some pt"
    and full: "pt = kInvalidAddress \<Longrightarrow> walk (vm_mem s) 4 root va \<noteq> kInvalidAddress \<or> card (free_set s) < 3"
    using cases by (simp_all split: if_splits)
  have le: "T \<subseteq>\<^sub>m T'" and same: "walk (vm_mem s1) 4 root va' = walk (vm_mem s) 4 root va'" for va'
    using grows root unfolding vm_grows_def by blast+
  let ?a = "entry_addr pt (table_index 1 va)"
  show ?thesis
  proof (cases "pt = kInvalidAddress \<or> bit (vm_mem s1 ?a) 0")
    case True
    then have run: "map_user_page root va pa w x s = (False, s1)"
      using False path unfolding map_user_page_path by (auto simp: Let_def)
    have "walk (vm_mem s) 4 root va \<noteq> kInvalidAddress" if "pt \<noteq> kInvalidAddress"
      using res [OF that] True that walk_leaf [of "vm_mem s1" 4 root va pt] same [of va] leaf_value_valid by metis
    then show ?thesis unfolding run using tree le same full by (cases "pt = kInvalidAddress") auto
  next
    case ok: False
    define v where "v = (pa AND kAddressMask) OR the (make_user_page_flags w x True)"
    let ?s = "write_entry ?a v s1"
    have run: "map_user_page root va pa w x s = (True, ?s)"
      using False ok path unfolding map_user_page_path v_def by (simp add: Let_def)
    have pt: "T' pt = Some 1" "leaf_table (vm_mem s1) 4 root va = Some pt" using res ok by simp_all
    note wr = leaf_write [OF tree pt, where v = v]
    have unmapped: "walk (vm_mem s) 4 root va = kInvalidAddress"
      using walk_leaf [OF pt(2)] ok same [of va] by simp
    have "user_path (vm_mem s1) 4 root va" using table_path_user [OF inv root up path] ok by simp
    moreover have "vm_mem ?s (entry_addr t i) = vm_mem s1 (entry_addr t i)"
      if "T' t = Some l" "2 \<le> l" "unat i < 512" for t l i
    proof -
      have "t \<noteq> pt" using that pt(1) by auto
      then have "entry_addr t i \<noteq> ?a"
        using entry_addr_eq_taken vm_tree_taken [OF tree] that pt(1) table_index_less by metis
      then show ?thesis by (simp add: write_entry_def)
    qed
    ultimately have up': "user_path (vm_mem ?s) 4 root va"
      using user_path_frame [of T' "vm_mem s1" "vm_mem ?s"] tree vm_grows_Some [OF grows root]
      unfolding vm_tree_def by blast
    have v: "vm_mem ?s ?a = v" by (simp add: write_entry_def)
    have "query_page root va (vm_mem ?s) =
        (True, \<lparr>pi_present = True, pi_user = True, pi_writable = w, pi_executable = x,
                pi_physical = (pa AND kAddressMask) OR (va AND 0xFFF)\<rparr>)"
      using query_user_path [OF _ _ up', of pt] wr(4) [of va] pt(2) v user_pte_bits [of pa w x, folded v_def]
        vm_tree_taken [OF inv root]
      by (simp add: page_taken_def leaf_value_def Let_def)
    then show ?thesis unfolding run using wr(1,3) le same unmapped by auto
  qed
qed

subsection \<open>Destroying an address space\<close>

text \<open>The table pages below an entry, down to level 1; the mapped frames are not among them.\<close>

fun table_pages :: "(u64 \<Rightarrow> u64) \<Rightarrow> nat \<Rightarrow> u64 \<Rightarrow> u64 set" where
  "table_pages mem 0 p = {}"
| "table_pages mem (Suc l) p =
     (if p = 0 \<or> p = kInvalidAddress then {}
      else insert p (if l = 0 then {} else
        (\<Union>i\<in>{i. i < 512 \<and> bit (mem (entry_addr p (of_nat i))) 0 \<and> \<not> bit (mem (entry_addr p (of_nat i))) 7}.
           table_pages mem l (mem (entry_addr p (of_nat i)) AND kAddressMask))))"

definition releasable :: "vm_state \<Rightarrow> u64 \<Rightarrow> bool" where
  "releasable s p \<longleftrightarrow> is_page_aligned p \<and> p div kPageSize \<in> pb_free (g_reserved (vm_phys s))"

definition pages_released :: "vm_state \<Rightarrow> u64 set \<Rightarrow> vm_state \<Rightarrow> bool" where
  "pages_released s P s' \<longleftrightarrow> phys_inv (vm_phys s') \<and> vm_mem s' = vm_mem s \<and>
     g_reserved (vm_phys s') = g_reserved (vm_phys s) \<and>
     free_set s' = free_set s \<union> (\<lambda>p. p div kPageSize) ` P"

lemma pages_released_trans:
  "pages_released s P s' \<Longrightarrow> pages_released s' Q s'' \<Longrightarrow> pages_released s (P \<union> Q) s''"
  by (auto simp: pages_released_def)

lemma pages_released_none: "phys_inv (vm_phys s) \<Longrightarrow> pages_released s {} s"
  by (simp add: pages_released_def)

lemma releasable_cong: "pages_released s P s' \<Longrightarrow> releasable s' p = releasable s p"
  by (simp add: pages_released_def releasable_def)

lemma release_page_releases:
  assumes "phys_inv (vm_phys s)" "releasable s p"
  shows "pages_released s {p} (snd (release_page p s))"
proof -
  note r = release_page_result [OF assms(1), of p] and f = free_page_result [OF assms(1), of p]
  have "p div kPageSize < g_page_count (vm_phys s)"
    using assms pb_free_below unfolding releasable_def phys_inv_def by metis
  then have ok: "fst (release_page p s) \<longleftrightarrow> p div kPageSize \<notin> free_set s"
    using f(1) assms(2) by (simp add: release_page_def split_beta free_set_def releasable_def)
  have "free_set (snd (release_page p s)) =
      (if fst (release_page p s) then insert (p div kPageSize) (free_set s) else free_set s)"
    using f(5) by (simp add: release_page_def split_beta free_set_def)
  then show ?thesis using r(1,2,4) ok by (auto simp: pages_released_def)
qed

lemma release_table_result:
  "phys_inv (vm_phys s) \<Longrightarrow> \<forall>q\<in>table_pages (vm_mem s) l p. releasable s q \<Longrightarrow> 1 \<le> l \<Longrightarrow>
     pages_released s (table_pages (vm_mem s) l p) (release_table l p s)"
proof (induction l arbitrary: s p)
  case (Suc l)
  show ?case
  proof (cases "p = 0 \<or> p = kInvalidAddress")
    case True
    then show ?thesis using Suc.prems(1) by (simp add: release_table.simps pages_released_none)
  next
    case False
    let ?f = "\<lambda>i s. let e = vm_mem s (entry_addr p (of_nat i))
                in if e AND kPagePresent \<noteq> 0 \<and> e AND kPageHuge = 0
                   then release_table l (e AND kAddressMask) s else s"
    let ?kids = "\<lambda>I. \<Union>i\<in>{i. i \<in> I \<and> bit (vm_mem s (entry_addr p (of_nat i))) 0 \<and> \<not> bit (vm_mem s (entry_addr p (of_nat i))) 7}.
           table_pages (vm_mem s) l (vm_mem s (entry_addr p (of_nat i)) AND kAddressMask)"
    have loop: "pages_released s (?kids (set is)) (fold ?f is s)" if "l \<noteq> 0" "set is \<subseteq> {..<512}" for "is"
      using that(2)
    proof (induction "is" rule: rev_induct)
      case Nil
      then show ?case using Suc.prems(1) by (simp add: pages_released_none)
    next
      case (snoc i js)
      let ?s = "fold ?f js s" and ?e = "vm_mem s (entry_addr p (of_nat i))"
      have js: "pages_released s (?kids (set js)) ?s" using snoc by simp
      then have mem: "vm_mem ?s = vm_mem s" "phys_inv (vm_phys ?s)" by (simp_all add: pages_released_def)
      show ?case
      proof (cases "bit ?e 0 \<and> \<not> bit ?e 7")
        case True
        have "table_pages (vm_mem s) l (?e AND kAddressMask) \<subseteq> table_pages (vm_mem s) (Suc l) p"
          using True False \<open>l \<noteq> 0\<close> snoc.prems by auto
        then have "\<forall>q\<in>table_pages (vm_mem ?s) l (?e AND kAddressMask). releasable ?s q"
          using Suc.prems(2) releasable_cong [OF js] mem(1) by auto
        from Suc.IH [OF mem(2) this] \<open>l \<noteq> 0\<close>
        have "pages_released ?s (table_pages (vm_mem s) l (?e AND kAddressMask)) (?f i ?s)"
          using True mem(1) by (simp add: and_flag_iff)
        from pages_released_trans [OF js this]
        have "pages_released s (?kids (set js) \<union> table_pages (vm_mem s) l (?e AND kAddressMask)) (?f i ?s)" .
        moreover have "?kids (set (js @ [i])) = ?kids (set js) \<union> table_pages (vm_mem s) l (?e AND kAddressMask)"
          using True by auto
        ultimately show ?thesis by simp
      next
        case False
        then have "?f i ?s = ?s" using mem(1) by (auto simp: and_flag_iff Let_def)
        moreover have "?kids (set (js @ [i])) = ?kids (set js)" using False by auto
        ultimately show ?thesis using js by simp
      qed
    qed
    have own: "releasable s p" using Suc.prems(2) False by simp
    define s1 where "s1 = (if Suc l > 1 then fold ?f [0..<512] s else s)"
    have run: "release_table (Suc l) p s = snd (release_page p s1)"
      using False unfolding s1_def release_table.simps [of "Suc l" p s] diff_Suc_1 kEntriesPerTable_def Let_def
      by simp
    have s1: "pages_released s (if l = 0 then {} else ?kids {..<512}) s1"
      using loop [of "[0..<512]"] Suc.prems(1)
      by (auto simp: s1_def pages_released_none atLeast0LessThan)
    have "phys_inv (vm_phys s1)" using s1 by (simp add: pages_released_def)
    from release_page_releases [OF this] releasable_cong [OF s1] own
    have "pages_released s1 {p} (snd (release_page p s1))" by simp
    from pages_released_trans [OF s1 this] False show ?thesis unfolding run by (simp split: if_splits)
  qed
qed simp

text \<open>All table pages an address space owns: its root and the tables of its two private slots.\<close>

definition user_tables :: "(u64 \<Rightarrow> u64) \<Rightarrow> u64 \<Rightarrow> u64 set" where
  "user_tables mem root = insert root
     (\<Union>i\<in>{i. i \<in> {pml4_index kUserImageBase, pml4_index kUserStackTop} \<and> bit (mem (entry_addr root i)) 0}.
        table_pages mem 3 (mem (entry_addr root i) AND kAddressMask))"

lemma destroy_user_address_space_released:
  assumes ph: "phys_inv (vm_phys s)" and root: "root \<noteq> kInvalidAddress" "root \<noteq> 0"
    and owned: "\<forall>p\<in>user_tables (vm_mem s) root. releasable s p"
  shows "pages_released s (user_tables (vm_mem s) root) (snd (destroy_user_address_space root s))"
proof -
  let ?i1 = "pml4_index kUserImageBase" and ?i2 = "pml4_index kUserStackTop"
  let ?P = "\<lambda>i. if bit (vm_mem s (entry_addr root i)) 0
    then table_pages (vm_mem s) 3 (vm_mem s (entry_addr root i) AND kAddressMask) else {}"
  have all: "user_tables (vm_mem s) root = ?P ?i1 \<union> ?P ?i2 \<union> {root}" by (auto simp: user_tables_def)
  let ?r = "\<lambda>i t. if bit (vm_mem s (entry_addr root i)) 0
    then release_table 3 (vm_mem s (entry_addr root i) AND kAddressMask) t else t"
  have step: "pages_released s (X \<union> ?P i) (?r i t)"
    if "pages_released s X t" "i \<in> {?i1, ?i2}" for i t X
  proof -
    have mem: "vm_mem t = vm_mem s" "phys_inv (vm_phys t)" using that(1) by (simp_all add: pages_released_def)
    have "\<forall>q\<in>?P i. releasable t q" using owned releasable_cong [OF that(1)] that(2) unfolding all by auto
    then have "pages_released t (?P i) (?r i t)"
      using release_table_result [of t 3 "vm_mem s (entry_addr root i) AND kAddressMask"] mem
      by (cases "bit (vm_mem s (entry_addr root i)) 0") (simp_all add: pages_released_none)
    with that(1) show ?thesis by (rule pages_released_trans)
  qed
  define s1 where "s1 = ?r ?i1 s"
  define s2 where "s2 = ?r ?i2 s1"
  have s1: "pages_released s (?P ?i1) s1"
    using step [OF pages_released_none [OF ph], of ?i1] by (simp add: s1_def)
  then have s2: "pages_released s (?P ?i1 \<union> ?P ?i2) s2" unfolding s2_def by (rule step) simp
  have "vm_mem s1 = vm_mem s" using s1 by (simp add: pages_released_def)
  moreover have "?i2 \<noteq> ?i1" by (simp add: slots_distinct)
  ultimately have run: "destroy_user_address_space root s = (kInvalidAddress, snd (release_page root s2))"
    using root by (simp add: destroy_user_address_space_def Let_def and_flag_iff s2_def flip: s1_def cong: if_cong)
  have "phys_inv (vm_phys s2)" "releasable s2 root"
    using s2 owned releasable_cong [OF s2] by (simp_all add: pages_released_def all)
  from pages_released_trans [OF s2 release_page_releases [OF this]]
  show ?thesis unfolding run all by simp
qed

text \<open>
  Destroying an address space whose table pages are all managed and unreserved returns to the
  allocator exactly the root and the tables of the image and stack slots, touches no memory and
  no other page, and invalidates the handle.
\<close>

theorem destroy_user_address_space_spec:
  assumes ph: "phys_inv (vm_phys s)" and root: "root \<noteq> kInvalidAddress" "root \<noteq> 0"
    and owned: "\<forall>p\<in>user_tables (vm_mem s) root. releasable s p"
  shows "case destroy_user_address_space root s of (r, s') \<Rightarrow>
    r = kInvalidAddress \<and> vm_mem s' = vm_mem s \<and> phys_inv (vm_phys s') \<and>
    free_set s' = free_set s \<union> (\<lambda>p. p div kPageSize) ` user_tables (vm_mem s) root"
  using destroy_user_address_space_released [OF assms] root
  by (simp add: pages_released_def destroy_user_address_space_def Let_def split: if_splits)

subsection \<open>A small user address space\<close>

theorem create_user_address_space_spec_witness:
  "fst (create_user_address_space demo_vm) \<and>
     \<not> pi_user (snd (query_page (fst (snd (create_user_address_space demo_vm))) kUserImageBase
         (vm_mem (snd (snd (create_user_address_space demo_vm))))))"
proof -
  have "free_set demo_vm \<noteq> {}" using demo_vm_free by force
  then show ?thesis
    using create_user_address_space_spec [OF demo_vm_tree] by (auto simp: demo_vm_def split: prod.splits)
qed

lemma demo_user_path: "user_path (vm_mem demo_vm) 4 (root_physical demo_vm) va"
  by (simp add: numeral_eq_Suc demo_vm_def)

theorem map_user_page_spec_witness:
  "fst (map_user_page 0x1000 kUserImageBase 0x9000 False True demo_vm) \<and>
   snd (query_page 0x1000 kUserImageBase (vm_mem (snd (map_user_page 0x1000 kUserImageBase 0x9000 False True demo_vm)))) =
     \<lparr>pi_present = True, pi_user = True, pi_writable = False, pi_executable = True, pi_physical = 0x9000\<rparr>"
proof -
  have "is_page_aligned kUserImageBase" "is_page_aligned 0x9000" "is_canonical_user_address kUserImageBase"
    "(0x1000 :: u64) \<noteq> kInvalidAddress" "((0x9000 :: u64) AND kAddressMask) OR (kUserImageBase AND 0xFFF) = 0x9000"
    by code_simp+
  moreover have "walk (vm_mem demo_vm) 4 0x1000 kUserImageBase = kInvalidAddress"
    using demo_vm_unmapped [of kUserImageBase] by (simp add: is_mapped_def translate_walk demo_vm_root)
  ultimately show ?thesis
    using map_user_page_spec [OF demo_vm_tree demo_user_path, where pa = "0x9000" and w = False and x = True
        and va = kUserImageBase] demo_vm_free
    unfolding demo_vm_root by (auto split: prod.splits)
qed

theorem destroy_user_address_space_spec_witness:
  "free_set (snd (destroy_user_address_space 0x5000 demo_vm)) = {3, 5, 6, 7}"
proof -
  have d: "(0x5000 :: u64) div kPageSize = 5" "is_page_aligned 0x5000" "(0x5000 :: u64) \<noteq> kInvalidAddress" by code_simp+
  have t: "user_tables (vm_mem demo_vm) 0x5000 = {0x5000}" by (auto simp: user_tables_def demo_vm_def)
  have "phys_inv (vm_phys demo_vm)" using demo_vm_tree by (simp add: vm_tree_def)
  moreover have "\<forall>p\<in>user_tables (vm_mem demo_vm) 0x5000. releasable demo_vm p"
    unfolding t using d demo_bitmap4_free by (simp add: releasable_def demo_vm_def)
  moreover have "free_set demo_vm = {3, 5, 6, 7}" using demo_bitmap4_free by (simp add: free_set_def demo_vm_def)
  ultimately show ?thesis
    using destroy_user_address_space_spec [of demo_vm "0x5000"] d t by (auto split: prod.splits)
qed

text \<open>One user page at \<^verbatim>\<open>0x400000\<close> with eight known bytes.\<close>

definition demo_user_mem :: "u64 \<Rightarrow> u64" where
  "demo_user_mem = (\<lambda>_. 0)(0x1000 := 0x2007, 0x2000 := 0x4007, 0x4010 := 0x8007, 0x8000 := 0x9005,
     0x9000 := 0x1122334455667788)"

lemma demo_user_bytes:
  "user_accessible 0x1000 demo_user_mem Read 0x400000" "user_accessible 0x1000 demo_user_mem Read 0x400001"
  "\<not> user_accessible 0x1000 demo_user_mem Write 0x400000"
  "user_byte 0x1000 demo_user_mem 0x400000 = 0x88" "user_byte 0x1000 demo_user_mem 0x400001 = 0x77"
  by code_simp+

lemma all_less_2: "(\<forall>k<2. P k) \<longleftrightarrow> P 0 \<and> P (Suc 0)" for P :: "nat \<Rightarrow> bool"
  by (auto simp: less_Suc_eq numeral_2_eq_2)

theorem copy_from_user_spec_witness:
  "copy_from_user 0x1000 0x400000 2 demo_user_mem = (True, [0x88, 0x77])"
  using copy_from_user_spec [of "0x1000" "0x400000" 2 demo_user_mem] demo_user_bytes
  by (simp add: all_less_2 upt_rec)


end
