(* ===== verification/Process.thy ===== *)
theory Process
  imports User_Space
begin

text \<open>
  The process table (\<^verbatim>\<open>kernel/process/process.hpp\<close>, \<^verbatim>\<open>process.cpp\<close>, \<^verbatim>\<open>context.hpp\<close>): sixteen slots,
  allocation of process identifiers, capture of an interrupted user context, and the reaping of
  exited processes, which hands the frames mapped in the image and stack ranges, the page tables
  and the kernel stack back to the page allocator.  A \<^verbatim>\<open>Process*\<close> is the index of its slot.
\<close>

subsection \<open>Contexts and processes\<close>

datatype proc_status = Unused | Created | Ready | Running | Blocked | Exited

datatype return_kind = Iret | Sysret

record gp_regs =
  r15 :: u64
  r14 :: u64
  r13 :: u64
  r12 :: u64
  r11 :: u64
  r10 :: u64
  r9 :: u64
  r8 :: u64
  rbp :: u64
  rdi :: u64
  rsi :: u64
  rdx :: u64
  rcx :: u64
  rbx :: u64
  rax :: u64

record user_context = gp_regs +
  uc_rip :: u64
  uc_rsp :: u64
  uc_rflags :: u64
  uc_cs :: u16
  uc_ss :: u16
  uc_return_kind :: return_kind

record interrupt_frame = gp_regs +
  if_vector :: u64
  if_error_code :: u64
  if_rip :: u64
  if_cs :: u64
  if_rflags :: u64
  if_rsp :: u64
  if_ss :: u64

record process =
  p_pid :: u32
  p_state :: proc_status
  p_page_table_physical :: u64
  p_user_entry :: u64
  p_user_stack_top :: u64
  p_kernel_stack_base :: u64
  p_kernel_stack_top :: u64
  p_context :: user_context
  p_exit_code :: u64
  p_fault_vector :: u32
  p_fault_error_code :: u64
  p_fault_address :: u64

definition zero_context :: user_context where
  "zero_context = \<lparr>r15 = 0, r14 = 0, r13 = 0, r12 = 0, r11 = 0, r10 = 0, r9 = 0, r8 = 0, rbp = 0,
     rdi = 0, rsi = 0, rdx = 0, rcx = 0, rbx = 0, rax = 0, uc_rip = 0, uc_rsp = 0, uc_rflags = 0,
     uc_cs = 0, uc_ss = 0, uc_return_kind = Iret\<rparr>"

definition zero_process :: process where
  "zero_process = \<lparr>p_pid = 0, p_state = Unused, p_page_table_physical = 0, p_user_entry = 0,
     p_user_stack_top = 0, p_kernel_stack_base = 0, p_kernel_stack_top = 0, p_context = zero_context,
     p_exit_code = 0, p_fault_vector = 0, p_fault_error_code = 0, p_fault_address = 0\<rparr>"

subsection \<open>The table\<close>

definition kProcessCapacity :: nat where "kProcessCapacity = 16"

record proc_table =
  g_processes :: "process list"
  g_next_pid :: u32

definition proc_initialize :: proc_table where
  "proc_initialize = \<lparr>g_processes = replicate kProcessCapacity zero_process, g_next_pid = 1\<rparr>"

definition proc_allocate :: "proc_table \<Rightarrow> nat option \<times> proc_table" where
  "proc_allocate t =
     (case first_slot (\<lambda>p. p_state p = Unused) (g_processes t) of
        None \<Rightarrow> (None, t)
      | Some i \<Rightarrow>
          (Some i, t\<lparr>g_processes := (g_processes t)[i := zero_process\<lparr>p_pid := g_next_pid t, p_state := Created\<rparr>],
                     g_next_pid := g_next_pid t + 1\<rparr>))"

definition proc_find :: "u32 \<Rightarrow> proc_table \<Rightarrow> nat option" where
  "proc_find pid t = first_slot (\<lambda>p. p_state p \<noteq> Unused \<and> p_pid p = pid) (g_processes t)"

definition proc_release :: "process \<Rightarrow> process" where
  "proc_release p = zero_process\<lparr>p_state := Unused\<rparr>"

definition capture_interrupt_context :: "interrupt_frame \<Rightarrow> process \<Rightarrow> process" where
  "capture_interrupt_context frame p = p\<lparr>p_context :=
     \<lparr>r15 = r15 frame, r14 = r14 frame, r13 = r13 frame, r12 = r12 frame, r11 = r11 frame, r10 = r10 frame,
      r9 = r9 frame, r8 = r8 frame, rbp = rbp frame, rdi = rdi frame, rsi = rsi frame, rdx = rdx frame,
      rcx = rcx frame, rbx = rbx frame, rax = rax frame, uc_rip = if_rip frame, uc_rsp = if_rsp frame,
      uc_rflags = if_rflags frame, uc_cs = ucast (if_cs frame), uc_ss = ucast (if_ss frame),
      uc_return_kind = Iret\<rparr>\<rparr>"

definition mark_exited :: "u64 \<Rightarrow> process \<Rightarrow> process" where
  "mark_exited code p = p\<lparr>p_exit_code := code, p_state := Exited\<rparr>"

subsection \<open>Reaping\<close>

text \<open>
  The operations a reaper is given; a null function pointer is \<open>None\<close>.  The context they share is
  the state of type \<open>'c\<close>.
\<close>

record 'c reap_operations =
  lookup_user_page :: "(u64 \<Rightarrow> u64 \<Rightarrow> 'c \<Rightarrow> u64 option) option"
  release_physical_page :: "(u64 \<Rightarrow> 'c \<Rightarrow> 'c) option"
  destroy_address_space :: "(u64 \<Rightarrow> 'c \<Rightarrow> 'c) option"
  kernel_stack_physical :: "(u64 \<Rightarrow> u64) option"

text \<open>
  The address loop of \<^verbatim>\<open>release_mapped_range\<close>.  Its inner guard only makes the recursion total: the
  limits the kernel passes are below the canonical boundary, where the address never wraps and the
  loop is the one of the source (lemma \<open>release_pages_loop\<close>).
\<close>

function release_pages :: "(u64 \<Rightarrow> 'c \<Rightarrow> u64 option) \<Rightarrow> (u64 \<Rightarrow> 'c \<Rightarrow> 'c) \<Rightarrow> u64 \<Rightarrow> u64 \<Rightarrow> 'c \<Rightarrow> 'c" where
  "release_pages lookup rel address limit c =
     (if \<not> address < limit then c
      else let c = (case lookup address c of Some physical \<Rightarrow> rel physical c | None \<Rightarrow> c)
           in if address > UINT64_MAX - kPageSize then c
              else release_pages lookup rel (address + kPageSize) limit c)"
  by pat_completeness auto
termination
proof (relation "measure (\<lambda>(_, _, address, _, _). 2 ^ 64 - unat address)", goal_cases)
  case (2 lookup rel address limit c x)
  then have "unat address + 4096 < 2 ^ 64"
    using no_overflow_iff [of address kPageSize] by (simp add: not_less)
  then have "unat (address + kPageSize) = unat address + 4096" by (simp add: unat_word_ariths)
  then show ?case using unat_less_64 [of address] by simp
qed simp

declare release_pages.simps [simp del]

definition release_mapped_range :: "process \<Rightarrow> 'c reap_operations \<Rightarrow> u64 \<Rightarrow> u64 \<Rightarrow> 'c \<Rightarrow> 'c" where
  "release_mapped_range p ops first limit c =
     (case (lookup_user_page ops, release_physical_page ops) of
        (Some lookup, Some rel) \<Rightarrow>
          if p_page_table_physical p = 0 then c
          else release_pages (lookup (p_page_table_physical p)) rel first limit c
      | _ \<Rightarrow> c)"

definition reap_one :: "'c reap_operations \<Rightarrow> process \<Rightarrow> 'c \<Rightarrow> process \<times> 'c" where
  "reap_one ops p c =
     (if p_state p \<noteq> Exited then (p, c)
      else let c = release_mapped_range p ops kUserImageBase kUserImageLimit c;
               c = release_mapped_range p ops (kUserStackTop - kUserStackPages * kPageSize) kUserStackTop c;
               c = (case destroy_address_space ops of
                      Some destroy \<Rightarrow> if p_page_table_physical p \<noteq> 0 then destroy (p_page_table_physical p) c else c
                    | None \<Rightarrow> c);
               c = (case (kernel_stack_physical ops, release_physical_page ops) of
                      (Some stack, Some rel) \<Rightarrow>
                        if p_kernel_stack_base p \<noteq> 0 then rel (stack (p_kernel_stack_base p)) c else c
                    | _ \<Rightarrow> c)
           in (proc_release p, c))"

fun reap_all :: "'c reap_operations \<Rightarrow> process list \<Rightarrow> 'c \<Rightarrow> process list \<times> 'c" where
  "reap_all ops [] c = ([], c)"
| "reap_all ops (p # ps) c =
     (let (p, c) = reap_one ops p c; (ps, c) = reap_all ops ps c in (p # ps, c))"

text \<open>The operations of the running kernel, over the page tables and the page allocator.\<close>

definition kernel_reap_operations :: "vm_state reap_operations" where
  "kernel_reap_operations = \<lparr>
     lookup_user_page = Some (\<lambda>root va s. let (ok, info) = query_page root va (vm_mem s)
        in if \<not> ok \<or> \<not> pi_present info \<or> \<not> pi_user info then None else Some (pi_physical info)),
     release_physical_page = Some (\<lambda>p s. snd (release_page p s)),
     destroy_address_space = Some (\<lambda>root s. snd (destroy_user_address_space root s)),
     kernel_stack_physical = Some hhdm_to_physical\<rparr>"

lemma release_pages_loop:
  assumes "limit \<le> kUserStackTop"
  shows "release_pages lookup rel address limit c =
     (if \<not> address < limit then c
      else release_pages lookup rel (address + kPageSize) limit
             (case lookup address c of Some physical \<Rightarrow> rel physical c | None \<Rightarrow> c))"
proof -
  have "\<not> address > UINT64_MAX - kPageSize" if "address < limit"
  proof -
    have "unat address < unat kUserStackTop" using that assms by (simp add: unat_less_iff unat_le_iff)
    then have "unat kPageSize + unat address < 2 ^ 64" by (simp add: kUserStackTop_def)
    then show ?thesis using no_overflow_iff [of address kPageSize] by (simp add: not_less)
  qed
  then show ?thesis by (subst release_pages.simps) (simp add: Let_def)
qed

subsection \<open>Slots and identifiers\<close>

definition live :: "process \<Rightarrow> bool" where
  "live p \<longleftrightarrow> p_state p \<noteq> Unused"

text \<open>
  The table has sixteen slots; the live processes have distinct, non-zero identifiers that were
  handed out before the next one.  The counter has not wrapped.
\<close>

definition proc_inv :: "proc_table \<Rightarrow> bool" where
  "proc_inv t \<longleftrightarrow> length (g_processes t) = kProcessCapacity \<and>
     (\<forall>i<kProcessCapacity. live (g_processes t ! i) \<longrightarrow>
        p_pid (g_processes t ! i) \<noteq> 0 \<and> p_pid (g_processes t ! i) < g_next_pid t) \<and>
     (\<forall>i<kProcessCapacity. \<forall>j<kProcessCapacity. live (g_processes t ! i) \<longrightarrow> live (g_processes t ! j) \<longrightarrow>
        p_pid (g_processes t ! i) = p_pid (g_processes t ! j) \<longrightarrow> i = j)"

lemma proc_inv_initialize: "proc_inv proc_initialize"
  by (simp add: proc_inv_def proc_initialize_def live_def zero_process_def)

lemma proc_inv_update:
  assumes "proc_inv t" "i < kProcessCapacity"
    and "live p \<Longrightarrow> live (g_processes t ! i) \<and> p_pid p = p_pid (g_processes t ! i)"
  shows "proc_inv (t\<lparr>g_processes := (g_processes t)[i := p]\<rparr>)"
  using assms unfolding proc_inv_def by (auto simp: nth_list_update)

lemma proc_allocate_cases:
  assumes "proc_inv t" "g_next_pid t \<noteq> UINT32_MAX" "g_next_pid t \<noteq> 0"
  shows "(\<exists>i. proc_allocate t = (Some i, snd (proc_allocate t)) \<and> i < kProcessCapacity \<and>
      \<not> live (g_processes t ! i) \<and> (\<forall>j<i. live (g_processes t ! j)) \<and>
      g_processes (snd (proc_allocate t)) =
        (g_processes t)[i := zero_process\<lparr>p_pid := g_next_pid t, p_state := Created\<rparr>] \<and>
      g_next_pid (snd (proc_allocate t)) = g_next_pid t + 1) \<or>
    (proc_allocate t = (None, t) \<and> (\<forall>p\<in>set (g_processes t). live p))"
proof (cases "first_slot (\<lambda>p. p_state p = Unused) (g_processes t)")
  case None
  then have "proc_allocate t = (None, t)" by (simp add: proc_allocate_def)
  moreover have "\<forall>p\<in>set (g_processes t). live p" using None by (simp add: first_slot_None live_def)
  ultimately show ?thesis by blast
next
  case (Some i)
  then have "i < kProcessCapacity" "p_state (g_processes t ! i) = Unused" "\<forall>j<i. p_state (g_processes t ! j) \<noteq> Unused"
    using assms(1) by (auto simp: first_slot_Some proc_inv_def)
  moreover have "proc_allocate t = (Some i, t\<lparr>g_processes := (g_processes t)[i := zero_process\<lparr>p_pid := g_next_pid t, p_state := Created\<rparr>],
      g_next_pid := g_next_pid t + 1\<rparr>)" using Some by (simp add: proc_allocate_def)
  ultimately show ?thesis by (simp add: live_def)
qed

lemma proc_inv_allocate:
  assumes "proc_inv t" "g_next_pid t \<noteq> UINT32_MAX" "g_next_pid t \<noteq> 0"
  shows "proc_inv (snd (proc_allocate t))"
  using proc_allocate_cases [OF assms]
proof (elim disjE exE conjE)
  fix i assume i: "i < kProcessCapacity" and procs: "g_processes (snd (proc_allocate t)) =
      (g_processes t)[i := zero_process\<lparr>p_pid := g_next_pid t, p_state := Created\<rparr>]"
    and next_pid: "g_next_pid (snd (proc_allocate t)) = g_next_pid t + 1"
  have lt: "g_next_pid t < g_next_pid t + 1"
  proof -
    have "g_next_pid t < UINT32_MAX" using assms(2) by (metis word_order.not_eq_extremum)
    from unat_Suc_less [OF this] show ?thesis by (simp add: unat_less_iff)
  qed
  then show ?thesis
    using assms(1,3) i unfolding proc_inv_def procs next_pid
    by (auto simp: nth_list_update split: if_splits)
qed (use assms in simp)


subsection \<open>What reaping returns\<close>

definition mapped_frames :: "(u64 \<Rightarrow> u64) \<Rightarrow> u64 \<Rightarrow> u64 \<Rightarrow> u64 \<Rightarrow> u64 set" where
  "mapped_frames mem root first limit =
     {pi_physical (snd (query_page root (first + of_nat k * kPageSize) mem)) | k.
        unat first + 4096 * k < unat limit \<and>
        user_accessible root mem Read (first + of_nat k * kPageSize)}"

lemma user_accessible_Read:
  "user_accessible root mem Read x \<longleftrightarrow> fst (query_page root x mem) \<and>
     pi_present (snd (query_page root x mem)) \<and> pi_user (snd (query_page root x mem))"
  by (auto simp: user_accessible_def user_page_access_allowed_def)

definition kernel_lookup :: "u64 \<Rightarrow> u64 \<Rightarrow> vm_state \<Rightarrow> u64 option" where
  "kernel_lookup root va s = (if user_accessible root (vm_mem s) Read va
     then Some (pi_physical (snd (query_page root va (vm_mem s)))) else None)"

lemma mapped_frames_step:
  assumes "first < limit" "limit \<le> kUserStackTop"
  shows "mapped_frames mem root first limit =
    (if user_accessible root mem Read first then {pi_physical (snd (query_page root first mem))} else {}) \<union>
    mapped_frames mem root (first + kPageSize) limit"
proof -
  have "unat first < unat kUserStackTop" using assms by (simp add: unat_less_iff unat_le_iff)
  then have step: "unat (first + kPageSize) = unat first + 4096" by (simp add: unat_word_ariths kUserStackTop_def)
  have eq: "first + of_nat (Suc k) * kPageSize = first + kPageSize + of_nat k * kPageSize" for k
    by (simp add: algebra_simps)
  have ex: "(\<exists>k. P k) \<longleftrightarrow> P 0 \<or> (\<exists>k. P (Suc k))" for P by (metis not0_implies_Suc)
  have lt: "unat first < unat limit" using assms(1) by (simp add: unat_less_iff)
  have nat: "unat first + 4096 * Suc k < unat limit \<longleftrightarrow> unat first + 4096 + 4096 * k < unat limit" for k
    by (simp add: add.assoc)
  have "x \<in> mapped_frames mem root first limit \<longleftrightarrow>
      x \<in> (if user_accessible root mem Read first then {pi_physical (snd (query_page root first mem))} else {}) \<union>
        mapped_frames mem root (first + kPageSize) limit" for x
    unfolding mapped_frames_def mem_Collect_eq Un_iff
    by (subst ex) (use lt in \<open>simp only: eq step nat of_nat_0 mult_zero_left add_0_right, auto\<close>)
  then show ?thesis by blast
qed

lemma mapped_frames_empty: "\<not> first < limit \<Longrightarrow> mapped_frames mem root first limit = {}"
  by (auto simp: mapped_frames_def unat_less_iff)

lemma release_pages_releases:
  assumes "limit \<le> kUserStackTop"
  shows "phys_inv (vm_phys s) \<Longrightarrow> \<forall>q\<in>mapped_frames (vm_mem s) root first limit. releasable s q \<Longrightarrow>
    pages_released s (mapped_frames (vm_mem s) root first limit)
      (release_pages (kernel_lookup root) (\<lambda>p s. snd (release_page p s)) first limit s)"
proof (induction "2 ^ 64 - unat first" arbitrary: first s rule: less_induct)
  case less
  let ?rel = "\<lambda>p s. snd (release_page p s)"
  show ?case
  proof (cases "first < limit")
    case False
    then show ?thesis
      using less.prems(1) by (simp add: release_pages_loop [OF assms] mapped_frames_empty pages_released_none)
  next
    case True
    note step = mapped_frames_step [OF True assms, of "vm_mem s" root]
    let ?P = "if user_accessible root (vm_mem s) Read first then {pi_physical (snd (query_page root first (vm_mem s)))} else {}"
    let ?s = "case kernel_lookup root first s of Some physical \<Rightarrow> ?rel physical s | None \<Rightarrow> s"
    have s: "pages_released s ?P ?s"
      using release_page_releases [OF less.prems(1)] less.prems step
      by (auto simp: kernel_lookup_def pages_released_none)
    have "unat first < unat kUserStackTop" using True assms by (simp add: unat_less_iff unat_le_iff)
    then have dec: "2 ^ 64 - unat (first + kPageSize) < 2 ^ 64 - unat first"
      by (simp add: unat_word_ariths kUserStackTop_def)
    have mem: "vm_mem ?s = vm_mem s" "phys_inv (vm_phys ?s)" using s by (simp_all add: pages_released_def)
    have "\<forall>q\<in>mapped_frames (vm_mem ?s) root (first + kPageSize) limit. releasable ?s q"
      using less.prems(2) step releasable_cong [OF s] mem(1) by auto
    from less.hyps [OF dec mem(2) this]
    have "pages_released ?s (mapped_frames (vm_mem s) root (first + kPageSize) limit)
        (release_pages (kernel_lookup root) ?rel (first + kPageSize) limit ?s)" using mem(1) by simp
    from pages_released_trans [OF s this] True show ?thesis
      unfolding step release_pages_loop [OF assms, of _ _ first] by simp
  qed
qed

lemma kernel_lookup_ops:
  "lookup_user_page kernel_reap_operations = Some kernel_lookup"
  by (auto simp: kernel_reap_operations_def kernel_lookup_def user_accessible_Read split_beta Let_def fun_eq_iff)

lemma kernel_other_ops:
  "release_physical_page kernel_reap_operations = Some (\<lambda>p s. snd (release_page p s))"
  "destroy_address_space kernel_reap_operations = Some (\<lambda>root s. snd (destroy_user_address_space root s))"
  "kernel_stack_physical kernel_reap_operations = Some hhdm_to_physical"
  by (simp_all add: kernel_reap_operations_def)

text \<open>Everything an exited process holds: mapped frames, page tables and the kernel stack page.\<close>

definition process_pages :: "(u64 \<Rightarrow> u64) \<Rightarrow> process \<Rightarrow> u64 set" where
  "process_pages mem p =
     mapped_frames mem (p_page_table_physical p) kUserImageBase kUserImageLimit \<union>
     mapped_frames mem (p_page_table_physical p) (kUserStackTop - kUserStackPages * kPageSize) kUserStackTop \<union>
     user_tables mem (p_page_table_physical p) \<union> {hhdm_to_physical (p_kernel_stack_base p)}"

text \<open>
  Reaping an exited process with a valid address space returns to the page allocator exactly the
  frames mapped for user mode in its image and stack ranges, its page-table pages and its kernel
  stack page, leaves memory untouched and frees the slot; a process that has not exited is left
  alone.
\<close>

theorem reap_one_spec:
  assumes ph: "phys_inv (vm_phys s)" and root: "p_page_table_physical p \<noteq> 0" "p_page_table_physical p \<noteq> kInvalidAddress"
    and stack: "p_kernel_stack_base p \<noteq> 0" and owned: "\<forall>q\<in>process_pages (vm_mem s) p. releasable s q"
  shows "case reap_one kernel_reap_operations p s of (p', s') \<Rightarrow>
    if p_state p = Exited
    then p_state p' = Unused \<and> p_pid p' = 0 \<and> vm_mem s' = vm_mem s \<and> phys_inv (vm_phys s') \<and>
      free_set s' = free_set s \<union> (\<lambda>q. q div kPageSize) ` process_pages (vm_mem s) p
    else p' = p \<and> s' = s"
proof (cases "p_state p = Exited")
  case False
  then show ?thesis by (simp add: reap_one_def)
next
  case True
  let ?root = "p_page_table_physical p"
  let ?F1 = "mapped_frames (vm_mem s) ?root kUserImageBase kUserImageLimit"
  let ?F2 = "mapped_frames (vm_mem s) ?root (kUserStackTop - kUserStackPages * kPageSize) kUserStackTop"
  have lim: "kUserImageLimit \<le> kUserStackTop" by (simp add: kernel_const)
  define s1 where "s1 = release_mapped_range p kernel_reap_operations kUserImageBase kUserImageLimit s"
  define s2 where "s2 = release_mapped_range p kernel_reap_operations (kUserStackTop - kUserStackPages * kPageSize) kUserStackTop s1"
  define s3 where "s3 = snd (destroy_user_address_space ?root s2)"
  have own: "\<forall>q\<in>?F1. releasable s q" "\<forall>q\<in>?F2. releasable s q" "\<forall>q\<in>user_tables (vm_mem s) ?root. releasable s q"
    "releasable s (hhdm_to_physical (p_kernel_stack_base p))"
    using owned by (auto simp: process_pages_def)
  have 1: "pages_released s ?F1 s1"
    using release_pages_releases [OF lim ph own(1)] root(1)
    by (simp add: s1_def release_mapped_range_def kernel_lookup_ops kernel_other_ops)
  then have ph1: "phys_inv (vm_phys s1)" "vm_mem s1 = vm_mem s" by (simp_all add: pages_released_def)
  have "pages_released s1 ?F2 s2"
    using release_pages_releases [OF order.refl ph1(1), of ?root "kUserStackTop - kUserStackPages * kPageSize"]
      own(2) root(1) releasable_cong [OF 1]
    by (simp add: s2_def release_mapped_range_def kernel_lookup_ops kernel_other_ops ph1(2))
  from pages_released_trans [OF 1 this] have 2: "pages_released s (?F1 \<union> ?F2) s2" .
  then have ph2: "phys_inv (vm_phys s2)" "vm_mem s2 = vm_mem s" by (simp_all add: pages_released_def)
  have "pages_released s2 (user_tables (vm_mem s) ?root) s3"
    using destroy_user_address_space_released [OF ph2(1) root(2,1)] own(3) releasable_cong [OF 2] by (simp add: s3_def ph2(2))
  from pages_released_trans [OF 2 this] have 3: "pages_released s (?F1 \<union> ?F2 \<union> user_tables (vm_mem s) ?root) s3" .
  have "pages_released s3 {hhdm_to_physical (p_kernel_stack_base p)}
      (snd (release_page (hhdm_to_physical (p_kernel_stack_base p)) s3))"
    using 3 own(4) releasable_cong [OF 3] by (intro release_page_releases) (simp_all add: pages_released_def)
  from pages_released_trans [OF 3 this]
  have fin: "pages_released s (process_pages (vm_mem s) p)
      (snd (release_page (hhdm_to_physical (p_kernel_stack_base p)) s3))" by (simp add: process_pages_def)
  have "reap_one kernel_reap_operations p s =
      (proc_release p, snd (release_page (hhdm_to_physical (p_kernel_stack_base p)) s3))"
    using True root(1) stack
    by (simp add: reap_one_def Let_def kernel_other_ops flip: s1_def s2_def s3_def)
  then show ?thesis using True fin by (simp add: pages_released_def proc_release_def zero_process_def)
qed

subsection \<open>Small instances\<close>


definition demo_exited :: process where
  "demo_exited = zero_process\<lparr>p_pid := 7, p_state := Exited, p_page_table_physical := 0x5000,
     p_kernel_stack_base := physical_to_hhdm 0x6000\<rparr>"

theorem reap_one_spec_witness:
  "free_set (snd (reap_one kernel_reap_operations demo_exited demo_vm)) = {3, 5, 6, 7}"
proof -
  have d: "(0x5000 :: u64) div kPageSize = 5" "is_page_aligned 0x5000" "(0x5000 :: u64) \<noteq> kInvalidAddress"
    "(0x6000 :: u64) div kPageSize = 6" "is_page_aligned 0x6000" "physical_to_hhdm 0x6000 \<noteq> 0" by code_simp+
  have m: "vm_mem demo_vm = (\<lambda>_. 0)" by (simp add: demo_vm_def)
  have "\<not> user_accessible r (\<lambda>_. 0) Read x" for r x
    by (simp add: user_accessible_Read query_page_def no_page_def)
  then have f: "mapped_frames (vm_mem demo_vm) r a b = {}" for r a b by (simp add: mapped_frames_def m)
  have t: "user_tables (vm_mem demo_vm) 0x5000 = {0x5000}" by (auto simp: user_tables_def m)
  have P: "process_pages (vm_mem demo_vm) demo_exited = {0x5000, 0x6000}"
    unfolding process_pages_def f using t by (auto simp: demo_exited_def)
  have fs: "free_set demo_vm = {3, 5, 6, 7}" using demo_bitmap4_free by (simp add: free_set_def demo_vm_def)
  have "\<forall>q\<in>process_pages (vm_mem demo_vm) demo_exited. releasable demo_vm q"
    unfolding P using d demo_bitmap4_free by (simp add: releasable_def demo_vm_def)
  moreover have "phys_inv (vm_phys demo_vm)" using demo_vm_tree by (simp add: vm_tree_def)
  ultimately show ?thesis
    using reap_one_spec [of demo_vm demo_exited] d unfolding P fs
    by (auto simp: demo_exited_def split: prod.splits)
qed

end
