(* ===== verification/Syscall.thy ===== *)
theory Syscall
  imports Process
begin

text \<open>
  System calls (\<^verbatim>\<open>kernel/syscall/syscall.hpp\<close>, \<^verbatim>\<open>syscall.cpp\<close>): the register frame, the dispatcher, the
  checked write to the debug port, and the sanitising of what user mode hands back to the CPU.  A
  signed 64-bit result is a word in two's complement.
\<close>

unbundle bit_operations_syntax

datatype sys_action = ReturnToUser | YieldToHost | ExitToHost

record sys_result =
  sr_value :: u64
  sr_action :: sys_action

record sys_frame = gp_regs +
  sf_rip :: u64
  sf_cs :: u64
  sf_rflags :: u64
  sf_rsp :: u64
  sf_ss :: u64

definition kSysWrite :: u64 where [kernel_const]: "kSysWrite = 0"
definition kSysYield :: u64 where [kernel_const]: "kSysYield = 1"
definition kSysExit :: u64 where [kernel_const]: "kSysExit = 2"

definition kBadDescriptor :: u64 where [kernel_const]: "kBadDescriptor = - 9"
definition kFault :: u64 where [kernel_const]: "kFault = - 14"
definition kInvalidArgument :: u64 where [kernel_const]: "kInvalidArgument = - 22"
definition kNotImplemented :: u64 where [kernel_const]: "kNotImplemented = - 38"
definition kMaxWriteLength :: u64 where [kernel_const]: "kMaxWriteLength = 4096"

definition dispatch_control :: "sys_frame \<Rightarrow> process \<Rightarrow> sys_result \<times> process" where
  "dispatch_control frame p =
     (if rax frame = kSysYield then (\<lparr>sr_value = 0, sr_action = YieldToHost\<rparr>, p)
      else if rax frame = kSysExit then
        (\<lparr>sr_value = 0, sr_action = ExitToHost\<rparr>, p\<lparr>p_exit_code := rdi frame, p_state := Exited\<rparr>)
      else (\<lparr>sr_value = kNotImplemented, sr_action = ReturnToUser\<rparr>, p))"

text \<open>The third component is what the call writes to the debug port.\<close>

definition safe_write :: "sys_frame \<Rightarrow> process \<Rightarrow> (u64 \<Rightarrow> u64) \<Rightarrow> sys_result \<times> u8 list" where
  "safe_write frame p mem =
     (if rdi frame \<noteq> 1 \<and> rdi frame \<noteq> 2 then (\<lparr>sr_value = kBadDescriptor, sr_action = ReturnToUser\<rparr>, [])
      else if rdx frame > kMaxWriteLength then (\<lparr>sr_value = kInvalidArgument, sr_action = ReturnToUser\<rparr>, [])
      else if validate_user_range (p_page_table_physical p) (rsi frame) (rdx frame) Read mem \<noteq> Some True
      then (\<lparr>sr_value = kFault, sr_action = ReturnToUser\<rparr>, [])
      else let (ok, buffer) = copy_from_user (p_page_table_physical p) (rsi frame) (rdx frame) mem
           in if \<not> ok then (\<lparr>sr_value = kFault, sr_action = ReturnToUser\<rparr>, [])
              else (\<lparr>sr_value = rdx frame, sr_action = ReturnToUser\<rparr>, take (unat (rdx frame)) buffer))"

definition sys_dispatch :: "sys_frame \<Rightarrow> process \<Rightarrow> (u64 \<Rightarrow> u64) \<Rightarrow> sys_result \<times> process \<times> u8 list" where
  "sys_dispatch frame p mem =
     (if rax frame = kSysWrite then let (r, out) = safe_write frame p mem in (r, p, out)
      else let (r, p) = dispatch_control frame p in (r, p, []))"

definition dispatch_for_test :: "sys_frame \<Rightarrow> process \<Rightarrow> sys_result \<times> process" where
  "dispatch_for_test frame p =
     (if rax frame = kSysWrite then (\<lparr>sr_value = kNotImplemented, sr_action = ReturnToUser\<rparr>, p)
      else dispatch_control frame p)"

definition capture_context :: "sys_frame \<Rightarrow> return_kind \<Rightarrow> process \<Rightarrow> process" where
  "capture_context frame kind p = p\<lparr>p_context :=
     \<lparr>r15 = r15 frame, r14 = r14 frame, r13 = r13 frame, r12 = r12 frame, r11 = r11 frame, r10 = r10 frame,
      r9 = r9 frame, r8 = r8 frame, rbp = rbp frame, rdi = rdi frame, rsi = rsi frame, rdx = rdx frame,
      rcx = rcx frame, rbx = rbx frame, rax = rax frame, uc_rip = sf_rip frame, uc_rsp = sf_rsp frame,
      uc_rflags = sf_rflags frame, uc_cs = ucast (sf_cs frame), uc_ss = ucast (sf_ss frame),
      uc_return_kind = kind\<rparr>\<rparr>"

definition valid_sysret_target :: "u64 \<Rightarrow> u64 \<Rightarrow> bool" where
  "valid_sysret_target rip rsp \<longleftrightarrow> rip < 0x0000800000000000 \<and> rsp < 0x0000800000000000"

definition valid_sysret_context :: "user_context \<Rightarrow> bool" where
  "valid_sysret_context c \<longleftrightarrow> valid_sysret_target (uc_rip c) (uc_rsp c)"

definition sanitize_user_rflags :: "u64 \<Rightarrow> u64" where
  "sanitize_user_rflags flags = (flags AND 0x002008D5) OR 0x202"

definition encode_star :: "u16 \<Rightarrow> u16 \<Rightarrow> u16 \<Rightarrow> u16 \<Rightarrow> u64" where
  "encode_star kernel_code kernel_data user_code user_data =
     (let user_base = user_data - 8; sysret_base = user_code - 16
      in push_bit 48 (ucast (if sysret_base = user_base then sysret_base else 0)) OR
         push_bit 32 (ucast kernel_code) OR push_bit 16 (ucast kernel_data))"

subsection \<open>The flags user mode gets back\<close>

text \<open>
  The flags handed to user mode always have interrupts enabled and the reserved bit set, never
  have the trap, direction, I/O privilege, nested-task, resume, virtual-8086 or alignment flags or
  any bit above 21, keep the caller's arithmetic flags, and sanitising is idempotent.
\<close>

theorem sanitize_user_rflags_spec:
  "bit (sanitize_user_rflags f) 9 \<and> bit (sanitize_user_rflags f) 1 \<and>
   (\<forall>n. bit (sanitize_user_rflags f) n \<longrightarrow> n \<in> {0, 1, 2, 4, 6, 7, 9, 11, 21}) \<and>
   (\<forall>n\<in>{0, 2, 4, 6, 7, 11, 21}. bit (sanitize_user_rflags f) n = bit f n) \<and>
   sanitize_user_rflags (sanitize_user_rflags f) = sanitize_user_rflags f"
proof -
  have user: "bit (0x002008D5 :: u64) n \<longleftrightarrow> n \<in> {0, 2, 4, 6, 7, 11, 21}" for n
  proof -
    have eq: "(0x002008D5 :: u64) = set_bit 0 (set_bit 2 (set_bit 4 (set_bit 6 (set_bit 7 (set_bit 11 (set_bit 21 0))))))"
      by code_simp
    show ?thesis unfolding eq bit_set_bit_iff by auto
  qed
  have req: "bit (0x202 :: u64) n \<longleftrightarrow> n \<in> {1, 9}" for n
  proof -
    have eq: "(0x202 :: u64) = set_bit 1 (set_bit 9 0)" by code_simp
    show ?thesis unfolding eq bit_set_bit_iff by auto
  qed
  have bits: "bit (sanitize_user_rflags f) n \<longleftrightarrow> (bit f n \<and> n \<in> {0, 2, 4, 6, 7, 11, 21}) \<or> n \<in> {1, 9}" for f n
    unfolding sanitize_user_rflags_def bit_or_iff bit_and_iff user req ..
  have "sanitize_user_rflags (sanitize_user_rflags f) = sanitize_user_rflags f"
    by (rule bit_eqI) (simp only: bits, blast)
  moreover have "\<forall>n. bit (sanitize_user_rflags f) n \<longrightarrow> n \<in> {0, 1, 2, 4, 6, 7, 9, 11, 21}"
    unfolding bits by auto
  moreover have "\<forall>n\<in>{0, 2, 4, 6, 7, 11, 21}. bit (sanitize_user_rflags f) n = bit f n"
    unfolding bits by auto
  ultimately show ?thesis unfolding bits by simp
qed

theorem sanitize_user_rflags_spec_witness:
  "bit (sanitize_user_rflags 0x3300) 9 \<and> \<not> bit (sanitize_user_rflags 0x3300) 12 \<and>
   bit (sanitize_user_rflags 0x3301) 0"
proof -
  have "bit (0x3301 :: u64) 0" by simp
  moreover have "(12 :: nat) \<notin> {0, 1, 2, 4, 6, 7, 9, 11, 21}" by simp
  ultimately show ?thesis
    using sanitize_user_rflags_spec [of "0x3300"] sanitize_user_rflags_spec [of "0x3301"] by blast
qed

subsection \<open>The checked write\<close>

definition write_readable :: "process \<Rightarrow> (u64 \<Rightarrow> u64) \<Rightarrow> sys_frame \<Rightarrow> bool" where
  "write_readable p mem frame \<longleftrightarrow> unat (rsi frame) < 2 ^ 47 \<and> unat (rsi frame) + unat (rdx frame) \<le> 2 ^ 47 \<and>
     (\<forall>k<unat (rdx frame). user_accessible (p_page_table_physical p) mem Read (rsi frame + of_nat k))"

lemma copy_validated:
  assumes "validate_user_range root a len Read mem = Some True"
  shows "copy_from_user root a len mem = (True, map (\<lambda>k. user_byte root mem (a + of_nat k)) [0..<unat len])"
proof (cases "len = 0")
  case True
  then show ?thesis using assms by (simp add: copy_from_user_def copy_loop.simps)
next
  case False
  have ok: "\<forall>k<unat len. user_accessible root mem Read (a + of_nat k)"
    using assms by (simp add: validate_user_range_result)
  have "0 < unat len" using False by (simp add: unat_gt_0)
  then have "is_page_aligned root" using ok by (auto simp: user_accessible_def query_page_def split: if_splits)
  then have "copy_loop root mem a len [] = (True, map (\<lambda>k. user_byte root mem (a + of_nat k)) [0..<unat len])"
    using copy_loop_result [of root len a mem "[]"] ok user_accessible_present by (metis append_Nil)
  then show ?thesis using assms by (simp add: copy_from_user_def)
qed

lemma safe_write_result:
  "safe_write frame p mem =
     (if rdi frame \<noteq> 1 \<and> rdi frame \<noteq> 2 then (\<lparr>sr_value = kBadDescriptor, sr_action = ReturnToUser\<rparr>, [])
      else if rdx frame > kMaxWriteLength then (\<lparr>sr_value = kInvalidArgument, sr_action = ReturnToUser\<rparr>, [])
      else if \<not> write_readable p mem frame then (\<lparr>sr_value = kFault, sr_action = ReturnToUser\<rparr>, [])
      else (\<lparr>sr_value = rdx frame, sr_action = ReturnToUser\<rparr>,
            map (\<lambda>k. user_byte (p_page_table_physical p) mem (rsi frame + of_nat k)) [0..<unat (rdx frame)]))"
proof -
  have v: "validate_user_range (p_page_table_physical p) (rsi frame) (rdx frame) Read mem =
      Some (write_readable p mem frame)"
    unfolding validate_user_range_result user_range_iff write_readable_def
    by (cases "rdx frame = 0") (auto intro: less_imp_le)
  show ?thesis
    using copy_validated [of "p_page_table_physical p" "rsi frame" "rdx frame" mem]
    by (simp add: safe_write_def v)
qed

text \<open>
  C3: whatever registers user mode passes, a system call prints at most 4096 bytes, every one of them
  the content of a byte the page tables let the caller read; it reports the number of bytes printed
  or one of the documented error codes with nothing printed; and the process changes only by
  exiting, with the exit code of the call.
\<close>

theorem sys_dispatch_spec:
  "case sys_dispatch frame p mem of (r, p', out) \<Rightarrow>
     length out \<le> 4096 \<and>
     (\<forall>k<length out. user_accessible (p_page_table_physical p) mem Read (rsi frame + of_nat k) \<and>
        out ! k = user_byte (p_page_table_physical p) mem (rsi frame + of_nat k)) \<and>
     (if rax frame = kSysWrite
      then p' = p \<and> sr_action r = ReturnToUser \<and>
        (if rdi frame \<in> {1, 2} \<and> rdx frame \<le> kMaxWriteLength \<and> write_readable p mem frame
         then sr_value r = rdx frame \<and> length out = unat (rdx frame)
         else out = [] \<and> sr_value r \<in> {kBadDescriptor, kInvalidArgument, kFault})
      else out = [] \<and>
        (if rax frame = kSysExit then sr_action r = ExitToHost \<and> p' = mark_exited (rdi frame) p
         else p' = p \<and> (if rax frame = kSysYield then sr_action r = YieldToHost
                         else sr_action r = ReturnToUser \<and> sr_value r = kNotImplemented)))"
proof (cases "rax frame = kSysWrite")
  case True
  have "unat (rdx frame) \<le> 4096" if "rdx frame \<le> kMaxWriteLength"
    using that by (simp add: unat_le_iff kMaxWriteLength_def)
  moreover have "\<forall>k<unat (rdx frame). user_accessible (p_page_table_physical p) mem Read (rsi frame + of_nat k)"
    if "write_readable p mem frame" using that by (simp add: write_readable_def)
  ultimately show ?thesis
    using True by (cases "write_readable p mem frame"; cases "rdx frame \<le> kMaxWriteLength")
      (auto simp: sys_dispatch_def safe_write_result not_less)
next
  case False
  then show ?thesis by (simp add: sys_dispatch_def dispatch_control_def mark_exited_def kSysYield_def kSysExit_def)
qed

definition demo_frame :: sys_frame where
  "demo_frame = \<lparr>r15 = 0, r14 = 0, r13 = 0, r12 = 0, r11 = 0, r10 = 0, r9 = 0, r8 = 0, rbp = 0,
     rdi = 1, rsi = 0x400000, rdx = 2, rcx = 0, rbx = 0, rax = 0, sf_rip = 0, sf_cs = 0x23, sf_rflags = 0x202,
     sf_rsp = 0, sf_ss = 0x1B\<rparr>"

definition demo_process :: process where
  "demo_process = zero_process\<lparr>p_pid := 1, p_state := Running, p_page_table_physical := 0x1000,
     p_kernel_stack_base := 0xF000, p_kernel_stack_top := 0x10000\<rparr>"

theorem sys_dispatch_spec_witness:
  "sys_dispatch demo_frame demo_process demo_user_mem =
     (\<lparr>sr_value = 2, sr_action = ReturnToUser\<rparr>, demo_process, [0x88, 0x77])"
proof -
  obtain r p' out where run: "sys_dispatch demo_frame demo_process demo_user_mem = (r, p', out)"
    by (metis prod_cases3)
  have f: "rax demo_frame = kSysWrite" "rdi demo_frame = 1" "rdx demo_frame = 2" "rsi demo_frame = 0x400000"
    "p_page_table_physical demo_process = 0x1000"
    by (simp_all add: demo_frame_def demo_process_def kSysWrite_def)
  have ok: "write_readable demo_process demo_user_mem demo_frame"
    using demo_user_bytes by (simp add: write_readable_def f all_less_2)
  have "(2 :: u64) \<le> kMaxWriteLength" by (simp add: kMaxWriteLength_def)
  then have r: "p' = demo_process" "sr_action r = ReturnToUser" "sr_value r = 2" "length out = 2"
    and b: "\<forall>k<length out. out ! k = user_byte 0x1000 demo_user_mem (0x400000 + of_nat k)"
    using sys_dispatch_spec [where frame = demo_frame and p = demo_process and mem = demo_user_mem] ok unfolding run f by simp_all
  have "out = [0x88, 0x77]"
    using b demo_user_bytes by (intro nth_equalityI) (auto simp: r(4) all_less_2 less_Suc_eq numeral_2_eq_2)
  moreover have "r = \<lparr>sr_value = 2, sr_action = ReturnToUser\<rparr>" using r by simp
  ultimately show ?thesis using run r(1) by simp
qed

end
