(* ===== verification/Scheduler.thy ===== *)
theory Scheduler
  imports Syscall
begin

text \<open>
  The scheduler and the kernel entries that use it (\<^verbatim>\<open>kernel/process/scheduler.cpp\<close>, the bridges of
  \<^verbatim>\<open>kernel/syscall/syscall.cpp\<close> and the timer and exception branches of \<^verbatim>\<open>kernel/arch/interrupts.cpp\<close>).
  The state joins the process table, the virtual memory, the CPU-local block, the task-state stack
  pointer, the CPU flags and the scheduler's globals.  \<^verbatim>\<open>run_once\<close> is split where the CPU leaves for
  user mode: \<open>run_begin\<close> up to \<^verbatim>\<open>process_resume_user\<close>, \<open>run_finish\<close> from the return of
  \<^verbatim>\<open>process_save_host\<close>.  A call of the non-returning \<^verbatim>\<open>return_to_host\<close> is the outcome \<open>ToHost\<close>.
\<close>

unbundle bit_operations_syntax

datatype host_reason = ReasonYield | ReasonExit | ReasonFault | ReasonPreempt

text \<open>The one-shot diagnostics, each guarded by a static flag in the source.\<close>

datatype marker = QuantumExpired | ContextCaptured | PreemptHostReturn | NonYieldingPreempted |
  PreemptiveRoundRobin | DesktopSurvival | FaultSurvival | CooperativeSwitch | Pid1Exited | Pid2Exited |
  Ring3Seen | Ring3SyscallSeen

record kernel_state =
  ks_table :: proc_table
  ks_vm :: vm_state
  ks_current :: "nat option"
  ks_kernel_stack_top :: u64
  ks_saved_user_rsp :: u64
  ks_tss_rsp0 :: u64
  ks_rflags :: u64
  ks_host_cr3 :: u64
  ks_host_rflags :: u64
  ks_previous_slot :: int
  ks_last_yielded_pid :: u32
  ks_reaped_count :: nat
  ks_last_reason :: host_reason
  ks_last_preempted_pid :: u32
  ks_quantum :: u32
  ks_emitted :: "marker set"
  ks_port :: "u8 list"

definition ks_proc :: "kernel_state \<Rightarrow> nat \<Rightarrow> process" where
  "ks_proc s i = g_processes (ks_table s) ! i"

definition ks_set_proc :: "nat \<Rightarrow> process \<Rightarrow> kernel_state \<Rightarrow> kernel_state" where
  "ks_set_proc i p s = s\<lparr>ks_table := (ks_table s)\<lparr>g_processes := (g_processes (ks_table s))[i := p]\<rparr>\<rparr>"

definition emit_once :: "marker \<Rightarrow> kernel_state \<Rightarrow> kernel_state" where
  "emit_once m s = s\<lparr>ks_emitted := insert m (ks_emitted s)\<rparr>"

definition set_cpu_process :: "nat option \<Rightarrow> u64 \<Rightarrow> kernel_state \<Rightarrow> kernel_state" where
  "set_cpu_process p stack_top s = s\<lparr>ks_current := p, ks_kernel_stack_top := stack_top\<rparr>"

definition write_cr3 :: "u64 \<Rightarrow> kernel_state \<Rightarrow> kernel_state" where
  "write_cr3 v s = s\<lparr>ks_vm := (ks_vm s)\<lparr>vm_cr3 := v\<rparr>\<rparr>"

subsection \<open>The quantum\<close>

definition kUserQuantumTicks :: u32 where [kernel_const]: "kUserQuantumTicks = 5"

definition reset_user_quantum :: "kernel_state \<Rightarrow> kernel_state" where
  "reset_user_quantum s = s\<lparr>ks_quantum := kUserQuantumTicks\<rparr>"

definition on_timer_tick :: "bool \<Rightarrow> kernel_state \<Rightarrow> bool \<times> kernel_state" where
  "on_timer_tick from_user s =
     (if \<not> from_user \<or> ks_quantum s = 0 then (False, s)
      else let s = s\<lparr>ks_quantum := ks_quantum s - 1\<rparr>
           in if ks_quantum s = 0 then (True, emit_once QuantumExpired s) else (False, s))"

subsection \<open>Choosing the next process\<close>

fun scan_ready :: "process list \<Rightarrow> nat \<Rightarrow> nat \<Rightarrow> nat \<Rightarrow> int" where
  "scan_ready table count start 0 = -1"
| "scan_ready table count start (Suc left) =
     (let slot = (start + (count - Suc left)) mod count
      in if p_state (table ! slot) = Ready then int slot else scan_ready table count start left)"

definition choose_next :: "process list option \<Rightarrow> nat \<Rightarrow> int \<Rightarrow> int" where
  "choose_next table count previous_slot =
     (case table of None \<Rightarrow> -1
      | Some t \<Rightarrow>
          if count = 0 then -1
          else scan_ready t count (unat (of_int (previous_slot + 1) :: u64) mod count) count)"

subsection \<open>Reaping and the two halves of a run\<close>

definition reap_exited :: "kernel_state \<Rightarrow> kernel_state" where
  "reap_exited s =
     (let s = (set_cpu_process None 0 s)\<lparr>ks_tss_rsp0 := 0\<rparr>;
          (ps, vm) = reap_all kernel_reap_operations (g_processes (ks_table s)) (ks_vm s)
      in s\<lparr>ks_table := (ks_table s)\<lparr>g_processes := ps\<rparr>, ks_vm := vm\<rparr>)"

datatype run_result = NoProcess | Discarded | Entered nat

definition run_begin :: "kernel_state \<Rightarrow> run_result \<times> kernel_state" where
  "run_begin s =
     (let slot = choose_next (Some (g_processes (ks_table s))) kProcessCapacity (ks_previous_slot s)
      in if slot < 0 then (NoProcess, s)
      else let i = nat slot; selected = ks_proc s i; s = s\<lparr>ks_previous_slot := slot\<rparr>
      in if uc_return_kind (p_context selected) = Sysret \<and> \<not> valid_sysret_context (p_context selected)
         then (Discarded, reap_exited (ks_set_proc i (mark_exited (- 14) selected) s))
      else let s = (if ks_last_reason s = ReasonPreempt \<and> ks_last_preempted_pid s \<noteq> 0 \<and>
                       p_pid selected \<noteq> ks_last_preempted_pid s
                    then if NonYieldingPreempted \<notin> ks_emitted s then emit_once NonYieldingPreempted s
                         else emit_once PreemptiveRoundRobin s
                    else s);
               selected = selected\<lparr>p_state := Running\<rparr>;
               s = reset_user_quantum (ks_set_proc i selected s);
               s = s\<lparr>ks_host_cr3 := vm_cr3 (ks_vm s), ks_host_rflags := ks_rflags s,
                     ks_rflags := ks_rflags s AND NOT (push_bit 9 1)\<rparr>;
               selected = selected\<lparr>p_context := (p_context selected)
                            \<lparr>uc_rflags := sanitize_user_rflags (uc_rflags (p_context selected))\<rparr>\<rparr>;
               s = write_cr3 (p_page_table_physical selected) (ks_set_proc i selected s);
               s = s\<lparr>ks_tss_rsp0 := p_kernel_stack_top selected\<rparr>
      in (Entered i, set_cpu_process (Some i) (p_kernel_stack_top selected) s))"

definition run_finish :: "nat \<Rightarrow> kernel_state \<Rightarrow> kernel_state" where
  "run_finish i s =
     (let s = s\<lparr>ks_rflags := ks_host_rflags s\<rparr>;
          s = (if ks_last_reason s = ReasonPreempt then emit_once PreemptHostReturn s else s);
          s = (if ks_last_reason s = ReasonFault then emit_once FaultSurvival s else s)
      in if p_state (ks_proc s i) = Exited
         then let s = reap_exited s;
                  s = s\<lparr>ks_reaped_count := ks_reaped_count s + 1\<rparr>;
                  next_slot = choose_next (Some (g_processes (ks_table s))) kProcessCapacity (ks_previous_slot s)
              in if ks_reaped_count s \<ge> 2 \<and> next_slot < 0 then emit_once DesktopSurvival s else s
         else s)"

definition return_to_host :: "nat \<Rightarrow> host_reason \<Rightarrow> kernel_state \<Rightarrow> kernel_state" where
  "return_to_host i reason s =
     (let s = s\<lparr>ks_last_reason := reason\<rparr>;
          s = (if reason = ReasonYield \<and> p_state (ks_proc s i) = Ready
               then (if ks_last_yielded_pid s \<noteq> 0 \<and> ks_last_yielded_pid s \<noteq> p_pid (ks_proc s i)
                     then emit_once CooperativeSwitch s else s)
                    \<lparr>ks_last_yielded_pid := p_pid (ks_proc s i)\<rparr>
               else s)
      in set_cpu_process None 0 (write_cr3 (ks_host_cr3 s) s))"

subsection \<open>Entries from user mode\<close>

datatype outcome = Returned u64 | ToHost | Panicked

definition validated_current_process :: "kernel_state \<Rightarrow> nat option" where
  "validated_current_process s =
     (case ks_current s of None \<Rightarrow> None
      | Some i \<Rightarrow>
          if i \<ge> kProcessCapacity then None
          else let p = ks_proc s i
               in if p_pid p = 0 \<or> p_state p \<noteq> Running \<or> p_page_table_physical p = 0 \<or> p_kernel_stack_top p = 0
                  then None else Some i)"

definition handle_user_preempt :: "interrupt_frame \<Rightarrow> kernel_state \<Rightarrow> outcome \<times> kernel_state" where
  "handle_user_preempt frame s =
     (if if_cs frame AND 3 \<noteq> 3 then (Panicked, s)
      else case validated_current_process s of
        None \<Rightarrow> (Panicked, s)
      | Some i \<Rightarrow>
          let p = capture_interrupt_context frame (ks_proc s i);
              s = (emit_once ContextCaptured s)\<lparr>ks_last_preempted_pid := p_pid p\<rparr>;
              s = ks_set_proc i (p\<lparr>p_state := Ready\<rparr>) s
          in (ToHost, return_to_host i ReasonPreempt s))"

text \<open>The second argument of a page fault is the content of \<^verbatim>\<open>CR2\<close>.\<close>

definition handle_user_fault :: "u8 \<Rightarrow> u64 \<Rightarrow> u64 \<Rightarrow> interrupt_frame \<Rightarrow> kernel_state \<Rightarrow> outcome \<times> kernel_state" where
  "handle_user_fault vector cr2 error_code frame s =
     (if if_cs frame AND 3 \<noteq> 3 \<or> vector = 2 \<or> vector = 8 \<or> vector = 18 then (Returned 0, s)
      else case validated_current_process s of
        None \<Rightarrow> (Returned 0, s)
      | Some i \<Rightarrow>
          let p = (ks_proc s i)\<lparr>p_fault_vector := ucast vector, p_fault_error_code := error_code,
                    p_fault_address := (if vector = 14 then cr2 else 0)\<rparr>;
              p = mark_exited (- ucast vector) (capture_interrupt_context frame p)
          in (ToHost, return_to_host i ReasonFault (ks_set_proc i p s)))"

definition put_bytes :: "u8 list \<Rightarrow> kernel_state \<Rightarrow> kernel_state" where
  "put_bytes bs s = s\<lparr>ks_port := ks_port s @ bs\<rparr>"

definition emit_process_exit_marker :: "process \<Rightarrow> bool \<Rightarrow> kernel_state \<Rightarrow> kernel_state" where
  "emit_process_exit_marker p from_user s =
     (if \<not> from_user then s
      else if p_pid p = 1 then emit_once Pid1Exited s
      else if p_pid p = 2 then emit_once Pid2Exited s
      else s)"

definition int80_bridge :: "sys_frame option \<Rightarrow> kernel_state \<Rightarrow> outcome \<times> sys_frame option \<times> kernel_state" where
  "int80_bridge frame s =
     (case (frame, ks_current s) of
        (Some f, Some i) \<Rightarrow>
          let s = (if sf_cs f AND 3 = 3 then emit_once Ring3Seen s else s);
              f = f\<lparr>sf_rflags := sanitize_user_rflags (sf_rflags f)\<rparr>;
              (result, p, out) = sys_dispatch f (ks_proc s i) (vm_mem (ks_vm s));
              s = put_bytes out (ks_set_proc i p s);
              f = f\<lparr>rax := sr_value result\<rparr>
          in if sr_action result = ReturnToUser then (Returned 1, Some f, s)
             else let p = capture_context f Iret p
                  in if sr_action result = YieldToHost
                     then (ToHost, Some f, return_to_host i ReasonYield (ks_set_proc i (p\<lparr>p_state := Ready\<rparr>) s))
                     else (ToHost, Some f, return_to_host i ReasonExit
                            (emit_process_exit_marker p (sf_cs f AND 3 = 3) (ks_set_proc i p s)))
      | _ \<Rightarrow> (Returned 0, frame, s))"

definition syscall_bridge :: "sys_frame option \<Rightarrow> kernel_state \<Rightarrow> outcome \<times> sys_frame option \<times> kernel_state" where
  "syscall_bridge frame s =
     (case (frame, ks_current s) of
        (Some f, Some i) \<Rightarrow>
          let f = f\<lparr>sf_rflags := sanitize_user_rflags (r11 f)\<rparr>;
              (result, p, out) = sys_dispatch f (ks_proc s i) (vm_mem (ks_vm s));
              s = put_bytes out (ks_set_proc i p s);
              s = (if sf_cs f AND 3 = 3 then emit_once Ring3SyscallSeen s else s);
              f = f\<lparr>rax := sr_value result\<rparr>
          in if sr_action result \<noteq> ReturnToUser
             then let p = capture_context f Sysret p
                  in if sr_action result = YieldToHost
                     then if \<not> valid_sysret_context (p_context p)
                          then (ToHost, Some f, return_to_host i ReasonFault (ks_set_proc i (mark_exited (- 14) p) s))
                          else (ToHost, Some f, return_to_host i ReasonYield (ks_set_proc i (p\<lparr>p_state := Ready\<rparr>) s))
                     else (ToHost, Some f, return_to_host i ReasonExit
                            (emit_process_exit_marker p (sf_cs f AND 3 = 3) (ks_set_proc i p s)))
             else if \<not> valid_sysret_target (rcx f) (ks_saved_user_rsp s)
             then (ToHost, Some f, return_to_host i ReasonFault (ks_set_proc i (mark_exited (- 14) p) s))
             else (Returned 1, Some f, s)
      | _ \<Rightarrow> (Returned 0, frame, s))"

text \<open>The exception and timer branches of the interrupt dispatcher.\<close>

definition interrupt_dispatch :: "u64 \<Rightarrow> interrupt_frame option \<Rightarrow> kernel_state \<Rightarrow> outcome \<times> kernel_state" where
  "interrupt_dispatch cr2 frame s =
     (case frame of None \<Rightarrow> (Panicked, s)
      | Some f \<Rightarrow>
          if if_vector f < 32 then
            (let from_user = (if_cs f AND 3 = 3);
                 user_fatal = (if_vector f \<noteq> 2 \<and> if_vector f \<noteq> 8 \<and> if_vector f \<noteq> 18)
             in if from_user \<and> user_fatal
                then (case handle_user_fault (ucast (if_vector f)) cr2 (if_error_code f) f s of
                        (ToHost, s') \<Rightarrow> (ToHost, s') | (_, s') \<Rightarrow> (Panicked, s'))
                else (Panicked, s))
          else if if_vector f = 32 then
            (let (expired, s) = on_timer_tick (if_cs f AND 3 = 3) s
             in if expired then handle_user_preempt f s else (Returned 0, s))
          else (Returned 0, s))"

subsection \<open>Round robin\<close>

text \<open>How many slots the scan inspects before it reaches slot \<open>j\<close>.\<close>

definition cyc_dist :: "nat \<Rightarrow> int \<Rightarrow> nat \<Rightarrow> nat" where
  "cyc_dist count prev j = nat ((int j - (prev + 1)) mod int count)"

lemma scan_ready_result:
  assumes "0 < count"
  shows "left \<le> count \<Longrightarrow>
    (scan_ready t count start left = -1 \<and>
       (\<forall>k\<in>{count - left..<count}. p_state (t ! ((start + k) mod count)) \<noteq> Ready)) \<or>
    (\<exists>k\<in>{count - left..<count}. scan_ready t count start left = int ((start + k) mod count) \<and>
       p_state (t ! ((start + k) mod count)) = Ready \<and>
       (\<forall>j\<in>{count - left..<k}. p_state (t ! ((start + j) mod count)) \<noteq> Ready))"
proof (induction left)
  case (Suc left)
  let ?k = "count - Suc left"
  have split: "{?k..<m} = insert ?k {count - left..<m}" if "?k < m" for m
    using Suc.prems that by (auto simp: Suc_diff_Suc)
  show ?case
  proof (cases "p_state (t ! ((start + ?k) mod count)) = Ready")
    case True
    then show ?thesis using Suc.prems by (intro disjI2 bexI [of _ ?k]) (auto simp: Let_def)
  next
    case False
    then have eq: "scan_ready t count start (Suc left) = scan_ready t count start left" by (simp add: Let_def)
    have "?k < count" using Suc.prems by simp
    have "left \<le> count" using Suc.prems by simp
    from Suc.IH [OF this] show ?thesis
    proof (elim disjE bexE conjE)
      assume "scan_ready t count start left = - 1"
        "\<forall>k\<in>{count - left..<count}. p_state (t ! ((start + k) mod count)) \<noteq> Ready"
      then show ?thesis unfolding eq split [OF \<open>?k < count\<close>] using False by simp
    next
      fix k assume k: "k \<in> {count - left..<count}" "scan_ready t count start left = int ((start + k) mod count)"
        "p_state (t ! ((start + k) mod count)) = Ready"
        "\<forall>j\<in>{count - left..<k}. p_state (t ! ((start + j) mod count)) \<noteq> Ready"
      have "?k < k" using k(1) Suc.prems by auto
      then show ?thesis
        unfolding eq using k False by (intro disjI2 bexI [of _ k]) (simp_all add: split)
    qed
  qed
qed simp

lemma cyc_dist_slot:
  assumes "0 < count" "k < count" "start = nat ((prev + 1) mod int count)"
  shows "cyc_dist count prev ((start + k) mod count) = k"
proof -
  have "int ((start + k) mod count) = ((prev + 1) mod int count + int k) mod int count"
    using assms by (simp add: zmod_int)
  then have "(int ((start + k) mod count) - (prev + 1)) mod int count = int k mod int count"
    by (simp add: mod_simps)
  then show ?thesis using assms by (simp add: cyc_dist_def)
qed

lemma slot_of_cyc_dist:
  assumes "0 < count" "j < count" "start = nat ((prev + 1) mod int count)"
  shows "(start + cyc_dist count prev j) mod count = j" "cyc_dist count prev j < count"
proof -
  show "cyc_dist count prev j < count" using assms(1) by (simp add: cyc_dist_def nat_less_iff)
  have "int ((start + cyc_dist count prev j) mod count) =
      ((prev + 1) mod int count + (int j - (prev + 1)) mod int count) mod int count"
    using assms by (simp add: zmod_int cyc_dist_def)
  also have "\<dots> = int j mod int count" by (simp add: mod_simps)
  finally show "(start + cyc_dist count prev j) mod count = j" using assms by simp
qed

lemma start_slot:
  assumes "-1 \<le> prev" "prev < 2 ^ 31"
  shows "unat (of_int (prev + 1) :: u64) mod count = nat ((prev + 1) mod int count)"
proof -
  obtain m where m: "prev + 1 = int m" using assms(1) by (metis add.commute le_add_iff1 nonneg_int_cases diff_ge_0_iff_ge diff_minus_eq_add)
  then have "m < 2 ^ 64" using assms(2) by simp
  then have "unat (of_nat m :: u64) = m" by (rule unat_of_nat_64)
  then show ?thesis unfolding m of_int_of_nat_eq by (simp flip: zmod_int)
qed

lemma choose_next_result:
  assumes "0 < count" "-1 \<le> prev" "prev < 2 ^ 31"
  shows "(choose_next (Some t) count prev = -1 \<and> (\<forall>j<count. p_state (t ! j) \<noteq> Ready)) \<or>
    (\<exists>i<count. choose_next (Some t) count prev = int i \<and> p_state (t ! i) = Ready \<and>
      (\<forall>j<count. p_state (t ! j) = Ready \<longrightarrow> cyc_dist count prev i \<le> cyc_dist count prev j))"
proof -
  let ?start = "nat ((prev + 1) mod int count)"
  have run: "choose_next (Some t) count prev = scan_ready t count ?start count"
    using assms(1) unfolding choose_next_def start_slot [OF assms(2,3)] by simp
  note slot = slot_of_cyc_dist [OF assms(1) _ refl, of _ prev]
  from scan_ready_result [OF assms(1) order.refl, of t ?start] show ?thesis
  proof (elim disjE bexE conjE)
    assume r: "scan_ready t count ?start count = - 1"
      and none: "\<forall>k\<in>{count - count..<count}. p_state (t ! ((?start + k) mod count)) \<noteq> Ready"
    have "p_state (t ! j) \<noteq> Ready" if "j < count" for j
      using none slot [OF that] by (metis atLeastLessThan_iff diff_self_eq_0 zero_le)
    then show ?thesis using r run by simp
  next
    fix k assume k: "k \<in> {count - count..<count}"
      and r: "scan_ready t count ?start count = int ((?start + k) mod count)"
        "p_state (t ! ((?start + k) mod count)) = Ready"
      and before: "\<forall>j\<in>{count - count..<k}. p_state (t ! ((?start + j) mod count)) \<noteq> Ready"
    have d: "cyc_dist count prev ((?start + k) mod count) = k" using k assms(1) by (intro cyc_dist_slot) auto
    have "k \<le> cyc_dist count prev j" if "j < count" "p_state (t ! j) = Ready" for j
    proof (rule ccontr)
      assume "\<not> k \<le> cyc_dist count prev j"
      then have "p_state (t ! ((?start + cyc_dist count prev j) mod count)) \<noteq> Ready" using before by simp
      then show False using slot(1) [OF that(1)] that(2) by simp
    qed
    then show ?thesis using r run d assms(1) by (intro disjI2 exI [of _ "(?start + k) mod count"]) simp
  qed
qed

text \<open>Passing over a slot brings the scan strictly closer to it.\<close>

lemma cyc_dist_decreases:
  assumes "0 < count" "i < count" "j < count" "i \<noteq> j" "cyc_dist count prev i \<le> cyc_dist count prev j"
  shows "cyc_dist count (int i) j < cyc_dist count prev j"
proof -
  let ?n = "int count"
  define a where "a = (int i - (prev + 1)) mod ?n"
  define b where "b = (int j - (prev + 1)) mod ?n"
  have r0: "0 \<le> a" "a < ?n" "0 \<le> b" "b < ?n" using assms(1) by (simp_all add: a_def b_def)
  have "nat a \<le> nat b" using assms(5) by (simp add: cyc_dist_def a_def b_def)
  with r0 have r: "0 \<le> a" "a < ?n" "0 \<le> b" "b < ?n" "a \<le> b" by linarith+
  have "a \<noteq> b"
  proof
    assume "a = b"
    then have "(int i - (prev + 1) + (prev + 1)) mod ?n = (int j - (prev + 1) + (prev + 1)) mod ?n"
      unfolding a_def b_def by (metis mod_add_left_eq)
    then show False using assms by simp
  qed
  moreover have "(b - a - 1) mod ?n = (int j - (prev + 1) - (int i - (prev + 1)) - 1) mod ?n"
    unfolding a_def b_def by (intro mod_diff_cong mod_mod_trivial refl)
  then have "(int j - (int i + 1)) mod ?n = (b - a - 1) mod ?n" by (simp add: algebra_simps)
  ultimately have "(int j - (int i + 1)) mod ?n = b - a - 1" using r by simp
  then show ?thesis using r \<open>a \<noteq> b\<close> unfolding cyc_dist_def b_def [symmetric] by simp
qed

text \<open>The slots chosen over a sequence of dispatches, each seeing the table of its moment.\<close>

fun dispatches :: "process list list \<Rightarrow> int \<Rightarrow> int list" where
  "dispatches [] prev = []"
| "dispatches (t # ts) prev =
     (let slot = choose_next (Some t) kProcessCapacity prev
      in slot # dispatches ts (if slot < 0 then prev else slot))"

lemma dispatches_reach:
  "cyc_dist kProcessCapacity prev j < length ts \<Longrightarrow> -1 \<le> prev \<Longrightarrow> prev < 16 \<Longrightarrow> j < kProcessCapacity \<Longrightarrow>
     \<forall>t\<in>set ts. p_state (t ! j) = Ready \<Longrightarrow> int j \<in> set (take (Suc (cyc_dist kProcessCapacity prev j)) (dispatches ts prev))"
proof (induction ts arbitrary: prev)
  case (Cons t ts)
  have cap: "0 < kProcessCapacity" by (simp add: kProcessCapacity_def)
  have "prev < 2 ^ 31" using Cons.prems(3) by simp
  from choose_next_result [OF cap Cons.prems(2) this, of t] Cons.prems(4,5) obtain i where
    i: "i < kProcessCapacity" "choose_next (Some t) kProcessCapacity prev = int i"
      "cyc_dist kProcessCapacity prev i \<le> cyc_dist kProcessCapacity prev j"
    by auto
  show ?case
  proof (cases "i = j")
    case True
    then show ?thesis using i(2) by (simp add: Let_def)
  next
    case False
    from cyc_dist_decreases [OF cap i(1) Cons.prems(4) False i(3)]
    have dec: "cyc_dist kProcessCapacity (int i) j < cyc_dist kProcessCapacity prev j" .
    have "int j \<in> set (take (Suc (cyc_dist kProcessCapacity (int i) j)) (dispatches ts (int i)))"
      using Cons.prems dec i(1) by (intro Cons.IH) (auto simp: kProcessCapacity_def)
    moreover have "set (take (Suc (cyc_dist kProcessCapacity (int i) j)) (dispatches ts (int i))) \<subseteq>
        set (take (cyc_dist kProcessCapacity prev j) (dispatches ts (int i)))"
      using dec by (intro set_take_subset_set_take) simp
    ultimately show ?thesis using i(2) by (auto simp: Let_def)
  qed
qed simp

text \<open>
  C25: round robin does not starve.  Whatever the other processes do between dispatches, a process
  that stays ready is chosen within the next sixteen dispatches.
\<close>

theorem round_robin_fair:
  assumes "j < kProcessCapacity" "-1 \<le> prev" "prev < int kProcessCapacity"
    and "length ts = kProcessCapacity" "\<forall>t\<in>set ts. p_state (t ! j) = Ready"
  shows "int j \<in> set (dispatches ts prev)"
proof -
  have "cyc_dist kProcessCapacity prev j < kProcessCapacity"
    by (simp add: cyc_dist_def kProcessCapacity_def nat_less_iff)
  then have "int j \<in> set (take (Suc (cyc_dist kProcessCapacity prev j)) (dispatches ts prev))"
    using assms by (intro dispatches_reach) (simp_all add: kProcessCapacity_def)
  then show ?thesis by (rule in_set_takeD)
qed

definition demo_ready_table :: "process list" where
  "demo_ready_table = (replicate kProcessCapacity zero_process)
     [2 := zero_process\<lparr>p_state := Ready\<rparr>, 5 := zero_process\<lparr>p_state := Ready\<rparr>]"

theorem round_robin_fair_witness:
  "2 \<in> set (dispatches (replicate kProcessCapacity demo_ready_table) 2)"
  using round_robin_fair [of 2 2 "replicate kProcessCapacity demo_ready_table"]
  by (simp add: kProcessCapacity_def demo_ready_table_def)

text \<open>
  \<open>choose_next\<close> answers -1 exactly when no slot is ready, and otherwise the ready slot that comes
  first in cyclic order after the previous one; a missing or empty table gives -1.
\<close>

theorem choose_next_spec:
  assumes "0 < count" "-1 \<le> prev" "prev < 2 ^ 31"
  shows "choose_next None count prev = -1 \<and> choose_next (Some t) 0 prev = -1 \<and>
    (choose_next (Some t) count prev = -1 \<longleftrightarrow> (\<forall>j<count. p_state (t ! j) \<noteq> Ready)) \<and>
    (\<forall>i. choose_next (Some t) count prev = int i \<longrightarrow> i < count \<and> p_state (t ! i) = Ready \<and>
      (\<forall>j<count. p_state (t ! j) = Ready \<longrightarrow> cyc_dist count prev i \<le> cyc_dist count prev j))"
  using choose_next_result [OF assms, of t] by (auto simp: choose_next_def)

theorem choose_next_spec_witness:
  "choose_next (Some demo_ready_table) kProcessCapacity 2 = 5 \<and> 5 < kProcessCapacity \<and>
   p_state (demo_ready_table ! 5) = Ready \<and> cyc_dist kProcessCapacity 2 5 = 2"
proof -
  have "choose_next (Some demo_ready_table) kProcessCapacity 2 = int 5" by code_simp
  then show ?thesis
    using choose_next_spec [of kProcessCapacity 2 demo_ready_table]
    by (simp add: kProcessCapacity_def cyc_dist_def)
qed

end
