(* ===== verification/Sched_Machine.thy ===== *)
theory Sched_Machine
  imports Scheduler
begin

text \<open>
  The kernel's switching between host and user mode as a step relation over the operations of the
  scheduler theory: the host loop enters a ready process, user mode computes, calls the kernel or
  is interrupted, and control comes back through \<open>return_to_host\<close> and \<open>run_finish\<close>.  The invariant
  ties the running process, the CPU-local block, the page-table root and the kernel stack together
  in every reachable state.
\<close>

unbundle bit_operations_syntax

subsection \<open>Timer ticks\<close>

fun tick_run :: "bool list \<Rightarrow> kernel_state \<Rightarrow> bool list \<times> kernel_state" where
  "tick_run [] s = ([], s)"
| "tick_run (b # bs) s =
     (let (expired, s) = on_timer_tick b s; (rest, s) = tick_run bs s in (expired # rest, s))"

lemma tick_run_result:
  "k < length bs \<Longrightarrow> fst (tick_run bs s) ! k \<longleftrightarrow>
     bs ! k \<and> length (filter (\<lambda>u. u) (take (Suc k) bs)) = unat (ks_quantum s)"
proof (induction bs arbitrary: s k)
  case (Cons b bs)
  let ?s = "snd (on_timer_tick b s)"
  have q: "unat (ks_quantum ?s) = (if b then unat (ks_quantum s) - 1 else unat (ks_quantum s))"
    by (auto simp: on_timer_tick_def Let_def emit_once_def unat_minus_one)
  have run: "fst (tick_run (b # bs) s) = fst (on_timer_tick b s) # fst (tick_run bs ?s)"
    by (simp add: split_beta Let_def)
  show ?case
  proof (cases k)
    case 0
    have one: "ks_quantum s - 1 = 0 \<longleftrightarrow> unat (ks_quantum s) = 1" if "ks_quantum s \<noteq> 0"
      using that by (metis eq_iff_diff_eq_0 unat_1 unat_eq_iff)
    have "fst (on_timer_tick b s) \<longleftrightarrow> b \<and> unat (ks_quantum s) = 1"
      using one by (auto simp: on_timer_tick_def Let_def)
    then show ?thesis unfolding run using 0 by auto
  next
    case (Suc m)
    define n where "n = length (filter (\<lambda>u. u) (take (Suc m) bs))"
    have IH: "fst (tick_run bs ?s) ! m \<longleftrightarrow> bs ! m \<and> n = unat (ks_quantum ?s)"
      unfolding n_def using Cons.prems Suc by (intro Cons.IH) simp
    have pos: "n \<noteq> 0" if "bs ! m"
      using that Cons.prems Suc by (simp add: n_def take_Suc_conv_app_nth)
    have "length (filter (\<lambda>u. u) (take (Suc k) (b # bs))) = (if b then Suc n else n)"
      by (simp add: n_def Suc)
    moreover have "fst (tick_run (b # bs) s) ! k = fst (tick_run bs ?s) ! m" "(b # bs) ! k = bs ! m"
      unfolding run using Suc by simp_all
    ultimately have "fst (tick_run (b # bs) s) ! k = (bs ! m \<and> n = unat (ks_quantum ?s))"
        "length (filter (\<lambda>u. u) (take (Suc k) (b # bs))) = (if b then Suc n else n)" "(b # bs) ! k = bs ! m"
      using IH by blast+
    then show ?thesis unfolding q using pos by (cases b) (simp_all only: if_True if_False, arith+)
  qed
qed simp

text \<open>
  C26: after the quantum is reset, a tick asks for preemption exactly when it is the fifth one taken
  in user mode; ticks that interrupt the kernel never count and never preempt.
\<close>

theorem quantum_spec:
  assumes "k < length bs"
  shows "fst (tick_run bs (reset_user_quantum s)) ! k \<longleftrightarrow>
    bs ! k \<and> length (filter (\<lambda>u. u) (take (Suc k) bs)) = 5"
  using tick_run_result [OF assms, of "reset_user_quantum s"]
  by (simp add: reset_user_quantum_def kUserQuantumTicks_def)

subsection \<open>The step relation\<close>

datatype cpu_mode = InHost | InUser nat | Halted

fun after_entry :: "outcome \<Rightarrow> nat \<Rightarrow> kernel_state \<Rightarrow> cpu_mode \<times> kernel_state" where
  "after_entry (Returned v) i s = (InUser i, s)"
| "after_entry ToHost i s = (InHost, run_finish i s)"
| "after_entry Panicked i s = (Halted, s)"

inductive kstep :: "cpu_mode \<times> kernel_state \<Rightarrow> cpu_mode \<times> kernel_state \<Rightarrow> bool" where
  host_enter: "run_begin s = (Entered i, s') \<Longrightarrow> kstep (InHost, s) (InUser i, s')"
| host_idle: "run_begin s = (r, s') \<Longrightarrow> r \<in> {NoProcess, Discarded} \<Longrightarrow> kstep (InHost, s) (InHost, s')"
| host_spawn: "proc_allocate (ks_table s) = (Some i, t) \<Longrightarrow> g_next_pid (ks_table s) \<noteq> 0 \<Longrightarrow>
    p_pid p = p_pid (g_processes t ! i) \<Longrightarrow> p_state p \<in> {Created, Ready} \<Longrightarrow>
    p_page_table_physical p \<noteq> 0 \<Longrightarrow> p_kernel_stack_top p \<noteq> 0 \<Longrightarrow>
    kstep (InHost, s) (InHost, ks_set_proc i p (s\<lparr>ks_table := t\<rparr>))"
| host_memory: "vm_cr3 vm = vm_cr3 (ks_vm s) \<Longrightarrow> kstep (InHost, s) (InHost, s\<lparr>ks_vm := vm\<rparr>)"
| host_tick: "if_vector f = 32 \<Longrightarrow> if_cs f AND 3 \<noteq> 3 \<Longrightarrow> interrupt_dispatch cr2 (Some f) s = (r, s') \<Longrightarrow>
    kstep (InHost, s) (InHost, s')"
| user_compute: "kstep (InUser i, s) (InUser i, s\<lparr>ks_vm := (ks_vm s)\<lparr>vm_mem := m\<rparr>, ks_saved_user_rsp := rsp\<rparr>)"
| user_int80: "int80_bridge (Some f) s = (r, f', s') \<Longrightarrow> kstep (InUser i, s) (after_entry r i s')"
| user_syscall: "syscall_bridge (Some f) s = (r, f', s') \<Longrightarrow> kstep (InUser i, s) (after_entry r i s')"
| user_interrupt: "if_cs f AND 3 = 3 \<Longrightarrow> if_vector f \<notin> {2, 8, 18} \<Longrightarrow> interrupt_dispatch cr2 (Some f) s = (r, s') \<Longrightarrow>
    kstep (InUser i, s) (after_entry r i s')"

inductive_cases kstep_hostE: "kstep (InHost, s) c"
inductive_cases kstep_userE: "kstep (InUser i, s) c"
inductive_cases kstep_haltE: "kstep (Halted, s) c"

subsection \<open>The invariant\<close>

definition runnable :: "process \<Rightarrow> bool" where
  "runnable p \<longleftrightarrow> p_pid p \<noteq> 0 \<and> p_page_table_physical p \<noteq> 0 \<and> p_kernel_stack_top p \<noteq> 0"

definition table_ok :: "kernel_state \<Rightarrow> bool" where
  "table_ok s \<longleftrightarrow> length (g_processes (ks_table s)) = kProcessCapacity \<and>
     -1 \<le> ks_previous_slot s \<and> ks_previous_slot s < int kProcessCapacity \<and>
     (\<forall>i<kProcessCapacity. p_state (ks_proc s i) \<in> {Ready, Running} \<longrightarrow> runnable (ks_proc s i))"

definition none_running :: "kernel_state \<Rightarrow> bool" where
  "none_running s \<longleftrightarrow> (\<forall>i<kProcessCapacity. p_state (ks_proc s i) \<noteq> Running)"

definition in_process :: "u64 \<Rightarrow> nat \<Rightarrow> kernel_state \<Rightarrow> bool" where
  "in_process R i s \<longleftrightarrow> i < kProcessCapacity \<and> p_state (ks_proc s i) = Running \<and>
     (\<forall>j<kProcessCapacity. p_state (ks_proc s j) = Running \<longrightarrow> j = i) \<and>
     ks_current s = Some i \<and> vm_cr3 (ks_vm s) = p_page_table_physical (ks_proc s i) \<and>
     ks_tss_rsp0 s = p_kernel_stack_top (ks_proc s i) \<and>
     ks_kernel_stack_top s = p_kernel_stack_top (ks_proc s i) \<and> ks_host_cr3 s = R"

fun kinv :: "u64 \<Rightarrow> cpu_mode \<times> kernel_state \<Rightarrow> bool" where
  "kinv R (InHost, s) \<longleftrightarrow> table_ok s \<and> none_running s \<and> ks_current s = None \<and> vm_cr3 (ks_vm s) = R"
| "kinv R (InUser i, s) \<longleftrightarrow> table_ok s \<and> in_process R i s"
| "kinv R (Halted, s) \<longleftrightarrow> False"

lemma ks_proc_set [simp]:
  "i < length (g_processes (ks_table s)) \<Longrightarrow> ks_proc (ks_set_proc i p s) j = (if j = i then p else ks_proc s j)"
  by (simp add: ks_proc_def ks_set_proc_def nth_list_update)

lemma ks_set_proc_same [simp]:
  "ks_vm (ks_set_proc i p s) = ks_vm s" "ks_current (ks_set_proc i p s) = ks_current s"
  "ks_previous_slot (ks_set_proc i p s) = ks_previous_slot s" "ks_host_cr3 (ks_set_proc i p s) = ks_host_cr3 s"
  "ks_tss_rsp0 (ks_set_proc i p s) = ks_tss_rsp0 s" "ks_kernel_stack_top (ks_set_proc i p s) = ks_kernel_stack_top s"
  "length (g_processes (ks_table (ks_set_proc i p s))) = length (g_processes (ks_table s))"
  "ks_quantum (ks_set_proc i p s) = ks_quantum s" "ks_saved_user_rsp (ks_set_proc i p s) = ks_saved_user_rsp s"
  by (simp_all add: ks_set_proc_def)

text \<open>Operations that leave the process table and the switching state alone.\<close>

definition same_switching :: "kernel_state \<Rightarrow> kernel_state \<Rightarrow> bool" where
  "same_switching s s' \<longleftrightarrow> ks_table s' = ks_table s \<and> ks_current s' = ks_current s \<and>
     vm_cr3 (ks_vm s') = vm_cr3 (ks_vm s) \<and> ks_tss_rsp0 s' = ks_tss_rsp0 s \<and>
     ks_kernel_stack_top s' = ks_kernel_stack_top s \<and> ks_host_cr3 s' = ks_host_cr3 s \<and>
     ks_previous_slot s' = ks_previous_slot s"

lemma same_switching_inv:
  assumes "same_switching s s'"
  shows "table_ok s' = table_ok s" "none_running s' = none_running s" "in_process R i s' = in_process R i s"
    "ks_proc s' j = ks_proc s j"
  using assms by (simp_all add: same_switching_def table_ok_def none_running_def in_process_def ks_proc_def)

lemma same_switching_emit [simp]: "same_switching s (emit_once m s)"
  by (simp add: same_switching_def emit_once_def)

lemma table_ok_set:
  assumes "table_ok s" "i < kProcessCapacity" "p_state p \<in> {Ready, Running} \<Longrightarrow> runnable p"
  shows "table_ok (ks_set_proc i p s)"
  using assms by (auto simp: table_ok_def)

lemma none_running_set:
  assumes "table_ok s" "none_running s" "i < kProcessCapacity" "p_state p \<noteq> Running"
  shows "none_running (ks_set_proc i p s)"
  using assms by (simp add: table_ok_def none_running_def)

subsection \<open>Reaping keeps the page-table root of the kernel\<close>

lemma release_page_cr3 [simp]: "vm_cr3 (snd (release_page p s)) = vm_cr3 s"
  by (simp add: release_page_def split_beta)

lemma fold_keeps: "(\<And>i s. g (f i s) = g s) \<Longrightarrow> g (fold f is s) = g s"
  by (induction "is" arbitrary: s) simp_all

lemma release_table_cr3 [simp]: "vm_cr3 (release_table l p s) = vm_cr3 s"
proof (induction l arbitrary: p s)
  case 0
  then show ?case by (simp add: release_table.simps)
next
  case (Suc l)
  have "vm_cr3 (fold (\<lambda>i s. let e = vm_mem s (entry_addr p (of_nat i))
      in if e AND kPagePresent \<noteq> 0 \<and> e AND kPageHuge = 0
         then release_table l (e AND kAddressMask) s else s) is t) = vm_cr3 t" for "is" t
    by (rule fold_keeps) (simp add: Let_def Suc.IH)
  then show ?case unfolding release_table.simps [of "Suc l" p s] diff_Suc_1 Let_def by simp
qed

lemma destroy_cr3 [simp]: "vm_cr3 (snd (destroy_user_address_space root s)) = vm_cr3 s"
  by (simp add: destroy_user_address_space_def Let_def)

lemma release_pages_keeps:
  "(\<And>p s. g (rel p s) = g s) \<Longrightarrow> g (release_pages lookup rel a limit c) = g c"
proof (induction lookup rel a limit c rule: release_pages.induct)
  case (1 lookup rel address limit c)
  then show ?case by (subst release_pages.simps) (auto simp: Let_def split: option.splits)
qed

lemma reap_one_result:
  "fst (reap_one kernel_reap_operations p vm) = (if p_state p = Exited then zero_process else p)"
  "vm_cr3 (snd (reap_one kernel_reap_operations p vm)) = vm_cr3 vm"
  by (simp_all add: reap_one_def Let_def release_mapped_range_def kernel_lookup_ops kernel_other_ops
      release_pages_keeps [where g = vm_cr3] proc_release_def zero_process_def)

lemma reap_all_result:
  "fst (reap_all kernel_reap_operations ps vm) = map (\<lambda>p. if p_state p = Exited then zero_process else p) ps"
  "vm_cr3 (snd (reap_all kernel_reap_operations ps vm)) = vm_cr3 vm"
  by (induction ps arbitrary: vm) (simp_all add: split_beta Let_def reap_one_result)

lemma reap_exited_result:
  "vm_cr3 (ks_vm (reap_exited s)) = vm_cr3 (ks_vm s)" "ks_current (reap_exited s) = None"
  "ks_previous_slot (reap_exited s) = ks_previous_slot s"
  "length (g_processes (ks_table (reap_exited s))) = length (g_processes (ks_table s))"
  "i < length (g_processes (ks_table s)) \<Longrightarrow>
     ks_proc (reap_exited s) i = (if p_state (ks_proc s i) = Exited then zero_process else ks_proc s i)"
  by (simp_all add: reap_exited_def Let_def split_beta set_cpu_process_def reap_all_result ks_proc_def)

lemma reap_exited_inv:
  assumes "table_ok s"
  shows "table_ok (reap_exited s)" "none_running s \<Longrightarrow> none_running (reap_exited s)"
proof -
  have len: "length (g_processes (ks_table s)) = kProcessCapacity" using assms by (simp add: table_ok_def)
  have z: "p_state zero_process = Unused" by (simp add: zero_process_def)
  note r = reap_exited_result(1-4) [of s] reap_exited_result(5) [where s = s, unfolded len]
  show "table_ok (reap_exited s)" using assms by (auto simp: table_ok_def r z)
  show "none_running s \<Longrightarrow> none_running (reap_exited s)" by (auto simp: none_running_def r z)
qed

subsection \<open>Host steps\<close>

lemma choose_next_slot:
  assumes "table_ok s" "choose_next (Some (g_processes (ks_table s))) kProcessCapacity (ks_previous_slot s) = slot"
    and "\<not> slot < 0"
  shows "nat slot < kProcessCapacity" "p_state (ks_proc s (nat slot)) = Ready" "slot = int (nat slot)"
    "slot < int kProcessCapacity"
proof -
  have "0 < kProcessCapacity" "-1 \<le> ks_previous_slot s" "ks_previous_slot s < 2 ^ 31"
    using assms(1) by (auto simp: table_ok_def kProcessCapacity_def)
  from choose_next_result [OF this, of "g_processes (ks_table s)"] assms(2,3)
  show "nat slot < kProcessCapacity" "p_state (ks_proc s (nat slot)) = Ready" "slot = int (nat slot)"
    "slot < int kProcessCapacity"
    by (auto simp: ks_proc_def)
qed

lemma run_begin_inv:
  assumes "kinv R (InHost, s)" "run_begin s = (r, s')"
  shows "case r of Entered i \<Rightarrow> kinv R (InUser i, s') | _ \<Rightarrow> kinv R (InHost, s')"
proof -
  define slot where "slot = choose_next (Some (g_processes (ks_table s))) kProcessCapacity (ks_previous_slot s)"
  define i where "i = nat slot"
  let ?p = "ks_proc s i"
  let ?s1 = "s\<lparr>ks_previous_slot := slot\<rparr>"
  note rb = run_begin_def [of s, folded slot_def, unfolded Let_def, folded i_def]
  have ok: "table_ok s" "none_running s" "ks_current s = None" "vm_cr3 (ks_vm s) = R" using assms(1) by auto
  have len: "length (g_processes (ks_table s)) = kProcessCapacity" using ok by (simp add: table_ok_def)
  show ?thesis
  proof (cases "slot < 0")
    case True
    then have "r = NoProcess" "s' = s" using assms(2) by (auto simp: rb)
    then show ?thesis using assms(1) by simp
  next
    case False
    note sl = choose_next_slot [OF ok(1) slot_def [symmetric] False, folded i_def]
    have ok1: "table_ok ?s1" "none_running ?s1" using ok sl(4) False by (auto simp: table_ok_def none_running_def ks_proc_def)
    have p1: "ks_proc ?s1 j = ks_proc s j" for j by (simp add: ks_proc_def)
    have run: "runnable ?p" using ok(1) sl by (auto simp: table_ok_def)
    show ?thesis
    proof (cases "uc_return_kind (p_context ?p) = Sysret \<and> \<not> valid_sysret_context (p_context ?p)")
      case True
      let ?s2 = "ks_set_proc i (mark_exited (- 14) ?p) ?s1"
      have "r = Discarded" "s' = reap_exited ?s2" using assms(2) False True by (auto simp: rb)
      moreover have "table_ok ?s2" using ok1(1) sl(1) by (rule table_ok_set) (simp add: mark_exited_def)
      moreover have "none_running ?s2" using ok1 sl(1) by (intro none_running_set) (simp_all add: mark_exited_def)
      ultimately show ?thesis using ok(4) by (simp add: reap_exited_inv reap_exited_result)
    next
      case entered: False
      define p' where "p' = ?p\<lparr>p_state := Running, p_context := (p_context ?p)
        \<lparr>uc_rflags := sanitize_user_rflags (uc_rflags (p_context ?p))\<rparr>\<rparr>"
      have tab: "g_processes (ks_table s') = (g_processes (ks_table s))[i := p']" "r = Entered i"
        "ks_previous_slot s' = slot" "ks_current s' = Some i" "vm_cr3 (ks_vm s') = p_page_table_physical ?p"
        "ks_tss_rsp0 s' = p_kernel_stack_top ?p" "ks_kernel_stack_top s' = p_kernel_stack_top ?p" "ks_host_cr3 s' = R"
        using assms(2) False entered ok(4)
        by (auto simp: rb set_cpu_process_def write_cr3_def ks_set_proc_def reset_user_quantum_def
            emit_once_def p'_def ks_proc_def split: if_splits)
      have pr: "ks_proc s' j = (if j = i then p' else ks_proc s j)" if "j < kProcessCapacity" for j
        using that len by (simp add: ks_proc_def tab nth_list_update)
      have "table_ok s'"
        using ok(1) run sl len False tab(1,3) by (auto simp: table_ok_def pr runnable_def p'_def)
      moreover have "in_process R i s'"
        using ok(2) sl(1) by (auto simp: in_process_def pr tab none_running_def p'_def)
      ultimately show ?thesis using tab(2) by simp
    qed
  qed
qed

lemma spawn_inv:
  assumes "kinv R (InHost, s)" "proc_allocate (ks_table s) = (Some i, t)" "g_next_pid (ks_table s) \<noteq> 0"
    and "p_pid p = p_pid (g_processes t ! i)" "p_state p \<in> {Created, Ready}"
    and "p_page_table_physical p \<noteq> 0" "p_kernel_stack_top p \<noteq> 0"
  shows "kinv R (InHost, ks_set_proc i p (s\<lparr>ks_table := t\<rparr>))"
proof -
  have len: "length (g_processes (ks_table s)) = kProcessCapacity" using assms(1) by (simp add: table_ok_def)
  have i: "i < kProcessCapacity" and t: "g_processes t = (g_processes (ks_table s))
      [i := zero_process\<lparr>p_pid := g_next_pid (ks_table s), p_state := Created\<rparr>]"
    using assms(2) len by (auto simp: proc_allocate_def first_slot_Some split: option.splits)
  then have run: "runnable p" using assms(3-7) len by (simp add: runnable_def)
  define s' where "s' = ks_set_proc i p (s\<lparr>ks_table := t\<rparr>)"
  have pr: "ks_proc s' j = (if j = i then p else ks_proc s j)" if "j < kProcessCapacity" for j
    using that i len by (simp add: s'_def ks_proc_def ks_set_proc_def t nth_list_update)
  have rest: "ks_previous_slot s' = ks_previous_slot s" "ks_current s' = ks_current s" "ks_vm s' = ks_vm s"
    "length (g_processes (ks_table s')) = kProcessCapacity"
    using len by (simp_all add: s'_def t)
  have "table_ok s'" using assms(1) run by (simp add: table_ok_def rest pr)
  moreover have "none_running s'" using assms(1,5) by (auto simp: none_running_def pr)
  ultimately show ?thesis using assms(1) rest unfolding s'_def [symmetric] by simp
qed

subsection \<open>Leaving user mode\<close>

lemma return_to_host_result:
  "ks_table (return_to_host i reason s) = ks_table s" "ks_current (return_to_host i reason s) = None"
  "vm_cr3 (ks_vm (return_to_host i reason s)) = ks_host_cr3 s"
  "ks_previous_slot (return_to_host i reason s) = ks_previous_slot s"
  by (simp_all add: return_to_host_def Let_def set_cpu_process_def write_cr3_def emit_once_def)

lemma run_finish_inv:
  assumes "kinv R (InHost, s)"
  shows "kinv R (InHost, run_finish i s)"
proof -
  define s1 where "s1 = s\<lparr>ks_rflags := ks_host_rflags s\<rparr>"
  define s2 where "s2 = (if ks_last_reason s1 = ReasonPreempt then emit_once PreemptHostReturn s1 else s1)"
  define s3 where "s3 = (if ks_last_reason s2 = ReasonFault then emit_once FaultSurvival s2 else s2)"
  have same: "same_switching s s3" by (simp add: s3_def s2_def s1_def same_switching_def emit_once_def)
  then have inv3: "table_ok s3" "none_running s3" "ks_current s3 = None" "vm_cr3 (ks_vm s3) = R"
    using assms same_switching_inv [OF same] by (simp_all add: same_switching_def)
  define s4 where "s4 = (reap_exited s3)\<lparr>ks_reaped_count := ks_reaped_count (reap_exited s3) + 1\<rparr>"
  have "same_switching (reap_exited s3) s4" by (simp add: s4_def same_switching_def)
  then have inv4: "kinv R (InHost, s4)"
    using inv3 same_switching_inv [of "reap_exited s3" s4] reap_exited_inv [OF inv3(1)]
    by (simp add: reap_exited_result same_switching_def)
  have emit: "kinv R (InHost, emit_once m t) = kinv R (InHost, t)" for m t
    using same_switching_inv [OF same_switching_emit [of t m]] by (simp add: emit_once_def)
  have "run_finish i s = (if p_state (ks_proc s3 i) = Exited
      then (if ks_reaped_count s4 \<ge> 2 \<and>
               choose_next (Some (g_processes (ks_table s4))) kProcessCapacity (ks_previous_slot s4) < 0
            then emit_once DesktopSurvival s4 else s4) else s3)"
    unfolding run_finish_def Let_def s4_def s3_def s2_def s1_def by simp
  then show ?thesis using inv3 inv4 emit by simp
qed

lemma leave_user_inv:
  assumes "table_ok s" "in_process R i s" "same_switching s s'" "p_state p \<noteq> Running" "p_state p = Ready \<Longrightarrow> runnable p"
  shows "kinv R (InHost, run_finish i (return_to_host i reason (ks_set_proc i p s')))"
proof (rule run_finish_inv)
  note same = same_switching_inv [OF assms(3)]
  let ?t = "ks_set_proc i p s'"
  have i: "table_ok s'" "in_process R i s'" using assms(1,2) same by simp_all
  have "i < kProcessCapacity" using assms(2) by (simp add: in_process_def)
  note i = i this
  have len: "length (g_processes (ks_table s')) = kProcessCapacity" using i(1) by (simp add: table_ok_def)
  have only: "\<forall>j<kProcessCapacity. p_state (ks_proc s' j) = Running \<longrightarrow> j = i" using i(2) unfolding in_process_def by blast
  have "table_ok ?t" using i(1,3) by (rule table_ok_set) (use assms(4,5) in auto)
  moreover have "none_running ?t"
    unfolding none_running_def ks_proc_set [OF i(3) [folded len]] using only assms(4) by metis
  moreover have "ks_host_cr3 ?t = R" using i(2) by (simp add: in_process_def)
  ultimately show "kinv R (InHost, return_to_host i reason ?t)"
    by (simp add: return_to_host_result table_ok_def none_running_def ks_proc_def)
qed

lemma stay_user_inv:
  assumes "table_ok s" "in_process R i s" "same_switching s s'" "p_state p = Running"
    and "p_pid p = p_pid (ks_proc s i)" "p_page_table_physical p = p_page_table_physical (ks_proc s i)"
    and "p_kernel_stack_top p = p_kernel_stack_top (ks_proc s i)"
  shows "kinv R (InUser i, ks_set_proc i p s')"
proof -
  note same = same_switching_inv [OF assms(3)]
  have i: "table_ok s'" "in_process R i s'" using assms(1,2) same by simp_all
  have "i < kProcessCapacity" using assms(2) by (simp add: in_process_def)
  note i = i this
  have "runnable (ks_proc s i)" using assms(1,2) by (auto simp: table_ok_def in_process_def)
  then have "runnable p" using assms by (simp add: runnable_def)
  then have "table_ok (ks_set_proc i p s')" using i by (intro table_ok_set)
  moreover have "in_process R i (ks_set_proc i p s')"
  proof -
    have len: "length (g_processes (ks_table s')) = kProcessCapacity" using i(1) by (simp add: table_ok_def)
    have "p_page_table_physical p = p_page_table_physical (ks_proc s' i)"
      "p_kernel_stack_top p = p_kernel_stack_top (ks_proc s' i)"
      using assms(6,7) same(4) by simp_all
    then show ?thesis
      using i(2) assms(4) unfolding in_process_def ks_proc_set [OF i(3) [folded len]] ks_set_proc_same
      by (metis (full_types))
  qed
  ultimately show ?thesis by simp
qed

lemma sys_dispatch_process:
  assumes "sys_dispatch f p mem = (r, p', out)"
  shows "p_pid p' = p_pid p" "p_page_table_physical p' = p_page_table_physical p"
    "p_kernel_stack_top p' = p_kernel_stack_top p"
    "p_state p' = (if sr_action r = ExitToHost then Exited else p_state p)"
    "sr_action r \<noteq> ExitToHost \<Longrightarrow> p' = p"
  using assms
  by (auto simp: sys_dispatch_def dispatch_control_def safe_write_result split: if_splits)

text \<open>The bookkeeping of the entries leaves the switching state alone.\<close>

lemma same_switching_mark [simp]:
  "same_switching s s" "same_switching s (put_bytes bs t) = same_switching s t"
  "same_switching s (emit_process_exit_marker p u t) = same_switching s t"
  "same_switching s (t\<lparr>ks_last_preempted_pid := q\<rparr>) = same_switching s t"
  "same_switching s (emit_once m t) = same_switching s t" "same_switching s (snd (on_timer_tick b t)) = same_switching s t"
  by (simp_all add: same_switching_def put_bytes_def emit_process_exit_marker_def emit_once_def on_timer_tick_def Let_def)

lemma ks_set_proc_twice [simp]: "ks_set_proc i p (ks_set_proc i q s) = ks_set_proc i p s"
  by (simp add: ks_set_proc_def)

lemma set_proc_mark:
  "put_bytes bs (ks_set_proc i p s) = ks_set_proc i p (put_bytes bs s)"
  "emit_once m (ks_set_proc i p s) = ks_set_proc i p (emit_once m s)"
  "emit_process_exit_marker q u (ks_set_proc i p s) = ks_set_proc i p (emit_process_exit_marker q u s)"
  by (simp_all add: put_bytes_def ks_set_proc_def emit_once_def emit_process_exit_marker_def)

lemma capture_keeps [simp]:
  "p_pid (capture_context f k p) = p_pid p" "p_state (capture_context f k p) = p_state p"
  "p_page_table_physical (capture_context f k p) = p_page_table_physical p"
  "p_kernel_stack_top (capture_context f k p) = p_kernel_stack_top p"
  "p_pid (capture_interrupt_context g p) = p_pid p" "p_state (capture_interrupt_context g p) = p_state p"
  "p_page_table_physical (capture_interrupt_context g p) = p_page_table_physical p"
  "p_kernel_stack_top (capture_interrupt_context g p) = p_kernel_stack_top p"
  by (simp_all add: capture_context_def capture_interrupt_context_def Let_def)

lemma mark_exited_state [simp]: "p_state (mark_exited c p) = Exited"
  by (simp add: mark_exited_def)

lemma in_process_runnable:
  assumes "table_ok s" "in_process R i s"
  shows "runnable (ks_proc s i)" "p_state (ks_proc s i) = Running" "ks_current s = Some i" "i < kProcessCapacity"
  using assms by (auto simp: table_ok_def in_process_def)

text \<open>How an entry ends: back in the process with its table entry replaced, or in the host with the
  process ready or exited.\<close>

definition entry_ends :: "nat \<Rightarrow> kernel_state \<Rightarrow> outcome \<Rightarrow> kernel_state \<Rightarrow> bool" where
  "entry_ends i s r s' \<longleftrightarrow>
     (\<exists>p t. same_switching s t \<and> p_pid p = p_pid (ks_proc s i) \<and>
        p_page_table_physical p = p_page_table_physical (ks_proc s i) \<and>
        p_kernel_stack_top p = p_kernel_stack_top (ks_proc s i) \<and>
        ((\<exists>v. r = Returned v \<and> p_state p = Running \<and> s' = ks_set_proc i p t) \<or>
         (\<exists>reason. r = ToHost \<and> p_state p \<in> {Ready, Exited} \<and> s' = return_to_host i reason (ks_set_proc i p t))))"

lemma entry_endsI:
  assumes "same_switching s t" "p_pid p = p_pid (ks_proc s i)"
    and "p_page_table_physical p = p_page_table_physical (ks_proc s i)"
    and "p_kernel_stack_top p = p_kernel_stack_top (ks_proc s i)"
  shows "p_state p = Running \<Longrightarrow> entry_ends i s (Returned v) (ks_set_proc i p t)"
    "p_state p \<in> {Ready, Exited} \<Longrightarrow> entry_ends i s ToHost (return_to_host i reason (ks_set_proc i p t))"
  using assms unfolding entry_ends_def by blast+

lemma entry_ends_inv:
  assumes "kinv R (InUser i, s)" "entry_ends i s r s'"
  shows "kinv R (after_entry r i s')"
proof -
  have s: "table_ok s" "in_process R i s" using assms(1) by simp_all
  obtain p t where p: "same_switching s t" "p_pid p = p_pid (ks_proc s i)"
    "p_page_table_physical p = p_page_table_physical (ks_proc s i)"
    "p_kernel_stack_top p = p_kernel_stack_top (ks_proc s i)"
    and e: "(\<exists>v. r = Returned v \<and> p_state p = Running \<and> s' = ks_set_proc i p t) \<or>
         (\<exists>reason. r = ToHost \<and> p_state p \<in> {Ready, Exited} \<and> s' = return_to_host i reason (ks_set_proc i p t))"
    using assms(2) unfolding entry_ends_def by blast
  have "runnable p" using in_process_runnable(1) [OF s] p by (simp add: runnable_def)
  then show ?thesis
    using e stay_user_inv [OF s p(1) _ p(2-4)] leave_user_inv [OF s p(1), of p]
    by (elim disjE exE conjE) (auto simp del: kinv.simps)
qed

lemma int80_bridge_ends:
  assumes "ks_current s = Some i" "p_state (ks_proc s i) = Running" "int80_bridge (Some f) s = (r, f', s')"
  shows "entry_ends i s r s'"
proof -
  define t where "t = (if sf_cs f AND 3 = 3 then emit_once Ring3Seen s else s)"
  define g where "g = f\<lparr>sf_rflags := sanitize_user_rflags (sf_rflags f)\<rparr>"
  obtain q p out where d: "sys_dispatch g (ks_proc t i) (vm_mem (ks_vm t)) = (q, p, out)" by (metis prod_cases3)
  have t: "same_switching s t" by (simp add: t_def)
  have proc: "ks_proc t i = ks_proc s i" using same_switching_inv(4) [OF t] .
  note d' = sys_dispatch_process [OF d, unfolded proc]
  have out: "same_switching s (put_bytes out t)" "same_switching s (emit_process_exit_marker u b (put_bytes out t))" for u b
    using t by simp_all
  let ?g = "g\<lparr>rax := sr_value q\<rparr>"
  have "int80_bridge (Some f) s =
     (if sr_action q = ReturnToUser then (Returned 1, Some ?g, ks_set_proc i p (put_bytes out t))
      else if sr_action q = YieldToHost
      then (ToHost, Some ?g, return_to_host i ReasonYield
             (ks_set_proc i ((capture_context ?g Iret p)\<lparr>p_state := Ready\<rparr>) (put_bytes out t)))
      else (ToHost, Some ?g, return_to_host i ReasonExit (ks_set_proc i (capture_context ?g Iret p)
             (emit_process_exit_marker (capture_context ?g Iret p) (sf_cs ?g AND 3 = 3) (put_bytes out t)))))"
    unfolding int80_bridge_def assms(1) prod.case option.case Let_def t_def [symmetric] g_def [symmetric] d
    by (simp add: set_proc_mark)
  then show ?thesis
    using assms(2,3) d' by (cases "sr_action q") (auto intro!: entry_endsI out)
qed

lemma syscall_bridge_ends:
  assumes "ks_current s = Some i" "p_state (ks_proc s i) = Running" "syscall_bridge (Some f) s = (r, f', s')"
  shows "entry_ends i s r s'"
proof -
  define g where "g = f\<lparr>sf_rflags := sanitize_user_rflags (r11 f)\<rparr>"
  obtain q p out where d: "sys_dispatch g (ks_proc s i) (vm_mem (ks_vm s)) = (q, p, out)" by (metis prod_cases3)
  define t where "t = (if sf_cs g AND 3 = 3 then emit_once Ring3SyscallSeen (put_bytes out s) else put_bytes out s)"
  note d' = sys_dispatch_process [OF d]
  have t: "same_switching s t" "same_switching s (emit_process_exit_marker u b t)" for u b
    by (simp_all add: t_def)
  let ?g = "g\<lparr>rax := sr_value q\<rparr>"
  let ?p = "capture_context ?g Sysret p"
  have mark: "(if c then emit_once m (put_bytes out (ks_set_proc i p s)) else put_bytes out (ks_set_proc i p s)) =
      ks_set_proc i p (if c then emit_once m (put_bytes out s) else put_bytes out s)" for c m
    by (simp add: set_proc_mark)
  have "syscall_bridge (Some f) s =
     (if sr_action q \<noteq> ReturnToUser
      then if sr_action q = YieldToHost
        then if \<not> valid_sysret_context (p_context ?p)
          then (ToHost, Some ?g, return_to_host i ReasonFault (ks_set_proc i (mark_exited (- 14) ?p) t))
          else (ToHost, Some ?g, return_to_host i ReasonYield (ks_set_proc i (?p\<lparr>p_state := Ready\<rparr>) t))
        else (ToHost, Some ?g, return_to_host i ReasonExit (ks_set_proc i ?p
               (emit_process_exit_marker ?p (sf_cs ?g AND 3 = 3) t)))
      else if \<not> valid_sysret_target (rcx ?g) (ks_saved_user_rsp (ks_set_proc i p t))
      then (ToHost, Some ?g, return_to_host i ReasonFault (ks_set_proc i (mark_exited (- 14) p) t))
      else (Returned 1, Some ?g, ks_set_proc i p t))"
    unfolding syscall_bridge_def assms(1) prod.case option.case Let_def g_def [symmetric] d mark t_def [symmetric]
    by (simp add: set_proc_mark)
  then show ?thesis
    using assms(2,3) d'
    by (cases "sr_action q") (auto simp: mark_exited_def split: if_splits intro!: entry_endsI t)
qed

lemma interrupt_dispatch_ends:
  assumes "kinv R (InUser i, s)" "if_cs f AND 3 = 3" "if_vector f \<notin> {2, 8, 18}"
    and "interrupt_dispatch cr2 (Some f) s = (r, s')"
  shows "entry_ends i s r s'"
proof -
  have s: "table_ok s" "in_process R i s" using assms(1) by simp_all
  note run = in_process_runnable [OF s]
  have same: "ks_set_proc i (ks_proc u i) u = u" for u by (simp add: ks_set_proc_def ks_proc_def)
  have stay: "entry_ends i s (Returned v) u" if "same_switching s u" for u v
    using entry_endsI(1) [OF that refl refl refl run(2)] same [of u] same_switching_inv(4) [OF that] by simp
  show ?thesis
  proof (cases "if_vector f < 32")
    case True
    have val: "validated_current_process s = Some i"
      using run by (simp add: validated_current_process_def runnable_def)
    have "unat (ucast (if_vector f) :: u8) = unat (if_vector f)"
      using True by (simp add: unsigned_ucast_eq take_bit_nat_eq_self word_less_nat_alt)
    then have "ucast (if_vector f) \<noteq> (2 :: u8)" "ucast (if_vector f) \<noteq> (8 :: u8)" "ucast (if_vector f) \<noteq> (18 :: u8)"
      using assms(3) by (auto simp: word_unat_eq_iff)
    then show ?thesis
      using assms True by (auto simp: interrupt_dispatch_def handle_user_fault_def val Let_def mark_exited_def intro!: entry_endsI(2))
  next
    case False
    define u where "u = snd (on_timer_tick True s)"
    have u: "same_switching s u" by (simp add: u_def)
    have val: "validated_current_process u = Some i"
      using run u by (simp add: validated_current_process_def runnable_def same_switching_inv(4) [OF u] same_switching_def)
    obtain e where e: "on_timer_tick True s = (e, u)" by (metis u_def prod.collapse)
    have pre: "same_switching s ((emit_once ContextCaptured u)\<lparr>ks_last_preempted_pid := q\<rparr>)" for q
      using u by simp
    show ?thesis
      using assms(2,4) False stay u
      by (auto simp: interrupt_dispatch_def handle_user_preempt_def e val Let_def same_switching_inv(4) [OF u]
          split: if_splits intro!: entry_endsI(2) pre stay)
  qed
qed

subsection \<open>Reachable states\<close>

lemma kstep_inv: "kstep c c' \<Longrightarrow> kinv R c \<Longrightarrow> kinv R c'"
proof (induction rule: kstep.induct)
  case (host_enter s i s')
  then show ?case using run_begin_inv [OF host_enter.prems host_enter.hyps] by simp
next
  case (host_idle s r s')
  then show ?case using run_begin_inv [OF host_idle.prems host_idle.hyps(1)] by (auto simp del: kinv.simps)
next
  case (host_spawn s i t p)
  then show ?case using spawn_inv by blast
next
  case (host_memory vm s)
  then show ?case by (simp add: table_ok_def none_running_def ks_proc_def)
next
  case (host_tick f cr2 s r s')
  then have "s' = s" by (simp add: interrupt_dispatch_def on_timer_tick_def)
  then show ?case using host_tick.prems by simp
next
  case (user_compute i s rsp m)
  have "same_switching s (s\<lparr>ks_vm := (ks_vm s)\<lparr>vm_mem := m\<rparr>, ks_saved_user_rsp := rsp\<rparr>)" by (simp add: same_switching_def)
  from same_switching_inv(1,3) [OF this] user_compute show ?case by simp
next
  case (user_int80 f s r f' s' i)
  then have "table_ok s" "in_process R i s" by simp_all
  note run = in_process_runnable [OF this]
  show ?case using entry_ends_inv [OF user_int80.prems int80_bridge_ends [OF run(3,2) user_int80.hyps]] .
next
  case (user_syscall f s r f' s' i)
  then have "table_ok s" "in_process R i s" by simp_all
  note run = in_process_runnable [OF this]
  show ?case using entry_ends_inv [OF user_syscall.prems syscall_bridge_ends [OF run(3,2) user_syscall.hyps]] .
next
  case (user_interrupt f cr2 s r s' i)
  show ?case
    using entry_ends_inv [OF user_interrupt.prems interrupt_dispatch_ends [OF user_interrupt.prems user_interrupt.hyps]] .
qed

text \<open>
  C1: in every state the kernel reaches from a host state with page-table root \<open>R\<close>, by any sequence of
  dispatches, process creations, system calls, timer ticks and user faults: in host mode no process
  is marked running, no process is current and the root is \<open>R\<close>; in user mode exactly one process is
  running, it is the current one, the CPU uses its page table, both kernel-stack pointers are its own,
  and \<open>R\<close> is what the way back restores.  The kernel never halts on these entries.
\<close>

theorem kernel_invariant:
  assumes "kstep\<^sup>*\<^sup>* (InHost, s) (mode, s')"
    and "table_ok s" "none_running s" "ks_current s = None" "vm_cr3 (ks_vm s) = R"
  shows "mode \<noteq> Halted \<and> table_ok s' \<and>
    (mode = InHost \<longrightarrow> none_running s' \<and> ks_current s' = None \<and> vm_cr3 (ks_vm s') = R) \<and>
    (\<forall>i. mode = InUser i \<longrightarrow> in_process R i s')"
proof -
  have "kinv R c" if "kstep\<^sup>*\<^sup>* (InHost, s) c" for c
    using that by (induction rule: rtranclp_induct) (use assms(2-5) kstep_inv in auto)
  from this [OF assms(1)] show ?thesis by (cases mode) auto
qed

definition demo_kernel :: kernel_state where
  "demo_kernel = \<lparr>ks_table = \<lparr>g_processes = (replicate kProcessCapacity zero_process)
       [0 := demo_process\<lparr>p_state := Ready, p_page_table_physical := 0x2000\<rparr>], g_next_pid = 2\<rparr>,
     ks_vm = demo_vm, ks_current = None, ks_kernel_stack_top = 0, ks_saved_user_rsp = 0, ks_tss_rsp0 = 0,
     ks_rflags = 0x202, ks_host_cr3 = 0, ks_host_rflags = 0, ks_previous_slot = -1, ks_last_yielded_pid = 0,
     ks_reaped_count = 0, ks_last_reason = ReasonExit, ks_last_preempted_pid = 0, ks_quantum = 0,
     ks_emitted = {}, ks_port = []\<rparr>"

lemma demo_kernel_host:
  "table_ok demo_kernel" "none_running demo_kernel" "ks_current demo_kernel = None" "vm_cr3 (ks_vm demo_kernel) = 0x1000"
  by (auto simp: table_ok_def none_running_def demo_kernel_def ks_proc_def nth_list_update kProcessCapacity_def
      zero_process_def demo_process_def runnable_def demo_vm_def)

lemma demo_kernel_enters: "fst (run_begin demo_kernel) = Entered 0"
  by code_simp

theorem kernel_invariant_witness:
  "in_process 0x1000 0 (snd (run_begin demo_kernel))"
proof -
  have "run_begin demo_kernel = (Entered 0, snd (run_begin demo_kernel))"
    using demo_kernel_enters by (metis prod.collapse)
  then have "kstep\<^sup>*\<^sup>* (InHost, demo_kernel) (InUser 0, snd (run_begin demo_kernel))"
    by (intro r_into_rtranclp kstep.host_enter)
  from kernel_invariant [OF this demo_kernel_host] show ?thesis by simp
qed

theorem quantum_spec_witness:
  "fst (tick_run [True, False, True, True, True, True, True] (reset_user_quantum demo_kernel)) ! 5 \<and>
   \<not> fst (tick_run [True, False, True, True, True, True, True] (reset_user_quantum demo_kernel)) ! 6"
  using quantum_spec [of 5 "[True, False, True, True, True, True, True]" demo_kernel]
    quantum_spec [of 6 "[True, False, True, True, True, True, True]" demo_kernel] by simp

end
