(* ===== verification/Storage.thy ===== *)
theory Storage
  imports Prelude
begin

text \<open>
  The disk layer (\<^verbatim>\<open>kernel/storage/disk.cpp\<close>): which drive a disk is, the guards in front of every
  transfer, and the write protection of the boot disk.  The port protocol of the ATA driver below it is
  a parameter: \<open>identify\<close> answers what a drive reports, \<open>ata_read\<close> what a sector transfer delivers
  (\<open>None\<close> when it fails) and \<open>ata_write\<close> what a write does to the drives.
\<close>

datatype disk_id = Boot | Test

datatype ata_drive = Master | Slave

record device_info =
  present :: bool
  ata_device :: bool
  lba28_sector_count :: u32
  model :: "u8 list"

definition no_device :: device_info where
  "no_device = \<lparr>present = False, ata_device = False, lba28_sector_count = 0, model = []\<rparr>"

type_synonym ata_read = "ata_drive \<Rightarrow> u32 \<Rightarrow> u8 list option"

record storage =
  g_boot_info :: device_info
  g_test_info :: device_info
  g_initialized :: bool
  g_ata_read :: ata_read

definition drive_for :: "disk_id \<Rightarrow> ata_drive" where
  "drive_for disk = (if disk = Boot then Master else Slave)"

definition disk_write_allowed :: "disk_id \<Rightarrow> bool" where
  "disk_write_allowed disk \<longleftrightarrow> disk = Test"

definition disk_info :: "disk_id \<Rightarrow> storage \<Rightarrow> device_info" where
  "disk_info disk d = (if disk = Boot then g_boot_info d else g_test_info d)"

definition storage_initialize :: "(ata_drive \<Rightarrow> bool \<times> device_info) \<Rightarrow> storage \<Rightarrow> bool \<times> storage" where
  "storage_initialize identify d =
     (let (boot_ok, boot) = identify Master; (_, tested) = identify Slave
      in (boot_ok, d\<lparr>g_boot_info := boot, g_test_info := tested, g_initialized := True\<rparr>))"

definition sector_accessible :: "disk_id \<Rightarrow> u32 \<Rightarrow> storage \<Rightarrow> bool" where
  "sector_accessible disk lba d \<longleftrightarrow>
     (let device = disk_info disk d
      in present device \<and> ata_device device \<and>
         \<not> (lba28_sector_count device \<noteq> 0 \<and> lba \<ge> lba28_sector_count device))"

definition read_sector :: "storage \<Rightarrow> disk_id \<Rightarrow> u32 \<Rightarrow> u8 list option" where
  "read_sector d disk lba =
     (if \<not> g_initialized d then None
      else if \<not> sector_accessible disk lba d then None
      else g_ata_read d (drive_for disk) lba)"

definition write_sector ::
  "(ata_drive \<Rightarrow> u32 \<Rightarrow> u8 list \<Rightarrow> ata_read \<Rightarrow> bool \<times> ata_read) \<Rightarrow>
     storage \<Rightarrow> disk_id \<Rightarrow> u32 \<Rightarrow> u8 list \<Rightarrow> bool \<times> storage" where
  "write_sector ata_write d disk lba buffer =
     (if \<not> g_initialized d \<or> \<not> disk_write_allowed disk then (False, d)
      else if \<not> sector_accessible disk lba d then (False, d)
      else let (ok, ata) = ata_write (drive_for disk) lba buffer (g_ata_read d)
           in (ok, d\<lparr>g_ata_read := ata\<rparr>))"

end
