(* ===== verification/Fat32_Helpers.thy ===== *)
theory Fat32_Helpers
  imports Prelude
begin

text \<open>
  The pure part of the FAT32 driver (\<^verbatim>\<open>kernel/filesystem/fat32_helpers.hpp\<close>): little-endian fields,
  checked 32-bit arithmetic, the classification of FAT entries, 8.3 names, path syntax, the boot-sector
  parser and the decoding of directory entries.  A function that fills an output reference and returns
  a success flag is an option-valued function.  A character is its byte; a C string is the list of its
  bytes, ended by the end of the list or by a zero byte.  A null input pointer is \<open>None\<close>; the callers
  pass the address of a local object as the output, so a null output does not occur.
\<close>

unbundle bit_operations_syntax

subsection \<open>Fields and checked arithmetic\<close>

definition le16 :: "u8 list \<Rightarrow> nat \<Rightarrow> u16" where
  "le16 p i = ucast (p ! i) OR push_bit 8 (ucast (p ! (i + 1)))"

definition le32 :: "u8 list \<Rightarrow> nat \<Rightarrow> u32" where
  "le32 p i = ucast (p ! i) OR push_bit 8 (ucast (p ! (i + 1))) OR push_bit 16 (ucast (p ! (i + 2)))
     OR push_bit 24 (ucast (p ! (i + 3)))"

definition is_power_of_two :: "u32 \<Rightarrow> bool" where
  "is_power_of_two value \<longleftrightarrow> value \<noteq> 0 \<and> value AND (value - 1) = 0"

definition fat28 :: "u32 \<Rightarrow> u32" where
  "fat28 value = value AND 0x0FFFFFFF"

definition is_eoc :: "u32 \<Rightarrow> bool" where
  "is_eoc value \<longleftrightarrow> (let v = fat28 value in v \<ge> 0x0FFFFFF8 \<and> v \<le> 0x0FFFFFFF)"

definition is_bad_cluster :: "u32 \<Rightarrow> bool" where
  "is_bad_cluster value \<longleftrightarrow> fat28 value = 0x0FFFFFF7"

definition is_free_cluster :: "u32 \<Rightarrow> bool" where
  "is_free_cluster value \<longleftrightarrow> fat28 value = 0"

definition is_reserved_cluster :: "u32 \<Rightarrow> bool" where
  "is_reserved_cluster value \<longleftrightarrow> (let v = fat28 value in v \<ge> 0x0FFFFFF0 \<and> v \<le> 0x0FFFFFF6)"

definition checked_add_u32 :: "u32 \<Rightarrow> u32 \<Rightarrow> u32 option" where
  "checked_add_u32 a b = (if b > 0xFFFFFFFF - a then None else Some (a + b))"

definition checked_mul_u32 :: "u32 \<Rightarrow> u32 \<Rightarrow> u32 option" where
  "checked_mul_u32 a b = (if a \<noteq> 0 \<and> b > 0xFFFFFFFF div a then None else Some (a * b))"

definition cluster_to_lba :: "u32 \<Rightarrow> u32 \<Rightarrow> u32 \<Rightarrow> u32 option" where
  "cluster_to_lba first_data_lba sectors_per_cluster cluster =
     (if cluster < 2 \<or> sectors_per_cluster = 0 then None
      else case checked_mul_u32 (cluster - 2) sectors_per_cluster of
             None \<Rightarrow> None
           | Some cluster_offset \<Rightarrow> checked_add_u32 first_data_lba cluster_offset)"

subsection \<open>Names\<close>

definition ascii_upper :: "u8 \<Rightarrow> u8" where
  "ascii_upper c = (if c \<ge> 0x61 \<and> c \<le> 0x7A then c - (0x61 - 0x41) else c)"

text \<open>The bytes of the literal \<^verbatim>\<open>$%'-_@~`!(){}^#&\<close>.\<close>

definition allowed_punctuation :: "u8 list" where
  "allowed_punctuation =
     [0x24, 0x25, 0x27, 0x2D, 0x5F, 0x40, 0x7E, 0x60, 0x21, 0x28, 0x29, 0x7B, 0x7D, 0x5E, 0x23, 0x26]"

definition valid_short_name_character :: "u8 \<Rightarrow> bool" where
  "valid_short_name_character c \<longleftrightarrow>
     (c \<ge> 0x41 \<and> c \<le> 0x5A) \<or> (c \<ge> 0x61 \<and> c \<le> 0x7A) \<or> (c \<ge> 0x30 \<and> c \<le> 0x39) \<or>
     c \<in> set allowed_punctuation"

fun iequals_loop :: "u8 list \<Rightarrow> u8 list \<Rightarrow> bool" where
  "iequals_loop (a # as) (b # bs) =
     (if a \<noteq> 0 \<and> b \<noteq> 0
      then (if ascii_upper a \<noteq> ascii_upper b then False else iequals_loop as bs)
      else a = 0 \<and> b = 0)"
| "iequals_loop [] bs \<longleftrightarrow> bs = [] \<or> hd bs = 0"
| "iequals_loop as [] \<longleftrightarrow> as = [] \<or> hd as = 0"

definition ascii_iequals :: "u8 list option \<Rightarrow> u8 list option \<Rightarrow> bool" where
  "ascii_iequals a b =
     (case (a, b) of (Some x, Some y) \<Rightarrow> iequals_loop x y | _ \<Rightarrow> False)"

fun format_base :: "bool \<Rightarrow> u8 list \<Rightarrow> u8 list \<Rightarrow> u8 list option" where
  "format_base initial [] out = Some out"
| "format_base initial (raw # rest) out =
     (let value = (if initial \<and> raw = 0x05 then 0xE5 else raw)
      in if value = 0x20 then Some out
         else if length out \<ge> 12 then None
         else format_base False rest (out @ [value]))"

fun format_extension :: "u8 list \<Rightarrow> u8 list \<Rightarrow> u8 list option" where
  "format_extension [] out = Some out"
| "format_extension (raw # rest) out =
     (if raw = 0x20 then Some out
      else if length out \<ge> 12 then None
      else format_extension rest (out @ [raw]))"

definition format_short_name :: "u8 list option \<Rightarrow> u8 list option" where
  "format_short_name raw_name =
     (case raw_name of None \<Rightarrow> None
      | Some raw \<Rightarrow>
          (case format_base True (take 8 raw) [] of None \<Rightarrow> None
           | Some out \<Rightarrow>
               let has_extension = list_ex (\<lambda>v. v \<noteq> 0x20) (take 3 (drop 8 raw));
                   named = (if has_extension
                            then if out = [] \<or> length out \<ge> 12 then None
                                 else format_extension (take 3 (drop 8 raw)) (out @ [0x2E])
                            else Some out)
               in case named of None \<Rightarrow> None | Some out \<Rightarrow> if out \<noteq> [] then Some out else None))"

text \<open>The loop over a component: base length, extension length and whether a dot was seen.\<close>

fun component_loop :: "u8 list \<Rightarrow> nat \<Rightarrow> nat \<Rightarrow> bool \<Rightarrow> (nat \<times> nat \<times> bool) option" where
  "component_loop [] base_length extension_length seen_dot = Some (base_length, extension_length, seen_dot)"
| "component_loop (c # cs) base_length extension_length seen_dot =
     (if c = 0 \<or> c = 0x2F \<or> c = 0x5C \<or> c = 0x20 \<or> c < 0x21 \<or> c > 0x7E then None
      else if c = 0x2E
      then (if seen_dot \<or> base_length = 0 then None
            else component_loop cs base_length extension_length True)
      else if \<not> valid_short_name_character c then None
      else if \<not> seen_dot
      then (if base_length + 1 > 8 then None
            else component_loop cs (base_length + 1) extension_length seen_dot)
      else (if extension_length + 1 > 3 then None
            else component_loop cs base_length (extension_length + 1) seen_dot))"

definition valid_path_component :: "u8 list option \<Rightarrow> bool" where
  "valid_path_component text =
     (case text of None \<Rightarrow> False
      | Some cs \<Rightarrow>
          if cs = [] then False
          else if cs = [0x2E] \<or> cs = [0x2E, 0x2E] then False
          else case component_loop cs 0 0 False of
                 None \<Rightarrow> False
               | Some (base_length, extension_length, seen_dot) \<Rightarrow>
                   if base_length = 0 then False
                   else if seen_dot \<and> extension_length = 0 then False
                   else True)"

fun encode_loop :: "u8 list \<Rightarrow> nat \<Rightarrow> u8 list \<Rightarrow> u8 list" where
  "encode_loop [] position out = out"
| "encode_loop (c # cs) position out =
     (if c = 0x2E then encode_loop cs 8 out
      else encode_loop cs (position + 1) (out[position := ascii_upper c]))"

definition encode_short_name :: "u8 list option \<Rightarrow> u8 list option" where
  "encode_short_name text =
     (if \<not> valid_path_component text then None
      else case text of None \<Rightarrow> None | Some cs \<Rightarrow> Some (encode_loop cs 0 (replicate 11 0x20)))"

text \<open>The component pointer and its length are the list of the bytes already passed.\<close>

fun valid_path_loop :: "u8 list \<Rightarrow> u8 list \<Rightarrow> bool" where
  "valid_path_loop component [] = (component \<noteq> [] \<and> valid_path_component (Some component))"
| "valid_path_loop component (c # cs) =
     (if c = 0x2F \<or> c = 0
      then if component = [] then False
           else if \<not> valid_path_component (Some component) then False
           else if c = 0 then True
           else valid_path_loop [] cs
      else if length component + 1 > 12 then False
      else valid_path_loop (component @ [c]) cs)"

definition valid_path :: "u8 list option \<Rightarrow> bool" where
  "valid_path path =
     (case path of None \<Rightarrow> False
      | Some cs \<Rightarrow> if cs = [] \<or> hd cs = 0 then False else valid_path_loop [] cs)"

subsection \<open>The boot sector\<close>

record bpb_geometry =
  bytes_per_sector :: u16
  sectors_per_cluster :: u8
  reserved_sectors :: u16
  fat_count :: u8
  total_sectors :: u32
  sectors_per_fat :: u32
  root_cluster :: u32
  fat_begin_lba :: u32
  first_data_lba :: u32
  cluster_count :: u32
  mirroring_enabled :: bool
  active_fat :: u8

definition parse_bpb :: "u8 list option \<Rightarrow> u32 \<Rightarrow> bpb_geometry option" where
  "parse_bpb boot disk_sectors =
     (case boot of None \<Rightarrow> None | Some sector \<Rightarrow>
      if disk_sectors = 0 then None
      else if sector ! 510 \<noteq> 0x55 \<or> sector ! 511 \<noteq> 0xAA then None
      else
      let bps = le16 sector 11; spc = sector ! 13; reserved = le16 sector 14; fats = sector ! 16;
          root_entry_count = le16 sector 17; total_sectors_16 = le16 sector 19;
          sectors_per_fat_16 = le16 sector 22; total_sectors_32 = le32 sector 32;
          spf = le32 sector 36; extended_flags = le16 sector 40;
          mirroring = (extended_flags AND 0x0080 = 0);
          active = (if mirroring then 0 else ucast (extended_flags AND 0x000F));
          filesystem_version = le16 sector 42; root = le32 sector 44
      in if bps \<noteq> 512 then None
      else if \<not> is_power_of_two (ucast spc) \<or> spc > 128 then None
      else if reserved = 0 \<or> fats = 0 then None
      else if \<not> mirroring \<and> active \<ge> fats then None
      else if root_entry_count \<noteq> 0 \<or> sectors_per_fat_16 \<noteq> 0 \<or> spf = 0 then None
      else if filesystem_version \<noteq> 0 \<or> root < 2 then None
      else
      let total = (if total_sectors_16 \<noteq> 0 then ucast total_sectors_16 else total_sectors_32)
      in if total = 0 \<or> total > disk_sectors then None
      else case checked_mul_u32 (ucast fats) spf of None \<Rightarrow> None
      | Some fat_sectors \<Rightarrow>
      (case checked_add_u32 (ucast reserved) fat_sectors of None \<Rightarrow> None
      | Some first_data \<Rightarrow>
      if first_data \<ge> total then None
      else let data_sectors = total - first_data; clusters = data_sectors div ucast spc
      in if clusters < 65525 then None
      else case checked_add_u32 clusters 2 of None \<Rightarrow> None
      | Some required_fat_entries \<Rightarrow>
      (case checked_mul_u32 spf 128 of None \<Rightarrow> None
      | Some fat_entry_capacity \<Rightarrow>
      if fat_entry_capacity < required_fat_entries then None
      else case checked_add_u32 clusters 1 of None \<Rightarrow> None
      | Some max_cluster \<Rightarrow>
      if max_cluster \<ge> 0x0FFFFFF0 then None
      else if root > max_cluster then None
      else Some \<lparr>bytes_per_sector = bps, sectors_per_cluster = spc, reserved_sectors = reserved,
             fat_count = fats, total_sectors = total, sectors_per_fat = spf, root_cluster = root,
             fat_begin_lba = ucast reserved, first_data_lba = first_data, cluster_count = clusters,
             mirroring_enabled = mirroring, active_fat = active\<rparr>)))"

subsection \<open>Directory entries and FAT entries\<close>

datatype directory_entry_kind = Normal | Skip | EndMark

record directory_entry =
  de_name :: "u8 list"
  de_is_directory :: bool
  de_first_cluster :: u32
  de_size :: u32

text \<open>The entry is defined exactly when the kind is \<open>Normal\<close>; no caller reads it otherwise.\<close>

definition decode_directory_entry :: "u8 list option \<Rightarrow> directory_entry_kind \<times> directory_entry option" where
  "decode_directory_entry entry =
     (case entry of None \<Rightarrow> (Skip, None)
      | Some raw \<Rightarrow>
          if raw ! 0 = 0x00 then (EndMark, None)
          else if raw ! 0 = 0xE5 then (Skip, None)
          else let attributes = raw ! 11
          in if attributes = 0x0F then (Skip, None)
          else if attributes AND 0x08 \<noteq> 0 then (Skip, None)
          else if raw ! 0 = 0x2E \<and> (raw ! 1 = 0x20 \<or> raw ! 1 = 0x2E) then (Skip, None)
          else case format_short_name (Some raw) of None \<Rightarrow> (Skip, None)
          | Some name \<Rightarrow>
              let cluster_high = ucast (le16 raw 20) :: u32; cluster_low = ucast (le16 raw 26) :: u32
              in (Normal, Some \<lparr>de_name = name, de_is_directory = (attributes AND 0x10 \<noteq> 0),
                    de_first_cluster = push_bit 16 cluster_high OR cluster_low, de_size = le32 raw 28\<rparr>))"

datatype fat_entry_kind = FatFree | FatReserved | FatNext | FatBad | FatEndOfChain

definition fat_entry_value :: "u32 \<Rightarrow> u32" where
  "fat_entry_value raw = fat28 raw"

definition classify_fat_entry :: "u32 \<Rightarrow> fat_entry_kind" where
  "classify_fat_entry raw =
     (let value = fat_entry_value raw
      in if value = 0x00000000 then FatFree
         else if value = 0x00000001 then FatReserved
         else if value \<ge> 0x0FFFFFF0 \<and> value \<le> 0x0FFFFFF6 then FatReserved
         else if value = 0x0FFFFFF7 then FatBad
         else if value \<ge> 0x0FFFFFF8 then FatEndOfChain
         else FatNext)"

definition fat_entry_location :: "u32 \<Rightarrow> u32 \<Rightarrow> (u32 \<times> u16) option" where
  "fat_entry_location cluster fat_begin =
     (case checked_mul_u32 cluster 4 of None \<Rightarrow> None
      | Some offset \<Rightarrow>
          let sector_offset = offset div 512
          in case checked_add_u32 fat_begin sector_offset of None \<Rightarrow> None
             | Some sector \<Rightarrow> Some (sector, ucast (offset mod 512)))"

subsection \<open>Checked arithmetic\<close>

lemma checked_add_Some:
  "checked_add_u32 a b = Some c \<longleftrightarrow> unat a + unat b < 2 ^ 32 \<and> unat c = unat a + unat b"
proof -
  have max: "(0xFFFFFFFF :: u32) = - 1" by simp
  have "\<not> b > - 1 - a \<longleftrightarrow> unat a + unat b < 2 ^ 32" using no_overflow_iff [of b a] by (simp add: not_less)
  moreover have "a + b = c \<longleftrightarrow> unat c = unat a + unat b" if "unat a + unat b < 2 ^ 32"
    using that by (auto simp: unat_eq_iff unat_word_ariths)
  ultimately show ?thesis unfolding checked_add_u32_def max by auto
qed

lemma checked_add_None: "checked_add_u32 a b = None \<longleftrightarrow> 2 ^ 32 \<le> unat a + unat b"
proof (cases "checked_add_u32 a b")
  case None
  then have "\<not> (unat a + unat b < 2 ^ 32)"
    using checked_add_Some [of a b "a + b"] by (auto simp: unat_word_ariths)
  then show ?thesis using None by simp
next
  case (Some c)
  then have "\<not> 2 ^ 32 \<le> unat a + unat b" unfolding checked_add_Some by simp
  then show ?thesis using Some by simp
qed

lemma div_less_mult_iff: "0 < (a :: nat) \<Longrightarrow> m div a < b \<longleftrightarrow> m < a * b"
  by (simp add: div_less_iff_less_mult mult.commute)

lemma checked_mul_Some:
  "checked_mul_u32 a b = Some c \<longleftrightarrow> unat a * unat b < 2 ^ 32 \<and> unat c = unat a * unat b"
proof -
  have "unat ((0xFFFFFFFF :: u32) div a) = 4294967295 div unat a" by (simp add: unat_div_word)
  then have "a \<noteq> 0 \<and> b > 0xFFFFFFFF div a \<longleftrightarrow> \<not> unat a * unat b < 2 ^ 32"
    by (cases "a = 0") (auto simp: unat_less_iff div_less_mult_iff unat_gt_0)
  moreover have "a * b = c \<longleftrightarrow> unat c = unat a * unat b" if "unat a * unat b < 2 ^ 32"
    using that by (auto simp: unat_eq_iff unat_word_ariths)
  ultimately show ?thesis unfolding checked_mul_u32_def by auto
qed

lemma checked_mul_None: "checked_mul_u32 a b = None \<longleftrightarrow> 2 ^ 32 \<le> unat a * unat b"
proof (cases "checked_mul_u32 a b")
  case None
  then have "\<not> (unat a * unat b < 2 ^ 32)"
    using checked_mul_Some [of a b "a * b"] by (auto simp: unat_word_ariths)
  then show ?thesis using None by simp
next
  case (Some c)
  then have "\<not> 2 ^ 32 \<le> unat a * unat b" unfolding checked_mul_Some by simp
  then show ?thesis using Some by simp
qed

lemma unat_ucast_up:
  fixes w :: "'a::len word"
  assumes "LENGTH('a) \<le> LENGTH('b)"
  shows "unat (ucast w :: 'b::len word) = unat w"
  using assms by (simp add: unsigned_ucast_eq take_bit_nat_eq_self order_less_le_trans [OF unsigned_less])

lemma cluster_to_lba_Some:
  "cluster_to_lba first spc c = Some lba \<longleftrightarrow>
     2 \<le> unat c \<and> spc \<noteq> 0 \<and> unat first + (unat c - 2) * unat spc < 2 ^ 32 \<and>
     unat lba = unat first + (unat c - 2) * unat spc"
proof (cases "2 \<le> unat c")
  case True
  then have "unat (c - 2) = unat c - 2" by (simp add: unat_sub unat_le_iff)
  then show ?thesis using True
    by (auto simp: cluster_to_lba_def unat_less_iff checked_mul_Some checked_mul_None checked_add_Some
        split: option.splits)
next
  case False
  then show ?thesis by (simp add: cluster_to_lba_def unat_less_iff)
qed

lemma fat_entry_location_Some:
  assumes "unat c < 2 ^ 30" "unat fat + unat c div 128 < 2 ^ 32"
  shows "\<exists>sec inside. fat_entry_location c fat = Some (sec, inside) \<and>
     unat sec = unat fat + unat c div 128 \<and> unat inside = 4 * (unat c mod 128)"
proof -
  obtain off where off: "checked_mul_u32 c 4 = Some off" "unat off = unat c * 4"
    using assms(1) checked_mul_None [of c 4] checked_mul_Some [of c 4] by (cases "checked_mul_u32 c 4") auto
  have d: "unat (off div 512) = unat c div 128" by (simp add: unat_div_word off(2))
  obtain sec where sec: "checked_add_u32 fat (off div 512) = Some sec"
    using assms(2) checked_add_None [of fat "off div 512"] unfolding d by (auto simp: not_le)
  have m: "unat (off mod 512) = 4 * (unat c mod 128)" by (simp add: unat_mod_word off(2) mult_mod_right mult.commute)
  have "unat (ucast (off mod 512) :: u16) = 4 * (unat c mod 128)"
    using m by (simp add: unsigned_ucast_eq take_bit_nat_eq_self)
  moreover have "unat sec = unat fat + unat c div 128" using sec d unfolding checked_add_Some by simp
  ultimately show ?thesis using off(1) sec by (simp add: fat_entry_location_def)
qed

subsection \<open>The geometry of an accepted volume\<close>

text \<open>The layout an accepted boot sector describes, on natural numbers: the reserved sectors, then the
  FAT copies, then the clusters, all within the disk.\<close>

definition geometry_ok :: "u32 \<Rightarrow> bpb_geometry \<Rightarrow> bool" where
  "geometry_ok disk g \<longleftrightarrow>
     bytes_per_sector g = 512 \<and> 0 < unat (sectors_per_cluster g) \<and> unat (sectors_per_cluster g) \<le> 128 \<and>
     is_power_of_two (ucast (sectors_per_cluster g)) \<and>
     0 < unat (fat_begin_lba g) \<and> unat (fat_begin_lba g) = unat (reserved_sectors g) \<and>
     unat (active_fat g) < unat (fat_count g) \<and>
     unat (first_data_lba g) = unat (fat_begin_lba g) + unat (fat_count g) * unat (sectors_per_fat g) \<and>
     unat (first_data_lba g) + unat (cluster_count g) * unat (sectors_per_cluster g) \<le> unat (total_sectors g) \<and>
     unat (total_sectors g) < unat (first_data_lba g) + (unat (cluster_count g) + 1) * unat (sectors_per_cluster g) \<and>
     unat (total_sectors g) \<le> unat disk \<and> 65525 \<le> unat (cluster_count g) \<and>
     unat (cluster_count g) + 1 < 0x0FFFFFF0 \<and> unat (cluster_count g) + 2 \<le> 128 * unat (sectors_per_fat g) \<and>
     2 \<le> unat (root_cluster g) \<and> unat (root_cluster g) \<le> unat (cluster_count g) + 1"

lemma div_split: "0 < (k :: nat) \<Longrightarrow> n div k * k \<le> n \<and> n < (n div k + 1) * k"
  by (metis div_times_less_eq_dividend dividend_less_div_times add.commute distrib_right mult_1 div_mod_decomp
      add_less_cancel_left mod_less_divisor)

lemma parse_bpb_geometry:
  assumes "parse_bpb boot disk = Some g"
  shows "geometry_ok disk g"
proof -
  obtain sector where b: "boot = Some sector" using assms by (cases boot) (simp_all add: parse_bpb_def)
  define flags where "flags = le16 sector 40"
  from assms obtain fat_sectors req cap mx where
    c: "checked_mul_u32 (ucast (fat_count g)) (sectors_per_fat g) = Some fat_sectors"
       "checked_add_u32 (ucast (reserved_sectors g)) fat_sectors = Some (first_data_lba g)"
       "first_data_lba g < total_sectors g"
       "cluster_count g = (total_sectors g - first_data_lba g) div ucast (sectors_per_cluster g)"
       "\<not> cluster_count g < 65525" "checked_add_u32 (cluster_count g) 2 = Some req"
       "checked_mul_u32 (sectors_per_fat g) 128 = Some cap" "\<not> cap < req"
       "checked_add_u32 (cluster_count g) 1 = Some mx" "\<not> mx \<ge> 0x0FFFFFF0" "\<not> root_cluster g > mx"
    and d: "bytes_per_sector g = 512" "is_power_of_two (ucast (sectors_per_cluster g))" "\<not> sectors_per_cluster g > 128"
       "reserved_sectors g \<noteq> 0" "fat_count g \<noteq> 0" "\<not> root_cluster g < 2" "\<not> total_sectors g > disk"
       "active_fat g = 0 \<or> active_fat g < fat_count g" "fat_begin_lba g = ucast (reserved_sectors g)"
    by (auto simp: parse_bpb_def b Let_def not_le simp flip: flags_def split: if_splits option.splits)
  have up: "unat (ucast (fat_count g) :: u32) = unat (fat_count g)"
    "unat (ucast (reserved_sectors g) :: u32) = unat (reserved_sectors g)"
    "unat (ucast (sectors_per_cluster g) :: u32) = unat (sectors_per_cluster g)"
    by (simp_all add: unat_ucast_up)
  have spc: "0 < unat (sectors_per_cluster g)" using d(2) up(3) by (auto simp: is_power_of_two_def unat_gt_0)
  have n: "unat (cluster_count g) = (unat (total_sectors g) - unat (first_data_lba g)) div unat (sectors_per_cluster g)"
    by (simp add: c(4) unat_div_word up unat_sub [OF less_imp_le [OF c(3)]])
  have lay: "unat (first_data_lba g) + unat (cluster_count g) * unat (sectors_per_cluster g) \<le> unat (total_sectors g)"
    "unat (total_sectors g) < unat (first_data_lba g) + (unat (cluster_count g) + 1) * unat (sectors_per_cluster g)"
    using div_split [OF spc, of "unat (total_sectors g) - unat (first_data_lba g)"] c(3)
    unfolding n [symmetric] unat_less_iff by linarith+
  have num: "unat req = unat (cluster_count g) + 2" "unat cap = unat (sectors_per_fat g) * 128"
    "unat mx = unat (cluster_count g) + 1" "unat fat_sectors = unat (fat_count g) * unat (sectors_per_fat g)"
    "unat (first_data_lba g) = unat (reserved_sectors g) + unat fat_sectors"
    using c(1,2,6,7,9) unfolding checked_add_Some checked_mul_Some up by simp_all
  have small: "unat (sectors_per_cluster g) \<le> 128" "unat (total_sectors g) \<le> unat disk"
    "2 \<le> unat (root_cluster g)" "unat (root_cluster g) \<le> unat mx" "65525 \<le> unat (cluster_count g)"
    "unat req \<le> unat cap" "unat mx < 0x0FFFFFF0"
    using d(3,6,7) c(5,8,10,11) by (simp_all add: not_less not_le unat_less_iff unat_le_iff)
  have "0 < unat (fat_count g)" "0 < unat (reserved_sectors g)" using d(4,5) by (simp_all add: unat_gt_0)
  moreover from this(1) have "unat (active_fat g) < unat (fat_count g)" using d(8) by (auto simp: unat_less_iff)
  ultimately show ?thesis
    unfolding geometry_ok_def d(9) up num(5,4) using d(1,2) spc lay small num up
    by (intro conjI; (assumption | simp | linarith))
qed

text \<open>Where the clusters of such a volume and their FAT entries lie.\<close>

lemma geometry_cluster:
  assumes "geometry_ok disk g" "2 \<le> unat c" "unat c \<le> unat (cluster_count g) + 1"
  shows "\<exists>lba. cluster_to_lba (first_data_lba g) (ucast (sectors_per_cluster g)) c = Some lba \<and>
      unat (first_data_lba g) \<le> unat lba \<and> unat lba + unat (sectors_per_cluster g) \<le> unat (total_sectors g)"
proof -
  let ?spc = "unat (sectors_per_cluster g)"
  have up: "unat (ucast (sectors_per_cluster g) :: u32) = ?spc" by (simp add: unat_ucast_up)
  have "(unat c - 2 + 1) * ?spc \<le> unat (cluster_count g) * ?spc" using assms by (intro mult_right_mono) auto
  then have fit: "unat (first_data_lba g) + (unat c - 2) * ?spc + ?spc \<le> unat (total_sectors g)"
    using assms(1) by (auto simp: geometry_ok_def)
  moreover have pos: "0 < ?spc" using assms(1) by (simp add: geometry_ok_def)
  ultimately have small: "unat (first_data_lba g) + (unat c - 2) * ?spc < 2 ^ 32"
    using unat_less_32 [of "total_sectors g"] by linarith
  define lba :: u32 where "lba = of_nat (unat (first_data_lba g) + (unat c - 2) * ?spc)"
  have lba: "unat lba = unat (first_data_lba g) + (unat c - 2) * ?spc"
    unfolding lba_def using small by (intro unat_of_nat_small) simp
  have "(ucast (sectors_per_cluster g) :: u32) \<noteq> 0" using pos up by (metis unat_0 less_irrefl)
  then have "cluster_to_lba (first_data_lba g) (ucast (sectors_per_cluster g)) c = Some lba"
    unfolding cluster_to_lba_Some up using assms(2) small lba by simp
  then show ?thesis using lba fit by (intro exI [of _ lba]) simp
qed

lemma geometry_fat_entry:
  assumes "geometry_ok disk g" "unat c \<le> unat (cluster_count g) + 1"
  shows "\<exists>sec inside. fat_entry_location c (fat_begin_lba g) = Some (sec, inside) \<and>
      unat (fat_begin_lba g) \<le> unat sec \<and> unat sec < unat (fat_begin_lba g) + unat (sectors_per_fat g) \<and>
      unat inside + 4 \<le> 512 \<and> unat sec - unat (fat_begin_lba g) = unat c div 128 \<and> unat inside = 4 * (unat c mod 128)"
proof -
  have q: "unat c div 128 < unat (sectors_per_fat g)"
    using assms by (simp add: geometry_ok_def div_less_iff_less_mult mult.commute)
  have "unat (sectors_per_fat g) \<le> unat (fat_count g) * unat (sectors_per_fat g)"
    using assms(1) by (simp add: geometry_ok_def)
  then have "unat (fat_begin_lba g) + unat c div 128 < 2 ^ 32"
    using q assms(1) unat_less_32 [of "first_data_lba g"] unfolding geometry_ok_def by linarith
  moreover have "unat c < 2 ^ 30" using assms by (simp add: geometry_ok_def)
  ultimately obtain sec inside where r: "fat_entry_location c (fat_begin_lba g) = Some (sec, inside)"
    "unat sec = unat (fat_begin_lba g) + unat c div 128" "unat inside = 4 * (unat c mod 128)"
    using fat_entry_location_Some by blast
  have "4 * (unat c mod 128) + 4 \<le> 512" using mod_less_divisor [of 128 "unat c"] by linarith
  then show ?thesis using r q by auto
qed

text \<open>
  C40: a boot sector the parser accepts describes a volume inside the disk: the FAT copies end where the
  clusters begin, every data cluster maps to a run of sectors after them and within the volume, two
  different clusters never share a sector, and the FAT entry of every cluster lies in the first copy
  and does not cross a sector boundary.
\<close>

theorem parse_bpb_layout:
  assumes "parse_bpb boot disk = Some g" "2 \<le> unat c" "unat c < unat (cluster_count g) + 2"
  shows "unat (first_data_lba g) = unat (fat_begin_lba g) + unat (fat_count g) * unat (sectors_per_fat g) \<and>
    unat (total_sectors g) \<le> unat disk \<and>
    (\<exists>lba sec inside. cluster_to_lba (first_data_lba g) (ucast (sectors_per_cluster g)) c = Some lba \<and>
       unat (first_data_lba g) \<le> unat lba \<and> unat lba + unat (sectors_per_cluster g) \<le> unat (total_sectors g) \<and>
       fat_entry_location c (fat_begin_lba g) = Some (sec, inside) \<and> unat (fat_begin_lba g) \<le> unat sec \<and>
       unat sec < unat (fat_begin_lba g) + unat (sectors_per_fat g) \<and> unat inside + 4 \<le> 512 \<and>
       (\<forall>c' lba'. cluster_to_lba (first_data_lba g) (ucast (sectors_per_cluster g)) c' = Some lba' \<longrightarrow> unat c < unat c' \<longrightarrow>
          unat lba + unat (sectors_per_cluster g) \<le> unat lba'))"
proof -
  have ok: "geometry_ok disk g" using assms(1) by (rule parse_bpb_geometry)
  have c: "unat c \<le> unat (cluster_count g) + 1" using assms(3) by simp
  obtain lba where lba: "cluster_to_lba (first_data_lba g) (ucast (sectors_per_cluster g)) c = Some lba"
    "unat (first_data_lba g) \<le> unat lba" "unat lba + unat (sectors_per_cluster g) \<le> unat (total_sectors g)"
    using geometry_cluster [OF ok assms(2) c] by blast
  have "unat lba + unat (sectors_per_cluster g) \<le> unat lba'"
    if "cluster_to_lba (first_data_lba g) (ucast (sectors_per_cluster g)) c' = Some lba'" "unat c < unat c'" for c' lba'
  proof -
    have "(unat c - 2 + 1) * unat (sectors_per_cluster g) \<le> (unat c' - 2) * unat (sectors_per_cluster g)"
      using that(2) assms(2) by (intro mult_right_mono) auto
    then show ?thesis
      using lba(1) that(1) unfolding cluster_to_lba_Some by (simp add: unat_ucast_up)
  qed
  then show ?thesis
    using ok lba geometry_fat_entry [OF ok c] unfolding geometry_ok_def by blast
qed

definition demo_boot_sector :: "u8 list" where
  "demo_boot_sector = (replicate 512 0)[12 := 0x02, 13 := 0x01, 14 := 0x20, 16 := 0x02, 32 := 0x70, 33 := 0x11,
     34 := 0x01, 36 := 0x26, 37 := 0x02, 44 := 0x02, 510 := 0x55, 511 := 0xAA]"

definition demo_geometry :: bpb_geometry where
  "demo_geometry = \<lparr>bytes_per_sector = 512, sectors_per_cluster = 1, reserved_sectors = 32, fat_count = 2,
     total_sectors = 70000, sectors_per_fat = 550, root_cluster = 2, fat_begin_lba = 32,
     first_data_lba = 1132, cluster_count = 68868, mirroring_enabled = True, active_fat = 0\<rparr>"

lemma demo_volume_accepted: "parse_bpb (Some demo_boot_sector) 70000 = Some demo_geometry"
  by (simp add: parse_bpb_def demo_boot_sector_def le16_def le32_def nth_list_update is_power_of_two_def
      checked_mul_u32_def checked_add_u32_def demo_geometry_def)

theorem parse_bpb_layout_witness:
  "\<exists>lba sec inside. cluster_to_lba 1132 1 3 = Some lba \<and> 1132 \<le> unat lba \<and> unat lba + 1 \<le> 70000 \<and>
     fat_entry_location 3 32 = Some (sec, inside) \<and> unat sec < 32 + 550 \<and> unat inside + 4 \<le> 512"
proof -
  have g: "first_data_lba demo_geometry = 1132" "sectors_per_cluster demo_geometry = 1"
    "total_sectors demo_geometry = 70000" "fat_begin_lba demo_geometry = 32" "sectors_per_fat demo_geometry = 550"
    "cluster_count demo_geometry = 68868"
    by (simp_all add: demo_geometry_def)
  from parse_bpb_layout [OF demo_volume_accepted, of 3] show ?thesis unfolding g by auto
qed

subsection \<open>Short names\<close>

lemma valid_character:
  assumes "valid_short_name_character c"
  shows "c \<noteq> 0" "c \<noteq> 0x2F" "c \<noteq> 0x5C" "c \<noteq> 0x20" "0x21 \<le> c" "c \<le> 0x7E" "c \<noteq> 0x2E"
    "ascii_upper c \<noteq> 0x20" "ascii_upper c \<noteq> 0x05" "ascii_upper c \<noteq> 0" "ascii_upper c \<noteq> 0xE5"
proof -
  have r: "c \<in> set allowed_punctuation \<or> 0x41 \<le> unat c \<and> unat c \<le> 0x5A \<or> 0x61 \<le> unat c \<and> unat c \<le> 0x7A \<or>
      0x30 \<le> unat c \<and> unat c \<le> 0x39"
    using assms by (auto simp: valid_short_name_character_def unat_le_iff)
  have low: "0x61 \<le> unat c \<Longrightarrow> unat (c - 32) = unat c - 32" by (simp add: unat_sub unat_le_iff)
  show "c \<noteq> 0" "c \<noteq> 0x2F" "c \<noteq> 0x5C" "c \<noteq> 0x20" "0x21 \<le> c" "c \<le> 0x7E" "c \<noteq> 0x2E"
    using r by (auto simp: allowed_punctuation_def unat_eq_iff unat_le_iff)
  show "ascii_upper c \<noteq> 0x20" "ascii_upper c \<noteq> 0x05" "ascii_upper c \<noteq> 0" "ascii_upper c \<noteq> 0xE5"
    using r low by (auto simp: allowed_punctuation_def ascii_upper_def unat_eq_iff unat_le_iff)
qed

text \<open>The 8.3 grammar: a base of one to eight characters, then optionally a dot and an extension of one
  to three.\<close>

definition dotted :: "u8 list \<Rightarrow> u8 list \<Rightarrow> u8 list" where
  "dotted base ext = (if ext = [] then base else base @ 0x2E # ext)"

definition short_name_parts :: "u8 list \<Rightarrow> u8 list \<Rightarrow> bool" where
  "short_name_parts base ext \<longleftrightarrow> base \<noteq> [] \<and> length base \<le> 8 \<and> length ext \<le> 3 \<and>
     list_all valid_short_name_character (base @ ext)"

lemma component_base:
  "list_all valid_short_name_character base \<Longrightarrow> b + length base \<le> 8 \<Longrightarrow>
     component_loop (base @ rest) b e False = component_loop rest (b + length base) e False"
proof (induction base arbitrary: b)
  case (Cons c cs)
  then show ?case using valid_character [of c] by (auto simp: not_less)
qed simp

lemma component_extension:
  "list_all valid_short_name_character ext \<Longrightarrow> e + length ext \<le> 3 \<Longrightarrow>
     component_loop ext b e True = Some (b, e + length ext, True)"
proof (induction ext arbitrary: e)
  case (Cons c cs)
  then show ?case using valid_character [of c] by (auto simp: not_less)
qed simp

lemma component_extension_only:
  "component_loop cs b e True = Some r \<Longrightarrow> e \<le> 3 \<Longrightarrow>
     list_all valid_short_name_character cs \<and> e + length cs \<le> 3 \<and> r = (b, e + length cs, True)"
proof (induction cs arbitrary: e)
  case (Cons c cs)
  then have v: "valid_short_name_character c" "Suc e \<le> 3" "component_loop cs b (Suc e) True = Some r"
    by (simp_all split: if_splits)
  from Cons.IH [OF v(3,2)] show ?case using v(1) by simp
qed simp

lemma component_only:
  "component_loop cs b e False = Some r \<Longrightarrow> b \<le> 8 \<Longrightarrow> e \<le> 3 \<Longrightarrow>
     \<exists>base ext. list_all valid_short_name_character (base @ ext) \<and> b + length base \<le> 8 \<and>
       (cs = base \<and> r = (b + length base, e, False) \<or>
        cs = base @ 0x2E # ext \<and> e + length ext \<le> 3 \<and> r = (b + length base, e + length ext, True))"
proof (induction cs arbitrary: b)
  case Nil
  then show ?case by (intro exI [of _ "[]"]) simp
next
  case (Cons c cs)
  show ?case
  proof (cases "c = 0x2E")
    case True
    then have "component_loop cs b e True = Some r" using Cons.prems by (simp split: if_splits)
    from component_extension_only [OF this Cons.prems(3)] show ?thesis
      using True Cons.prems(2) by (intro exI [of _ "[]"] exI [of _ cs]) simp
  next
    case False
    then have v: "valid_short_name_character c" "b + 1 \<le> 8" "component_loop cs (b + 1) e False = Some r"
      using Cons.prems by (simp_all split: if_splits)
    from Cons.IH [OF v(3,2) Cons.prems(3)] obtain base ext where
      "list_all valid_short_name_character (base @ ext)" "b + 1 + length base \<le> 8"
      "cs = base \<and> r = (b + 1 + length base, e, False) \<or>
        cs = base @ 0x2E # ext \<and> e + length ext \<le> 3 \<and> r = (b + 1 + length base, e + length ext, True)"
      by blast
    then show ?thesis using v(1) by (intro exI [of _ "c # base"] exI [of _ ext]) auto
  qed
qed

lemma no_dot_in_valid: "list_all valid_short_name_character xs \<Longrightarrow> 0x2E \<notin> set xs"
  using valid_character(7) by (auto simp: list_all_iff)

lemma valid_component_iff:
  "valid_path_component (Some cs) \<longleftrightarrow> (\<exists>base ext. cs = dotted base ext \<and> short_name_parts base ext)"
proof
  assume v: "valid_path_component (Some cs)"
  then obtain b e d where r: "component_loop cs 0 0 False = Some (b, e, d)" "b \<noteq> 0" "\<not> (d \<and> e = 0)"
    by (auto simp: valid_path_component_def split: if_splits option.splits)
  from component_only [OF r(1)] obtain base ext where p: "list_all valid_short_name_character (base @ ext)"
    "length base \<le> 8"
    "cs = base \<and> (b, e, d) = (length base, 0, False) \<or>
     cs = base @ 0x2E # ext \<and> length ext \<le> 3 \<and> (b, e, d) = (length base, length ext, True)"
    by auto
  from p(3) show "\<exists>base ext. cs = dotted base ext \<and> short_name_parts base ext"
  proof (elim disjE conjE)
    assume "cs = base" "(b, e, d) = (length base, 0, False)"
    then show ?thesis using p r by (intro exI [of _ base] exI [of _ "[]"]) (simp add: dotted_def short_name_parts_def)
  next
    assume "cs = base @ 0x2E # ext" "length ext \<le> 3" "(b, e, d) = (length base, length ext, True)"
    then show ?thesis using p r by (intro exI [of _ base] exI [of _ ext]) (simp add: dotted_def short_name_parts_def)
  qed
next
  assume "\<exists>base ext. cs = dotted base ext \<and> short_name_parts base ext"
  then obtain base ext where p: "cs = dotted base ext" "base \<noteq> []" "length base \<le> 8" "length ext \<le> 3"
    "list_all valid_short_name_character base" "list_all valid_short_name_character ext"
    by (auto simp: short_name_parts_def)
  have run: "component_loop cs 0 0 False = Some (length base, length ext, ext \<noteq> [])"
    using component_base [OF p(5), of 0 "0x2E # ext" 0] component_base [OF p(5), of 0 "[]" 0]
      component_extension [OF p(6), of 0 "length base"] p(2,3,4)
    by (auto simp: p(1) dotted_def)
  obtain x xs where x: "base = x # xs" using p(2) by (cases base) auto
  have "x \<noteq> 0x2E" using no_dot_in_valid [OF p(5)] x by auto
  then have "cs \<noteq> []" "cs \<noteq> [0x2E]" "cs \<noteq> [0x2E, 0x2E]" using x by (auto simp: p(1) dotted_def)
  then show "valid_path_component (Some cs)" using run p(2) by (auto simp: valid_path_component_def)
qed

lemma encode_run:
  "0x2E \<notin> set xs \<Longrightarrow> length pre = position \<Longrightarrow> length mid = length xs \<Longrightarrow>
     encode_loop (xs @ rest) position (pre @ mid @ post) =
     encode_loop rest (position + length xs) (pre @ map ascii_upper xs @ post)"
proof (induction xs arbitrary: pre mid position)
  case (Cons x xs)
  then obtain y ys where y: "mid = y # ys" by (cases mid) auto
  have upd: "(pre @ (y # ys) @ post)[position := ascii_upper x] = (pre @ [ascii_upper x]) @ ys @ post"
    using Cons.prems(2) by (simp add: list_update_append)
  show ?case
    using Cons.prems Cons.IH [of "pre @ [ascii_upper x]" "position + 1" ys] by (simp add: y upd [simplified])
qed simp

definition short_name_bytes :: "u8 list \<Rightarrow> u8 list \<Rightarrow> u8 list" where
  "short_name_bytes base ext = map ascii_upper base @ replicate (8 - length base) 0x20 @
     map ascii_upper ext @ replicate (3 - length ext) 0x20"

lemma encode_parts:
  assumes "short_name_parts base ext"
  shows "encode_short_name (Some (dotted base ext)) = Some (short_name_bytes base ext)"
proof -
  have p: "length base \<le> 8" "length ext \<le> 3" "0x2E \<notin> set base" "0x2E \<notin> set ext"
    using assms no_dot_in_valid [of base] no_dot_in_valid [of ext] by (auto simp: short_name_parts_def)
  let ?pad = "replicate (8 - length base) 0x20 :: u8 list"
  have r: "replicate 11 (0x20 :: u8) = [] @ replicate (length base) 0x20 @ ?pad @ replicate 3 0x20"
    using p(1) by (simp flip: replicate_add)
  have b: "encode_loop (base @ rest) 0 (replicate 11 0x20) =
      encode_loop rest (length base) (map ascii_upper base @ ?pad @ replicate 3 0x20)" for rest
    using encode_run [OF p(3), of "[]" 0 "replicate (length base) 0x20" rest "?pad @ replicate 3 0x20"] unfolding r by simp
  have r3: "replicate 3 (0x20 :: u8) = replicate (length ext) 0x20 @ replicate (3 - length ext) 0x20"
    using p(2) by (simp flip: replicate_add)
  have e: "encode_loop ext 8 (map ascii_upper base @ ?pad @ replicate 3 0x20) = short_name_bytes base ext"
    using encode_run [OF p(4), of "map ascii_upper base @ ?pad" 8 "replicate (length ext) 0x20" "[]" "replicate (3 - length ext) 0x20"]
      p(1) unfolding r3 by (simp add: short_name_bytes_def)
  have "encode_loop (dotted base ext) 0 (replicate 11 0x20) = short_name_bytes base ext"
  proof (cases "ext = []")
    case True
    then show ?thesis using b [of "[]"] by (simp add: dotted_def short_name_bytes_def)
  next
    case False
    then show ?thesis using b [of "0x2E # ext"] e by (simp add: dotted_def)
  qed
  moreover have "valid_path_component (Some (dotted base ext))" using assms valid_component_iff by blast
  ultimately show ?thesis by (simp add: encode_short_name_def)
qed

lemma format_base_run:
  "0x20 \<notin> set xs \<Longrightarrow> (initial \<longrightarrow> xs \<noteq> [] \<and> hd xs \<noteq> 0x05) \<Longrightarrow> length out + length xs \<le> 12 \<Longrightarrow>
     format_base initial (xs @ replicate n 0x20) out = Some (out @ xs)"
proof (induction xs arbitrary: initial out)
  case Nil
  then show ?case by (cases n) auto
next
  case (Cons x xs)
  have "format_base False (xs @ replicate n 0x20) (out @ [x]) = Some ((out @ [x]) @ xs)"
    using Cons.prems by (intro Cons.IH) auto
  then show ?case using Cons.prems by (auto simp: Let_def)
qed

lemma format_extension_run:
  "0x20 \<notin> set xs \<Longrightarrow> length out + length xs \<le> 12 \<Longrightarrow>
     format_extension (xs @ replicate n 0x20) out = Some (out @ xs)"
proof (induction xs arbitrary: out)
  case Nil
  then show ?case by (cases n) auto
qed auto

lemma format_parts:
  assumes "short_name_parts base ext"
  shows "format_short_name (Some (short_name_bytes base ext @ rest)) = Some (map ascii_upper (dotted base ext))"
proof -
  have p: "base \<noteq> []" "length base \<le> 8" "length ext \<le> 3" "\<forall>c\<in>set base \<union> set ext. valid_short_name_character c"
    using assms by (auto simp: short_name_parts_def list_all_iff)
  have sp: "0x20 \<notin> ascii_upper ` set base" "0x20 \<notin> ascii_upper ` set ext"
    using p(4) valid_character(8) by fastforce+
  have hd: "hd (map ascii_upper base) \<noteq> 0x05" using p(1,4) valid_character(9) by (simp add: hd_map)
  have t: "take 8 (short_name_bytes base ext @ rest) = map ascii_upper base @ replicate (8 - length base) 0x20"
    "take 3 (drop 8 (short_name_bytes base ext @ rest)) = map ascii_upper ext @ replicate (3 - length ext) 0x20"
    using p(2,3) by (simp_all add: short_name_bytes_def)
  have b: "format_base True (map ascii_upper base @ replicate (8 - length base) 0x20) [] = Some (map ascii_upper base)"
    using format_base_run [of "map ascii_upper base" True "[]" "8 - length base"] sp(1) hd p(1,2) by simp
  have e: "format_extension (map ascii_upper ext @ replicate (3 - length ext) 0x20) (map ascii_upper base @ [0x2E]) =
      Some ((map ascii_upper base @ [0x2E]) @ map ascii_upper ext)"
    using format_extension_run [of "map ascii_upper ext" "map ascii_upper base @ [0x2E]"] sp(2) p(2,3) by simp
  have h: "list_ex (\<lambda>v. v \<noteq> 0x20) (map ascii_upper ext @ replicate (3 - length ext) (0x20 :: u8)) \<longleftrightarrow> ext \<noteq> []"
    using sp(2) by (cases ext) (auto simp: list_ex_iff)
  have dot: "ascii_upper 0x2E = 0x2E" by (simp add: ascii_upper_def)
  show ?thesis
    unfolding format_short_name_def option.case t b h Let_def using p(1,2) e dot by (simp add: dotted_def)
qed

lemma ascii_upper_idem [simp]: "ascii_upper (ascii_upper c) = ascii_upper c"
proof (cases "c \<ge> 0x61 \<and> c \<le> 0x7A")
  case True
  then have "unat (c - 32) = unat c - 32" "unat c \<le> 0x7A" by (simp_all add: unat_sub unat_le_iff)
  then have "\<not> 0x61 \<le> c - 32" by (simp add: unat_le_iff)
  then show ?thesis using True by (simp add: ascii_upper_def)
qed (auto simp: ascii_upper_def)

lemma iequals_upper:
  "0 \<notin> set xs \<Longrightarrow> 0 \<notin> ascii_upper ` set xs \<Longrightarrow> iequals_loop (map ascii_upper xs) xs"
  by (induction xs) auto

lemma dotted_nonzero:
  assumes "short_name_parts base ext"
  shows "0 \<notin> set (dotted base ext)" "0 \<notin> ascii_upper ` set (dotted base ext)" "length (dotted base ext) \<le> 12"
    "0x2F \<notin> set (dotted base ext)"
proof -
  have v: "\<forall>c\<in>set base \<union> set ext. valid_short_name_character c"
    using assms by (auto simp: short_name_parts_def list_all_iff)
  have dot: "ascii_upper 0x2E = 0x2E" by (simp add: ascii_upper_def)
  show "0 \<notin> set (dotted base ext)" "0x2F \<notin> set (dotted base ext)"
    using v valid_character(1,2) by (auto simp: dotted_def split: if_splits)
  show "0 \<notin> ascii_upper ` set (dotted base ext)"
  proof
    assume "0 \<in> ascii_upper ` set (dotted base ext)"
    then obtain c where "c \<in> set (dotted base ext)" "ascii_upper c = 0" by auto
    then show False using v valid_character(10) dot by (auto simp: dotted_def split: if_splits)
  qed
  show "length (dotted base ext) \<le> 12" using assms by (simp add: short_name_parts_def dotted_def)
qed

lemma short_name_codec:
  "case encode_short_name (Some text) of
     None \<Rightarrow> \<not> (\<exists>base ext. text = dotted base ext \<and> short_name_parts base ext)
   | Some raw \<Rightarrow> (\<exists>base ext. text = dotted base ext \<and> short_name_parts base ext) \<and> length raw = 11 \<and>
       raw ! 0 \<notin> {0x00, 0xE5, 0x05, 0x2E} \<and>
       format_short_name (Some raw) = Some (map ascii_upper text) \<and>
       ascii_iequals (Some (map ascii_upper text)) (Some text)"
proof (cases "valid_path_component (Some text)")
  case False
  then show ?thesis using valid_component_iff [of "text"] by (simp add: encode_short_name_def)
next
  case True
  then obtain base ext where p: "text = dotted base ext" "short_name_parts base ext"
    unfolding valid_component_iff by blast
  obtain x xs where x: "base = x # xs" using p(2) by (cases base) (auto simp: short_name_parts_def)
  have vx: "valid_short_name_character x" using p(2) x by (simp add: short_name_parts_def)
  have "ascii_upper x \<noteq> 0x2E"
  proof
    assume "ascii_upper x = 0x2E"
    then have "ascii_upper x = x \<or> unat (x - 32) = 0x2E \<and> 0x61 \<le> unat x" by (auto simp: ascii_upper_def unat_le_iff split: if_splits)
    then show False using valid_character(7) [OF vx] \<open>ascii_upper x = 0x2E\<close>
      by (auto simp: unat_sub unat_le_iff)
  qed
  then have "short_name_bytes base ext ! 0 \<notin> {0x00, 0xE5, 0x05, 0x2E}"
    using valid_character [OF vx] by (simp add: short_name_bytes_def x)
  moreover have "length (short_name_bytes base ext) = 11" using p(2) by (simp add: short_name_bytes_def short_name_parts_def)
  moreover have "ascii_iequals (Some (map ascii_upper text)) (Some text)"
    using iequals_upper dotted_nonzero [OF p(2)] by (simp add: ascii_iequals_def p(1))
  ultimately show ?thesis
    using encode_parts [OF p(2)] format_parts [OF p(2), of "[]"] p by auto
qed

text \<open>
  The 8.3 name codec.  Encoding succeeds exactly on names of the 8.3 grammar; the eleven bytes it
  writes never look like a deleted, free or dot entry, and formatting them again gives the name in
  upper case, which the case-insensitive comparison identifies with the original.
\<close>

theorem short_name_roundtrip:
  "case encode_short_name (Some text) of
     None \<Rightarrow> \<not> (\<exists>base ext. text = dotted base ext \<and> short_name_parts base ext)
   | Some raw \<Rightarrow> (\<exists>base ext. text = dotted base ext \<and> short_name_parts base ext) \<and> length raw = 11 \<and>
       raw ! 0 \<notin> {0x00, 0xE5, 0x05, 0x2E} \<and>
       format_short_name (Some raw) = Some (map ascii_upper text) \<and>
       ascii_iequals (Some (map ascii_upper text)) (Some text)"
  by (rule short_name_codec)

subsection \<open>Paths\<close>

text \<open>The reference: a path is its text up to the terminator, cut at every slash.\<close>

definition cstr :: "u8 list \<Rightarrow> u8 list" where
  "cstr cs = takeWhile (\<lambda>c. c \<noteq> 0) cs"

fun split_slash :: "u8 list \<Rightarrow> u8 list list" where
  "split_slash [] = [[]]"
| "split_slash (c # cs) =
     (if c = 0x2F then [] # split_slash cs
      else (c # hd (split_slash cs)) # tl (split_slash cs))"

lemma split_slash_nonempty [simp]: "split_slash cs \<noteq> []"
  by (cases cs) auto

lemma valid_component_length: "valid_path_component (Some cs) \<Longrightarrow> cs \<noteq> [] \<and> length cs \<le> 12 \<and> 0x2F \<notin> set cs \<and> 0 \<notin> set cs"
proof -
  assume "valid_path_component (Some cs)"
  then obtain base ext where p: "cs = dotted base ext" "short_name_parts base ext"
    unfolding valid_component_iff by blast
  then have "cs \<noteq> []" by (simp add: dotted_def short_name_parts_def)
  then show ?thesis using dotted_nonzero [OF p(2)] p(1) by simp
qed

lemma valid_path_loop_iff:
  "length component \<le> 12 \<Longrightarrow> valid_path_loop component cs \<longleftrightarrow>
     valid_path_component (Some (component @ hd (split_slash (cstr cs)))) \<and>
     (\<forall>c\<in>set (tl (split_slash (cstr cs))). valid_path_component (Some c))"
proof (induction component cs rule: valid_path_loop.induct)
  case (1 component)
  then show ?case using valid_component_length [of component] by (auto simp: cstr_def)
next
  case (2 component c cs)
  show ?case
  proof (cases "c = 0x2F \<or> c = 0")
    case True
    have tl: "(\<forall>c\<in>set (split_slash (cstr cs)). P c) \<longleftrightarrow>
        P (hd (split_slash (cstr cs))) \<and> (\<forall>c\<in>set (tl (split_slash (cstr cs))). P c)" for P
      by (cases "split_slash (cstr cs)") auto
    have split: "split_slash (cstr (c # cs)) = (if c = 0 then [[]] else [] # split_slash (cstr cs))"
      using True by (auto simp: cstr_def)
    have ne: "component \<noteq> []" if "valid_path_component (Some component)" using valid_component_length [OF that] by simp
    show ?thesis using True 2(1) ne by (auto simp: split tl)
  next
    case False
    have split: "split_slash (cstr (c # cs)) = (c # hd (split_slash (cstr cs))) # tl (split_slash (cstr cs))"
      using False by (simp add: cstr_def)
    show ?thesis
    proof (cases "length component + 1 > 12")
      case True
      then have "\<not> valid_path_component (Some (component @ c # hd (split_slash (cstr cs))))"
        using valid_component_length by fastforce
      then show ?thesis using False True by (simp add: split)
    next
      case small: False
      then show ?thesis using False 2(2) by (simp add: split)
    qed
  qed
qed

text \<open>
  The single-pass path validator accepts exactly the non-empty paths whose slash-separated
  components are all valid 8.3 names; its early rejection after twelve characters changes nothing.
\<close>

theorem valid_path_iff:
  "valid_path None = False \<and>
   valid_path (Some path) = list_all (\<lambda>c. valid_path_component (Some c)) (split_slash (cstr path))"
proof -
  have "valid_path (Some path) \<longleftrightarrow> cstr path \<noteq> [] \<and> valid_path_loop [] path"
    by (cases path) (auto simp: valid_path_def cstr_def)
  also have "\<dots> \<longleftrightarrow> (\<forall>c\<in>set (split_slash (cstr path)). valid_path_component (Some c))"
    using valid_path_loop_iff [of "[]" path] valid_component_length [of "[]"]
    by (cases "split_slash (cstr path)") (auto simp: cstr_def [of path])
  finally show ?thesis by (simp add: valid_path_def list_all_iff)
qed

end
