(* ===== verification/Fat32.thy ===== *)
theory Fat32
  imports Fat32_Helpers Storage
begin

text \<open>
  The FAT32 reader (\<^verbatim>\<open>kernel/filesystem/fat32.cpp\<close>): mounting, the FAT chain, directory walks, path
  resolution and file reads, on the disk layer of the storage theory.  The file-scope variables are the
  record \<open>fat32_state\<close>.  The three directory loops of the source have the same text up to what they do
  with an entry and at the end, and share \<open>walk_clusters\<close>, which takes both as arguments.
\<close>

unbundle bit_operations_syntax

datatype status = Ok | NotMounted | IoError | InvalidFilesystem | NotFound | NotDirectory | IsDirectory |
  Corrupt | Unsupported | InvalidDescriptor | InvalidHandle | TooManyOpenFiles | TooManyOpenDirectories |
  AlreadyExists | InvalidName | NoSpace | DirectoryNotEmpty | ReadOnly

record fs_entry =
  e_name :: "u8 list"
  e_is_directory :: bool
  e_size :: u32

record volume_info =
  vi_mounted :: bool
  vi_bytes_per_sector :: u16
  vi_sectors_per_cluster :: u8
  vi_fat_count :: u8
  vi_sectors_per_fat :: u32
  vi_total_sectors :: u32
  vi_root_cluster :: u32

record fat32_state =
  fs_mounted :: bool
  fs_bpb :: bpb_geometry
  fs_fat_begin_lba :: u32
  fs_first_data_lba :: u32
  fs_cluster_count :: u32
  fs_root_cluster :: u32
  fs_sectors_per_cluster :: u8

definition zero_geometry :: bpb_geometry where
  "zero_geometry = \<lparr>bytes_per_sector = 0, sectors_per_cluster = 0, reserved_sectors = 0, fat_count = 0,
     total_sectors = 0, sectors_per_fat = 0, root_cluster = 0, fat_begin_lba = 0, first_data_lba = 0,
     cluster_count = 0, mirroring_enabled = False, active_fat = 0\<rparr>"

definition zero_volume :: volume_info where
  "zero_volume = \<lparr>vi_mounted = False, vi_bytes_per_sector = 0, vi_sectors_per_cluster = 0, vi_fat_count = 0,
     vi_sectors_per_fat = 0, vi_total_sectors = 0, vi_root_cluster = 0\<rparr>"

definition zero_entry :: directory_entry where
  "zero_entry = \<lparr>de_name = [], de_is_directory = False, de_first_cluster = 0, de_size = 0\<rparr>"

definition valid_data_cluster :: "fat32_state \<Rightarrow> u32 \<Rightarrow> bool" where
  "valid_data_cluster fs cluster \<longleftrightarrow> cluster \<ge> 2 \<and> cluster - 2 < fs_cluster_count fs"

subsection \<open>Mounting\<close>

definition mount :: "storage \<Rightarrow> fat32_state \<Rightarrow> bool \<times> volume_info \<times> fat32_state" where
  "mount d fs =
     (let fs = fs\<lparr>fs_mounted := False, fs_bpb := zero_geometry\<rparr>;
          device = disk_info Test d
      in if \<not> present device \<or> \<not> ata_device device then (False, zero_volume, fs)
      else case read_sector d Test 0 of None \<Rightarrow> (False, zero_volume, fs)
      | Some boot_sector \<Rightarrow>
      (case parse_bpb (Some boot_sector) (lba28_sector_count device) of None \<Rightarrow> (False, zero_volume, fs)
      | Some geometry \<Rightarrow>
          (True,
           \<lparr>vi_mounted = True, vi_bytes_per_sector = bytes_per_sector geometry,
            vi_sectors_per_cluster = sectors_per_cluster geometry, vi_fat_count = fat_count geometry,
            vi_sectors_per_fat = sectors_per_fat geometry, vi_total_sectors = total_sectors geometry,
            vi_root_cluster = root_cluster geometry\<rparr>,
           fs\<lparr>fs_fat_begin_lba := fat_begin_lba geometry, fs_first_data_lba := first_data_lba geometry,
              fs_cluster_count := cluster_count geometry, fs_root_cluster := root_cluster geometry,
              fs_sectors_per_cluster := sectors_per_cluster geometry, fs_bpb := geometry,
              fs_mounted := True\<rparr>)))"

definition mounted_geometry :: "fat32_state \<Rightarrow> bpb_geometry option" where
  "mounted_geometry fs = (if \<not> fs_mounted fs then None else Some (fs_bpb fs))"

subsection \<open>The FAT chain\<close>

text \<open>The result is an error status, or the next cluster, \<open>None\<close> at the end of the chain.\<close>

definition next_cluster :: "storage \<Rightarrow> fat32_state \<Rightarrow> u32 \<Rightarrow> status + u32 option" where
  "next_cluster d fs cluster =
     (case fat_entry_location cluster (fs_fat_begin_lba fs) of None \<Rightarrow> Inl Corrupt
      | Some (fat_sector_lba, inside) \<Rightarrow>
      if \<not> valid_data_cluster fs cluster then Inl Corrupt
      else case checked_mul_u32 (ucast (active_fat (fs_bpb fs))) (sectors_per_fat (fs_bpb fs)) of None \<Rightarrow> Inl Corrupt
      | Some fat_offset \<Rightarrow>
      (case checked_add_u32 fat_sector_lba fat_offset of None \<Rightarrow> Inl Corrupt
      | Some fat_sector_lba \<Rightarrow>
      if fat_sector_lba \<ge> fs_first_data_lba fs then Inl Corrupt
      else case read_sector d Test fat_sector_lba of None \<Rightarrow> Inl IoError
      | Some fat_sector \<Rightarrow>
      let value = fat_entry_value (le32 fat_sector (unat inside)); kind = classify_fat_entry value
      in if kind = FatEndOfChain then Inr None
         else if kind \<noteq> FatNext \<or> \<not> valid_data_cluster fs value then Inl Corrupt
         else Inr (Some value)))"

subsection \<open>Directory walks\<close>

datatype ('s, 'r) flow = Continue 's | Stop 'r

fun scan_offsets ::
  "('s \<Rightarrow> directory_entry \<Rightarrow> ('s, status \<times> 's) flow) \<Rightarrow> ('s \<Rightarrow> status \<times> 's) \<Rightarrow>
     u8 list \<Rightarrow> nat list \<Rightarrow> 's \<Rightarrow> ('s, status \<times> 's) flow" where
  "scan_offsets visit at_end sector [] s = Continue s"
| "scan_offsets visit at_end sector (offset # offsets) s =
     (case decode_directory_entry (Some (take 32 (drop offset sector))) of
        (EndMark, _) \<Rightarrow> Stop (at_end s)
      | (Normal, Some decoded) \<Rightarrow>
          (case visit s decoded of
             Stop r \<Rightarrow> Stop r
           | Continue s \<Rightarrow> scan_offsets visit at_end sector offsets s)
      | _ \<Rightarrow> scan_offsets visit at_end sector offsets s)"

definition entry_offsets :: "nat list" where
  "entry_offsets = map (\<lambda>k. 32 * k) [0..<16]"

fun scan_sectors ::
  "storage \<Rightarrow> ('s \<Rightarrow> directory_entry \<Rightarrow> ('s, status \<times> 's) flow) \<Rightarrow> ('s \<Rightarrow> status \<times> 's) \<Rightarrow>
     u32 \<Rightarrow> nat list \<Rightarrow> 's \<Rightarrow> ('s, status \<times> 's) flow" where
  "scan_sectors d visit at_end cluster_lba [] s = Continue s"
| "scan_sectors d visit at_end cluster_lba (sector_index # rest) s =
     (case checked_add_u32 cluster_lba (of_nat sector_index) of None \<Rightarrow> Stop (Corrupt, s)
      | Some lba \<Rightarrow>
      (case read_sector d Test lba of None \<Rightarrow> Stop (IoError, s)
      | Some sector \<Rightarrow>
          (case scan_offsets visit at_end sector entry_offsets s of
             Stop r \<Rightarrow> Stop r
           | Continue s \<Rightarrow> scan_sectors d visit at_end cluster_lba rest s)))"

text \<open>The first number is how many clusters may still be walked.\<close>

fun walk_clusters ::
  "storage \<Rightarrow> fat32_state \<Rightarrow> ('s \<Rightarrow> directory_entry \<Rightarrow> ('s, status \<times> 's) flow) \<Rightarrow> ('s \<Rightarrow> status \<times> 's) \<Rightarrow>
     nat \<Rightarrow> u32 \<Rightarrow> 's \<Rightarrow> status \<times> 's" where
  "walk_clusters d fs visit at_end 0 cluster s = (Corrupt, s)"
| "walk_clusters d fs visit at_end (Suc left) cluster s =
     (if \<not> valid_data_cluster fs cluster then (Corrupt, s)
      else case cluster_to_lba (fs_first_data_lba fs) (ucast (fs_sectors_per_cluster fs)) cluster of
        None \<Rightarrow> (Corrupt, s)
      | Some cluster_lba \<Rightarrow>
      (case scan_sectors d visit at_end cluster_lba [0..<unat (fs_sectors_per_cluster fs)] s of
        Stop r \<Rightarrow> r
      | Continue s \<Rightarrow>
      (case next_cluster d fs cluster of
        Inl error \<Rightarrow> (error, s)
      | Inr None \<Rightarrow> at_end s
      | Inr (Some n) \<Rightarrow> walk_clusters d fs visit at_end left n s)))"

definition to_entry :: "directory_entry \<Rightarrow> fs_entry" where
  "to_entry e = \<lparr>e_name = de_name e, e_is_directory = de_is_directory e, e_size = de_size e\<rparr>"

definition emit_directory ::
  "storage \<Rightarrow> fat32_state \<Rightarrow> u32 \<Rightarrow> (fs_entry \<Rightarrow> 'c \<Rightarrow> bool \<times> 'c) \<Rightarrow> 'c \<Rightarrow> status \<times> 'c" where
  "emit_directory d fs first_cluster visitor context =
     walk_clusters d fs
       (\<lambda>ctx e. case visitor (to_entry e) ctx of
          (False, ctx) \<Rightarrow> Stop (Ok, ctx) | (True, ctx) \<Rightarrow> Continue ctx)
       (\<lambda>ctx. (Ok, ctx)) (unat (fs_cluster_count fs)) first_cluster context"

definition find_entry ::
  "storage \<Rightarrow> fat32_state \<Rightarrow> u32 \<Rightarrow> u8 list \<Rightarrow> directory_entry \<Rightarrow> status \<times> directory_entry" where
  "find_entry d fs first_cluster wanted found =
     walk_clusters d fs
       (\<lambda>found e. if \<not> ascii_iequals (Some (de_name e)) (Some wanted) then Continue found else Stop (Ok, e))
       (\<lambda>found. (NotFound, found)) (unat (fs_cluster_count fs)) first_cluster found"

text \<open>The state of this walk: the running index, the entry and the end flag of the caller.\<close>

definition read_directory_entry_at ::
  "storage \<Rightarrow> fat32_state \<Rightarrow> u32 \<Rightarrow> u32 \<Rightarrow> fs_entry \<Rightarrow> bool \<Rightarrow> status \<times> fs_entry \<times> bool" where
  "read_directory_entry_at d fs first_cluster index entry end_flag =
     (let (result, _, entry, end_flag) =
        walk_clusters d fs
          (\<lambda>(logical_index :: u32, entry, fin) e.
             if logical_index = index then Stop (Ok, logical_index, to_entry e, False)
             else Continue (logical_index + 1, entry, fin))
          (\<lambda>(logical_index, entry, fin). (Ok, logical_index, entry, True))
          (unat (fs_cluster_count fs)) first_cluster (0, entry, end_flag)
      in (result, entry, end_flag))"

subsection \<open>Path resolution\<close>

fun copy_component :: "u8 list \<Rightarrow> u8 list \<Rightarrow> (u8 list \<times> u8 list) option" where
  "copy_component [] component = Some (component, [])"
| "copy_component (c # cs) component =
     (if c = 0 \<or> c = 0x2F then Some (component, c # cs)
      else if length component \<ge> 12 then None
      else copy_component cs (component @ [c]))"

lemma copy_component_length: "copy_component cs acc = Some (word, rest) \<Longrightarrow> length rest \<le> length cs"
  by (induction cs acc rule: copy_component.induct) (auto split: if_splits)

definition at_nul :: "u8 list \<Rightarrow> bool" where
  "at_nul cursor \<longleftrightarrow> cursor = [] \<or> hd cursor = 0"

function resolve_loop ::
  "storage \<Rightarrow> fat32_state \<Rightarrow> u8 list \<Rightarrow> u32 \<Rightarrow> directory_entry \<Rightarrow> status \<times> directory_entry" where
  "resolve_loop d fs cursor directory_cluster entry =
     (if at_nul cursor then (Unsupported, entry)
      else case copy_component cursor [] of None \<Rightarrow> (Unsupported, entry)
      | Some (component, rest) \<Rightarrow>
          let (result, entry) = find_entry d fs directory_cluster component entry
          in if result \<noteq> Ok then (result, entry)
             else if at_nul rest then (Ok, entry)
             else if \<not> de_is_directory entry then (NotDirectory, entry)
             else if \<not> valid_data_cluster fs (de_first_cluster entry) then (Corrupt, entry)
             else resolve_loop d fs (tl rest) (de_first_cluster entry) entry)"
  by pat_completeness auto
termination
proof (relation "measure (\<lambda>(d, fs, cursor, c, e). length cursor)", goal_cases)
  case (2 d fs cursor directory_cluster entry x component rest y result e')
  then have "length rest \<le> length cursor" by (metis copy_component_length)
  moreover have "rest \<noteq> []" using 2 by (auto simp: at_nul_def)
  ultimately show ?case by (cases rest) auto
qed simp

definition resolve_entry ::
  "storage \<Rightarrow> fat32_state \<Rightarrow> u8 list option \<Rightarrow> directory_entry \<Rightarrow> status \<times> directory_entry" where
  "resolve_entry d fs path entry =
     (if \<not> fs_mounted fs then (NotMounted, entry)
      else case path of None \<Rightarrow> (Unsupported, entry)
      | Some p \<Rightarrow>
          let cursor = (if p \<noteq> [] \<and> hd p = 0x2F then tl p else p)
          in if at_nul cursor \<or> \<not> valid_path (Some cursor) then (InvalidName, entry)
             else resolve_loop d fs cursor (fs_root_cluster fs) entry)"

definition is_root_path :: "u8 list \<Rightarrow> bool" where
  "is_root_path p \<longleftrightarrow> p \<noteq> [] \<and> hd p = 0x2F \<and> at_nul (tl p)"

definition resolve_directory_cluster :: "storage \<Rightarrow> fat32_state \<Rightarrow> u8 list option \<Rightarrow> status + u32" where
  "resolve_directory_cluster d fs path =
     (if \<not> fs_mounted fs then Inl NotMounted
      else case path of None \<Rightarrow> Inl Unsupported
      | Some p \<Rightarrow>
          if is_root_path p then Inr (fs_root_cluster fs)
          else let (result, entry) = resolve_entry d fs (Some p) zero_entry
               in if result \<noteq> Ok then Inl result
                  else if \<not> de_is_directory entry then Inl NotDirectory
                  else if \<not> valid_data_cluster fs (de_first_cluster entry) then Inl Corrupt
                  else Inr (de_first_cluster entry))"

subsection \<open>The public operations\<close>

definition list_directory ::
  "storage \<Rightarrow> fat32_state \<Rightarrow> u8 list option \<Rightarrow> (fs_entry \<Rightarrow> 'c \<Rightarrow> bool \<times> 'c) option \<Rightarrow> 'c \<Rightarrow> status \<times> 'c" where
  "list_directory d fs path visitor context =
     (if \<not> fs_mounted fs then (NotMounted, context)
      else case visitor of None \<Rightarrow> (Unsupported, context)
      | Some visit \<Rightarrow>
          (case resolve_directory_cluster d fs path of
             Inl error \<Rightarrow> (error, context)
           | Inr directory_cluster \<Rightarrow> emit_directory d fs directory_cluster visit context))"

definition stat_path :: "storage \<Rightarrow> fat32_state \<Rightarrow> u8 list option \<Rightarrow> status + fs_entry" where
  "stat_path d fs path =
     (if \<not> fs_mounted fs then Inl NotMounted
      else case path of None \<Rightarrow> Inl Unsupported
      | Some p \<Rightarrow>
          if is_root_path p then Inr \<lparr>e_name = [0x2F], e_is_directory = True, e_size = 0\<rparr>
          else let (result, resolved) = resolve_entry d fs (Some p) zero_entry
               in if result \<noteq> Ok then Inl result else Inr (to_entry resolved))"

definition read_directory_entry ::
  "storage \<Rightarrow> fat32_state \<Rightarrow> u8 list option \<Rightarrow> u32 \<Rightarrow> fs_entry \<Rightarrow> status \<times> fs_entry \<times> bool" where
  "read_directory_entry d fs path index entry =
     (case resolve_directory_cluster d fs path of
        Inl error \<Rightarrow> (error, entry, False)
      | Inr directory_cluster \<Rightarrow> read_directory_entry_at d fs directory_cluster index entry False)"

subsection \<open>Reading a file\<close>

text \<open>The loop counters are natural numbers: every subtraction of the loops is guarded, and no sum
  exceeds a 32-bit value.  \<open>out\<close> is the part of the buffer already written.\<close>

fun skip_clusters :: "storage \<Rightarrow> fat32_state \<Rightarrow> nat \<Rightarrow> nat \<Rightarrow> u32 \<Rightarrow> status + u32 \<times> nat" where
  "skip_clusters d fs 0 transitions cluster = Inr (cluster, transitions)"
| "skip_clusters d fs (Suc clusters_to_skip) transitions cluster =
     (if transitions \<ge> unat (fs_cluster_count fs) \<or> \<not> valid_data_cluster fs cluster then Inl Corrupt
      else case next_cluster d fs cluster of
             Inl error \<Rightarrow> Inl error
           | Inr None \<Rightarrow> Inl Corrupt
           | Inr (Some n) \<Rightarrow> skip_clusters d fs clusters_to_skip (transitions + 1) n)"

fun read_sectors ::
  "storage \<Rightarrow> u32 \<Rightarrow> nat list \<Rightarrow> nat \<Rightarrow> nat \<Rightarrow> u8 list \<Rightarrow> (status \<times> u8 list) + (nat \<times> u8 list)" where
  "read_sectors d cluster_lba [] inside_sector remaining out = Inr (remaining, out)"
| "read_sectors d cluster_lba (sector_index # rest) inside_sector remaining out =
     (if remaining = 0 then Inr (remaining, out)
      else case checked_add_u32 cluster_lba (of_nat sector_index) of None \<Rightarrow> Inl (Corrupt, out)
      | Some lba \<Rightarrow>
      (case read_sector d Test lba of None \<Rightarrow> Inl (IoError, out)
      | Some sector \<Rightarrow>
          let amount = min (512 - inside_sector) remaining
          in read_sectors d cluster_lba rest 0 (remaining - amount)
               (out @ map (\<lambda>i. sector ! (inside_sector + i)) [0..<amount])))"

fun read_clusters ::
  "storage \<Rightarrow> fat32_state \<Rightarrow> bool \<Rightarrow> nat \<Rightarrow> u32 \<Rightarrow> nat \<Rightarrow> nat \<Rightarrow> u8 list \<Rightarrow> status \<times> u8 list" where
  "read_clusters d fs reaches_eof 0 cluster cluster_offset remaining out = (Corrupt, out)"
| "read_clusters d fs reaches_eof (Suc left) cluster cluster_offset remaining out =
     (if \<not> valid_data_cluster fs cluster then (Corrupt, out)
      else case cluster_to_lba (fs_first_data_lba fs) (ucast (fs_sectors_per_cluster fs)) cluster of
        None \<Rightarrow> (Corrupt, out)
      | Some cluster_lba \<Rightarrow>
      (case read_sectors d cluster_lba [cluster_offset div 512..<unat (fs_sectors_per_cluster fs)]
              (cluster_offset mod 512) remaining out of
        Inl failed \<Rightarrow> failed
      | Inr (remaining, out) \<Rightarrow>
          if remaining = 0
          then if \<not> reaches_eof then (Ok, out)
               else (case next_cluster d fs cluster of
                       Inl error \<Rightarrow> (error, out)
                     | Inr None \<Rightarrow> (Ok, out)
                     | Inr (Some _) \<Rightarrow> (Corrupt, out))
          else (case next_cluster d fs cluster of
                  Inl error \<Rightarrow> (error, out)
                | Inr None \<Rightarrow> (Corrupt, out)
                | Inr (Some n) \<Rightarrow> read_clusters d fs reaches_eof left n 0 remaining out)))"

text \<open>The result: the status, the bytes stored from the start of the buffer (their number is
  \<^verbatim>\<open>bytes_read\<close>) and \<^verbatim>\<open>file_size\<close>.\<close>

definition read_file ::
  "storage \<Rightarrow> fat32_state \<Rightarrow> u8 list option \<Rightarrow> u32 \<Rightarrow> bool \<Rightarrow> u64 \<Rightarrow> status \<times> u8 list \<times> u32" where
  "read_file d fs path offset has_buffer buffer_size =
     (if \<not> fs_mounted fs then (NotMounted, [], 0)
      else if \<not> has_buffer then (Unsupported, [], 0)
      else let (lookup, entry) = resolve_entry d fs path zero_entry
      in if lookup \<noteq> Ok then (lookup, [], 0)
      else if de_is_directory entry then (IsDirectory, [], 0)
      else let file_size = de_size entry
      in if offset \<ge> file_size \<or> buffer_size = 0 then (Ok, [], file_size)
      else if \<not> valid_data_cluster fs (de_first_cluster entry) then (Corrupt, [], file_size)
      else case checked_mul_u32 (ucast (fs_sectors_per_cluster fs)) 512 of None \<Rightarrow> (Corrupt, [], file_size)
      | Some cluster_bytes \<Rightarrow>
      let bytes_until_eof = file_size - offset;
          remaining = (if unat bytes_until_eof > unat buffer_size then ucast buffer_size else bytes_until_eof) :: u32;
          reaches_eof = (remaining = bytes_until_eof)
      in if remaining = 0 then (Ok, [], file_size)
      else case skip_clusters d fs (unat (offset div cluster_bytes)) 0 (de_first_cluster entry) of
             Inl error \<Rightarrow> (error, [], file_size)
           | Inr (cluster, transitions) \<Rightarrow>
               (let (result, out) = read_clusters d fs reaches_eof (unat (fs_cluster_count fs) - transitions)
                      cluster (unat (offset mod cluster_bytes)) (unat remaining) []
                in (result, out, file_size)))"

subsection \<open>Chains\<close>

text \<open>The clusters of a file or directory, in order: each entry of the FAT names the next, the last one
  carries the end mark.\<close>

fun chain :: "storage \<Rightarrow> fat32_state \<Rightarrow> u32 \<Rightarrow> u32 list \<Rightarrow> bool" where
  "chain d fs c [] = False"
| "chain d fs c [x] \<longleftrightarrow> x = c \<and> valid_data_cluster fs c \<and> next_cluster d fs c = Inr None"
| "chain d fs c (x # y # ys) \<longleftrightarrow> x = c \<and> valid_data_cluster fs c \<and> next_cluster d fs c = Inr (Some y) \<and> chain d fs y (y # ys)"

lemma chain_unique: "chain d fs c xs \<Longrightarrow> chain d fs c ys \<Longrightarrow> xs = ys"
proof (induction xs arbitrary: c ys rule: induct_list012)
  case (2 x)
  then show ?case by (cases ys rule: remdups_adj.cases) auto
next
  case (3 x y zs)
  then show ?case by (cases ys rule: remdups_adj.cases) fastforce+
qed simp

lemma chain_drop: "chain d fs c xs \<Longrightarrow> k < length xs \<Longrightarrow> chain d fs (xs ! k) (drop k xs)"
proof (induction xs arbitrary: c k rule: induct_list012)
  case (3 x y zs)
  then show ?case by (cases k) auto
qed auto

lemma chain_distinct:
  assumes "chain d fs c xs"
  shows "distinct xs"
  unfolding distinct_conv_nth
proof (intro allI impI notI)
  fix i j assume ij: "i < length xs" "j < length xs" "i \<noteq> j" "xs ! i = xs ! j"
  have "drop i xs = drop j xs"
    using chain_unique chain_drop [OF assms ij(1)] chain_drop [OF assms ij(2)] ij(4) by metis
  then have "length (drop i xs) = length (drop j xs)" by simp
  then show False using ij by simp
qed

lemma chain_valid: "chain d fs c xs \<Longrightarrow> x \<in> set xs \<Longrightarrow> valid_data_cluster fs x"
  by (induction d fs c xs rule: chain.induct) auto

text \<open>A chain that ends never repeats a cluster, so the bound of the loops never cuts it short.\<close>

lemma chain_length:
  assumes "chain d fs c xs"
  shows "length xs \<le> unat (fs_cluster_count fs)"
proof -
  let ?f = "\<lambda>x :: u32. unat x - 2"
  have v: "2 \<le> unat x \<and> unat x - 2 < unat (fs_cluster_count fs)" if "x \<in> set xs" for x
  proof -
    have "2 \<le> x" "x - 2 < fs_cluster_count fs" using chain_valid [OF assms that] by (simp_all add: valid_data_cluster_def)
    then show ?thesis using unat_sub [of 2 x] by (simp add: unat_le_iff unat_less_iff)
  qed
  have "inj_on ?f (set xs)"
    by (rule inj_onI) (metis v diff_add_inverse2 le_add_diff_inverse2 unat_eq_iff)
  then have "card (set xs) = card (?f ` set xs)" by (simp add: card_image)
  also have "\<dots> \<le> card {..<unat (fs_cluster_count fs)}" using v by (intro card_mono) auto
  finally show ?thesis using distinct_card [OF chain_distinct [OF assms]] by simp
qed

lemma chain_next:
  assumes "chain d fs c xs"
  shows "\<exists>ys. xs = c # ys \<and> valid_data_cluster fs c \<and>
    (if ys = [] then next_cluster d fs c = Inr None else next_cluster d fs c = Inr (Some (hd ys)) \<and> chain d fs (hd ys) ys)"
  using assms by (cases xs rule: remdups_adj.cases) auto

subsection \<open>What a chain holds\<close>

definition data_sector :: "storage \<Rightarrow> fat32_state \<Rightarrow> u32 \<Rightarrow> nat \<Rightarrow> u8 list" where
  "data_sector d fs c i =
     (case cluster_to_lba (fs_first_data_lba fs) (ucast (fs_sectors_per_cluster fs)) c of None \<Rightarrow> []
      | Some lba \<Rightarrow> (case read_sector d Test (lba + of_nat i) of None \<Rightarrow> [] | Some sector \<Rightarrow> sector))"

definition cluster_sectors :: "storage \<Rightarrow> fat32_state \<Rightarrow> u32 \<Rightarrow> u8 list list" where
  "cluster_sectors d fs c = map (data_sector d fs c) [0..<unat (fs_sectors_per_cluster fs)]"

definition chain_bytes :: "storage \<Rightarrow> fat32_state \<Rightarrow> u32 list \<Rightarrow> u8 list" where
  "chain_bytes d fs cs = concat (concat (map (cluster_sectors d fs) cs))"

text \<open>The sectors of a cluster can be addressed and the disk delivers each of them.\<close>

definition cluster_readable :: "storage \<Rightarrow> fat32_state \<Rightarrow> u32 \<Rightarrow> bool" where
  "cluster_readable d fs c \<longleftrightarrow>
     (case cluster_to_lba (fs_first_data_lba fs) (ucast (fs_sectors_per_cluster fs)) c of None \<Rightarrow> False
      | Some lba \<Rightarrow> unat lba + unat (fs_sectors_per_cluster fs) \<le> 2 ^ 32 \<and>
          (\<forall>i<unat (fs_sectors_per_cluster fs).
             read_sector d Test (lba + of_nat i) \<noteq> None \<and> length (the (read_sector d Test (lba + of_nat i))) = 512))"

lemma cluster_readable_sector:
  assumes "cluster_readable d fs c"
  obtains lba where "cluster_to_lba (fs_first_data_lba fs) (ucast (fs_sectors_per_cluster fs)) c = Some lba"
    and "\<And>i. i < unat (fs_sectors_per_cluster fs) \<Longrightarrow> checked_add_u32 lba (of_nat i) = Some (lba + of_nat i) \<and>
           read_sector d Test (lba + of_nat i) = Some (data_sector d fs c i) \<and> length (data_sector d fs c i) = 512"
proof -
  obtain lba where lba: "cluster_to_lba (fs_first_data_lba fs) (ucast (fs_sectors_per_cluster fs)) c = Some lba"
    "unat lba + unat (fs_sectors_per_cluster fs) \<le> 2 ^ 32"
    "\<And>i. i < unat (fs_sectors_per_cluster fs) \<Longrightarrow>
        read_sector d Test (lba + of_nat i) \<noteq> None \<and> length (the (read_sector d Test (lba + of_nat i))) = 512"
    using assms by (auto simp: cluster_readable_def split: option.splits)
  show thesis
  proof (rule that [OF lba(1)])
    fix i assume i: "i < unat (fs_sectors_per_cluster fs)"
    then have u: "unat (of_nat i :: u32) = i" using lba(2) by (intro unat_of_nat_small) simp
    have "unat lba + i < 2 ^ 32" using i lba(2) by simp
    then have "checked_add_u32 lba (of_nat i) = Some (lba + of_nat i)"
      unfolding checked_add_Some u by (simp add: unat_word_ariths u)
    then show "checked_add_u32 lba (of_nat i) = Some (lba + of_nat i) \<and>
       read_sector d Test (lba + of_nat i) = Some (data_sector d fs c i) \<and> length (data_sector d fs c i) = 512"
      using lba(1) lba(3) [OF i] by (auto simp: data_sector_def)
  qed
qed

subsection \<open>Directories as lists of entries\<close>

definition sector_slots :: "u8 list \<Rightarrow> u8 list list" where
  "sector_slots sector = map (\<lambda>offset. take 32 (drop offset sector)) entry_offsets"

fun entries_of :: "u8 list list \<Rightarrow> directory_entry list" where
  "entries_of [] = []"
| "entries_of (slot # slots) =
     (case decode_directory_entry (Some slot) of
        (EndMark, _) \<Rightarrow> []
      | (Normal, Some e) \<Rightarrow> e # entries_of slots
      | _ \<Rightarrow> entries_of slots)"

definition directory_entries :: "storage \<Rightarrow> fat32_state \<Rightarrow> u32 list \<Rightarrow> directory_entry list" where
  "directory_entries d fs cs = entries_of (concat (map sector_slots (concat (map (cluster_sectors d fs) cs))))"

fun visit_all ::
  "('s \<Rightarrow> directory_entry \<Rightarrow> ('s, status \<times> 's) flow) \<Rightarrow> ('s \<Rightarrow> status \<times> 's) \<Rightarrow> directory_entry list \<Rightarrow> 's \<Rightarrow> status \<times> 's" where
  "visit_all visit at_end [] s = at_end s"
| "visit_all visit at_end (e # es) s =
     (case visit s e of Stop r \<Rightarrow> r | Continue s \<Rightarrow> visit_all visit at_end es s)"

lemma scan_offsets_rest:
  "visit_all visit at_end (entries_of (map (\<lambda>off. take 32 (drop off sector)) offs @ slots)) s =
     (case scan_offsets visit at_end sector offs s of
        Stop r \<Rightarrow> r | Continue s \<Rightarrow> visit_all visit at_end (entries_of slots) s)"
proof (induction offs arbitrary: s)
  case (Cons off offs)
  obtain k e where dec: "decode_directory_entry (Some (take 32 (drop off sector))) = (k, e)" by fastforce
  show ?case
    by (cases k; cases e) (auto simp: dec Cons.IH split: flow.splits)
qed simp

lemma scan_sectors_rest:
  assumes "\<forall>i\<in>set is. checked_add_u32 lba (of_nat i) = Some (lba + of_nat i) \<and>
      read_sector d Test (lba + of_nat i) = Some (data_sector d fs c i)"
  shows "visit_all visit at_end (entries_of (concat (map sector_slots (map (data_sector d fs c) is)) @ slots)) s =
     (case scan_sectors d visit at_end lba is s of
        Stop r \<Rightarrow> r | Continue s \<Rightarrow> visit_all visit at_end (entries_of slots) s)"
  using assms
proof (induction "is" arbitrary: s)
  case (Cons i "is")
  have r: "read_sector d Test (lba + of_nat i) = Some (data_sector d fs c i)"
    "checked_add_u32 lba (of_nat i) = Some (lba + of_nat i)" using Cons.prems by simp_all
  have IH: "visit_all visit at_end (entries_of (concat (map sector_slots (map (data_sector d fs c) is)) @ slots)) s =
     (case scan_sectors d visit at_end lba is s of
        Stop r \<Rightarrow> r | Continue s \<Rightarrow> visit_all visit at_end (entries_of slots) s)" for s
    using Cons.prems by (intro Cons.IH) simp
  show ?case
    using scan_offsets_rest [of visit at_end "data_sector d fs c i" entry_offsets
        "concat (map sector_slots (map (data_sector d fs c) is)) @ slots" s]
    by (simp add: r sector_slots_def [of "data_sector d fs c i"] IH [unfolded map_map] split: flow.splits)
qed simp

lemma walk_clusters_entries:
  "chain d fs c cs \<Longrightarrow> \<forall>x\<in>set cs. cluster_readable d fs x \<Longrightarrow> length cs \<le> n \<Longrightarrow>
     walk_clusters d fs visit at_end n c s = visit_all visit at_end (directory_entries d fs cs) s"
proof (induction n arbitrary: c cs s)
  case 0
  then show ?case by (cases cs) auto
next
  case (Suc n)
  obtain ys where ys: "cs = c # ys" "valid_data_cluster fs c"
    "if ys = [] then next_cluster d fs c = Inr None else next_cluster d fs c = Inr (Some (hd ys)) \<and> chain d fs (hd ys) ys"
    using chain_next [OF Suc.prems(1)] by blast
  have "cluster_readable d fs c" using Suc.prems(2) ys(1) by simp
  then obtain lba where lba: "cluster_to_lba (fs_first_data_lba fs) (ucast (fs_sectors_per_cluster fs)) c = Some lba"
    "\<And>i. i < unat (fs_sectors_per_cluster fs) \<Longrightarrow> checked_add_u32 lba (of_nat i) = Some (lba + of_nat i) \<and>
           read_sector d Test (lba + of_nat i) = Some (data_sector d fs c i) \<and> length (data_sector d fs c i) = 512"
    using cluster_readable_sector by metis
  let ?rest = "concat (map sector_slots (concat (map (cluster_sectors d fs) ys)))"
  have "directory_entries d fs cs = entries_of (concat (map sector_slots (cluster_sectors d fs c)) @ ?rest)"
    by (simp add: directory_entries_def ys(1))
  then have "visit_all visit at_end (directory_entries d fs cs) s =
     (case scan_sectors d visit at_end lba [0..<unat (fs_sectors_per_cluster fs)] s of
        Stop r \<Rightarrow> r | Continue s \<Rightarrow> visit_all visit at_end (entries_of ?rest) s)"
    unfolding cluster_sectors_def using scan_sectors_rest [of "[0..<unat (fs_sectors_per_cluster fs)]" lba d fs c visit at_end]
    lba(2) by simp
  moreover have "walk_clusters d fs visit at_end n (hd ys) s = visit_all visit at_end (entries_of ?rest) s" if "ys \<noteq> []" for s
    using Suc.IH [of "hd ys" ys s] that ys Suc.prems(2,3) by (simp add: directory_entries_def)
  ultimately show ?case using ys(2,3) lba(1) by (cases "ys = []") (auto split: flow.splits)
qed

lemma visit_all_find:
  "visit_all (\<lambda>found e. if \<not> P e then Continue found else Stop (Ok, e)) (\<lambda>found. (NotFound, found)) es s =
     (case find P es of None \<Rightarrow> (NotFound, s) | Some e \<Rightarrow> (Ok, e))"
  by (induction es) auto

lemma visit_all_nth:
  assumes "unat i + length es < 2 ^ 32" "unat i \<le> unat index"
  shows "visit_all (\<lambda>(logical_index :: u32, entry, fin) e.
             if logical_index = index then Stop (Ok, logical_index, to_entry e, False)
             else Continue (logical_index + 1, entry, fin))
           (\<lambda>(logical_index, entry, fin). (Ok, logical_index, entry, True)) es (i, entry, fin) =
     (if unat index - unat i < length es then (Ok, index, to_entry (es ! (unat index - unat i)), False)
      else (Ok, i + of_nat (length es), entry, True))"
  using assms
proof (induction es arbitrary: i)
  case (Cons e es)
  show ?case
  proof (cases "i = index")
    case False
    then have lt: "unat i < unat index" using Cons.prems(2) by (simp add: unat_eq_iff)
    then have u: "unat (i + 1) = Suc (unat i)" using unat_Suc_less [of i index] by (simp add: unat_less_iff)
    have idx: "unat index - unat i = Suc (unat index - Suc (unat i))" using lt by simp
    from Cons.IH [of "i + 1"] Cons.prems lt u idx False show ?thesis by (simp add: add.assoc)
  qed simp
qed simp

text \<open>A visitor applied to a list of entries until it declines one.\<close>

fun run_visitor :: "(fs_entry \<Rightarrow> 'c \<Rightarrow> bool \<times> 'c) \<Rightarrow> fs_entry list \<Rightarrow> 'c \<Rightarrow> 'c" where
  "run_visitor visitor [] context = context"
| "run_visitor visitor (e # es) context =
     (case visitor e context of (False, ctx) \<Rightarrow> ctx | (True, ctx) \<Rightarrow> run_visitor visitor es ctx)"

lemma visit_all_run:
  "visit_all (\<lambda>ctx e. case visitor (to_entry e) ctx of (False, ctx) \<Rightarrow> Stop (Ok, ctx) | (True, ctx) \<Rightarrow> Continue ctx)
     (\<lambda>ctx. (Ok, ctx)) es context = (Ok, run_visitor visitor (map to_entry es) context)"
  by (induction es arbitrary: "context") (auto split: prod.splits bool.splits)

lemma find_entry_entries:
  assumes "chain d fs c cs" "list_all (cluster_readable d fs) cs" "directory_entries d fs cs = es"
  shows "find_entry d fs c wanted old =
      (case find (\<lambda>e. ascii_iequals (Some (de_name e)) (Some wanted)) es of
         None \<Rightarrow> (NotFound, old) | Some e \<Rightarrow> (Ok, e))"
proof -
  have "walk_clusters d fs visit at_end (unat (fs_cluster_count fs)) c s = visit_all visit at_end es s"
    for visit at_end and s :: directory_entry
    using walk_clusters_entries [OF assms(1) _ chain_length [OF assms(1)]] assms(2,3) by (simp add: list_all_iff)
  then show ?thesis unfolding find_entry_def by (simp only: visit_all_find)
qed

text \<open>
  C8: the directory operations refine a list of entries.  On a chain whose clusters the disk delivers,
  with \<open>es\<close> the entries before the end mark in disk order: the lookup answers the first entry whose
  name matches without regard to case and \<open>NotFound\<close> when there is none; reading by index answers the
  entry at that position and signals the end beyond the last; listing feeds the entries to the visitor in
  order until it declines one.  The loop bound on clusters never cuts such a chain short.
\<close>

theorem directory_refines_list:
  assumes "chain d fs c cs" "list_all (cluster_readable d fs) cs" "directory_entries d fs cs = es" "length es < 2 ^ 32"
  shows "find_entry d fs c wanted old =
      (case find (\<lambda>e. ascii_iequals (Some (de_name e)) (Some wanted)) es of
         None \<Rightarrow> (NotFound, old) | Some e \<Rightarrow> (Ok, e)) \<and>
    read_directory_entry_at d fs c index entry False =
      (if unat index < length es then (Ok, to_entry (es ! unat index), False) else (Ok, entry, True)) \<and>
    emit_directory d fs c visitor ctx = (Ok, run_visitor visitor (map to_entry es) ctx)"
proof -
  have walk: "walk_clusters d fs visit at_end (unat (fs_cluster_count fs)) c s = visit_all visit at_end es s" for visit at_end and s :: 's
    using walk_clusters_entries [OF assms(1) _ chain_length [OF assms(1)]] assms(2,3) by (simp add: list_all_iff)
  show ?thesis
    using find_entry_entries [OF assms(1-3)] visit_all_nth [of 0 es index entry False] assms(4)
    by (simp add: read_directory_entry_at_def emit_directory_def walk visit_all_run)
qed

subsection \<open>File contents\<close>

lemma skip_clusters_result:
  "chain d fs c cs \<Longrightarrow> t + length cs \<le> unat (fs_cluster_count fs) \<Longrightarrow>
     skip_clusters d fs k t c = (if k < length cs then Inr (cs ! k, t + k) else Inl Corrupt)"
proof (induction k arbitrary: c cs t)
  case 0
  then show ?case using chain_next [OF 0(1)] by auto
next
  case (Suc k)
  obtain ys where ys: "cs = c # ys" "valid_data_cluster fs c"
    "if ys = [] then next_cluster d fs c = Inr None else next_cluster d fs c = Inr (Some (hd ys)) \<and> chain d fs (hd ys) ys"
    using chain_next [OF Suc.prems(1)] by blast
  show ?case
  proof (cases "ys = []")
    case True
    then show ?thesis using ys by simp
  next
    case False
    have "skip_clusters d fs k (t + 1) (hd ys) = (if k < length ys then Inr (ys ! k, t + 1 + k) else Inl Corrupt)"
      using Suc.IH [of "hd ys" ys "t + 1"] Suc.prems(2) False ys by simp
    then show ?thesis using False ys Suc.prems(2) by simp
  qed
qed

lemma length_concat_512: "\<forall>x\<in>set xs. length x = (512 :: nat) \<Longrightarrow> length (concat xs) = 512 * length xs"
  by (induction xs) auto

lemma map_nth_take: "inside + amount \<le> length xs \<Longrightarrow> map (\<lambda>i. xs ! (inside + i)) [0..<amount] = take amount (drop inside xs)"
  by (intro nth_equalityI) auto

lemma read_sectors_result:
  assumes "\<And>i. i \<in> set is \<Longrightarrow> checked_add_u32 lba (of_nat i) = Some (lba + of_nat i) \<and>
      read_sector d Test (lba + of_nat i) = Some (f i) \<and> length (f i) = 512"
    and "inside < 512"
  shows "read_sectors d lba is inside remaining out =
     Inr (remaining - (512 * length is - inside), out @ take remaining (drop inside (concat (map f is))))"
  using assms
proof (induction "is" arbitrary: inside remaining out)
  case (Cons i "is")
  show ?case
  proof (cases "remaining = 0")
    case False
    define amount where "amount = min (512 - inside) remaining"
    have f: "length (f i) = 512" "checked_add_u32 lba (of_nat i) = Some (lba + of_nat i)"
      "read_sector d Test (lba + of_nat i) = Some (f i)" using Cons.prems(1) [of i] by simp_all
    have m: "map (\<lambda>j. f i ! (inside + j)) [0..<amount] = take amount (drop inside (f i))"
      using f(1) Cons.prems(2) by (intro map_nth_take) (simp add: amount_def)
    have IH: "read_sectors d lba is 0 (remaining - amount) (out @ take amount (drop inside (f i))) =
        Inr (remaining - amount - (512 * length is - 0),
             (out @ take amount (drop inside (f i))) @ take (remaining - amount) (drop 0 (concat (map f is))))"
      using Cons.prems(1) by (intro Cons.IH) auto
    have t: "take amount (drop inside (f i)) = take remaining (drop inside (f i))"
      using f(1) by (simp add: amount_def min_def)
    have a: "take (remaining - amount) xs = take (remaining - (512 - inside)) xs" for xs :: "u8 list"
      by (simp add: amount_def min_def)
    have "remaining - amount - 512 * length is = remaining - (512 * length (i # is) - inside)"
      using Cons.prems(2) by (auto simp: amount_def min_def)
    then show ?thesis
      using False f(2,3) IH f(1) Cons.prems(2) by (simp add: Let_def m t a flip: amount_def)
  qed simp
qed simp

lemma drop_concat_upt:
  assumes "k \<le> n" "\<forall>i<k. length (f i) = (512 :: nat)"
  shows "drop (512 * k + j) (concat (map f [0..<n])) = drop j (concat (map f [k..<n]))"
proof -
  have s: "[0..<n] = [0..<k] @ [k..<n]" using assms(1) by (metis le_add_diff_inverse upt_add_eq_append zero_le)
  have "length (concat (map f [0..<k])) = 512 * k" using assms(2) length_concat_512 [of "map f [0..<k]"] by simp
  then show ?thesis unfolding s map_append concat_append by simp
qed

text \<open>How many clusters hold the bytes up to and including the last one of a read.\<close>

definition clusters_needed :: "nat \<Rightarrow> nat \<Rightarrow> nat \<Rightarrow> nat" where
  "clusters_needed size_of_cluster start count = (start + count - 1) div size_of_cluster + 1"

lemma clusters_needed_step:
  assumes "0 < cb" "off < cb" "cb - off < r"
  shows "clusters_needed cb off r = Suc (clusters_needed cb 0 (r - (cb - off)))"
proof -
  have "off + r - 1 = cb + (r - (cb - off) - 1)" using assms by arith
  then show ?thesis using assms(1) by (simp add: clusters_needed_def div_add_self1)
qed

lemma read_clusters_result:
  assumes "0 < unat (fs_sectors_per_cluster fs)"
  defines "cb \<equiv> 512 * unat (fs_sectors_per_cluster fs)"
  shows "chain d fs c cs \<Longrightarrow> \<forall>x\<in>set cs. cluster_readable d fs x \<Longrightarrow> length cs \<le> n \<Longrightarrow> off < cb \<Longrightarrow> 0 < remaining \<Longrightarrow>
     read_clusters d fs eof n c off remaining out =
       (if length cs < clusters_needed cb off remaining then Corrupt
        else if eof \<and> length cs \<noteq> clusters_needed cb off remaining then Corrupt else Ok,
        out @ take remaining (drop off (chain_bytes d fs cs)))"
proof (induction n arbitrary: c cs off remaining out)
  case 0
  then show ?case by (cases cs) auto
next
  case (Suc n)
  let ?spc = "unat (fs_sectors_per_cluster fs)"
  obtain ys where ys: "cs = c # ys" "valid_data_cluster fs c"
    "if ys = [] then next_cluster d fs c = Inr None else next_cluster d fs c = Inr (Some (hd ys)) \<and> chain d fs (hd ys) ys"
    using chain_next [OF Suc.prems(1)] by blast
  have "cluster_readable d fs c" using Suc.prems(2) ys(1) by simp
  then obtain lba where lba: "cluster_to_lba (fs_first_data_lba fs) (ucast (fs_sectors_per_cluster fs)) c = Some lba"
    "\<And>i. i < ?spc \<Longrightarrow> checked_add_u32 lba (of_nat i) = Some (lba + of_nat i) \<and>
           read_sector d Test (lba + of_nat i) = Some (data_sector d fs c i) \<and> length (data_sector d fs c i) = 512"
    using cluster_readable_sector by metis
  define this_bytes where "this_bytes = concat (cluster_sectors d fs c)"
  have len: "length this_bytes = cb"
    using length_concat_512 [of "cluster_sectors d fs c"] lba(2) by (simp add: this_bytes_def cluster_sectors_def cb_def)
  have bytes: "chain_bytes d fs cs = this_bytes @ chain_bytes d fs ys"
    by (simp add: chain_bytes_def ys(1) this_bytes_def)
  have q: "off div 512 < ?spc" using Suc.prems(4) by (simp add: cb_def div_less_iff_less_mult mult.commute)
  have d: "drop off this_bytes = drop (off mod 512) (concat (map (data_sector d fs c) [off div 512..<?spc]))"
    using drop_concat_upt [of "off div 512" ?spc "data_sector d fs c" "off mod 512"] q lba(2)
    by (simp add: this_bytes_def cluster_sectors_def)
  have "512 * (?spc - off div 512) - off mod 512 = cb - off"
    by (simp add: cb_def diff_mult_distrib2 minus_mod_eq_mult_div [symmetric])
  then have rs: "read_sectors d lba [off div 512..<?spc] (off mod 512) remaining out =
      Inr (remaining - (cb - off), out @ take remaining (drop off this_bytes))"
    using read_sectors_result [of "[off div 512..<?spc]" lba d "data_sector d fs c" "off mod 512" remaining out] lba(2) d by simp
  have run: "read_clusters d fs eof (Suc n) c off remaining out =
     (if remaining \<le> cb - off
      then if \<not> eof \<or> ys = [] then (Ok, out @ take remaining (drop off this_bytes)) else (Corrupt, out @ take remaining (drop off this_bytes))
      else if ys = [] then (Corrupt, out @ take remaining (drop off this_bytes))
      else read_clusters d fs eof n (hd ys) 0 (remaining - (cb - off)) (out @ take remaining (drop off this_bytes)))"
    using ys(2,3) lba(1) rs by (cases "ys = []") auto
  have cb: "0 < cb" using assms(1) by (simp add: cb_def)
  show ?case
  proof (cases "remaining \<le> cb - off")
    case True
    then have "off + remaining - 1 < cb" using Suc.prems(4,5) by arith
    then have "clusters_needed cb off remaining = 1" by (simp add: clusters_needed_def)
    then show ?thesis unfolding run bytes using True len ys(1) by simp
  next
    case False
    note step = clusters_needed_step [OF cb Suc.prems(4), of remaining]
    have tk: "take remaining (drop off this_bytes) = drop off this_bytes" using False len by simp
    show ?thesis
    proof (cases "ys = []")
      case True
      then show ?thesis unfolding run bytes using False tk step ys(1) len
        by (simp add: chain_bytes_def clusters_needed_def)
    next
      case more: False
      have "read_clusters d fs eof n (hd ys) 0 (remaining - (cb - off)) (out @ drop off this_bytes) =
         (if length ys < clusters_needed cb 0 (remaining - (cb - off)) then Corrupt
          else if eof \<and> length ys \<noteq> clusters_needed cb 0 (remaining - (cb - off)) then Corrupt else Ok,
          (out @ drop off this_bytes) @ take (remaining - (cb - off)) (drop 0 (chain_bytes d fs ys)))"
        using more ys Suc.prems False cb by (intro Suc.IH) auto
      then show ?thesis
        unfolding run bytes using False more tk step ys(1) len Suc.prems(4) by simp
    qed
  qed
qed

lemma chain_bytes_length:
  assumes "\<forall>x\<in>set cs. cluster_readable d fs x"
  shows "length (chain_bytes d fs cs) = 512 * unat (fs_sectors_per_cluster fs) * length cs"
proof -
  have "\<forall>y\<in>set (cluster_sectors d fs x). length y = 512" if "x \<in> set cs" for x
  proof -
    have "cluster_readable d fs x" using assms that by blast
    then have "length (data_sector d fs x i) = 512" if "i < unat (fs_sectors_per_cluster fs)" for i
      using cluster_readable_sector that by metis
    then show ?thesis by (simp add: cluster_sectors_def)
  qed
  then have "length (chain_bytes d fs cs) = 512 * length (concat (map (cluster_sectors d fs) cs))"
    unfolding chain_bytes_def by (intro length_concat_512) auto
  moreover have "length (concat (map (cluster_sectors d fs) cs)) = unat (fs_sectors_per_cluster fs) * length cs"
    by (induction cs) (simp_all add: cluster_sectors_def)
  ultimately show ?thesis by simp
qed

lemma chain_bytes_drop:
  assumes "\<forall>x\<in>set cs. cluster_readable d fs x" "k \<le> length cs"
  shows "drop (512 * unat (fs_sectors_per_cluster fs) * k + j) (chain_bytes d fs cs) = drop j (chain_bytes d fs (drop k cs))"
proof -
  have "chain_bytes d fs cs = chain_bytes d fs (take k cs) @ chain_bytes d fs (drop k cs)"
    unfolding chain_bytes_def by (metis append_take_drop_id concat_append map_append)
  moreover have "length (chain_bytes d fs (take k cs)) = 512 * unat (fs_sectors_per_cluster fs) * k"
    using assms chain_bytes_length [of "take k cs" d fs] by (auto dest: in_set_takeD)
  ultimately show ?thesis by simp
qed

lemma read_from_chain:
  assumes "0 < unat (fs_sectors_per_cluster fs)" "cb = 512 * unat (fs_sectors_per_cluster fs)"
    and "chain d fs c cs" "\<forall>x\<in>set cs. cluster_readable d fs x" "0 < n"
  shows "(case skip_clusters d fs (off div cb) 0 c of
            Inl error \<Rightarrow> (error, [])
          | Inr (cluster, transitions) \<Rightarrow>
              read_clusters d fs eof (unat (fs_cluster_count fs) - transitions) cluster (off mod cb) n []) =
     (if length cs < clusters_needed cb off n \<or> eof \<and> length cs \<noteq> clusters_needed cb off n then Corrupt else Ok,
      take n (drop off (chain_bytes d fs cs)))"
proof -
  define k where "k = off div cb"
  have cb: "0 < cb" using assms(1,2) by simp
  have off: "off = cb * k + off mod cb" by (simp add: k_def)
  have "off + n - 1 = cb * k + (off mod cb + n - 1)" using off assms(5) by simp
  then have need: "clusters_needed cb off n = k + clusters_needed cb (off mod cb) n"
    using cb by (simp add: clusters_needed_def)
  have len: "length cs \<le> unat (fs_cluster_count fs)" using chain_length [OF assms(3)] .
  note skip = skip_clusters_result [OF assms(3), of 0 k, simplified, OF len]
  show ?thesis
  proof (cases "k < length cs")
    case False
    have "length (chain_bytes d fs cs) = cb * length cs" using chain_bytes_length [OF assms(4)] assms(2) by simp
    also have "\<dots> \<le> cb * k" using False by (intro mult_left_mono) auto
    finally have "length (chain_bytes d fs cs) \<le> off" using off by linarith
    moreover have "length cs < clusters_needed cb off n" using need False by (simp add: clusters_needed_def)
    ultimately show ?thesis using skip False by (simp flip: k_def)
  next
    case True
    have r: "\<forall>x\<in>set (drop k cs). cluster_readable d fs x" using assms(4) by (auto dest: in_set_dropD)
    have "drop off (chain_bytes d fs cs) = drop (off mod cb) (chain_bytes d fs (drop k cs))"
      using chain_bytes_drop [OF assms(4), of k "off mod cb"] True off assms(2) by simp
    moreover have "read_clusters d fs eof (unat (fs_cluster_count fs) - k) (cs ! k) (off mod cb) n [] =
       (if length (drop k cs) < clusters_needed cb (off mod cb) n then Corrupt
        else if eof \<and> length (drop k cs) \<noteq> clusters_needed cb (off mod cb) n then Corrupt else Ok,
        [] @ take n (drop (off mod cb) (chain_bytes d fs (drop k cs))))"
      unfolding assms(2) using read_clusters_result [OF assms(1) chain_drop [OF assms(3) True] r] len assms(1,5) by simp
    ultimately show ?thesis using skip True need by (auto simp flip: k_def)
  qed
qed

lemma read_file_result:
  assumes "fs_mounted fs" "0 < unat (fs_sectors_per_cluster fs)"
    and "resolve_entry d fs path zero_entry = (Ok, entry)" "\<not> de_is_directory entry"
    and "chain d fs (de_first_cluster entry) cs" "list_all (cluster_readable d fs) cs"
    and "offset < de_size entry" "buffer_size \<noteq> 0"
    and "n = min (unat (de_size entry) - unat offset) (unat buffer_size)"
    and "needed = clusters_needed (512 * unat (fs_sectors_per_cluster fs)) (unat offset) n"
  shows "read_file d fs path offset True buffer_size =
    (if length cs < needed \<or> unat offset + n = unat (de_size entry) \<and> length cs \<noteq> needed then Corrupt else Ok,
     take n (drop (unat offset) (chain_bytes d fs cs)), de_size entry)"
proof -
  let ?spc = "unat (fs_sectors_per_cluster fs)"
  have up: "unat (ucast (fs_sectors_per_cluster fs) :: u32) = ?spc" by (simp add: unat_ucast_up)
  have "?spc < 2 ^ 8" using unsigned_less [of "fs_sectors_per_cluster fs"] by simp
  then obtain cb where cb: "checked_mul_u32 (ucast (fs_sectors_per_cluster fs)) 512 = Some cb"
    using checked_mul_None [of "ucast (fs_sectors_per_cluster fs)" 512] up by fastforce
  then have ucb: "unat cb = 512 * ?spc" unfolding checked_mul_Some up by simp
  have sub: "unat (de_size entry - offset) = unat (de_size entry) - unat offset"
    using assms(7) by (simp add: unat_sub)
  define remaining :: u32 where "remaining =
    (if unat (de_size entry - offset) > unat buffer_size then ucast buffer_size else de_size entry - offset)"
  have rem: "unat remaining = n"
  proof (cases "unat (de_size entry - offset) > unat buffer_size")
    case True
    then have "unat buffer_size < 2 ^ 32" using unat_less_32 [of "de_size entry - offset"] by simp
    then have "unat (ucast buffer_size :: u32) = unat buffer_size" by (simp add: unsigned_ucast_eq take_bit_nat_eq_self)
    then show ?thesis using True assms(9) sub by (simp add: remaining_def)
  qed (use assms(9) sub in \<open>simp add: remaining_def\<close>)
  have pos: "0 < n" using assms(7-9) by (simp add: unat_less_iff unat_gt_0)
  then have nz: "remaining \<noteq> 0" using rem by auto
  have eof: "remaining = de_size entry - offset \<longleftrightarrow> unat offset + n = unat (de_size entry)"
    using assms(7) rem sub by (auto simp: unat_eq_iff unat_less_iff)
  have first: "valid_data_cluster fs (de_first_cluster entry)" using chain_next [OF assms(5)] by blast
  note chain = read_from_chain [OF assms(2) ucb assms(5) _ pos, where off = "unat offset" and eof = "remaining = de_size entry - offset"]
  have "read_file d fs path offset True buffer_size =
     (let (r, out) = (case skip_clusters d fs (unat (offset div cb)) 0 (de_first_cluster entry) of
            Inl error \<Rightarrow> (error, [])
          | Inr (cluster, transitions) \<Rightarrow> read_clusters d fs (remaining = de_size entry - offset)
              (unat (fs_cluster_count fs) - transitions) cluster (unat (offset mod cb)) (unat remaining) [])
      in (r, out, de_size entry))"
    unfolding read_file_def assms(3) Let_def prod.case cb option.case remaining_def [symmetric]
    using assms(1,4,8) first nz assms(7) [folded not_le] by (simp split: sum.splits prod.splits)
  then show ?thesis
    using chain assms(6) unfolding rem unat_div_word unat_mod_word by (simp add: list_all_iff eof ucb assms(10))
qed


subsection \<open>Confinement to the volume\<close>

definition mounted_on :: "u32 \<Rightarrow> fat32_state \<Rightarrow> bool" where
  "mounted_on disk fs \<longleftrightarrow> fs_mounted fs \<and> geometry_ok disk (fs_bpb fs) \<and>
     fs_fat_begin_lba fs = fat_begin_lba (fs_bpb fs) \<and> fs_first_data_lba fs = first_data_lba (fs_bpb fs) \<and>
     fs_cluster_count fs = cluster_count (fs_bpb fs) \<and> fs_root_cluster fs = root_cluster (fs_bpb fs) \<and>
     fs_sectors_per_cluster fs = sectors_per_cluster (fs_bpb fs)"

lemma mount_mounted:
  assumes "mount d fs = (True, volume, fs')"
  shows "mounted_on (lba28_sector_count (disk_info Test d)) fs'"
  using assms parse_bpb_geometry
  by (auto simp: mount_def mounted_on_def Let_def split: if_splits option.splits)

definition same_sectors :: "nat \<Rightarrow> storage \<Rightarrow> storage \<Rightarrow> bool" where
  "same_sectors limit d d' \<longleftrightarrow> (\<forall>lba. unat lba < limit \<longrightarrow> read_sector d' Test lba = read_sector d Test lba)"

lemma first_data_within:
  assumes "mounted_on disk fs"
  shows "unat (fs_first_data_lba fs) \<le> unat (total_sectors (fs_bpb fs))"
  using assms by (auto simp: mounted_on_def geometry_ok_def)

lemma next_cluster_same:
  assumes "mounted_on disk fs" "same_sectors (unat (total_sectors (fs_bpb fs))) d d'"
  shows "next_cluster d' fs c = next_cluster d fs c"
proof -
  have "read_sector d' Test lba = read_sector d Test lba" if "\<not> fs_first_data_lba fs \<le> lba" for lba
    using assms(2) that first_data_within [OF assms(1)] by (simp add: same_sectors_def unat_le_iff)
  then show ?thesis by (auto simp: next_cluster_def Let_def split: option.splits)
qed

lemma cluster_within:
  assumes "mounted_on disk fs" "valid_data_cluster fs c"
    and "cluster_to_lba (fs_first_data_lba fs) (ucast (fs_sectors_per_cluster fs)) c = Some lba"
  shows "unat lba + unat (fs_sectors_per_cluster fs) \<le> unat (total_sectors (fs_bpb fs))"
proof -
  have c: "2 \<le> c" "c - 2 < fs_cluster_count fs" using assms(2) by (simp_all add: valid_data_cluster_def)
  then have "2 \<le> unat c" "unat c \<le> unat (cluster_count (fs_bpb fs)) + 1"
    using unat_sub [OF c(1)] assms(1) by (simp_all add: unat_le_iff unat_less_iff mounted_on_def)
  then show ?thesis using geometry_cluster [of disk "fs_bpb fs" c] assms(1,3) by (auto simp: mounted_on_def)
qed

lemma sector_same:
  assumes "same_sectors limit d d'" "unat lba + i < limit" "checked_add_u32 lba (of_nat i) = Some a" "i < 256"
  shows "read_sector d' Test a = read_sector d Test a"
proof -
  have "unat (of_nat i :: u32) = i" using assms(4) by (intro unat_of_nat_small) simp
  then have "unat a = unat lba + i" using assms(3) unfolding checked_add_Some by simp
  then show ?thesis using assms(1,2) by (simp add: same_sectors_def)
qed

lemma scan_sectors_same:
  assumes "same_sectors limit d d'" "\<forall>i\<in>set is. unat lba + i < limit \<and> i < 256"
  shows "scan_sectors d' visit at_end lba is s = scan_sectors d visit at_end lba is s"
  using assms(2)
proof (induction "is" arbitrary: s)
  case (Cons i "is")
  then show ?case using sector_same [OF assms(1), of lba i] by (auto split: option.splits flow.splits)
qed simp

lemma read_sectors_same:
  assumes "same_sectors limit d d'" "\<forall>i\<in>set is. unat lba + i < limit \<and> i < 256"
  shows "read_sectors d' lba is inside remaining out = read_sectors d lba is inside remaining out"
  using assms(2)
proof (induction "is" arbitrary: inside remaining out)
  case (Cons i "is")
  then show ?case using sector_same [OF assms(1), of lba i] by (auto simp: Let_def split: option.splits)
qed simp

lemma cluster_sectors_within:
  assumes "mounted_on disk fs" "valid_data_cluster fs c"
    and "cluster_to_lba (fs_first_data_lba fs) (ucast (fs_sectors_per_cluster fs)) c = Some lba"
  shows "\<forall>i\<in>set [k..<unat (fs_sectors_per_cluster fs)]. unat lba + i < unat (total_sectors (fs_bpb fs)) \<and> i < 256"
proof -
  have "unat (fs_sectors_per_cluster fs) < 2 ^ 8" using unsigned_less [of "fs_sectors_per_cluster fs"] by simp
  then show ?thesis using cluster_within [OF assms] by simp
qed

lemma walk_clusters_same:
  assumes "mounted_on disk fs" "same_sectors (unat (total_sectors (fs_bpb fs))) d d'"
  shows "walk_clusters d' fs visit at_end n c s = walk_clusters d fs visit at_end n c s"
proof (induction n arbitrary: c s)
  case (Suc n)
  have "scan_sectors d' visit at_end lba [0..<unat (fs_sectors_per_cluster fs)] s =
      scan_sectors d visit at_end lba [0..<unat (fs_sectors_per_cluster fs)] s"
    if "valid_data_cluster fs c" "cluster_to_lba (fs_first_data_lba fs) (ucast (fs_sectors_per_cluster fs)) c = Some lba" for lba
    using scan_sectors_same [OF assms(2) cluster_sectors_within [OF assms(1) that]] .
  then show ?case
    using next_cluster_same [OF assms] Suc.IH by (auto split: option.splits flow.splits sum.splits)
qed simp

lemma skip_clusters_same:
  assumes "mounted_on disk fs" "same_sectors (unat (total_sectors (fs_bpb fs))) d d'"
  shows "skip_clusters d' fs k t c = skip_clusters d fs k t c"
  by (induction k arbitrary: t c) (simp_all add: next_cluster_same [OF assms] split: sum.splits option.splits)

lemma read_clusters_same:
  assumes "mounted_on disk fs" "same_sectors (unat (total_sectors (fs_bpb fs))) d d'"
  shows "read_clusters d' fs eof n c off remaining out = read_clusters d fs eof n c off remaining out"
proof (induction n arbitrary: c off remaining out)
  case (Suc n)
  have "read_sectors d' lba [k..<unat (fs_sectors_per_cluster fs)] inside r out =
      read_sectors d lba [k..<unat (fs_sectors_per_cluster fs)] inside r out"
    if "valid_data_cluster fs c" "cluster_to_lba (fs_first_data_lba fs) (ucast (fs_sectors_per_cluster fs)) c = Some lba"
    for lba k inside r out
    using read_sectors_same [OF assms(2) cluster_sectors_within [OF assms(1) that]] .
  then show ?case
    using next_cluster_same [OF assms] Suc.IH by (auto split: option.splits sum.splits)
qed simp

lemma find_entry_same:
  assumes "mounted_on disk fs" "same_sectors (unat (total_sectors (fs_bpb fs))) d d'"
  shows "find_entry d' fs c wanted found = find_entry d fs c wanted found"
  by (simp add: find_entry_def walk_clusters_same [OF assms])

lemma resolve_loop_same:
  assumes "mounted_on disk fs" "same_sectors (unat (total_sectors (fs_bpb fs))) d d'"
  shows "resolve_loop d' fs cursor c entry = resolve_loop d fs cursor c entry"
proof (induction cursor arbitrary: c entry rule: length_induct)
  case (1 cursor)
  have "resolve_loop d' fs (tl rest) k e = resolve_loop d fs (tl rest) k e"
    if "copy_component cursor [] = Some (component, rest)" "\<not> at_nul rest" for component rest k e
  proof -
    have "rest \<noteq> []" using that(2) by (auto simp: at_nul_def)
    then have "length (tl rest) < length cursor" using copy_component_length [OF that(1)] by (cases rest) auto
    then show ?thesis using 1 by blast
  qed
  then show ?case
    unfolding resolve_loop.simps [of d' fs cursor c entry] resolve_loop.simps [of d fs cursor c entry]
      find_entry_same [OF assms]
    by (auto simp: Let_def split: option.splits prod.splits)
qed

lemma resolve_entry_same:
  assumes "mounted_on disk fs" "same_sectors (unat (total_sectors (fs_bpb fs))) d d'"
  shows "resolve_entry d' fs path entry = resolve_entry d fs path entry"
    "resolve_directory_cluster d' fs path = resolve_directory_cluster d fs path"
proof -
  show *: "resolve_entry d' fs path entry = resolve_entry d fs path entry" for path entry
    unfolding resolve_entry_def resolve_loop_same [OF assms] ..
  show "resolve_directory_cluster d' fs path = resolve_directory_cluster d fs path"
    unfolding resolve_directory_cluster_def * ..
qed

lemmas confined = next_cluster_same walk_clusters_same skip_clusters_same read_clusters_same resolve_entry_same

text \<open>
  C11: the reader stays inside the mounted volume.  After a successful mount the volume ends within the
  disk, and every operation gives the same result on two disks that agree on the sectors of the volume,
  whatever lies beyond it: no operation reads a sector outside.
\<close>

theorem volume_confined:
  assumes "mount d0 fs0 = (True, volume, fs)"
    and "same_sectors (unat (vi_total_sectors volume)) d d'"
  shows "unat (vi_total_sectors volume) \<le> unat (lba28_sector_count (disk_info Test d0)) \<and>
    list_directory d' fs path visitor context = list_directory d fs path visitor context \<and>
    stat_path d' fs path = stat_path d fs path \<and>
    read_directory_entry d' fs path index entry = read_directory_entry d fs path index entry \<and>
    read_file d' fs path offset has_buffer buffer_size = read_file d fs path offset has_buffer buffer_size"
proof -
  have m: "mounted_on (lba28_sector_count (disk_info Test d0)) fs" using assms(1) by (rule mount_mounted)
  have v: "vi_total_sectors volume = total_sectors (fs_bpb fs)"
    using assms(1) by (auto simp: mount_def Let_def split: if_splits option.splits)
  note same = confined [OF m assms(2) [unfolded v]]
  have "unat (vi_total_sectors volume) \<le> unat (lba28_sector_count (disk_info Test d0))"
    using m by (simp add: v mounted_on_def geometry_ok_def)
  moreover have "list_directory d' fs path visitor context = list_directory d fs path visitor context"
    unfolding list_directory_def emit_directory_def same ..
  moreover have "stat_path d' fs path = stat_path d fs path" unfolding stat_path_def same ..
  moreover have "read_directory_entry d' fs path index entry = read_directory_entry d fs path index entry"
    unfolding read_directory_entry_def read_directory_entry_at_def same ..
  moreover have "read_file d' fs path offset has_buffer buffer_size = read_file d fs path offset has_buffer buffer_size"
    unfolding read_file_def same ..
  ultimately show ?thesis by blast
qed

subsection \<open>A sample volume\<close>

text \<open>One file, \<^verbatim>\<open>A.TXT\<close> of five bytes in cluster 3, in a root directory of one cluster.\<close>

definition demo_slot :: "u8 list" where
  "demo_slot = [0x41, 0x20, 0x20, 0x20, 0x20, 0x20, 0x20, 0x20, 0x54, 0x58, 0x54, 0x20,
     0, 0, 0, 0, 0, 0, 0, 0, 0, 0, 0, 0, 0, 0, 3, 0, 5, 0, 0, 0]"

definition demo_fat_sector :: "u8 list" where
  "demo_fat_sector = (replicate 512 0)[8 := 0xFF, 9 := 0xFF, 10 := 0xFF, 11 := 0x0F,
     12 := 0xFF, 13 := 0xFF, 14 := 0xFF, 15 := 0x0F]"

definition demo_text :: "u8 list" where
  "demo_text = [0x68, 0x65, 0x6C, 0x6C, 0x6F]"

definition demo_ata :: "u8 list \<Rightarrow> ata_drive \<Rightarrow> u32 \<Rightarrow> u8 list option" where
  "demo_ata beyond drive lba =
     (if drive = Master then None
      else Some (if lba = 0 then demo_boot_sector
                 else if lba = 32 then demo_fat_sector
                 else if lba = 1132 then demo_slot @ replicate 480 0
                 else if lba = 1133 then demo_text @ replicate 507 0
                 else if lba \<ge> 70000 then beyond
                 else replicate 512 0))"

definition demo_disk :: "u8 list \<Rightarrow> storage" where
  "demo_disk beyond = \<lparr>g_boot_info = no_device,
     g_test_info = \<lparr>present = True, ata_device = True, lba28_sector_count = 80000, model = []\<rparr>,
     g_initialized = True, g_ata_read = demo_ata beyond\<rparr>"

definition demo_fs :: fat32_state where
  "demo_fs = \<lparr>fs_mounted = True, fs_bpb = demo_geometry, fs_fat_begin_lba = 32, fs_first_data_lba = 1132,
     fs_cluster_count = 68868, fs_root_cluster = 2, fs_sectors_per_cluster = 1\<rparr>"

lemma demo_read:
  "lba < 80000 \<Longrightarrow> read_sector (demo_disk b) Test lba = demo_ata b Slave lba"
  by (auto simp: read_sector_def demo_disk_def sector_accessible_def disk_info_def drive_for_def Let_def)

lemma demo_mounts: "mount (demo_disk b) fs =
   (True, \<lparr>vi_mounted = True, vi_bytes_per_sector = 512, vi_sectors_per_cluster = 1, vi_fat_count = 2,
      vi_sectors_per_fat = 550, vi_total_sectors = 70000, vi_root_cluster = 2\<rparr>, demo_fs)"
proof -
  have "parse_bpb (Some demo_boot_sector) 80000 = Some demo_geometry"
    by (simp add: parse_bpb_def demo_boot_sector_def le16_def le32_def nth_list_update is_power_of_two_def
      checked_mul_u32_def checked_add_u32_def demo_geometry_def)
  moreover have "read_sector (demo_disk b) Test 0 = Some demo_boot_sector" by (simp add: demo_read demo_ata_def)
  moreover have "disk_info Test (demo_disk b) = \<lparr>present = True, ata_device = True, lba28_sector_count = 80000, model = []\<rparr>"
    by (simp add: disk_info_def demo_disk_def)
  ultimately show ?thesis by (simp add: mount_def demo_fs_def demo_geometry_def)
qed

lemma demo_next: "c = 2 \<or> c = 3 \<Longrightarrow> next_cluster (demo_disk b) demo_fs c = Inr None"
  by (auto simp: next_cluster_def fat_entry_location_def checked_mul_u32_def checked_add_u32_def demo_fs_def
      valid_data_cluster_def demo_geometry_def demo_read demo_ata_def le32_def demo_fat_sector_def
      nth_list_update classify_fat_entry_def fat_entry_value_def fat28_def Let_def)

lemma demo_chain: "c = 2 \<or> c = 3 \<Longrightarrow> chain (demo_disk b) demo_fs c [c]"
  using demo_next [of c b] by (auto simp: valid_data_cluster_def demo_fs_def)

lemma demo_readable: "c = 2 \<or> c = 3 \<Longrightarrow> list_all (cluster_readable (demo_disk b) demo_fs) [c]"
  by (auto simp: cluster_readable_def demo_fs_def cluster_to_lba_def checked_mul_u32_def checked_add_u32_def
      demo_read demo_ata_def demo_slot_def demo_text_def)

lemma demo_sectors:
  "concat (map (cluster_sectors (demo_disk b) demo_fs) [2]) = [demo_slot @ replicate 480 0]"
  "concat (map (cluster_sectors (demo_disk b) demo_fs) [3]) = [demo_text @ replicate 507 0]"
  by (simp_all add: cluster_sectors_def data_sector_def demo_fs_def cluster_to_lba_def checked_mul_u32_def
      checked_add_u32_def demo_read demo_ata_def)

definition demo_file :: directory_entry where
  "demo_file = \<lparr>de_name = [0x41, 0x2E, 0x54, 0x58, 0x54], de_is_directory = False, de_first_cluster = 3, de_size = 5\<rparr>"

lemma demo_entries: "directory_entries (demo_disk b) demo_fs [2] = [demo_file]"
proof -
  have "entries_of (sector_slots (demo_slot @ replicate 480 0)) = [demo_file]" by code_simp
  then show ?thesis by (simp add: directory_entries_def demo_sectors [simplified])
qed

theorem directory_refines_list_witness:
  "find_entry (demo_disk []) demo_fs 2 [0x61, 0x2E, 0x74, 0x78, 0x74] zero_entry = (Ok, demo_file) \<and>
   read_directory_entry_at (demo_disk []) demo_fs 2 1 (to_entry zero_entry) False = (Ok, to_entry zero_entry, True) \<and>
   emit_directory (demo_disk []) demo_fs 2 (\<lambda>e seen. (True, seen @ [e])) [] = (Ok, [to_entry demo_file])"
  using directory_refines_list [OF demo_chain [where b = "[]"] demo_readable demo_entries,
      where wanted = "[0x61, 0x2E, 0x74, 0x78, 0x74]" and old = zero_entry and index = 1 and entry = "to_entry zero_entry" and
      visitor = "\<lambda>e seen. (True, seen @ [e])" and ctx = "[]"]
  by (simp add: demo_file_def ascii_iequals_def ascii_upper_def)

lemma demo_resolves:
  "resolve_entry (demo_disk b) demo_fs (Some [0x2F, 0x61, 0x2E, 0x74, 0x78, 0x74]) zero_entry = (Ok, demo_file)"
proof -
  have "find_entry (demo_disk b) demo_fs 2 [0x61, 0x2E, 0x74, 0x78, 0x74] zero_entry = (Ok, demo_file)"
    using find_entry_entries [OF demo_chain demo_readable demo_entries]
    by (simp add: demo_file_def ascii_iequals_def ascii_upper_def)
  moreover have "valid_path (Some [0x61, 0x2E, 0x74, 0x78, 0x74])" by code_simp
  moreover have "fs_root_cluster demo_fs = 2" "fs_mounted demo_fs" by (simp_all add: demo_fs_def)
  ultimately show ?thesis
    by (simp add: resolve_entry_def at_nul_def resolve_loop.simps [of _ _ "[0x61, 0x2E, 0x74, 0x78, 0x74]"])
qed


theorem volume_confined_witness:
  "read_file (demo_disk [1]) demo_fs (Some [0x2F, 0x61, 0x2E, 0x74, 0x78, 0x74]) 0 True 8 =
   read_file (demo_disk [2]) demo_fs (Some [0x2F, 0x61, 0x2E, 0x74, 0x78, 0x74]) 0 True 8"
proof -
  have "read_sector (demo_disk [1]) Test lba = read_sector (demo_disk [2]) Test lba" if "unat lba < 70000" for lba
  proof -
    have "lba < 70000" using that by (simp add: unat_less_iff)
    then have "\<not> 70000 \<le> lba" "lba < 80000" by (simp_all add: unat_less_iff unat_le_iff)
    then have "demo_ata [1] Slave lba = demo_ata [2] Slave lba" "lba < 80000" by (simp_all add: demo_ata_def)
    then show ?thesis by (simp add: demo_read)
  qed
  then have "same_sectors 70000 (demo_disk [2]) (demo_disk [1])" by (simp add: same_sectors_def)
  then show ?thesis 
    using volume_confined [OF demo_mounts, where d = "demo_disk [2]" and d' = "demo_disk [1]" and
        path = "Some [0x2F, 0x61, 0x2E, 0x74, 0x78, 0x74]" and offset = 0 and has_buffer = True and buffer_size = 8 and
        visitor = "None :: (fs_entry \<Rightarrow> unit \<Rightarrow> bool \<times> unit) option"]
    by simp
qed

end
