(* ===== verification/Fat_Table.thy ===== *)
theory Fat_Table
  imports Fat32
begin

text \<open>
  The file allocation table as the writer sees it (\<^verbatim>\<open>kernel/filesystem/fat32_write.cpp\<close>): reading and writing one
  entry in every copy of the table, following a chain, allocating and freeing chains.  The disk changes, so
  these functions pass the storage state along; a small error monad carries the early returns of the source
  (\<open>Inl\<close> the status returned).  The sector write of the ATA driver is the parameter \<open>w\<close>.
\<close>

unbundle bit_operations_syntax

subsection \<open>Operations that may fail and change the disk\<close>

type_synonym ata_write = "ata_drive \<Rightarrow> u32 \<Rightarrow> u8 list \<Rightarrow> ata_read \<Rightarrow> bool \<times> ata_read"

type_synonym 'a io = "storage \<Rightarrow> (status + 'a) \<times> storage"

definition io_ret :: "'a \<Rightarrow> 'a io" where
  "io_ret x d = (Inr x, d)"

definition io_fail :: "status \<Rightarrow> 'a io" where
  "io_fail e d = (Inl e, d)"

text \<open>\<open>io_try m h f\<close>: run \<open>m\<close>, continue with \<open>h\<close> on an error and with \<open>f\<close> on a result.\<close>

definition io_try :: "'a io \<Rightarrow> (status \<Rightarrow> 'b io) \<Rightarrow> ('a \<Rightarrow> 'b io) \<Rightarrow> 'b io" where
  "io_try m h f d = (case m d of (Inl e, d) \<Rightarrow> h e d | (Inr x, d) \<Rightarrow> f x d)"

definition io_bind :: "'a io \<Rightarrow> ('a \<Rightarrow> 'b io) \<Rightarrow> 'b io" where
  "io_bind m f = io_try m io_fail f"

definition io_ask :: "(storage \<Rightarrow> status + 'a) \<Rightarrow> 'a io" where
  "io_ask f d = (f d, d)"

definition io_ignore :: "'a io \<Rightarrow> unit io" where
  "io_ignore m = io_try m (\<lambda>_. io_ret ()) (\<lambda>_. io_ret ())"

definition store_sector :: "ata_write \<Rightarrow> u32 \<Rightarrow> u8 list \<Rightarrow> unit io" where
  "store_sector w lba sector d =
     (let (ok, d) = write_sector w d Test lba sector in (if ok then Inr () else Inl IoError, d))"

definition load_sector :: "storage \<Rightarrow> u32 \<Rightarrow> status + u8 list" where
  "load_sector d lba = (case read_sector d Test lba of None \<Rightarrow> Inl IoError | Some sector \<Rightarrow> Inr sector)"

subsection \<open>One entry of the table\<close>

definition valid_cluster :: "bpb_geometry \<Rightarrow> u32 \<Rightarrow> bool" where
  "valid_cluster g cluster \<longleftrightarrow> cluster \<ge> 2 \<and> cluster - 2 < cluster_count g"

definition geometry_for_write :: "fat32_state \<Rightarrow> status + bpb_geometry" where
  "geometry_for_write fs =
     (case mounted_geometry fs of None \<Rightarrow> Inl NotMounted
      | Some g \<Rightarrow> if \<not> mirroring_enabled g then Inl Unsupported else Inr g)"

definition entry_location :: "bpb_geometry \<Rightarrow> u32 \<Rightarrow> u32 \<Rightarrow> (u32 \<times> u16) option" where
  "entry_location g cluster copy =
     (if \<not> valid_cluster g cluster \<or> copy \<ge> ucast (fat_count g) then None
      else let sector_offset = cluster div 128
      in if sector_offset \<ge> sectors_per_fat g then None
      else let inside = ucast ((cluster mod 128) * 4) :: u16
      in case checked_mul_u32 copy (sectors_per_fat g) of None \<Rightarrow> None
      | Some copy_offset \<Rightarrow>
      (case checked_add_u32 (fat_begin_lba g) copy_offset of None \<Rightarrow> None
      | Some fat_start \<Rightarrow>
      (case checked_add_u32 fat_start sector_offset of None \<Rightarrow> None
      | Some lba \<Rightarrow> if lba < first_data_lba g \<and> lba < total_sectors g then Some (lba, inside) else None)))"

definition put32 :: "u8 list \<Rightarrow> nat \<Rightarrow> u32 \<Rightarrow> u8 list" where
  "put32 p offset value = fold (\<lambda>i p. p[offset + i := ucast (drop_bit (8 * i) value)]) [0..<4] p"

definition read_entry :: "storage \<Rightarrow> bpb_geometry \<Rightarrow> u32 \<Rightarrow> u32 \<Rightarrow> status + u32" where
  "read_entry d g cluster copy =
     (case entry_location g cluster copy of None \<Rightarrow> Inl Corrupt
      | Some (lba, inside) \<Rightarrow>
      (case read_sector d Test lba of None \<Rightarrow> Inl IoError
      | Some sector \<Rightarrow> Inr (le32 sector (unat inside))))"

definition write_raw :: "ata_write \<Rightarrow> bpb_geometry \<Rightarrow> u32 \<Rightarrow> u32 \<Rightarrow> u32 \<Rightarrow> unit io" where
  "write_raw w g cluster copy raw =
     (case entry_location g cluster copy of None \<Rightarrow> io_fail Corrupt
      | Some (lba, inside) \<Rightarrow>
          io_bind (io_ask (\<lambda>d. load_sector d lba)) (\<lambda>sector.
          store_sector w lba (put32 sector (unat inside) raw)))"

text \<open>The numbers of the copies of the table.\<close>

definition fat_copies :: "bpb_geometry \<Rightarrow> u32 list" where
  "fat_copies g = map of_nat [0..<unat (fat_count g)]"

fun check_mirrors :: "storage \<Rightarrow> bpb_geometry \<Rightarrow> u32 \<Rightarrow> u32 \<Rightarrow> u32 list \<Rightarrow> status" where
  "check_mirrors d g cluster value [] = Ok"
| "check_mirrors d g cluster value (copy # copies) =
     (case read_entry d g cluster copy of Inl read \<Rightarrow> read
      | Inr mirrored \<Rightarrow> if fat28 mirrored \<noteq> value then Corrupt else check_mirrors d g cluster value copies)"

text \<open>The next cluster of a chain, \<open>None\<close> at its end.\<close>

definition chain_next :: "storage \<Rightarrow> bpb_geometry \<Rightarrow> u32 \<Rightarrow> bool \<Rightarrow> status + u32 option" where
  "chain_next d g cluster check_copies =
     (case read_entry d g cluster 0 of Inl status \<Rightarrow> Inl status
      | Inr raw \<Rightarrow>
      let value = fat28 raw;
          mirrors = (if check_copies then check_mirrors d g cluster value (tl (fat_copies g)) else Ok)
      in if mirrors \<noteq> Ok then Inl mirrors
      else let kind = classify_fat_entry value
      in if kind = FatEndOfChain then Inr None
      else if kind \<noteq> FatNext \<or> \<not> valid_cluster g value then Inl Corrupt
      else Inr (Some value))"

definition read_fat_entry :: "storage \<Rightarrow> fat32_state \<Rightarrow> u32 \<Rightarrow> status + u32" where
  "read_fat_entry d fs cluster =
     (case mounted_geometry fs of None \<Rightarrow> Inl NotMounted
      | Some g \<Rightarrow> (case read_entry d g cluster (ucast (active_fat g)) of Inl status \<Rightarrow> Inl status
                  | Inr raw \<Rightarrow> Inr (fat28 raw)))"

text \<open>The old values of all copies, which must agree with the first.\<close>

fun read_copies :: "storage \<Rightarrow> bpb_geometry \<Rightarrow> u32 \<Rightarrow> u32 option \<Rightarrow> u32 list \<Rightarrow> status + (u32 \<times> u32) list" where
  "read_copies d g cluster first [] = Inr []"
| "read_copies d g cluster first (copy # copies) =
     (case read_entry d g cluster copy of Inl status \<Rightarrow> Inl status
      | Inr raw \<Rightarrow>
          if (case first of None \<Rightarrow> False | Some raw0 \<Rightarrow> fat28 raw \<noteq> fat28 raw0) then Inl Corrupt
          else (case read_copies d g cluster (Some (case first of None \<Rightarrow> raw | Some raw0 \<Rightarrow> raw0)) copies of
                  Inl status \<Rightarrow> Inl status
                | Inr old \<Rightarrow> Inr ((copy, raw) # old)))"

fun restore_copies :: "ata_write \<Rightarrow> bpb_geometry \<Rightarrow> u32 \<Rightarrow> (u32 \<times> u32) list \<Rightarrow> unit io" where
  "restore_copies w g cluster [] = io_ret ()"
| "restore_copies w g cluster ((copy, old) # written) =
     io_bind (io_ignore (write_raw w g cluster copy old)) (\<lambda>_. restore_copies w g cluster written)"

fun write_copies ::
  "ata_write \<Rightarrow> bpb_geometry \<Rightarrow> u32 \<Rightarrow> u32 \<Rightarrow> (u32 \<times> u32) list \<Rightarrow> (u32 \<times> u32) list \<Rightarrow> unit io" where
  "write_copies w g cluster value written [] = io_ret ()"
| "write_copies w g cluster value written ((copy, old) # rest) =
     io_try (write_raw w g cluster copy ((old AND 0xF0000000) OR value))
       (\<lambda>_. io_bind (restore_copies w g cluster written) (\<lambda>_. io_fail IoError))
       (\<lambda>_. write_copies w g cluster value (written @ [(copy, old)]) rest)"

definition write_fat_entry :: "ata_write \<Rightarrow> fat32_state \<Rightarrow> u32 \<Rightarrow> u32 \<Rightarrow> unit io" where
  "write_fat_entry w fs cluster value =
     (case geometry_for_write fs of Inl ready \<Rightarrow> io_fail ready
      | Inr g \<Rightarrow>
          if \<not> valid_cluster g cluster \<or> \<not> (value = 0 \<or> valid_cluster g value \<or> is_eoc value) \<or> value > 0x0FFFFFFF
          then io_fail Corrupt
          else io_bind (io_ask (\<lambda>d. read_copies d g cluster None (fat_copies g))) (\<lambda>old.
               write_copies w g cluster value [] old))"

subsection \<open>Chains\<close>

text \<open>Follow a chain to its end, comparing all copies; the result is whether the end was reached.\<close>

fun check_chain :: "storage \<Rightarrow> bpb_geometry \<Rightarrow> nat \<Rightarrow> u32 \<Rightarrow> status + bool" where
  "check_chain d g 0 cluster = Inr False"
| "check_chain d g (Suc left) cluster =
     (case chain_next d g cluster True of Inl status \<Rightarrow> Inl status
      | Inr None \<Rightarrow> Inr True
      | Inr (Some n) \<Rightarrow> check_chain d g left n)"

fun clear_chain :: "ata_write \<Rightarrow> fat32_state \<Rightarrow> bpb_geometry \<Rightarrow> nat \<Rightarrow> u32 \<Rightarrow> unit io" where
  "clear_chain w fs g 0 cluster = io_fail Corrupt"
| "clear_chain w fs g (Suc left) cluster =
     io_bind (io_ask (\<lambda>d. chain_next d g cluster False)) (\<lambda>next.
     io_bind (write_fat_entry w fs cluster 0) (\<lambda>_.
     case next of None \<Rightarrow> io_ret () | Some n \<Rightarrow> clear_chain w fs g left n))"

definition free_chain :: "ata_write \<Rightarrow> fat32_state \<Rightarrow> u32 \<Rightarrow> unit io" where
  "free_chain w fs first_cluster =
     (case geometry_for_write fs of Inl ready \<Rightarrow> io_fail ready
      | Inr g \<Rightarrow>
          if first_cluster = 0 then io_ret ()
          else if \<not> valid_cluster g first_cluster then io_fail Corrupt
          else io_bind (io_ask (\<lambda>d. check_chain d g (unat (cluster_count g)) first_cluster)) (\<lambda>terminated.
               if \<not> terminated then io_fail Corrupt
               else clear_chain w fs g (unat (cluster_count g)) first_cluster))"

text \<open>Give up an allocation: free what was taken and report \<open>status\<close>, or an I/O error if that fails too.\<close>

definition release_chain :: "ata_write \<Rightarrow> fat32_state \<Rightarrow> u32 \<Rightarrow> status \<Rightarrow> 'a io" where
  "release_chain w fs first_cluster status =
     io_try (if first_cluster \<noteq> 0 then free_chain w fs first_cluster else io_ret ())
       (\<lambda>_. io_fail IoError) (\<lambda>_. io_fail status)"

definition allocate_end :: "ata_write \<Rightarrow> fat32_state \<Rightarrow> nat \<Rightarrow> nat \<Rightarrow> u32 \<Rightarrow> u32 io" where
  "allocate_end w fs clusters found first_cluster =
     (if found = clusters then io_ret first_cluster else release_chain w fs first_cluster NoSpace)"

fun allocate_loop :: "ata_write \<Rightarrow> fat32_state \<Rightarrow> nat \<Rightarrow> nat \<Rightarrow> nat \<Rightarrow> u32 \<Rightarrow> nat \<Rightarrow> u32 \<Rightarrow> u32 io" where
  "allocate_loop w fs clusters 0 index previous found first_cluster = allocate_end w fs clusters found first_cluster"
| "allocate_loop w fs clusters (Suc left) index previous found first_cluster =
     (if \<not> found < clusters then allocate_end w fs clusters found first_cluster
      else let candidate = of_nat (index + 2)
      in io_try (io_ask (\<lambda>d. read_fat_entry d fs candidate)) (release_chain w fs first_cluster) (\<lambda>value.
         if value \<noteq> 0 then allocate_loop w fs clusters left (index + 1) previous found first_cluster
         else io_try (write_fat_entry w fs candidate 0x0FFFFFFF) (release_chain w fs first_cluster) (\<lambda>_.
         if previous \<noteq> 0
         then io_try (write_fat_entry w fs previous candidate)
                (\<lambda>status. io_try (write_fat_entry w fs candidate 0)
                   (\<lambda>_. io_bind (io_ignore (free_chain w fs first_cluster)) (\<lambda>_. io_fail IoError))
                   (\<lambda>_. io_try (free_chain w fs first_cluster) (\<lambda>_. io_fail IoError) (\<lambda>_. io_fail status)))
                (\<lambda>_. allocate_loop w fs clusters left (index + 1) candidate (found + 1) first_cluster)
         else allocate_loop w fs clusters left (index + 1) candidate (found + 1) candidate)))"

definition allocate_chain :: "ata_write \<Rightarrow> fat32_state \<Rightarrow> u32 \<Rightarrow> u32 io" where
  "allocate_chain w fs clusters =
     (case geometry_for_write fs of Inl ready \<Rightarrow> io_fail ready
      | Inr g \<Rightarrow>
          if clusters = 0 then io_ret 0
          else if clusters > cluster_count g then io_fail NoSpace
          else allocate_loop w fs (unat clusters) (unat (cluster_count g)) 0 0 0 0)"

definition file_cluster_count :: "u64 \<Rightarrow> u32 \<Rightarrow> status + u32" where
  "file_cluster_count bytes cluster_bytes =
     (if bytes > 0xFFFFFFFF then Inl Unsupported
      else if cluster_bytes = 0 then Inl Corrupt
      else Inr (ucast (bytes div ucast cluster_bytes + (if bytes mod ucast cluster_bytes \<noteq> 0 then 1 else 0))))"

subsection \<open>What an operation may change\<close>

text \<open>\<open>changed_only S d d'\<close>: nothing but sectors in \<open>S\<close> of the data disk differs.\<close>

definition changed_only :: "u32 set \<Rightarrow> storage \<Rightarrow> storage \<Rightarrow> bool" where
  "changed_only S d d' \<longleftrightarrow> g_boot_info d' = g_boot_info d \<and> g_test_info d' = g_test_info d \<and>
     g_initialized d' = g_initialized d \<and>
     (\<forall>drive lba. drive = Master \<or> lba \<notin> S \<longrightarrow> g_ata_read d' drive lba = g_ata_read d drive lba)"

definition touches :: "u32 set \<Rightarrow> (storage \<Rightarrow> 'r \<times> storage) \<Rightarrow> bool" where
  "touches S m \<longleftrightarrow> (\<forall>d. changed_only S d (snd (m d)))"

text \<open>What the driver documents of a write: it addresses one sector, and success means that sector reads back.\<close>

definition honest_drive :: "ata_write \<Rightarrow> bool" where
  "honest_drive w \<longleftrightarrow> (\<forall>drive lba buffer r.
     (\<forall>drive' lba'. (drive', lba') \<noteq> (drive, lba) \<longrightarrow> snd (w drive lba buffer r) drive' lba' = r drive' lba') \<and>
     (fst (w drive lba buffer r) \<longrightarrow> snd (w drive lba buffer r) drive lba = Some buffer))"

definition reliable_drive :: "ata_write \<Rightarrow> bool" where
  "reliable_drive w \<longleftrightarrow> honest_drive w \<and> (\<forall>drive lba buffer r. fst (w drive lba buffer r))"

named_theorems touch_rules \<open>rules that split the claim that an operation changes only certain sectors\<close>

lemma changed_only_refl [simp]: "changed_only S d d"
  by (simp add: changed_only_def)

lemma changed_only_trans: "changed_only S d d' \<Longrightarrow> changed_only S d' d'' \<Longrightarrow> changed_only S d d''"
  by (auto simp: changed_only_def)

lemma changed_only_mono: "changed_only S d d' \<Longrightarrow> S \<subseteq> S' \<Longrightarrow> changed_only S' d d'"
  by (auto simp: changed_only_def)

lemma touches_mono: "touches S m \<Longrightarrow> S \<subseteq> S' \<Longrightarrow> touches S' m"
  by (auto simp: touches_def intro: changed_only_mono)

lemma touches_pure [touch_rules]: "touches S (io_ret x)" "touches S (io_fail e)" "touches S (io_ask f)"
  by (simp_all add: touches_def io_ret_def io_fail_def io_ask_def)

lemma touches_try [touch_rules]:
  assumes "touches S m" "\<And>e. touches S (h e)" "\<And>x. touches S (f x)"
  shows "touches S (io_try m h f)"
  unfolding touches_def
proof
  fix d
  obtain r d1 where m: "m d = (r, d1)" by fastforce
  have "changed_only S d d1" using assms(1) m by (auto simp: touches_def dest: spec [of _ d])
  moreover have "changed_only S d1 (snd (io_try m h f d))"
    using assms(2,3) by (cases r) (auto simp: io_try_def m touches_def)
  ultimately show "changed_only S d (snd (io_try m h f d))" by (rule changed_only_trans)
qed

lemma touches_bind [touch_rules]: "touches S m \<Longrightarrow> (\<And>x. touches S (f x)) \<Longrightarrow> touches S (io_bind m f)"
  by (simp add: io_bind_def touch_rules)

lemma touches_ignore [touch_rules]: "touches S m \<Longrightarrow> touches S (io_ignore m)"
  by (simp add: io_ignore_def touch_rules)

lemma touches_if [touch_rules]: "(b \<Longrightarrow> touches S m) \<Longrightarrow> (\<not> b \<Longrightarrow> touches S n) \<Longrightarrow> touches S (if b then m else n)"
  by simp

lemma honest_other: "honest_drive w \<Longrightarrow> (drive', lba') \<noteq> (drive, lba) \<Longrightarrow> snd (w drive lba buffer r) drive' lba' = r drive' lba'"
  unfolding honest_drive_def by metis

lemma honest_self: "honest_drive w \<Longrightarrow> fst (w drive lba buffer r) \<Longrightarrow> snd (w drive lba buffer r) drive lba = Some buffer"
  unfolding honest_drive_def by metis

lemma touches_store:
  assumes "honest_drive w" "lba \<in> S"
  shows "touches S (store_sector w lba sector)"
proof -
  have "snd (w Slave lba sector r) drive lba' = r drive lba'" if "drive = Master \<or> lba' \<notin> S" for drive lba' r
    using assms that by (intro honest_other) auto
  then show ?thesis
    by (auto simp: touches_def store_sector_def write_sector_def changed_only_def drive_for_def Let_def case_prod_beta)
qed

lemma changed_only_read: "changed_only S d d' \<Longrightarrow> lba \<notin> S \<Longrightarrow> read_sector d' Test lba = read_sector d Test lba"
  by (auto simp: changed_only_def read_sector_def sector_accessible_def disk_info_def Let_def)

lemma store_sector_result:
  assumes "honest_drive w" "store_sector w lba sector d = (r, d')"
  shows "r = Inr () \<Longrightarrow> read_sector d' Test lba = Some sector"
    and "lba' \<noteq> lba \<Longrightarrow> read_sector d' Test lba' = read_sector d Test lba'"
    and "reliable_drive w \<Longrightarrow> read_sector d Test lba = Some old \<Longrightarrow> r = Inr ()"
proof -
  show "lba' \<noteq> lba \<Longrightarrow> read_sector d' Test lba' = read_sector d Test lba'"
    using touches_store [OF assms(1), of lba "{lba}" sector] assms(2)
    by (auto simp: touches_def intro!: changed_only_read dest: spec [of _ d])
  obtain ok ata where w: "w Slave lba sector (g_ata_read d) = (ok, ata)" by fastforce
  have self: "ok \<Longrightarrow> ata Slave lba = Some sector" using honest_self [OF assms(1), of Slave lba sector "g_ata_read d"] w by simp
  have acc: "sector_accessible Test lba (d\<lparr>g_ata_read := ata\<rparr>) = sector_accessible Test lba d"
    by (simp add: sector_accessible_def disk_info_def)
  have run: "store_sector w lba sector d =
      (if g_initialized d \<and> sector_accessible Test lba d
       then (if ok then Inr () else Inl IoError, d\<lparr>g_ata_read := ata\<rparr>) else (Inl IoError, d))"
    by (simp add: store_sector_def write_sector_def disk_write_allowed_def drive_for_def w)
  show "r = Inr () \<Longrightarrow> read_sector d' Test lba = Some sector"
    using assms(2) self unfolding run by (auto simp: read_sector_def acc drive_for_def split: if_splits)
  assume "reliable_drive w" "read_sector d Test lba = Some old"
  moreover from this have ok using w unfolding reliable_drive_def by (metis fst_conv)
  ultimately show "r = Inr ()"
    using assms(2) unfolding run by (auto simp: read_sector_def split: if_splits)
qed

subsection \<open>The table as a function\<close>

lemma valid_cluster_unat:
  "valid_cluster g c \<longleftrightarrow> 2 \<le> unat c \<and> unat c < unat (cluster_count g) + 2"
  by (auto simp: valid_cluster_def unat_le_iff unat_less_iff unat_sub)

lemma entry_location_place:
  assumes "geometry_ok disk g" "valid_cluster g c" "copy < ucast (fat_count g)"
  obtains lba inside where "entry_location g c copy = Some (lba, inside)"
    and "unat lba = unat (fat_begin_lba g) + unat copy * unat (sectors_per_fat g) + unat c div 128"
    and "unat inside = 4 * (unat c mod 128)" "lba < first_data_lba g"
proof -
  let ?spf = "unat (sectors_per_fat g)"
  have copy: "unat copy < unat (fat_count g)" using assms(3) by (simp add: unat_less_iff unat_ucast_up)
  have q: "unat c div 128 < ?spf"
    using assms(1,2) by (simp add: geometry_ok_def valid_cluster_unat div_less_iff_less_mult mult.commute)
  have "(unat copy + 1) * ?spf \<le> unat (fat_count g) * ?spf" using copy by (intro mult_right_mono) auto
  then have fit: "unat (fat_begin_lba g) + unat copy * ?spf + unat c div 128 < unat (first_data_lba g)"
    using q assms(1) by (simp add: geometry_ok_def)
  have small: "unat (first_data_lba g) < 2 ^ 32" "unat (first_data_lba g) \<le> unat (total_sectors g)"
    using unat_less_32 [of "first_data_lba g"] assms(1) unfolding geometry_ok_def by linarith+
  obtain a where a: "checked_mul_u32 copy (sectors_per_fat g) = Some a" "unat a = unat copy * ?spf"
    using checked_mul_None [of copy "sectors_per_fat g"] checked_mul_Some fit small by (cases "checked_mul_u32 copy (sectors_per_fat g)") auto
  obtain b where b: "checked_add_u32 (fat_begin_lba g) a = Some b" "unat b = unat (fat_begin_lba g) + unat a"
    using checked_add_None [of "fat_begin_lba g" a] checked_add_Some fit small a(2) by (cases "checked_add_u32 (fat_begin_lba g) a") auto
  have cd: "unat (c div 128) = unat c div 128" by (simp add: unat_div_word)
  obtain lba where lba: "checked_add_u32 b (c div 128) = Some lba" "unat lba = unat b + unat c div 128"
    using checked_add_None [of b "c div 128"] checked_add_Some [of b "c div 128"] fit small a(2) b(2) cd
    by (cases "checked_add_u32 b (c div 128)") auto
  have "unat (c mod 128) * 4 < 512" by (simp add: unat_mod_word)
  then have "unat ((c mod 128) * 4) = 4 * (unat c mod 128)" by (simp add: unat_word_ariths unat_mod_word)
  moreover have "4 * (unat c mod 128) < 512" by simp
  ultimately have inside: "unat (ucast ((c mod 128) * 4) :: u16) = 4 * (unat c mod 128)"
    by (simp add: unsigned_ucast_eq take_bit_nat_eq_self)
  show thesis
  proof (rule that [of lba "ucast ((c mod 128) * 4)"])
    show "entry_location g c copy = Some (lba, ucast ((c mod 128) * 4))"
      using assms(2,3) q a b lba fit small
      by (simp add: entry_location_def Let_def unat_le_iff unat_less_iff cd not_le)
  qed (use lba b a inside fit in \<open>simp_all add: unat_less_iff\<close>)
qed

lemma entry_location_inj:
  assumes "geometry_ok disk g" "valid_cluster g c" "copy < ucast (fat_count g)"
    and "valid_cluster g c'" "copy' < ucast (fat_count g)" "(c', copy') \<noteq> (c, copy)"
    and "entry_location g c copy = Some (lba, inside)" "entry_location g c' copy' = Some (lba, inside')"
  shows "unat inside + 4 \<le> unat inside' \<or> unat inside' + 4 \<le> unat inside"
proof -
  let ?spf = "unat (sectors_per_fat g)"
  have q: "unat x div 128 < ?spf" if "valid_cluster g x" for x
    using assms(1) that by (simp add: geometry_ok_def valid_cluster_unat div_less_iff_less_mult mult.commute)
  have l: "unat lba = unat (fat_begin_lba g) + unat copy * ?spf + unat c div 128" "unat inside = 4 * (unat c mod 128)"
    using entry_location_place [OF assms(1-3)] assms(7) by auto
  have l': "unat lba = unat (fat_begin_lba g) + unat copy' * ?spf + unat c' div 128" "unat inside' = 4 * (unat c' mod 128)"
    using entry_location_place [OF assms(1,4,5)] assms(8) by auto
  have eq: "unat copy * ?spf + unat c div 128 = unat copy' * ?spf + unat c' div 128" using l(1) l'(1) by simp
  have "(unat copy * ?spf + unat c div 128) div ?spf = unat copy" "(unat copy' * ?spf + unat c' div 128) div ?spf = unat copy'"
    using q [OF assms(2)] q [OF assms(4)] by auto
  then have same: "unat copy = unat copy'" using eq by simp
  then have "unat c div 128 = unat c' div 128" using eq by simp
  moreover have "unat c \<noteq> unat c'" using same assms(6) by (auto simp flip: unat_eq_iff)
  ultimately have "unat c mod 128 \<noteq> unat c' mod 128" by (metis div_mult_mod_eq)
  then show ?thesis using l(2) l'(2) by linarith
qed

lemma put32_eq: "put32 p k v = p[k := ucast v, k + 1 := ucast (drop_bit 8 v), k + 2 := ucast (drop_bit 16 v), k + 3 := ucast (drop_bit 24 v)]"
  by (simp add: put32_def eval_nat_numeral)

lemma length_put32 [simp]: "length (put32 p k v) = length p"
  by (simp add: put32_eq)

lemma le32_bytes: "(ucast (ucast v :: u8) :: u32) OR push_bit 8 (ucast (ucast (drop_bit 8 v) :: u8)) OR
    push_bit 16 (ucast (ucast (drop_bit 16 v) :: u8)) OR push_bit 24 (ucast (ucast (drop_bit 24 v) :: u8)) = v"
proof (rule bit_word_eqI)
  fix n assume "n < LENGTH(32)"
  then consider "n < 8" | "8 \<le> n" "n < 16" | "16 \<le> n" "n < 24" | "24 \<le> n" "n < 32" by force
  then show "bit ((ucast (ucast v :: u8) :: u32) OR push_bit 8 (ucast (ucast (drop_bit 8 v) :: u8)) OR
    push_bit 16 (ucast (ucast (drop_bit 16 v) :: u8)) OR push_bit 24 (ucast (ucast (drop_bit 24 v) :: u8))) n = bit v n"
    by cases (auto simp: bit_simps)
qed

lemma le32_put32: "k + 4 \<le> length p \<Longrightarrow> le32 (put32 p k v) k = v"
  by (simp add: le32_def put32_eq le32_bytes)

lemma le32_put32_other: "k + 4 \<le> k' \<or> k' + 4 \<le> k \<Longrightarrow> le32 (put32 p k v) k' = le32 p k'"
  by (auto simp: le32_def put32_eq)

text \<open>The value of an entry, read from the first copy, and the state in which all copies agree.\<close>

definition fat_at :: "storage \<Rightarrow> bpb_geometry \<Rightarrow> u32 \<Rightarrow> u32" where
  "fat_at d g c = (case read_entry d g c 0 of Inl _ \<Rightarrow> 0 | Inr raw \<Rightarrow> fat28 raw)"

definition fat_sectors_whole :: "storage \<Rightarrow> bpb_geometry \<Rightarrow> bool" where
  "fat_sectors_whole d g \<longleftrightarrow> (\<forall>lba sector. lba < first_data_lba g \<longrightarrow> read_sector d Test lba = Some sector \<longrightarrow> length sector = 512)"

definition fat_ok :: "storage \<Rightarrow> bpb_geometry \<Rightarrow> bool" where
  "fat_ok d g \<longleftrightarrow>
     (\<forall>c copy. valid_cluster g c \<and> copy < ucast (fat_count g) \<longrightarrow>
        (\<exists>raw. read_entry d g c copy = Inr raw \<and> fat28 raw = fat_at d g c)) \<and>
     fat_sectors_whole d g"

lemma write_raw_result:
  assumes "geometry_ok disk g" "honest_drive w" "valid_cluster g c" "copy < ucast (fat_count g)"
    and "fat_sectors_whole d g"
    and "write_raw w g c copy raw d = (r, d')"
  shows "r = Inr () \<Longrightarrow> read_entry d' g c copy = Inr raw"
    and "r = Inr () \<Longrightarrow> valid_cluster g c' \<Longrightarrow> copy' < ucast (fat_count g) \<Longrightarrow> (c', copy') \<noteq> (c, copy) \<Longrightarrow>
      read_entry d' g c' copy' = read_entry d g c' copy'"
    and "r = Inr () \<Longrightarrow> fat_sectors_whole d' g"
    and "reliable_drive w \<Longrightarrow> read_entry d g c copy = Inr old \<Longrightarrow> r = Inr ()"
proof -
  obtain a k where loc: "entry_location g c copy = Some (a, k)" "unat k = 4 * (unat c mod 128)" "a < first_data_lba g"
    using entry_location_place [OF assms(1,3,4)] by metis
  have k: "unat k + 4 \<le> 512" using loc(2) mod_less_divisor [of 128 "unat c"] by linarith
  have run: "write_raw w g c copy raw d =
      (case read_sector d Test a of None \<Rightarrow> (Inl IoError, d) | Some s \<Rightarrow> store_sector w a (put32 s (unat k) raw) d)"
    by (simp add: write_raw_def loc io_bind_def io_try_def io_ask_def load_sector_def io_fail_def split: option.split)
  have ok: "\<exists>s. read_sector d Test a = Some s \<and> length s = 512 \<and> read_sector d' Test a = Some (put32 s (unat k) raw)" if "r = Inr ()"
    using assms(6) that store_sector_result(1) [OF assms(2)] assms(5) loc(3) unfolding run fat_sectors_whole_def by (auto split: option.splits)
  have other: "lba' \<noteq> a \<Longrightarrow> read_sector d' Test lba' = read_sector d Test lba'" for lba'
    using assms(6) store_sector_result(2) [OF assms(2)] unfolding run by (auto split: option.splits)
  show "r = Inr () \<Longrightarrow> read_entry d' g c copy = Inr raw"
    using ok k by (auto simp: read_entry_def loc le32_put32)
  show "r = Inr () \<Longrightarrow> fat_sectors_whole d' g"
    using ok other assms(5) unfolding fat_sectors_whole_def by (metis length_put32 option.inject)
  show "reliable_drive w \<Longrightarrow> read_entry d g c copy = Inr old \<Longrightarrow> r = Inr ()"
    using assms(6) store_sector_result(3) [OF assms(2)] unfolding run by (auto simp: read_entry_def loc split: option.splits)
  assume r: "r = Inr ()" and c': "valid_cluster g c'" "copy' < ucast (fat_count g)" "(c', copy') \<noteq> (c, copy)"
  obtain a' k' where loc': "entry_location g c' copy' = Some (a', k')" using entry_location_place [OF assms(1) c'(1,2)] by metis
  show "read_entry d' g c' copy' = read_entry d g c' copy'"
  proof (cases "a' = a")
    case True
    then show ?thesis
      using ok [OF r] entry_location_inj [OF assms(1,3,4) c' loc(1)] loc' by (auto simp: read_entry_def le32_put32_other)
  qed (simp add: read_entry_def loc' other)
qed

definition raw_at :: "storage \<Rightarrow> bpb_geometry \<Rightarrow> u32 \<Rightarrow> u32 \<Rightarrow> u32" where
  "raw_at d g c copy = (case read_entry d g c copy of Inl _ \<Rightarrow> 0 | Inr raw \<Rightarrow> raw)"

lemma set_fat_copies: "set (fat_copies g) = {k. k < ucast (fat_count g)}"
proof -
  have f: "unat (fat_count g) < 2 ^ 32" by (rule less_trans [OF unsigned_less]) simp
  then have "unat (of_nat i :: u32) = i" if "i < unat (fat_count g)" for i
    using that by (intro unat_of_nat_small) simp
  then show ?thesis
    by (auto simp: fat_copies_def unat_less_iff unat_ucast_up image_iff) (metis atLeast0LessThan lessThan_iff of_nat_unat_id)
qed

lemma distinct_fat_copies: "distinct (fat_copies g)"
proof -
  have f: "unat (fat_count g) < 2 ^ 32" by (rule less_trans [OF unsigned_less]) simp
  have "unat (of_nat i :: u32) = i" if "i < unat (fat_count g)" for i
    using that f by (intro unat_of_nat_small) simp
  then have "inj_on (of_nat :: nat \<Rightarrow> u32) {0..<unat (fat_count g)}"
    by (intro inj_onI) (metis atLeastLessThan_iff)
  then show ?thesis by (simp add: fat_copies_def distinct_map)
qed

lemma read_copies_ok:
  assumes "fat_ok d g" "valid_cluster g c" "\<And>raw. first = Some raw \<Longrightarrow> fat28 raw = fat_at d g c"
    and "set copies \<subseteq> set (fat_copies g)"
  shows "read_copies d g c first copies = Inr (map (\<lambda>k. (k, raw_at d g c k)) copies)"
  using assms(3,4)
proof (induction copies arbitrary: first)
  case (Cons k copies)
  then have "k < ucast (fat_count g)" by (simp add: set_fat_copies)
  then obtain raw where raw: "read_entry d g c k = Inr raw" "fat28 raw = fat_at d g c"
    using assms(1,2) unfolding fat_ok_def by blast
  define f where "f = Some (case first of None \<Rightarrow> raw | Some raw0 \<Rightarrow> raw0)"
  have "read_copies d g c f copies = Inr (map (\<lambda>k. (k, raw_at d g c k)) copies)"
    using Cons raw by (intro Cons.IH) (auto simp: f_def split: option.splits)
  then show ?case using Cons.prems raw by (auto simp: raw_at_def f_def split: option.splits)
qed simp

lemma write_copies_result:
  assumes "geometry_ok disk g" "honest_drive w" "valid_cluster g c"
    and "fat_sectors_whole d g" "fst ` set rest \<subseteq> {k. k < ucast (fat_count g)}" "distinct (map fst rest)"
    and "write_copies w g c value written rest d = (r, d')"
  shows "r = Inr () \<longrightarrow> fat_sectors_whole d' g \<and>
      (\<forall>(k, old)\<in>set rest. read_entry d' g c k = Inr ((old AND 0xF0000000) OR value)) \<and>
      (\<forall>c' k. valid_cluster g c' \<and> k < ucast (fat_count g) \<and> (c' \<noteq> c \<or> k \<notin> fst ` set rest) \<longrightarrow> read_entry d' g c' k = read_entry d g c' k)"
    and "reliable_drive w \<and> (\<forall>k\<in>fst ` set rest. \<exists>raw. read_entry d g c k = Inr raw) \<longrightarrow> r = Inr ()"
proof -
  have "(r = Inr () \<longrightarrow> fat_sectors_whole d' g \<and>
      (\<forall>(k, old)\<in>set rest. read_entry d' g c k = Inr ((old AND 0xF0000000) OR value)) \<and>
      (\<forall>c' k. valid_cluster g c' \<and> k < ucast (fat_count g) \<and> (c' \<noteq> c \<or> k \<notin> fst ` set rest) \<longrightarrow> read_entry d' g c' k = read_entry d g c' k)) \<and>
     (reliable_drive w \<and> (\<forall>k\<in>fst ` set rest. \<exists>raw. read_entry d g c k = Inr raw) \<longrightarrow> r = Inr ())"
    using assms(4-7)
  proof (induction rest arbitrary: d written)
    case Nil
    then show ?case by (simp add: io_ret_def)
  next
    case (Cons x rest)
    obtain k old where x: "x = (k, old)" by fastforce
    have k: "k < ucast (fat_count g)" "k \<notin> fst ` set rest" using Cons.prems(2,3) by (auto simp: x)
    obtain r1 d1 where one: "write_raw w g c k ((old AND 0xF0000000) OR value) d = (r1, d1)" by fastforce
    note raw = write_raw_result [OF assms(1-3) k(1) Cons.prems(1) one]
    show ?case
    proof (cases r1)
      case (Inl e)
      have "r \<noteq> Inr ()"
        using Cons.prems(4) one Inl by (auto simp: x io_try_def io_bind_def io_fail_def split: prod.splits sum.splits)
      moreover have "\<not> (reliable_drive w \<and> (\<exists>raw. read_entry d g c k = Inr raw))" using raw(4)  Inl by auto
      ultimately show ?thesis by (auto simp: x)
    next
      case (Inr u)
      then have r1: "r1 = Inr ()" by simp
      have w: "fat_sectors_whole d1 g" using raw(3) [OF r1] .
      have "write_copies w g c value (written @ [(k, old)]) rest d1 = (r, d')"
        using Cons.prems(4) one r1 by (simp add: x io_try_def)
      note IH = Cons.IH [OF w _ _ this]
      have keep: "read_entry d1 g c' k' = read_entry d g c' k'"
        if "valid_cluster g c'" "k' < ucast (fat_count g)" "(c', k') \<noteq> (c, k)" for c' k'
        using raw(2) [OF r1 that] .
      have rel: "\<exists>raw. read_entry d1 g c j = Inr raw" if "j \<in> fst ` set rest" "\<exists>raw. read_entry d g c j = Inr raw" for j
      proof -
        have "j < ucast (fat_count g)" "(c, j) \<noteq> (c, k)" using that(1) k(2) Cons.prems(2) by auto
        then show ?thesis using keep [OF assms(3)] that(2) by metis
      qed
      have rest: "fst ` set rest \<subseteq> {k. k < ucast (fat_count g)}" "distinct (map fst rest)" using Cons.prems(2,3) by auto
      have self: "r = Inr () \<Longrightarrow> read_entry d' g c k = Inr ((old AND 0xF0000000) OR value)"
        using IH [OF rest] raw(1) [OF r1] k assms(3) by auto
      have other: "r = Inr () \<Longrightarrow> read_entry d' g c' k' = read_entry d g c' k'"
        if "valid_cluster g c'" "k' < ucast (fat_count g)" "c' \<noteq> c \<or> k' \<notin> fst ` set (x # rest)" for c' k'
      proof -
        assume "r = Inr ()"
        moreover have "(c', k') \<noteq> (c, k)" "c' \<noteq> c \<or> k' \<notin> fst ` set rest" using that(3) by (auto simp: x)
        ultimately show ?thesis using IH [OF rest] keep [OF that(1,2)] that(1,2) by metis
      qed
      have "reliable_drive w \<and> (\<forall>k\<in>fst ` set (x # rest). \<exists>raw. read_entry d g c k = Inr raw) \<longrightarrow> r = Inr ()"
        using IH [OF rest] rel by simp
      then show ?thesis using IH [OF rest] self other by (simp add: x)
    qed
  qed
  then show "r = Inr () \<longrightarrow> fat_sectors_whole d' g \<and>
      (\<forall>(k, old)\<in>set rest. read_entry d' g c k = Inr ((old AND 0xF0000000) OR value)) \<and>
      (\<forall>c' k. valid_cluster g c' \<and> k < ucast (fat_count g) \<and> (c' \<noteq> c \<or> k \<notin> fst ` set rest) \<longrightarrow> read_entry d' g c' k = read_entry d g c' k)"
    and "reliable_drive w \<and> (\<forall>k\<in>fst ` set rest. \<exists>raw. read_entry d g c k = Inr raw) \<longrightarrow> r = Inr ()" by auto
qed

lemma fat28_replace:
  assumes "value \<le> 0x0FFFFFFF"
  shows "fat28 ((old AND 0xF0000000) OR value) = value"
proof -
  have "unat value < 2 ^ 28" using assms by (simp add: unat_le_iff)
  then have small: "value = take_bit 28 value" by (simp add: unat_eq_iff unat_take_bit)
  have m: "(0x0FFFFFFF :: u32) = mask 28" "(0xF0000000 :: u32) = push_bit 28 (mask 4)" by (simp_all add: mask_eq_exp_minus_1)
  have "bit value n \<Longrightarrow> n < 28" for n using small by (metis bit_take_bit_iff)
  then show ?thesis unfolding fat28_def m by (intro bit_word_eqI) (auto simp: bit_simps)
qed

lemma fat28_small: "fat28 raw \<le> 0x0FFFFFFF"
proof -
  have m: "(0x0FFFFFFF :: u32) = mask 28" by (simp add: mask_eq_exp_minus_1)
  have "unat (fat28 raw) = unat raw mod 2 ^ 28" unfolding fat28_def m by (rule unat_and_mask)
  then show ?thesis by (simp add: unat_le_iff less_Suc_eq_le [symmetric])
qed

lemma geometry_for_write_Inr: "geometry_for_write fs = Inr g \<longleftrightarrow> fs_mounted fs \<and> g = fs_bpb fs \<and> mirroring_enabled g"
  by (auto simp: geometry_for_write_def mounted_geometry_def split: if_splits)

definition entry_value_ok :: "bpb_geometry \<Rightarrow> u32 \<Rightarrow> bool" where
  "entry_value_ok g value \<longleftrightarrow> (value = 0 \<or> valid_cluster g value \<or> is_eoc value) \<and> value \<le> 0x0FFFFFFF"

lemma write_fat_entry_result:
  assumes "geometry_ok disk g" "honest_drive w" "geometry_for_write fs = Inr g" "fat_ok d g"
    and "valid_cluster g c" "entry_value_ok g value"
    and "write_fat_entry w fs c value d = (r, d')"
  shows "r = Inr () \<Longrightarrow> fat_ok d' g" "r = Inr () \<Longrightarrow> fat_at d' g = (fat_at d g)(c := value)"
    and "reliable_drive w \<Longrightarrow> r = Inr ()"
proof -
  define old where "old = map (\<lambda>k. (k, raw_at d g c k)) (fat_copies g)"
  have "read_copies d g c None (fat_copies g) = Inr old"
    unfolding old_def using assms(4,5) by (intro read_copies_ok) auto
  then have run: "write_copies w g c value [] old d = (r, d')"
    using assms(3,5-7) by (auto simp: write_fat_entry_def entry_value_ok_def io_bind_def io_try_def io_ask_def leD)
  have fst: "fst ` set old = {k. k < ucast (fat_count g)}" unfolding old_def by (auto simp flip: set_fat_copies simp: image_iff)
  have dist: "distinct (map fst old)" by (simp add: old_def comp_def distinct_fat_copies)
  have whole: "fat_sectors_whole d g" using assms(4) by (simp add: fat_ok_def)
  note w = write_copies_result [OF assms(1,2,5) whole _ dist run, unfolded fst, OF subset_refl]
  have one: "fat_count g \<noteq> 0" using assms(1) by (auto simp: geometry_ok_def)
  then have zero: "(0 :: u32) < ucast (fat_count g)" by (simp add: unat_less_iff unat_ucast_up unat_gt_0)
  have ok: "\<exists>raw. read_entry d g c' k = Inr raw \<and> fat28 raw = fat_at d g c'" if "valid_cluster g c'" "k < ucast (fat_count g)" for c' k
    using assms(4) that by (auto simp: fat_ok_def)
  show "reliable_drive w \<Longrightarrow> r = Inr ()" using w(2) ok assms(5) by blast
  assume r: "r = Inr ()"
  have self: "\<exists>raw. read_entry d' g c k = Inr raw \<and> fat28 raw = value" if "k < ucast (fat_count g)" for k
  proof -
    have "(k, raw_at d g c k) \<in> set old" using that by (simp add: old_def set_fat_copies image_iff)
    then show ?thesis using w(1) r assms(6) fat28_replace by (fastforce simp: entry_value_ok_def)
  qed
  have other: "read_entry d' g c' k = read_entry d g c' k" if "valid_cluster g c'" "k < ucast (fat_count g)" "c' \<noteq> c" for c' k
    using w(1) r that by blast
  have bad: "read_entry x g c' 0 = Inl Corrupt" if "\<not> valid_cluster g c'" for x c'
    using that by (simp add: read_entry_def entry_location_def)
  show at: "fat_at d' g = (fat_at d g)(c := value)"
  proof
    fix c' :: u32 show "fat_at d' g c' = ((fat_at d g)(c := value)) c'"
      using self [OF zero] other [OF _ zero] bad assms(5) by (cases "valid_cluster g c'") (auto simp: fat_at_def)
  qed
  show "fat_ok d' g" unfolding fat_ok_def
  proof (intro conjI allI impI)
    fix c' and k :: u32 assume v: "valid_cluster g c' \<and> k < ucast (fat_count g)"
    then show "\<exists>raw. read_entry d' g c' k = Inr raw \<and> fat28 raw = fat_at d' g c'"
      using self [of k] other [of c' k] ok [of c' k] by (cases "c' = c") (auto simp: at)
  qed (use w(1) r in blast)
qed

subsection \<open>Chains of the table\<close>

definition next_in :: "bpb_geometry \<Rightarrow> (u32 \<Rightarrow> u32) \<Rightarrow> u32 \<Rightarrow> status + u32 option" where
  "next_in g F c =
     (if classify_fat_entry (F c) = FatEndOfChain then Inr None
      else if classify_fat_entry (F c) \<noteq> FatNext \<or> \<not> valid_cluster g (F c) then Inl Corrupt
      else Inr (Some (F c)))"

lemma check_mirrors_ok:
  assumes "fat_ok d g" "valid_cluster g c" "set copies \<subseteq> set (fat_copies g)"
  shows "check_mirrors d g c (fat_at d g c) copies = Ok"
  using assms(3)
proof (induction copies)
  case (Cons k copies)
  then have "k < ucast (fat_count g)" by (simp add: set_fat_copies)
  then obtain raw where "read_entry d g c k = Inr raw" "fat28 raw = fat_at d g c" using assms(1,2) unfolding fat_ok_def by blast
  then show ?case using Cons by simp
qed simp

lemma chain_next_fat:
  assumes "geometry_ok disk g" "fat_ok d g" "valid_cluster g c"
  shows "chain_next d g c check = next_in g (fat_at d g) c"
proof -
  have "fat_count g \<noteq> 0" using assms(1) by (auto simp: geometry_ok_def)
  then have zero: "(0 :: u32) < ucast (fat_count g)" by (simp add: unat_less_iff unat_ucast_up unat_gt_0)
  then obtain raw where raw: "read_entry d g c 0 = Inr raw" "fat28 raw = fat_at d g c" using assms(2,3) unfolding fat_ok_def by blast
  have "set (tl (fat_copies g)) \<subseteq> set (fat_copies g)" by (cases "fat_copies g") auto
  then have "check_mirrors d g c (fat_at d g c) (tl (fat_copies g)) = Ok" using assms(2,3) by (rule_tac check_mirrors_ok)
  then show ?thesis by (simp add: chain_next_def raw next_in_def Let_def)
qed

lemma valid_data_cluster_geometry: "mounted_on disk fs \<Longrightarrow> valid_data_cluster fs c = valid_cluster (fs_bpb fs) c"
  by (simp add: mounted_on_def valid_data_cluster_def valid_cluster_def)

text \<open>The reader and the writer agree on the next cluster, whichever copy the reader uses.\<close>

lemma next_cluster_fat:
  assumes "mounted_on disk fs" "fat_ok d (fs_bpb fs)" "valid_cluster (fs_bpb fs) c"
  shows "next_cluster d fs c = next_in (fs_bpb fs) (fat_at d (fs_bpb fs)) c"
proof -
  let ?g = "fs_bpb fs"
  let ?k = "ucast (active_fat ?g) :: u32"
  have g: "geometry_ok disk ?g" using assms(1) by (simp add: mounted_on_def)
  have k: "?k < ucast (fat_count ?g)" using g by (simp add: geometry_ok_def unat_less_iff unat_ucast_up)
  obtain lba inside where loc: "entry_location ?g c ?k = Some (lba, inside)"
    "unat lba = unat (fat_begin_lba ?g) + unat ?k * unat (sectors_per_fat ?g) + unat c div 128"
    "unat inside = 4 * (unat c mod 128)" "lba < first_data_lba ?g"
    using entry_location_place [OF g assms(3) k] by metis
  obtain sec ins where loc': "fat_entry_location c (fat_begin_lba ?g) = Some (sec, ins)"
    "unat sec = unat (fat_begin_lba ?g) + unat c div 128" "unat ins = 4 * (unat c mod 128)"
    using geometry_fat_entry [OF g, of c] assms(3) by (auto simp: valid_cluster_unat)
  have small: "unat lba < 2 ^ 32" by (rule unat_less_32)
  obtain a where a: "checked_mul_u32 ?k (sectors_per_fat ?g) = Some a" "unat a = unat ?k * unat (sectors_per_fat ?g)"
    using checked_mul_None [of ?k "sectors_per_fat ?g"] checked_mul_Some loc(2) small by (cases "checked_mul_u32 ?k (sectors_per_fat ?g)") auto
  have "checked_add_u32 sec a = Some lba"
    unfolding checked_add_Some using loc(2) loc'(2) a(2) small by simp
  moreover obtain raw where raw: "read_entry d ?g c ?k = Inr raw" "fat28 raw = fat_at d ?g c"
    using assms(2,3) k unfolding fat_ok_def by blast
  moreover have "unat ins = unat inside" using loc(3) loc'(3) by simp
  ultimately show ?thesis
    using loc loc' a assms(1,3)
    by (auto simp: next_cluster_def next_in_def read_entry_def valid_data_cluster_geometry mounted_on_def fat_entry_value_def
        unat_le_iff unat_less_iff split: option.splits)
qed

lemma chain_cong:
  assumes "mounted_on disk fs" "fat_ok d (fs_bpb fs)" "fat_ok d' (fs_bpb fs)"
    and "\<And>x. x \<in> set xs \<Longrightarrow> fat_at d' (fs_bpb fs) x = fat_at d (fs_bpb fs) x"
  shows "chain d' fs c xs = chain d fs c xs"
proof -
  have "next_cluster d' fs x = next_cluster d fs x" if "x \<in> set xs" "valid_data_cluster fs x" for x
    using that assms by (simp add: next_cluster_fat valid_data_cluster_geometry next_in_def)
  then show ?thesis by (induction d fs c xs rule: chain.induct) auto
qed

lemma check_chain_result:
  assumes "mounted_on disk fs" "fat_ok d (fs_bpb fs)" "valid_cluster (fs_bpb fs) c"
  shows "(\<exists>xs. chain d fs c xs \<and> length xs \<le> n) \<and> check_chain d (fs_bpb fs) n c = Inr True \<or>
    \<not> (\<exists>xs. chain d fs c xs \<and> length xs \<le> n) \<and> check_chain d (fs_bpb fs) n c \<in> {Inl Corrupt, Inr False}"
  using assms(3)
proof (induction n arbitrary: c)
  case 0
  have "\<not> (chain d fs c xs \<and> length xs \<le> 0)" for xs by (cases xs) auto
  then show ?case by auto
next
  case (Suc n)
  have g: "geometry_ok disk (fs_bpb fs)" using assms(1) by (simp add: mounted_on_def)
  have v: "valid_data_cluster fs c" using Suc.prems by (simp add: valid_data_cluster_geometry [OF assms(1)])
  note nxt = chain_next_fat [OF g assms(2) Suc.prems, of True] next_cluster_fat [OF assms(1,2) Suc.prems]
  consider e where "next_cluster d fs c = Inl e" | "next_cluster d fs c = Inr None" | y where "next_cluster d fs c = Inr (Some y)"
    by (metis old.sum.exhaust option.exhaust)
  then show ?case
  proof cases
    case 1
    then have "e = Corrupt" using nxt by (auto simp: next_in_def split: if_splits)
    moreover have "\<not> chain d fs c xs" for xs using 1 by (cases xs rule: remdups_adj.cases) auto
    ultimately show ?thesis using 1 nxt by auto
  next
    case 2
    then have "chain d fs c [c]" using v by simp
    then show ?thesis using 2 nxt by (intro disjI1) (auto intro!: exI [of _ "[c]"])
  next
    case 3
    then have y: "valid_cluster (fs_bpb fs) y" using nxt by (auto simp: next_in_def split: if_splits)
    have "chain d fs c xs \<longleftrightarrow> (\<exists>ys. xs = c # ys \<and> chain d fs y ys)" for xs
      using 3 v by (cases xs rule: remdups_adj.cases) (auto elim: chain.elims)
    then have "(\<exists>xs. chain d fs c xs \<and> length xs \<le> Suc n) \<longleftrightarrow> (\<exists>xs. chain d fs y xs \<and> length xs \<le> n)" by fastforce
    then show ?thesis using Suc.IH [OF y] 3 nxt by simp
  qed
qed

lemma clear_chain_result:
  assumes "mounted_on disk fs" "honest_drive w" "geometry_for_write fs = Inr g"
    and "fat_ok d g" "chain d fs c xs" "length xs \<le> n" "clear_chain w fs g n c d = (r, d')"
  shows "(r = Inr () \<longrightarrow> fat_ok d' g \<and> fat_at d' g = (\<lambda>x. if x \<in> set xs then 0 else fat_at d g x)) \<and>
    (reliable_drive w \<longrightarrow> r = Inr ())"
  using assms(4-7)
proof (induction xs arbitrary: c n d)
  case (Cons x xs)
  have gg: "g = fs_bpb fs" using assms(3) by (simp add: geometry_for_write_Inr)
  have g: "geometry_ok disk g" using assms(1) by (simp add: mounted_on_def gg)
  obtain m where n: "n = Suc m" using Cons.prems(3) by (cases n) auto
  have x: "x = c" and v: "valid_cluster g c"
    using Cons.prems(2) by (cases xs; auto simp: gg valid_data_cluster_geometry [OF assms(1)])+
  define nxt where "nxt = (if xs = [] then None else Some (hd xs))"
  have "next_cluster d fs c = Inr nxt" using Cons.prems(2) by (cases xs) (auto simp: nxt_def)
  then have nx: "chain_next d g c False = Inr nxt"
    using chain_next_fat [OF g Cons.prems(1) v] next_cluster_fat [OF assms(1), of d c] Cons.prems(1) v gg by simp
  obtain r1 d1 where w1: "write_fat_entry w fs c 0 d = (r1, d1)" by fastforce
  have "entry_value_ok g 0" by (simp add: entry_value_ok_def)
  note one = write_fat_entry_result [OF g assms(2,3) Cons.prems(1) v this w1]
  have run: "clear_chain w fs g n c d =
      (case r1 of Inl e \<Rightarrow> (Inl e, d1) | Inr _ \<Rightarrow> (case nxt of None \<Rightarrow> (Inr (), d1) | Some y \<Rightarrow> clear_chain w fs g m y d1))"
    by (simp add: n io_bind_def io_try_def io_ask_def nx w1 io_fail_def io_ret_def split: sum.splits option.splits)
  show ?case
  proof (cases r1)
    case (Inl e)
    then show ?thesis using run Cons.prems(4) one(3) by auto
  next
    case (Inr u)
    then have r1: "r1 = Inr ()" by simp
    show ?thesis
    proof (cases xs)
      case Nil
      then show ?thesis using run Cons.prems(4) r1 one by (auto simp: nxt_def x fun_eq_iff)
    next
      case (Cons y ys)
      have c: "c \<notin> set xs" using chain_distinct [OF Cons.prems(2)] x by simp
      have "chain d fs y xs" using Cons.prems(2) Cons by simp
      moreover have "fat_at d1 g z = fat_at d g z" if "z \<in> set xs" for z using one(2) [OF r1] c that by auto
      ultimately have "chain d1 fs y xs"
        using chain_cong [OF assms(1), of d d1 xs y] Cons.prems(1) one(1) [OF r1] by (simp add: gg)
      moreover have "clear_chain w fs g m y d1 = (r, d')" using run Cons.prems(4) r1 Cons by (simp add: nxt_def)
      ultimately show ?thesis
        using Cons.IH [of d1 y m] Cons.prems(3) one(1,2) [OF r1] by (auto simp: n x fun_eq_iff)
    qed
  qed
qed simp

lemma free_chain_result:
  assumes "mounted_on disk fs" "honest_drive w" "geometry_for_write fs = Inr g" "fat_ok d g" "free_chain w fs c d = (r, d')"
  shows "chain d fs c xs \<Longrightarrow> r = Inr () \<Longrightarrow> fat_ok d' g \<and> fat_at d' g = (\<lambda>x. if x \<in> set xs then 0 else fat_at d g x)"
    and "chain d fs c xs \<Longrightarrow> reliable_drive w \<Longrightarrow> r = Inr ()"
    and "c \<noteq> 0 \<Longrightarrow> \<nexists>xs. chain d fs c xs \<Longrightarrow> (r, d') = (Inl Corrupt, d)"
proof -
  have gg: "g = fs_bpb fs" using assms(3) by (simp add: geometry_for_write_Inr)
  have cc: "unat (fs_cluster_count fs) = unat (cluster_count g)" using assms(1) by (simp add: mounted_on_def gg)
  have run: "r' = r \<and> d'' = d'" if "chain d fs c xs" "clear_chain w fs g (unat (cluster_count g)) c d = (r', d'')" for xs r' d''
  proof -
    have v: "valid_cluster g c" using that(1) by (cases xs rule: remdups_adj.cases) (auto simp: gg valid_data_cluster_geometry [OF assms(1)])
    then have "c \<noteq> 0" by (auto simp: valid_cluster_def)
    moreover have "length xs \<le> unat (cluster_count g)" using chain_length [OF that(1)] by (simp add: cc)
    then have "check_chain d g (unat (cluster_count g)) c = Inr True"
      using check_chain_result [OF assms(1), of d c "unat (cluster_count g)"] assms(4) v that(1) by (auto simp: gg)
    ultimately show ?thesis using assms(3,5) v that(2) by (simp add: free_chain_def io_bind_def io_try_def io_ask_def)
  qed
  obtain r1 d1 where c1: "clear_chain w fs g (unat (cluster_count g)) c d = (r1, d1)" by fastforce
  have main: "(r = Inr () \<longrightarrow> fat_ok d' g \<and> fat_at d' g = (\<lambda>x. if x \<in> set xs then 0 else fat_at d g x)) \<and> (reliable_drive w \<longrightarrow> r = Inr ())"
    if ch: "chain d fs c xs"
    using clear_chain_result [OF assms(1-4) ch _ c1] chain_length [OF ch] run [OF ch c1] by (simp add: cc)
  then show "chain d fs c xs \<Longrightarrow> r = Inr () \<Longrightarrow> fat_ok d' g \<and> fat_at d' g = (\<lambda>x. if x \<in> set xs then 0 else fat_at d g x)"
    and "chain d fs c xs \<Longrightarrow> reliable_drive w \<Longrightarrow> r = Inr ()" by auto
  assume "c \<noteq> 0" "\<nexists>xs. chain d fs c xs"
  then show "(r, d') = (Inl Corrupt, d)"
    using check_chain_result [OF assms(1), of d c "unat (cluster_count g)"] assms(3-5)
    by (cases "valid_cluster g c") (auto simp: free_chain_def gg io_bind_def io_try_def io_ask_def io_fail_def split: if_splits)
qed

subsection \<open>Allocation\<close>

text \<open>The table with a new chain through the given clusters, and the free clusters among the first \<open>i\<close>.\<close>

fun linked :: "(u32 \<Rightarrow> u32) \<Rightarrow> u32 list \<Rightarrow> u32 \<Rightarrow> u32" where
  "linked F [] = F"
| "linked F [x] = F(x := 0x0FFFFFFF)"
| "linked F (x # y # ys) = (linked F (y # ys))(x := y)"

definition free_clusters :: "(u32 \<Rightarrow> u32) \<Rightarrow> nat \<Rightarrow> u32 list" where
  "free_clusters F i = filter (\<lambda>c. F c = 0) (map of_nat [2..<i + 2])"

lemma linked_outside: "x \<notin> set ys \<Longrightarrow> linked F ys x = F x"
  by (induction F ys rule: linked.induct) auto

lemma linked_snoc:
  "ys \<noteq> [] \<Longrightarrow> distinct (ys @ [c]) \<Longrightarrow> linked F (ys @ [c]) = (linked F ys)(c := 0x0FFFFFFF, List.last ys := c)"
proof (induction F ys rule: linked.induct)
  case (3 F x y ys)
  have "List.last (y # ys) \<in> set (y # ys)" by (rule last_in_set) simp
  then have "List.last (y # ys) \<noteq> x" "c \<noteq> x" using 3 by auto
  then show ?case using 3 by (auto simp: fun_eq_iff)
qed (auto simp: fun_upd_twist)

lemma linked_freed: "\<forall>y\<in>set ys. F y = 0 \<Longrightarrow> (\<lambda>x. if x \<in> set ys then 0 else linked F ys x) = F"
  by (auto simp: fun_eq_iff linked_outside)

lemma free_clusters_Suc: "free_clusters F (Suc i) = free_clusters F i @ (if F (of_nat (i + 2)) = 0 then [of_nat (i + 2)] else [])"
  by (simp add: free_clusters_def)

lemma free_clusters_prefix: "i \<le> j \<Longrightarrow> \<exists>zs. free_clusters F j = free_clusters F i @ zs"
  by (induction j) (auto simp: free_clusters_Suc le_Suc_eq)

lemma free_clusters_bounds:
  assumes "geometry_ok disk g" "i \<le> unat (cluster_count g)"
  shows "distinct (free_clusters F i)"
    and "c \<in> set (free_clusters F i) \<Longrightarrow> F c = 0 \<and> valid_cluster g c \<and> unat c < i + 2"
proof -
  have u: "unat (of_nat k :: u32) = k" if "k < i + 2" for k
    using that assms by (intro unat_of_nat_small) (simp add: geometry_ok_def)
  then have "inj_on (of_nat :: nat \<Rightarrow> u32) {2..<i + 2}" by (intro inj_onI) (metis atLeastLessThan_iff)
  then have "distinct (map (of_nat :: nat \<Rightarrow> u32) [2..<i + 2])" by (simp only: distinct_map distinct_upt set_upt simp_thms)
  then show "distinct (free_clusters F i)" unfolding free_clusters_def by (rule distinct_filter)
  assume "c \<in> set (free_clusters F i)"
  then obtain k where "c = of_nat k" "F c = 0" "2 \<le> k" "k < i + 2" by (auto simp only: free_clusters_def set_filter set_map set_upt atLeastLessThan_iff)
  then show "F c = 0 \<and> valid_cluster g c \<and> unat c < i + 2" using u [of k] assms(2) by (simp add: valid_cluster_unat)
qed

lemma classify_eoc: "classify_fat_entry 0x0FFFFFFF = FatEndOfChain"
  by (simp add: classify_fat_entry_def fat_entry_value_def fat28_def Let_def)

lemma classify_valid:
  assumes "geometry_ok disk g" "valid_cluster g c"
  shows "classify_fat_entry c = FatNext" "entry_value_ok g c"
proof -
  have b: "2 \<le> unat c" "unat c < 0x0FFFFFF0" using assms by (auto simp: geometry_ok_def valid_cluster_unat)
  have "(0x0FFFFFFF :: u32) = mask 28" by (simp add: mask_eq_exp_minus_1)
  then have "unat (fat28 c) = unat c" using b by (simp only: fat28_def unat_and_mask) simp
  then have c: "fat28 c = c" by (simp add: unat_eq_iff)
  show "classify_fat_entry c = FatNext"
    using b by (auto simp: classify_fat_entry_def fat_entry_value_def c Let_def unat_le_iff unat_eq_iff)
  show "entry_value_ok g c" using assms(2) b by (simp add: entry_value_ok_def unat_le_iff)
qed

lemma linked_chain:
  assumes "mounted_on disk fs" "fat_ok d (fs_bpb fs)" "ys \<noteq> []" "distinct ys" "\<forall>y\<in>set ys. valid_cluster (fs_bpb fs) y"
    and "\<forall>y\<in>set ys. fat_at d (fs_bpb fs) y = linked F ys y"
  shows "chain d fs (hd ys) ys"
proof -
  have g: "geometry_ok disk (fs_bpb fs)" using assms(1) by (simp add: mounted_on_def)
  note step = valid_data_cluster_geometry [OF assms(1)] next_cluster_fat [OF assms(1,2)] next_in_def
  show ?thesis
    using assms(3-6)
  proof (induction F ys rule: linked.induct)
    case (3 F x y ys)
    have "\<forall>z\<in>set (y # ys). fat_at d (fs_bpb fs) z = linked F (y # ys) z"
    proof
      fix z assume z: "z \<in> set (y # ys)"
      then have "z \<noteq> x" using "3.prems"(2) by auto
      then show "fat_at d (fs_bpb fs) z = linked F (y # ys) z" using "3.prems"(4) z by auto
    qed
    then have rest: "chain d fs y (y # ys)" using "3.IH" "3.prems"(2,3) by simp
    have x: "valid_cluster (fs_bpb fs) x" "valid_cluster (fs_bpb fs) y" "fat_at d (fs_bpb fs) x = y" using "3.prems" by simp_all
    then have "next_cluster d fs x = Inr (Some y)" using classify_valid(1) [OF g x(2)] by (simp add: step)
    then show ?case using rest x by (simp add: step(1))
  qed (simp_all add: step classify_eoc)
qed

text \<open>The state between two rounds of the search: the free clusters seen so far form the new chain.\<close>

definition allocating :: "fat32_state \<Rightarrow> (u32 \<Rightarrow> u32) \<Rightarrow> storage \<Rightarrow> nat \<Rightarrow> u32 list \<Rightarrow> bool" where
  "allocating fs F d i ys \<longleftrightarrow> i \<le> unat (cluster_count (fs_bpb fs)) \<and> ys = free_clusters F i \<and>
     fat_ok d (fs_bpb fs) \<and> fat_at d (fs_bpb fs) = linked F ys"

definition end_or :: "('a list \<Rightarrow> u32) \<Rightarrow> 'a list \<Rightarrow> u32" where
  "end_or f ys = (if ys = [] then 0 else f ys)"

lemma release_chain_result:
  assumes "mounted_on disk fs" "reliable_drive w" "geometry_for_write fs = Inr g" "allocating fs F d i ys"
  shows "\<exists>d'. release_chain w fs (end_or hd ys) status d = (Inl status, d') \<and> fat_ok d' g \<and> fat_at d' g = F"
proof -
  have gg: "g = fs_bpb fs" using assms(3) by (simp add: geometry_for_write_Inr)
  have g: "geometry_ok disk g" using assms(1) by (simp add: mounted_on_def gg)
  have s: "i \<le> unat (cluster_count g)" "ys = free_clusters F i" "fat_ok d g" "fat_at d g = linked F ys"
    using assms(4) by (simp_all add: allocating_def gg)
  note b = free_clusters_bounds [OF g s(1), where F = F, folded s(2)]
  show ?thesis
  proof (cases "ys = []")
    case True
    then show ?thesis using s by (simp add: release_chain_def end_or_def io_try_def io_ret_def io_fail_def)
  next
    case False
    have ch: "chain d fs (hd ys) ys" using linked_chain [OF assms(1) _ False, of d F] s b by (simp add: gg)
    obtain r d' where f: "free_chain w fs (hd ys) d = (r, d')" by fastforce
    have h: "honest_drive w" using assms(2) by (simp add: reliable_drive_def)
    note free = free_chain_result [OF assms(1) h assms(3) s(3) f]
    have "r = Inr ()" using free(2) [OF ch] assms(2) by blast
    moreover have "(\<lambda>x. if x \<in> set ys then 0 else linked F ys x) = F" using b(2) by (intro linked_freed) blast
    ultimately have "fat_ok d' g" "fat_at d' g = F" using free(1) [OF ch] unfolding s(4) by simp_all
    moreover have "hd ys \<noteq> 0" using b(2) [of "hd ys"] False by (auto simp: valid_cluster_def)
    ultimately show ?thesis using f False \<open>r = Inr ()\<close> by (simp add: release_chain_def end_or_def io_try_def io_fail_def)
  qed
qed

lemma allocating_step:
  assumes "mounted_on disk fs" "honest_drive w" "geometry_for_write fs = Inr g"
    and "allocating fs F d i ys" "i < unat (cluster_count g)" "c = of_nat (i + 2)" "F c = 0"
    and "write_fat_entry w fs c 0x0FFFFFFF d = (r1, d1)"
  shows "reliable_drive w \<Longrightarrow> r1 = Inr ()" "r1 = Inr () \<Longrightarrow> ys = [] \<Longrightarrow> allocating fs F d1 (Suc i) [c]"
    and "r1 = Inr () \<Longrightarrow> ys \<noteq> [] \<Longrightarrow> write_fat_entry w fs (List.last ys) c d1 = (r2, d2) \<Longrightarrow>
      (reliable_drive w \<longrightarrow> r2 = Inr ()) \<and> (r2 = Inr () \<longrightarrow> allocating fs F d2 (Suc i) (ys @ [c]))"
proof -
  have gg: "g = fs_bpb fs" using assms(3) by (simp add: geometry_for_write_Inr)
  have g: "geometry_ok disk g" using assms(1) by (simp add: mounted_on_def gg)
  have s: "i \<le> unat (cluster_count g)" "ys = free_clusters F i" "fat_ok d g" "fat_at d g = linked F ys"
    using assms(4) by (simp_all add: allocating_def gg)
  note b = free_clusters_bounds [OF g s(1), where F = F, folded s(2)]
  have u: "unat c = i + 2" unfolding assms(6) using assms(5) g by (intro unat_of_nat_small) (simp add: geometry_ok_def)
  then have v: "valid_cluster g c" using assms(5) by (simp add: valid_cluster_unat)
  have new: "c \<notin> set ys" using b(2) [of c] u by auto
  have e: "entry_value_ok g 0x0FFFFFFF" by (simp add: entry_value_ok_def is_eoc_def fat28_def)
  have Suc: "free_clusters F (Suc i) = ys @ [c]" using assms(6,7) s(2) by (simp add: free_clusters_Suc)
  note w1 = write_fat_entry_result [OF g assms(2,3) s(3) v e assms(8)]
  show "reliable_drive w \<Longrightarrow> r1 = Inr ()" by (rule w1(3))
  show "r1 = Inr () \<Longrightarrow> ys = [] \<Longrightarrow> allocating fs F d1 (Suc i) [c]"
    using w1(1,2) assms(5) Suc s(4) by (simp add: allocating_def gg)
  assume r1: "r1 = Inr ()" and ys: "ys \<noteq> []" and w: "write_fat_entry w fs (List.last ys) c d1 = (r2, d2)"
  have "valid_cluster g (List.last ys)" using b(2) ys by simp
  note w2 = write_fat_entry_result [OF g assms(2,3) w1(1) [OF r1] this classify_valid(2) [OF g v] w]
  have "fat_at d2 g = linked F (ys @ [c])" if "r2 = Inr ()"
    using w2(2) [OF that] w1(2) [OF r1] linked_snoc [OF ys, of c F] b(1) new s(4) by simp
  then show "(reliable_drive w \<longrightarrow> r2 = Inr ()) \<and> (r2 = Inr () \<longrightarrow> allocating fs F d2 (Suc i) (ys @ [c]))"
    using w2(1,3) assms(5) Suc by (simp add: allocating_def gg)
qed

text \<open>What a search for \<open>n\<close> clusters must do to a table \<open>F\<close>.\<close>

definition allocated ::
  "ata_write \<Rightarrow> fat32_state \<Rightarrow> (u32 \<Rightarrow> u32) \<Rightarrow> nat \<Rightarrow> (status + u32) \<times> storage \<Rightarrow> bool" where
  "allocated w fs F n result \<longleftrightarrow>
     (let g = fs_bpb fs; free = free_clusters F (unat (cluster_count g)); (r, d') = result
      in (\<forall>first. r = Inr first \<longrightarrow> n \<le> length free \<and> first = end_or hd (take n free) \<and>
            fat_ok d' g \<and> fat_at d' g = linked F (take n free)) \<and>
         (reliable_drive w \<longrightarrow> (if n \<le> length free then \<exists>first. r = Inr first
            else r = Inl NoSpace \<and> fat_ok d' g \<and> fat_at d' g = F)))"

lemma release_chain_fails: "fst (release_chain w fs c status d) \<noteq> Inr x"
  by (auto simp: release_chain_def io_try_def io_fail_def split: prod.splits sum.splits)

lemma allocated_failed: "\<not> reliable_drive w \<Longrightarrow> \<forall>x. fst result \<noteq> Inr x \<Longrightarrow> allocated w fs F n result"
  by (auto simp: allocated_def Let_def split: prod.splits)

lemma allocate_end_result:
  assumes "mounted_on disk fs" "geometry_for_write fs = Inr g" "allocating fs F d i ys"
    and "length ys \<le> n" "length ys = n \<or> i = unat (cluster_count g)"
  shows "allocated w fs F n (allocate_end w fs n (length ys) (end_or hd ys) d)"
proof -
  have gg: "g = fs_bpb fs" using assms(2) by (simp add: geometry_for_write_Inr)
  have s: "i \<le> unat (cluster_count g)" "ys = free_clusters F i" "fat_ok d g" "fat_at d g = linked F ys"
    using assms(3) by (simp_all add: allocating_def gg)
  obtain zs where zs: "free_clusters F (unat (cluster_count g)) = ys @ zs"
    using free_clusters_prefix [OF s(1), of F] s(2) by blast
  show ?thesis
  proof (cases "length ys = n")
    case True
    then show ?thesis
      using s(3,4) zs by (auto simp: allocated_def allocate_end_def io_ret_def Let_def gg)
  next
    case False
    then have few: "length (free_clusters F (unat (cluster_count g))) < n" using assms(4,5) s(2) by auto
    obtain r :: "status + u32" and d' where run: "release_chain w fs (end_or hd ys) NoSpace d = (r, d')" by fastforce
    have "r \<noteq> Inr x" for x using run by (metis fst_conv release_chain_fails)
    moreover have "reliable_drive w \<longrightarrow> r = Inl NoSpace \<and> fat_ok d' g \<and> fat_at d' g = F"
      using release_chain_result [OF assms(1) _ assms(2,3)] run by (metis prod.inject)
    ultimately show ?thesis
      using few False run by (auto simp: allocated_def allocate_end_def Let_def gg not_le)
  qed
qed

lemma allocate_loop_result:
  assumes "mounted_on disk fs" "honest_drive w" "geometry_for_write fs = Inr g"
    and "allocating fs F d i ys" "length ys \<le> n" "i + left = unat (cluster_count g)"
  shows "allocated w fs F n (allocate_loop w fs n left i (end_or List.last ys) (length ys) (end_or hd ys) d)"
  using assms(4-6)
proof (induction left arbitrary: d i ys)
  case 0
  then show ?case using allocate_end_result [OF assms(1,3) 0(1,2)] by simp
next
  case (Suc left)
  have gg: "g = fs_bpb fs" using assms(3) by (simp add: geometry_for_write_Inr)
  have g: "geometry_ok disk g" using assms(1) by (simp add: mounted_on_def gg)
  have s: "i < unat (cluster_count g)" "ys = free_clusters F i" "fat_ok d g" "fat_at d g = linked F ys"
    using Suc.prems by (simp_all add: allocating_def gg)
  show ?case
  proof (cases "length ys < n")
    case False
    then show ?thesis using allocate_end_result [OF assms(1,3) Suc.prems(1,2)] Suc.prems(2) by simp
  next
    case more: True
    define c :: u32 where "c = of_nat (i + 2)"
    have u: "unat c = i + 2" unfolding c_def using s(1) g by (intro unat_of_nat_small) (simp add: geometry_ok_def)
    then have v: "valid_cluster g c" using s(1) by (simp add: valid_cluster_unat)
    note b = free_clusters_bounds [OF g less_imp_le [OF s(1)], where F = F, folded s(2)]
    have new: "c \<notin> set ys" using b(2) [of c] u by auto
    have rd: "read_fat_entry d fs c = Inr (F c)"
    proof -
      have "ucast (active_fat g) < (ucast (fat_count g) :: u32)" using g by (simp add: geometry_ok_def unat_less_iff unat_ucast_up)
      then obtain raw where "read_entry d g c (ucast (active_fat g)) = Inr raw" "fat28 raw = fat_at d g c"
        using s(3) v unfolding fat_ok_def by blast
      then show ?thesis using assms(3) s(4) new by (simp add: read_fat_entry_def geometry_for_write_Inr mounted_geometry_def linked_outside)
    qed
    show ?thesis
    proof (cases "F c = 0")
      case False
      then have "free_clusters F (Suc i) = ys" using s(2) unfolding c_def by (simp add: free_clusters_Suc)
      then have "allocating fs F d (Suc i) ys" using s by (simp add: allocating_def gg)
      then show ?thesis using Suc.IH [of d "Suc i" ys] Suc.prems more rd False
        by (simp add: Let_def io_try_def io_ask_def c_def)
    next
      case True
      obtain r1 d1 where w1: "write_fat_entry w fs c 0x0FFFFFFF d = (r1, d1)" by fastforce
      obtain r2 d2 where w2: "write_fat_entry w fs (List.last ys) c d1 = (r2, d2)" by fastforce
      note step = allocating_step [OF assms(1-3) Suc.prems(1) s(1) c_def True w1]
      have last: "ys \<noteq> [] \<Longrightarrow> List.last ys \<noteq> 0" using b(2) [of "List.last ys"] by (auto simp: valid_cluster_def)
      have run: "allocate_loop w fs n (Suc left) i (end_or List.last ys) (length ys) (end_or hd ys) d =
         (case r1 of Inl e \<Rightarrow> release_chain w fs (end_or hd ys) e d1
          | Inr _ \<Rightarrow> if ys = [] then allocate_loop w fs n left (Suc i) c (Suc 0) c d1
             else (case r2 of
                 Inl e \<Rightarrow> io_try (write_fat_entry w fs c 0)
                   (\<lambda>_. io_bind (io_ignore (free_chain w fs (hd ys))) (\<lambda>_. io_fail IoError))
                   (\<lambda>_. io_try (free_chain w fs (hd ys)) (\<lambda>_. io_fail IoError) (\<lambda>_. io_fail e)) d2
               | Inr _ \<Rightarrow> allocate_loop w fs n left (Suc i) c (Suc (length ys)) (hd ys) d2))"
        unfolding allocate_loop.simps(2) c_def [symmetric] Let_def using more rd True last
        by (simp add: io_try_def io_ask_def w1 w2 end_or_def split: sum.splits)
      show ?thesis
      proof (cases r1)
        case (Inl e)
        then show ?thesis using step(1) unfolding run by (intro allocated_failed) (auto simp: release_chain_fails)
      next
        case (Inr u)
        then have r1: "r1 = Inr ()" by simp
        show ?thesis
        proof (cases "ys = []")
          case True
          then show ?thesis using Suc.IH [OF step(2) [OF r1 True]] Suc.prems(3) more r1 unfolding run by (simp add: end_or_def)
        next
          case False
          note step2 = step(3) [OF r1 False w2]
          show ?thesis
          proof (cases r2)
            case (Inl e)
            then show ?thesis using step2 r1 False unfolding run
              by (intro allocated_failed) (auto simp: io_try_def io_bind_def io_ignore_def io_fail_def io_ret_def split: prod.splits sum.splits)
          next
            case (Inr u)
            then have r2: "r2 = Inr ()" by simp
            then show ?thesis using Suc.IH [of d2 "Suc i" "ys @ [c]"] step2 Suc.prems(3) more r1 False unfolding run by (simp add: end_or_def)
          qed
        qed
      qed
    qed
  qed
qed

subsection \<open>Only the table changes\<close>

definition fat_region :: "bpb_geometry \<Rightarrow> u32 set" where
  "fat_region g = {lba. fat_begin_lba g \<le> lba \<and> lba < first_data_lba g \<and> lba < total_sectors g}"

lemma entry_location_region: "entry_location g c copy = Some (lba, inside) \<Longrightarrow> lba \<in> fat_region g"
  by (auto simp: entry_location_def fat_region_def Let_def checked_add_Some unat_le_iff split: if_splits option.splits)

lemma touches_write_raw [touch_rules]:
  assumes "honest_drive w"
  shows "touches (fat_region g) (write_raw w g c copy raw)"
  using entry_location_region
  by (auto simp: write_raw_def intro!: touch_rules touches_store [OF assms] split: option.split prod.split)

lemma touches_restore_copies: "honest_drive w \<Longrightarrow> touches (fat_region g) (restore_copies w g c written)"
  by (induction w g c written rule: restore_copies.induct) (auto intro!: touch_rules)

lemma touches_write_copies: "honest_drive w \<Longrightarrow> touches (fat_region g) (write_copies w g c v written rest)"
  by (induction w g c v written rest rule: write_copies.induct) (auto intro!: touch_rules touches_restore_copies)

lemma touches_write_fat_entry [touch_rules]: "honest_drive w \<Longrightarrow> touches (fat_region (fs_bpb fs)) (write_fat_entry w fs c value)"
  by (auto simp: write_fat_entry_def geometry_for_write_Inr intro!: touch_rules touches_write_copies split: sum.split)

lemma touches_clear_chain: "honest_drive w \<Longrightarrow> touches (fat_region (fs_bpb fs)) (clear_chain w fs g n c)"
  by (induction n arbitrary: c) (auto intro!: touch_rules split: option.split)

lemma touches_free_chain [touch_rules]: "honest_drive w \<Longrightarrow> touches (fat_region (fs_bpb fs)) (free_chain w fs c)"
  by (auto simp: free_chain_def intro!: touch_rules touches_clear_chain split: sum.split)

lemma touches_release_chain [touch_rules]: "honest_drive w \<Longrightarrow> touches (fat_region (fs_bpb fs)) (release_chain w fs c status)"
  by (auto simp: release_chain_def intro!: touch_rules)

lemma touches_allocate_loop: "honest_drive w \<Longrightarrow> touches (fat_region (fs_bpb fs)) (allocate_loop w fs n left i previous found first)"
  by (induction left arbitrary: i previous found first) (auto simp: Let_def allocate_end_def intro!: touch_rules)

lemma touches_allocate_chain [touch_rules]: "honest_drive w \<Longrightarrow> touches (fat_region (fs_bpb fs)) (allocate_chain w fs n)"
  by (auto simp: allocate_chain_def intro!: touch_rules touches_allocate_loop split: sum.split)

lemma touches_read:
  assumes "touches S m" "m d = (r, d')" "lba \<notin> S"
  shows "read_sector d' Test lba = read_sector d Test lba"
  using changed_only_read [of S d d' lba] assms unfolding touches_def by (metis snd_conv)

lemma allocate_chain_result:
  assumes "mounted_on disk fs" "mirroring_enabled (fs_bpb fs)" "honest_drive w" "fat_ok d (fs_bpb fs)" "n \<noteq> 0"
    and "allocate_chain w fs n d = (r, d')"
  shows "allocated w fs (fat_at d (fs_bpb fs)) (unat n) (r, d')"
proof -
  let ?g = "fs_bpb fs"
  have gg: "geometry_for_write fs = Inr ?g" using assms(1,2) by (simp add: geometry_for_write_Inr mounted_on_def)
  show ?thesis
  proof (cases "n > cluster_count ?g")
    case True
    have "length (free_clusters (fat_at d ?g) (unat (cluster_count ?g))) \<le> unat (cluster_count ?g)"
      by (simp only: free_clusters_def) (rule order_trans [OF length_filter_le], simp, arith?)
    then show ?thesis
      using True assms(4-6) gg by (auto simp: allocate_chain_def allocated_def io_fail_def unat_less_iff Let_def)
  next
    case False
    have "allocating fs (fat_at d ?g) d 0 []" using assms(4) by (simp add: allocating_def free_clusters_def)
    from allocate_loop_result [OF assms(1,3) gg this, of "unat n" "unat (cluster_count ?g)"]
    show ?thesis using False assms(5,6) gg by (simp add: allocate_chain_def end_or_def)
  qed
qed

text \<open>
  C13: allocating clusters.  On a drive whose writes succeed and a volume whose copies of the table agree, a request for
  \<open>n\<close> clusters with enough of them free gives the chain of the first \<open>n\<close> free clusters in ascending order: the
  reader finds exactly these clusters from the returned one, every other entry of the table is as before, and
  all copies still agree.  With too few free clusters the request fails with \<open>NoSpace\<close> and the clusters taken so far
  are free again.  No sector outside the tables changes either way.
\<close>

theorem allocate_chain_spec:
  assumes "mounted_on disk fs" "mirroring_enabled (fs_bpb fs)" "reliable_drive w" "fat_ok d (fs_bpb fs)" "n \<noteq> 0"
    and "free = free_clusters (fat_at d (fs_bpb fs)) (unat (fs_cluster_count fs))"
    and "allocate_chain w fs n d = (r, d')"
  shows "(if unat n \<le> length free
      then r = Inr (hd free) \<and> chain d' fs (hd free) (take (unat n) free) \<and>
        (\<forall>c. c \<notin> set (take (unat n) free) \<longrightarrow> fat_at d' (fs_bpb fs) c = fat_at d (fs_bpb fs) c)
      else r = Inl NoSpace \<and> fat_at d' (fs_bpb fs) = fat_at d (fs_bpb fs)) \<and>
    fat_ok d' (fs_bpb fs) \<and>
    (\<forall>lba. lba \<notin> fat_region (fs_bpb fs) \<longrightarrow> read_sector d' Test lba = read_sector d Test lba)"
proof -
  let ?g = "fs_bpb fs"
  have h: "honest_drive w" using assms(3) by (simp add: reliable_drive_def)
  have g: "geometry_ok disk ?g" and cc: "fs_cluster_count fs = cluster_count ?g" using assms(1) by (simp_all add: mounted_on_def)
  have data: "\<forall>lba. lba \<notin> fat_region ?g \<longrightarrow> read_sector d' Test lba = read_sector d Test lba"
    using touches_read [OF touches_allocate_chain [OF h] assms(7)] by blast
  note res = allocate_chain_result [OF assms(1,2) h assms(4,5,7), unfolded allocated_def Let_def prod.case,
      folded cc, folded assms(6)]
  show ?thesis
  proof (cases "unat n \<le> length free")
    case True
    then obtain f where "r = Inr f" using res assms(3) by auto
    then have ok: "r = Inr (end_or hd (take (unat n) free))" "fat_ok d' ?g" "fat_at d' ?g = linked (fat_at d ?g) (take (unat n) free)"
      using res by auto
    have pos: "take (unat n) free \<noteq> []" using True assms(5) by (auto simp: unat_eq_0)
    have "distinct free" "\<forall>y\<in>set free. valid_cluster ?g y"
      using free_clusters_bounds [OF g, of "unat (fs_cluster_count fs)"] by (auto simp: assms(6) cc)
    then have "chain d' fs (hd (take (unat n) free)) (take (unat n) free)"
      using ok(2,3) pos by (intro linked_chain [OF assms(1)]) (auto dest: in_set_takeD)
    then show ?thesis using True ok pos data by (auto simp: end_or_def linked_outside hd_take)
  next
    case False
    then show ?thesis using res assms(3) data by auto
  qed
qed

text \<open>
  C14: freeing a chain.  If a chain starts at the cluster, exactly its clusters become free in all copies of the table;
  if none does (a cross link into free space, a cycle, a bad entry), the request is refused as \<open>Corrupt\<close> before
  anything has been written.
\<close>

theorem free_chain_spec:
  assumes "mounted_on disk fs" "mirroring_enabled (fs_bpb fs)" "reliable_drive w" "fat_ok d (fs_bpb fs)" "c \<noteq> 0"
  shows "(\<exists>xs d'. chain d fs c xs \<and> free_chain w fs c d = (Inr (), d') \<and> fat_ok d' (fs_bpb fs) \<and>
      fat_at d' (fs_bpb fs) = (\<lambda>x. if x \<in> set xs then 0 else fat_at d (fs_bpb fs) x) \<and>
      (\<forall>lba. lba \<notin> fat_region (fs_bpb fs) \<longrightarrow> read_sector d' Test lba = read_sector d Test lba)) \<or>
    (\<nexists>xs. chain d fs c xs) \<and> free_chain w fs c d = (Inl Corrupt, d)"
proof -
  have h: "honest_drive w" using assms(3) by (simp add: reliable_drive_def)
  have gg: "geometry_for_write fs = Inr (fs_bpb fs)" using assms(1,2) by (simp add: geometry_for_write_Inr mounted_on_def)
  obtain r d' where run: "free_chain w fs c d = (r, d')" by fastforce
  note res = free_chain_result [OF assms(1) h gg assms(4) run]
  have data: "\<forall>lba. lba \<notin> fat_region (fs_bpb fs) \<longrightarrow> read_sector d' Test lba = read_sector d Test lba"
    using touches_read [OF touches_free_chain [OF h] run] by blast
  show ?thesis
  proof (cases "\<exists>xs. chain d fs c xs")
    case True
    then obtain xs where xs: "chain d fs c xs" by blast
    then have "r = Inr ()" using res(2) assms(3) by blast
    then show ?thesis using res(1) [OF xs] xs run data by blast
  qed (use res(3) assms(5) run in auto)
qed

subsection \<open>A sample disk\<close>

text \<open>The sample volume with its second copy of the table, on a drive in which every write succeeds.\<close>

definition ram_write :: ata_write where
  "ram_write drive lba buffer r = (True, r(drive := (r drive)(lba := Some buffer)))"

definition mirror_disk :: storage where
  "mirror_disk = (demo_disk [])\<lparr>g_ata_read := \<lambda>drive lba. demo_ata [] drive (if lba = 582 then 32 else lba)\<rparr>"

lemma ram_write_reliable: "reliable_drive ram_write"
  by (auto simp: reliable_drive_def honest_drive_def ram_write_def)

lemma demo_mounted: "mounted_on 80000 demo_fs"
proof -
  have "lba28_sector_count (disk_info Test (demo_disk [])) = 80000" by (simp add: disk_info_def demo_disk_def)
  then show ?thesis using mount_mounted [OF demo_mounts [of "[]" demo_fs]] by simp
qed

lemma demo_bpb: "fs_bpb demo_fs = demo_geometry" "mirroring_enabled demo_geometry"
  by (simp_all add: demo_fs_def demo_geometry_def)

lemma mirror_read: "lba < 1132 \<Longrightarrow> read_sector mirror_disk Test lba = demo_ata [] Slave (if lba = 582 then 32 else lba)"
  by (auto simp: mirror_disk_def demo_disk_def read_sector_def sector_accessible_def disk_info_def drive_for_def Let_def
      unat_less_iff unat_le_iff)

lemma mirror_entry:
  assumes "valid_cluster demo_geometry c" "k < 2"
  shows "read_entry mirror_disk demo_geometry c k = Inr (if c = 2 \<or> c = 3 then 0x0FFFFFFF else 0)"
proof -
  have g: "geometry_ok 80000 demo_geometry" using demo_mounted by (simp add: mounted_on_def demo_bpb)
  have k: "k < ucast (fat_count demo_geometry)" using assms(2) by (simp add: demo_geometry_def)
  obtain lba inside where loc: "entry_location demo_geometry c k = Some (lba, inside)"
    "unat lba = 32 + unat k * 550 + unat c div 128" "unat inside = 4 * (unat c mod 128)" "lba < 1132"
    using entry_location_place [OF g assms(1) k] by (auto simp: demo_geometry_def)
  have k2: "unat k < 2" using assms(2) by (simp add: unat_less_iff)
  have c2: "2 \<le> unat c" "unat c < 68870" using assms(1) by (simp_all add: valid_cluster_unat demo_geometry_def)
  show ?thesis
  proof (cases "unat c div 128 = 0")
    case True
    then have "lba = 32 \<or> lba = 582" using loc(2) k2 by (auto simp: unat_eq_iff less_2_cases_iff)
    then have "read_sector mirror_disk Test lba = Some demo_fat_sector" using loc(4) by (auto simp: mirror_read demo_ata_def)
    moreover have "unat c < 128" using True by (simp add: div_eq_0_iff)
    then have "le32 demo_fat_sector (4 * (unat c mod 128)) = (if c = 2 \<or> c = 3 then 0x0FFFFFFF else 0)"
      using c2(1) by (auto simp: le32_def demo_fat_sector_def nth_list_update unat_eq_iff)
    ultimately show ?thesis using loc by (simp add: read_entry_def)
  next
    case False
    then have "lba \<noteq> 32" "lba \<noteq> 582" "lba \<noteq> 0" "lba \<noteq> 1132" "lba \<noteq> 1133" "\<not> 70000 \<le> lba"
      using loc(2,4) k2 c2(2) by (auto simp: unat_eq_iff unat_le_iff unat_less_iff less_2_cases_iff)
    then have "read_sector mirror_disk Test lba = Some (replicate 512 0)" using loc(4) by (simp add: mirror_read demo_ata_def)
    moreover have "c \<noteq> 2" "c \<noteq> 3" using False by auto
    moreover have "4 * (unat c mod 128) + 3 < 512" using mod_less_divisor [of 128 "unat c"] by linarith
    ultimately show ?thesis using loc by (simp add: read_entry_def le32_def)
  qed
qed

lemma mirror_at: "fat_at mirror_disk demo_geometry c = (if c = 2 \<or> c = 3 then 0x0FFFFFFF else 0)"
proof (cases "valid_cluster demo_geometry c")
  case True
  then show ?thesis using mirror_entry [OF True, of 0] by (simp add: fat_at_def fat28_def)
next
  case False
  then have "c \<noteq> 2" "c \<noteq> 3" by (auto simp: valid_cluster_def demo_geometry_def)
  then show ?thesis using False by (simp add: fat_at_def read_entry_def entry_location_def)
qed

lemma mirror_ok: "fat_ok mirror_disk demo_geometry"
proof -
  have "length sector = 512" if "lba < 1132" "read_sector mirror_disk Test lba = Some sector" for lba sector
  proof -
    have "lba \<noteq> 1132" "lba \<noteq> 1133" "\<not> 70000 \<le> lba" using that(1) by (auto simp: unat_less_iff unat_le_iff)
    then show ?thesis
      using that mirror_read [OF that(1)] by (auto simp: demo_ata_def demo_boot_sector_def demo_fat_sector_def split: if_splits)
  qed
  then have "fat_sectors_whole mirror_disk demo_geometry" by (simp add: fat_sectors_whole_def demo_geometry_def)
  moreover have "\<exists>raw. read_entry mirror_disk demo_geometry c k = Inr raw \<and> fat28 raw = fat_at mirror_disk demo_geometry c"
    if "valid_cluster demo_geometry c" "k < ucast (fat_count demo_geometry)" for c k
  proof -
    have "k < 2" using that(2) by (simp add: demo_geometry_def)
    then show ?thesis using mirror_entry [OF that(1)] by (simp add: mirror_at fat28_def)
  qed
  ultimately show ?thesis by (auto simp: fat_ok_def)
qed

lemma mirror_free: "take 2 (free_clusters (fat_at mirror_disk demo_geometry) 68868) = [4, 5]"
proof -
  have "free_clusters (fat_at mirror_disk demo_geometry) 4 = [4, 5]"
    by (simp add: free_clusters_def mirror_at upt_rec)
  then show ?thesis using free_clusters_prefix [of 4 68868 "fat_at mirror_disk demo_geometry"] by auto
qed

lemma mirror_file_chain: "chain mirror_disk demo_fs 3 [3]"
proof -
  have "next_cluster mirror_disk demo_fs 3 = Inr None"
    using next_cluster_fat [OF demo_mounted, of mirror_disk 3] mirror_ok
    by (simp add: demo_bpb next_in_def mirror_at classify_eoc valid_cluster_def) (simp add: demo_geometry_def)?
  then show ?thesis by (simp add: valid_data_cluster_def demo_fs_def)
qed

theorem allocate_chain_spec_witness:
  "\<exists>d'. allocate_chain ram_write demo_fs 2 mirror_disk = (Inr 4, d') \<and> chain d' demo_fs 4 [4, 5] \<and> fat_at d' demo_geometry 3 = 0x0FFFFFFF"
proof -
  let ?free = "free_clusters (fat_at mirror_disk demo_geometry) 68868"
  obtain r d' where run: "allocate_chain ram_write demo_fs 2 mirror_disk = (r, d')" by fastforce
  have count: "unat (fs_cluster_count demo_fs) = 68868" by (simp add: demo_fs_def)
  have len: "2 \<le> length ?free" and h: "hd ?free = 4"
    using mirror_free by (cases ?free; cases "tl ?free"; simp)+
  have "unat (2 :: u32) = 2" by simp
  then show ?thesis
    using allocate_chain_spec [OF demo_mounted _ ram_write_reliable _ _ refl run, unfolded demo_bpb count, OF demo_bpb(2) mirror_ok]
      len h mirror_free run by (simp add: mirror_at)
qed

theorem free_chain_spec_witness:
  "\<exists>d'. free_chain ram_write demo_fs 3 mirror_disk = (Inr (), d') \<and> fat_at d' demo_geometry = (\<lambda>x. if x = 2 then 0x0FFFFFFF else 0)"
proof -
  note ch = mirror_file_chain
  have eq: "(\<lambda>x. if x \<in> set [3] then 0 else fat_at mirror_disk demo_geometry x) = (\<lambda>x. if x = 2 then 0x0FFFFFFF else 0)"
    by (auto simp: mirror_at)
  have "(3 :: u32) \<noteq> 0" by simp
  then obtain xs d' where "chain mirror_disk demo_fs 3 xs" "free_chain ram_write demo_fs 3 mirror_disk = (Inr (), d')"
    "fat_at d' demo_geometry = (\<lambda>x. if x \<in> set xs then 0 else fat_at mirror_disk demo_geometry x)"
    using free_chain_spec [OF demo_mounted _ ram_write_reliable, of mirror_disk 3, unfolded demo_bpb, OF demo_bpb(2) mirror_ok] ch
    by blast
  moreover from this have "xs = [3]" using chain_unique [OF ch] by blast
  ultimately show ?thesis unfolding eq [symmetric] by blast
qed

end
