(* ===== verification/Vfs.thy ===== *)
theory Vfs
  imports Fat32
begin

text \<open>
  The virtual file system (\<^verbatim>\<open>kernel/filesystem/vfs.cpp\<close>) and the mount state of
  \<^verbatim>\<open>kernel/filesystem/filesystem.cpp\<close>: file descriptors and directory handles on top of the FAT32 reader.
  The layer below is reached through \<^verbatim>\<open>filesystem.cpp\<close>, which forwards every call; its functions are the
  arguments \<open>stat\<close>, \<open>read\<close> and \<open>entry_at\<close> of the operations here, and the locale \<open>file_backend\<close> states what
  the descriptors rely on.  A path array holds the characters before its terminator.
\<close>

record file_descriptor =
  fd_in_use :: bool
  fd_path :: "u8 list"
  fd_offset :: u32
  fd_size :: u32

record directory_handle =
  dh_in_use :: bool
  dh_path :: "u8 list"
  dh_next_index :: u32

record vfs_state =
  file_descriptors :: "file_descriptor list"
  directory_handles :: "directory_handle list"

record file_stat =
  fi_is_directory :: bool
  fi_size :: u32

definition kFileDescriptorCount :: nat where [kernel_const]: "kFileDescriptorCount = 64"
definition kFirstFileDescriptor :: nat where [kernel_const]: "kFirstFileDescriptor = 3"
definition kDirectoryHandleCount :: nat where [kernel_const]: "kDirectoryHandleCount = 32"
definition kPathCapacity :: nat where [kernel_const]: "kPathCapacity = 128"

definition empty_descriptor :: file_descriptor where
  "empty_descriptor = \<lparr>fd_in_use = False, fd_path = [], fd_offset = 0, fd_size = 0\<rparr>"

definition empty_handle :: directory_handle where
  "empty_handle = \<lparr>dh_in_use = False, dh_path = [], dh_next_index = 0\<rparr>"

type_synonym fs_stat = "u8 list option \<Rightarrow> status + fs_entry"
type_synonym fs_read = "u8 list option \<Rightarrow> u32 \<Rightarrow> bool \<Rightarrow> u64 \<Rightarrow> status \<times> u8 list \<times> u32"
type_synonym fs_entry_at = "u8 list option \<Rightarrow> u32 \<Rightarrow> fs_entry \<Rightarrow> status \<times> fs_entry \<times> bool"

subsection \<open>Operations\<close>

definition copy_path :: "u8 list option \<Rightarrow> u8 list option" where
  "copy_path source =
     (case source of None \<Rightarrow> None
      | Some p \<Rightarrow> if p = [] then None else if length p \<le> kPathCapacity - 1 then Some p else None)"

definition valid_file_descriptor :: "int \<Rightarrow> vfs_state \<Rightarrow> bool" where
  "valid_file_descriptor fd s =
     (if fd < int kFirstFileDescriptor \<or> fd \<ge> int kFileDescriptorCount then False
      else fd_in_use (file_descriptors s ! nat fd))"

definition valid_dir_handle :: "int \<Rightarrow> vfs_state \<Rightarrow> bool" where
  "valid_dir_handle h s =
     (if h < 0 \<or> h \<ge> int kDirectoryHandleCount then False else dh_in_use (directory_handles s ! nat h))"

definition vfs_initialize :: "vfs_state \<Rightarrow> vfs_state" where
  "vfs_initialize s = \<lparr>file_descriptors = replicate kFileDescriptorCount empty_descriptor,
     directory_handles = replicate kDirectoryHandleCount empty_handle\<rparr>"

definition vfs_stat :: "fs_stat \<Rightarrow> u8 list option \<Rightarrow> status + file_stat" where
  "vfs_stat stat path =
     (case copy_path path of None \<Rightarrow> Inl Unsupported
      | Some safe_path \<Rightarrow>
          (case stat (Some safe_path) of
             Inl status \<Rightarrow> Inl status
           | Inr entry \<Rightarrow> Inr \<lparr>fi_is_directory = e_is_directory entry, fi_size = e_size entry\<rparr>))"

definition vfs_open :: "fs_stat \<Rightarrow> u8 list option \<Rightarrow> vfs_state \<Rightarrow> status \<times> int \<times> vfs_state" where
  "vfs_open stat path s =
     (case copy_path path of None \<Rightarrow> (Unsupported, -1, s)
      | Some safe_path \<Rightarrow>
          (case vfs_stat stat (Some safe_path) of
             Inl status \<Rightarrow> (status, -1, s)
           | Inr info \<Rightarrow>
               if fi_is_directory info then (IsDirectory, -1, s)
               else case first_slot (\<lambda>d. \<not> fd_in_use d) (drop kFirstFileDescriptor (file_descriptors s)) of
                 None \<Rightarrow> (TooManyOpenFiles, -1, s)
               | Some i \<Rightarrow>
                   let fd = kFirstFileDescriptor + i
                   in (Ok, int fd, s\<lparr>file_descriptors := (file_descriptors s)[fd :=
                        \<lparr>fd_in_use = True, fd_path = safe_path, fd_offset = 0, fd_size = fi_size info\<rparr>]\<rparr>)))"

text \<open>The results of a read: the status, the bytes stored in the buffer, and \<open>bytes_read\<close>.\<close>

definition vfs_read :: "fs_read \<Rightarrow> int \<Rightarrow> bool \<Rightarrow> u64 \<Rightarrow> vfs_state \<Rightarrow> status \<times> u8 list \<times> nat \<times> vfs_state" where
  "vfs_read read fd has_buffer count s =
     (if \<not> valid_file_descriptor fd s then (InvalidDescriptor, [], 0, s)
      else let slot = file_descriptors s ! nat fd;
               (status, out, reported_size) = read (Some (fd_path slot)) (fd_offset slot) has_buffer count;
               got = length out
      in if status \<noteq> Ok then (status, out, 0, s)
      else if reported_size \<noteq> fd_size slot then (Corrupt, out, 0, s)
      else if got > unat (UINT32_MAX - fd_offset slot) then (Corrupt, out, 0, s)
      else (Ok, out, got, s\<lparr>file_descriptors := (file_descriptors s)[nat fd :=
             slot\<lparr>fd_offset := fd_offset slot + of_nat got\<rparr>]\<rparr>))"

definition vfs_close :: "int \<Rightarrow> vfs_state \<Rightarrow> status \<times> vfs_state" where
  "vfs_close fd s =
     (if \<not> valid_file_descriptor fd s then (InvalidDescriptor, s)
      else (Ok, s\<lparr>file_descriptors := (file_descriptors s)[nat fd := empty_descriptor]\<rparr>))"

definition vfs_fstat :: "int \<Rightarrow> vfs_state \<Rightarrow> status + file_stat" where
  "vfs_fstat fd s =
     (if \<not> valid_file_descriptor fd s then Inl InvalidDescriptor
      else Inr \<lparr>fi_is_directory = False, fi_size = fd_size (file_descriptors s ! nat fd)\<rparr>)"

definition vfs_opendir :: "fs_stat \<Rightarrow> u8 list option \<Rightarrow> vfs_state \<Rightarrow> status \<times> int \<times> vfs_state" where
  "vfs_opendir stat path s =
     (case copy_path path of None \<Rightarrow> (Unsupported, -1, s)
      | Some safe_path \<Rightarrow>
          (case vfs_stat stat (Some safe_path) of
             Inl status \<Rightarrow> (status, -1, s)
           | Inr info \<Rightarrow>
               if \<not> fi_is_directory info then (NotDirectory, -1, s)
               else case first_slot (\<lambda>d. \<not> dh_in_use d) (directory_handles s) of
                 None \<Rightarrow> (TooManyOpenDirectories, -1, s)
               | Some handle \<Rightarrow>
                   (Ok, int handle, s\<lparr>directory_handles := (directory_handles s)[handle :=
                      \<lparr>dh_in_use = True, dh_path = safe_path, dh_next_index = 0\<rparr>]\<rparr>)))"

text \<open>The entry the caller passes is changed only when one is returned.\<close>

definition vfs_readdir :: "fs_entry_at \<Rightarrow> int \<Rightarrow> fs_entry \<Rightarrow> vfs_state \<Rightarrow> status \<times> fs_entry \<times> bool \<times> vfs_state" where
  "vfs_readdir entry_at dir_handle entry s =
     (if \<not> valid_dir_handle dir_handle s then (InvalidHandle, entry, False, s)
      else let slot = directory_handles s ! nat dir_handle;
               (status, backend_entry, backend_end) =
                 entry_at (Some (dh_path slot)) (dh_next_index slot) \<lparr>e_name = [], e_is_directory = False, e_size = 0\<rparr>
      in if status \<noteq> Ok then (status, entry, False, s)
      else if backend_end then (Ok, entry, True, s)
      else (Ok, backend_entry, False, s\<lparr>directory_handles := (directory_handles s)[nat dir_handle :=
             slot\<lparr>dh_next_index := dh_next_index slot + 1\<rparr>]\<rparr>))"

definition vfs_closedir :: "int \<Rightarrow> vfs_state \<Rightarrow> status \<times> vfs_state" where
  "vfs_closedir dir_handle s =
     (if \<not> valid_dir_handle dir_handle s then (InvalidHandle, s)
      else (Ok, s\<lparr>directory_handles := (directory_handles s)[nat dir_handle := empty_handle]\<rparr>))"

text \<open>The mounted volume (\<^verbatim>\<open>filesystem.cpp\<close>).\<close>

definition fs_initialize :: "storage \<Rightarrow> fat32_state \<Rightarrow> bool \<times> volume_info \<times> fat32_state" where
  "fs_initialize d fs =
     (case mount d fs of
        (False, mounted_volume, fs) \<Rightarrow> (False, zero_volume, fs)
      | (True, mounted_volume, fs) \<Rightarrow> (True, mounted_volume, fs))"

definition fs_validate_name :: "u8 list option \<Rightarrow> status" where
  "fs_validate_name name =
     (case name of None \<Rightarrow> InvalidName | Some n \<Rightarrow> if valid_path_component (Some n) then Ok else InvalidName)"

subsection \<open>Sequences of calls\<close>

datatype vfs_call =
    VOpen "u8 list option" | VRead int bool u64 | VClose int | VOpendir "u8 list option" | VReaddir int fs_entry | VClosedir int

text \<open>The status and the bytes a call delivers.\<close>

fun vfs_step :: "fs_stat \<Rightarrow> fs_read \<Rightarrow> fs_entry_at \<Rightarrow> vfs_call \<Rightarrow> vfs_state \<Rightarrow> (status \<times> u8 list) \<times> vfs_state" where
  "vfs_step stat read entry_at (VOpen path) s = (let (st, fd, s) = vfs_open stat path s in ((st, []), s))"
| "vfs_step stat read entry_at (VRead fd b n) s = (let (st, out, got, s) = vfs_read read fd b n s in ((st, take got out), s))"
| "vfs_step stat read entry_at (VClose fd) s = (let (st, s) = vfs_close fd s in ((st, []), s))"
| "vfs_step stat read entry_at (VOpendir path) s = (let (st, h, s) = vfs_opendir stat path s in ((st, []), s))"
| "vfs_step stat read entry_at (VReaddir h e) s = (let (st, e, fin, s) = vfs_readdir entry_at h e s in ((st, []), s))"
| "vfs_step stat read entry_at (VClosedir h) s = (let (st, s) = vfs_closedir h s in ((st, []), s))"

text \<open>What the reads through one descriptor deliver in a sequence of calls: all statuses and all bytes in order.\<close>

fun reads_through :: "fs_stat \<Rightarrow> fs_read \<Rightarrow> fs_entry_at \<Rightarrow> int \<Rightarrow> vfs_call list \<Rightarrow> vfs_state \<Rightarrow> status list \<times> u8 list" where
  "reads_through stat read entry_at fd [] s = ([], [])"
| "reads_through stat read entry_at fd (c # cs) s =
     (let ((st, bs), s') = vfs_step stat read entry_at c s;
          (sts, rest) = reads_through stat read entry_at fd cs s'
      in case c of VRead fd' b n \<Rightarrow> if fd' = fd then (st # sts, bs @ rest) else (sts, rest) | _ \<Rightarrow> (sts, rest))"

text \<open>How many bytes the calls ask for through the descriptor, and that they neither close it nor pass a null buffer.\<close>

fun requested :: "int \<Rightarrow> vfs_call list \<Rightarrow> nat" where
  "requested fd [] = 0"
| "requested fd (c # cs) = (case c of VRead fd' b n \<Rightarrow> if fd' = fd then unat n else 0 | _ \<Rightarrow> 0) + requested fd cs"

fun keeps_open :: "int \<Rightarrow> vfs_call \<Rightarrow> bool" where
  "keeps_open fd (VClose fd') = (fd' \<noteq> fd)"
| "keeps_open fd (VRead fd' b n) = (fd' = fd \<longrightarrow> b)"
| "keeps_open fd _ = True"

definition vfs_inv :: "vfs_state \<Rightarrow> bool" where
  "vfs_inv s \<longleftrightarrow> length (file_descriptors s) = kFileDescriptorCount \<and> length (directory_handles s) = kDirectoryHandleCount"

lemma vfs_step_inv: "vfs_inv s \<Longrightarrow> vfs_inv (snd (vfs_step stat read entry_at c s))"
  by (cases c) (auto simp: vfs_inv_def vfs_open_def vfs_read_def vfs_close_def vfs_opendir_def vfs_readdir_def vfs_closedir_def Let_def
      split: option.splits sum.splits prod.splits)

text \<open>A call changes no descriptor in use, except the one it reads through or closes.\<close>

lemma vfs_step_other:
  assumes "vfs_inv s" "valid_file_descriptor fd s" "keeps_open fd c" "\<And>b n. c \<noteq> VRead fd b n"
  shows "file_descriptors (snd (vfs_step stat read entry_at c s)) ! nat fd = file_descriptors s ! nat fd"
proof (cases c)
  case (VOpen path)
  have used: "fd_in_use (file_descriptors s ! nat fd)" using assms(2) by (simp add: valid_file_descriptor_def split: if_splits)
  have "nat fd \<noteq> kFirstFileDescriptor + i" if "first_slot (\<lambda>d. \<not> fd_in_use d) (drop kFirstFileDescriptor (file_descriptors s)) = Some i" for i
    using that used by (auto simp: first_slot_Some)
  then show ?thesis by (auto simp: VOpen vfs_open_def Let_def split: option.splits sum.splits)
next
  case (VRead fd' b n)
  then have "fd' \<noteq> fd" using assms(4) by auto
  then have "valid_file_descriptor fd' s \<Longrightarrow> nat fd' \<noteq> nat fd"
    using assms(2) by (auto simp: valid_file_descriptor_def split: if_splits)
  then show ?thesis by (auto simp: VRead vfs_read_def Let_def split: prod.splits)
next
  case (VClose fd')
  then have "fd' \<noteq> fd" using assms(3) by auto
  then have "valid_file_descriptor fd' s \<Longrightarrow> nat fd' \<noteq> nat fd"
    using assms(2) by (auto simp: valid_file_descriptor_def split: if_splits)
  then show ?thesis by (auto simp: VClose vfs_close_def)
qed (auto simp: vfs_opendir_def vfs_readdir_def vfs_closedir_def Let_def split: option.splits sum.splits prod.splits)

subsection \<open>What descriptors rely on\<close>

text \<open>
  \<open>holds b p bs\<close>: the file system \<open>b\<close> has a file at path \<open>p\<close> with contents \<open>bs\<close>.
\<close>

locale file_backend =
  fixes stat_of :: "'b \<Rightarrow> fs_stat"
    and read_of :: "'b \<Rightarrow> fs_read"
    and holds :: "'b \<Rightarrow> u8 list \<Rightarrow> u8 list \<Rightarrow> bool"
  assumes stat_holds: "holds b p bs \<Longrightarrow> \<exists>e. stat_of b (Some p) = Inr e \<and> \<not> e_is_directory e \<and> unat (e_size e) = length bs"
    and read_holds: "holds b p bs \<Longrightarrow> unat off \<le> length bs \<Longrightarrow>
      read_of b (Some p) off True n = (Ok, take (unat n) (drop (unat off) bs), of_nat (length bs))"
begin

definition open_at :: "int \<Rightarrow> u8 list \<Rightarrow> u8 list \<Rightarrow> nat \<Rightarrow> vfs_state \<Rightarrow> bool" where
  "open_at fd p bs off s \<longleftrightarrow> vfs_inv s \<and> valid_file_descriptor fd s \<and> off \<le> length bs \<and> fd_path (file_descriptors s ! nat fd) = p \<and>
     unat (fd_offset (file_descriptors s ! nat fd)) = off \<and> unat (fd_size (file_descriptors s ! nat fd)) = length bs"

lemma open_reads:
  assumes "holds b p bs" "open_at fd p bs off s"
  shows "\<exists>s'. vfs_read (read_of b) fd True n s = (Ok, take (unat n) (drop off bs), min (unat n) (length bs - off), s') \<and>
    open_at fd p bs (min (off + unat n) (length bs)) s'"
proof -
  let ?slot = "file_descriptors s ! nat fd" and ?got = "min (unat n) (length bs - off)"
  have slot: "fd_path ?slot = p" "unat (fd_offset ?slot) = off" "unat (fd_size ?slot) = length bs" "off \<le> length bs"
    and fd: "valid_file_descriptor fd s" "vfs_inv s" using assms(2) by (simp_all add: open_at_def)
  have small: "length bs < 2 ^ 32" using slot(3) unat_less_32 [of "fd_size ?slot"] by simp
  have sz: "of_nat (length bs) = fd_size ?slot" unfolding slot(3) [symmetric] by simp
  have len: "min (length bs - off) (unat n) = ?got" by simp
  have "unat (- 1 - fd_offset ?slot) = 2 ^ 32 - 1 - off" using slot(2) by (subst unat_sub) simp_all
  then have room: "\<not> ?got > unat (- 1 - fd_offset ?slot)" using small slot(4) by (simp add: not_less min_le_iff_disj) linarith
  define s' where "s' = s\<lparr>file_descriptors := (file_descriptors s)[nat fd := ?slot\<lparr>fd_offset := fd_offset ?slot + of_nat ?got\<rparr>]\<rparr>"
  have "vfs_read (read_of b) fd True n s = (Ok, take (unat n) (drop off bs), ?got, s')"
    using read_holds [OF assms(1), of "fd_offset ?slot" n] slot fd room len
    by (simp add: vfs_read_def Let_def sz s'_def)
  moreover have "unat (fd_offset ?slot + of_nat ?got) = min (off + unat n) (length bs)"
  proof -
    have "unat (of_nat ?got :: u32) = ?got" using small by (intro unat_of_nat_small) simp
    then show ?thesis using slot(2,4) small by (subst unat_add_lem [THEN iffD1]) (simp_all, linarith?)
  qed
  moreover have "nat fd < length (file_descriptors s)"
    using fd by (simp add: valid_file_descriptor_def vfs_inv_def split: if_splits) linarith
  ultimately show ?thesis
    using slot fd by (intro exI [of _ s']) (simp add: open_at_def s'_def valid_file_descriptor_def vfs_inv_def split: if_splits)
qed

lemma reads_through_open:
  assumes "holds b p bs" "open_at fd p bs off s" "list_all (keeps_open fd) calls"
  shows "\<exists>sts. reads_through (stat_of b) (read_of b) entry_at fd calls s = (sts, take (requested fd calls) (drop off bs)) \<and>
    list_all (\<lambda>st. st = Ok) sts"
  using assms(2,3)
proof (induction calls arbitrary: s off)
  case (Cons c cs)
  have inv: "vfs_inv s" "valid_file_descriptor fd s" using Cons.prems(1) by (simp_all add: open_at_def)
  obtain st out s' where step: "vfs_step (stat_of b) (read_of b) entry_at c s = ((st, out), s')" by (metis prod.exhaust)
  show ?case
  proof (cases "\<exists>b n. c = VRead fd b n")
    case True
    then obtain n where c: "c = VRead fd True n" using Cons.prems(2) by auto
    have all: "take (min (unat n) (length bs - off)) (drop off bs) = take (unat n) (drop off bs)" by (simp add: min_def)
    have s': "open_at fd p bs (min (off + unat n) (length bs)) s'" "st = Ok" "out = take (unat n) (drop off bs)"
      using c all open_reads [OF assms(1) Cons.prems(1), of n] step by auto
    obtain sts where "reads_through (stat_of b) (read_of b) entry_at fd cs s' =
        (sts, take (requested fd cs) (drop (min (off + unat n) (length bs)) bs))" "list_all (\<lambda>st. st = Ok) sts"
      using Cons.IH [OF s'(1)] Cons.prems(2) by auto
    moreover have "take (unat n) (drop off bs) @ take (requested fd cs) (drop (min (off + unat n) (length bs)) bs) =
        take (unat n + requested fd cs) (drop off bs)"
      by (cases "off + unat n \<le> length bs") (simp_all add: take_add min_def add.commute)
    ultimately show ?thesis using step s' by (simp add: c)
  next
    case False
    then have "file_descriptors s' ! nat fd = file_descriptors s ! nat fd"
      using vfs_step_other [OF inv, of c "stat_of b" "read_of b" entry_at] Cons.prems(2) step by auto
    moreover have "vfs_inv s'" using vfs_step_inv [OF inv(1), of "stat_of b" "read_of b" entry_at c] step by simp
    ultimately have "open_at fd p bs off s'"
      using Cons.prems(1) by (simp add: open_at_def valid_file_descriptor_def split: if_splits)
    moreover have "reads_through (stat_of b) (read_of b) entry_at fd (c # cs) s = reads_through (stat_of b) (read_of b) entry_at fd cs s'"
      "requested fd (c # cs) = requested fd cs"
      using False step by (cases c; auto simp: Let_def split: prod.splits)+
    ultimately show ?thesis using Cons.IH [of off s'] Cons.prems(2) by simp
  qed
qed simp

lemma open_starts:
  assumes "holds b p bs" "p \<noteq> []" "length p \<le> 127" "vfs_inv s"
  shows "case first_slot (\<lambda>d. \<not> fd_in_use d) (drop kFirstFileDescriptor (file_descriptors s)) of
      None \<Rightarrow> vfs_open (stat_of b) (Some p) s = (TooManyOpenFiles, -1, s)
    | Some i \<Rightarrow> \<exists>s'. vfs_open (stat_of b) (Some p) s = (Ok, 3 + int i, s') \<and> open_at (3 + int i) p bs 0 s'"
proof -
  obtain e where e: "stat_of b (Some p) = Inr e" "\<not> e_is_directory e" "unat (e_size e) = length bs"
    using stat_holds [OF assms(1)] by blast
  have st: "copy_path (Some p) = Some p" "vfs_stat (stat_of b) (Some p) = Inr \<lparr>fi_is_directory = False, fi_size = e_size e\<rparr>"
    using assms(2,3) e by (simp_all add: copy_path_def vfs_stat_def kPathCapacity_def)
  show ?thesis
  proof (cases "first_slot (\<lambda>d. \<not> fd_in_use d) (drop kFirstFileDescriptor (file_descriptors s))")
    case None
    then show ?thesis by (simp add: vfs_open_def st)
  next
    case (Some i)
    then have "3 + i < 64" using assms(4) by (auto simp: first_slot_Some vfs_inv_def kernel_const)
    then show ?thesis
      using Some assms(4) e(3)
      by (simp add: vfs_open_def st open_at_def vfs_inv_def valid_file_descriptor_def kernel_const nat_add_distrib)
  qed
qed

end

subsection \<open>FAT32 files\<close>

text \<open>A path that names a file whose cluster chain is readable and has the length its size needs.\<close>

definition fat32_holds :: "storage \<times> fat32_state \<Rightarrow> u8 list \<Rightarrow> u8 list \<Rightarrow> bool" where
  "fat32_holds = (\<lambda>(d, fs) p bs. fs_mounted fs \<and> 0 < unat (fs_sectors_per_cluster fs) \<and> \<not> is_root_path p \<and>
     (\<exists>entry cs. resolve_entry d fs (Some p) zero_entry = (Ok, entry) \<and> \<not> de_is_directory entry \<and>
        (if de_size entry = 0 then bs = []
         else chain d fs (de_first_cluster entry) cs \<and> list_all (cluster_readable d fs) cs \<and>
           length cs = clusters_needed (512 * unat (fs_sectors_per_cluster fs)) 0 (unat (de_size entry)) \<and>
           bs = take (unat (de_size entry)) (chain_bytes d fs cs))))"

lemma fat32_holds_file:
  assumes "fat32_holds (d, fs) p bs"
  obtains entry where "fs_mounted fs" "\<not> is_root_path p" "resolve_entry d fs (Some p) zero_entry = (Ok, entry)"
    "\<not> de_is_directory entry" "unat (de_size entry) = length bs"
proof -
  obtain entry cs where e: "fs_mounted fs" "0 < unat (fs_sectors_per_cluster fs)" "\<not> is_root_path p"
      "resolve_entry d fs (Some p) zero_entry = (Ok, entry)" "\<not> de_is_directory entry"
      "de_size entry = 0 \<and> bs = [] \<or> (list_all (cluster_readable d fs) cs \<and>
         length cs = clusters_needed (512 * unat (fs_sectors_per_cluster fs)) 0 (unat (de_size entry)) \<and>
         bs = take (unat (de_size entry)) (chain_bytes d fs cs))"
    using assms by (auto simp: fat32_holds_def split: if_splits)
  have "unat (de_size entry) = length bs"
  proof (cases "de_size entry = 0 \<and> bs = []")
    case False
    then have cs: "\<forall>x\<in>set cs. cluster_readable d fs x"
        "length cs = clusters_needed (512 * unat (fs_sectors_per_cluster fs)) 0 (unat (de_size entry))"
        "bs = take (unat (de_size entry)) (chain_bytes d fs cs)" using e(6) by (auto simp: list_all_iff)
    let ?cb = "512 * unat (fs_sectors_per_cluster fs)" and ?n = "unat (de_size entry)"
    have "?n - 1 < ?cb * ((?n - 1) div ?cb + 1)" using e(2) dividend_less_times_div [of ?cb "?n - 1"] by simp
    then have "?n \<le> ?cb * ((?n - 1) div ?cb + 1)" by linarith
    then show ?thesis using cs chain_bytes_length [OF cs(1)] by (simp add: clusters_needed_def)
  qed simp
  then show thesis using that e by blast
qed

lemma fat32_reads:
  assumes "fat32_holds (d, fs) p bs" "unat off \<le> length bs"
  shows "read_file d fs (Some p) off True n = (Ok, take (unat n) (drop (unat off) bs), of_nat (length bs))"
proof -
  obtain entry where e: "fs_mounted fs" "resolve_entry d fs (Some p) zero_entry = (Ok, entry)" "\<not> de_is_directory entry"
      "unat (de_size entry) = length bs" using fat32_holds_file [OF assms(1)] by metis
  have sz: "of_nat (length bs) = de_size entry" unfolding e(4) [symmetric] by simp
  show ?thesis
  proof (cases "off \<ge> de_size entry \<or> n = 0")
    case True
    then have "take (unat n) (drop (unat off) bs) = []" using e(4) by (auto simp: word_le_nat_alt)
    then show ?thesis using True e by (simp add: read_file_def sz)
  next
    case False
    then have nz: "de_size entry \<noteq> 0" "off < de_size entry" "n \<noteq> 0" by (auto simp: not_le)
    obtain cs where cs: "0 < unat (fs_sectors_per_cluster fs)" "chain d fs (de_first_cluster entry) cs" "list_all (cluster_readable d fs) cs"
        "length cs = clusters_needed (512 * unat (fs_sectors_per_cluster fs)) 0 (unat (de_size entry))"
        "bs = take (unat (de_size entry)) (chain_bytes d fs cs)"
      using assms(1) e(2) nz(1) by (auto simp: fat32_holds_def)
    let ?cb = "512 * unat (fs_sectors_per_cluster fs)" and ?m = "min (unat (de_size entry) - unat off) (unat n)"
    have le: "unat off + ?m \<le> unat (de_size entry)" using nz(2) by (simp add: word_less_nat_alt)
    then have "clusters_needed ?cb (unat off) ?m \<le> length cs"
      unfolding cs(4) clusters_needed_def by (simp add: div_le_mono diff_le_mono)
    moreover have "unat off + ?m = unat (de_size entry) \<Longrightarrow> length cs = clusters_needed ?cb (unat off) ?m"
      unfolding cs(4) clusters_needed_def by simp
    ultimately have "read_file d fs (Some p) off True n = (Ok, take ?m (drop (unat off) (chain_bytes d fs cs)), de_size entry)"
      using read_file_result [OF e(1) cs(1) e(2,3) cs(2,3) nz(2,3) refl refl] by auto
    moreover have "take ?m (drop (unat off) (chain_bytes d fs cs)) = take (unat n) (drop (unat off) bs)"
      unfolding cs(5) by (simp add: drop_take min.commute)
    ultimately show ?thesis by (simp add: sz)
  qed
qed

interpretation fat32_files: file_backend "\<lambda>(d, fs). stat_path d fs" "\<lambda>(d, fs). read_file d fs" fat32_holds
proof (unfold_locales, goal_cases)
  case (1 b p bs)
  obtain d fs where b: "b = (d, fs)" by (rule prod.exhaust)
  show ?case using 1 unfolding b by (elim fat32_holds_file) (simp add: stat_path_def to_entry_def)
next
  case (2 b p bs off n)
  then show ?case by (cases b) (simp add: fat32_reads)
qed


text \<open>The file of the example volume, read in two pieces with another file opened and a directory read in between.\<close>

lemma demo_holds: "fat32_holds (demo_disk [], demo_fs) [0x2F, 0x61, 0x2E, 0x74, 0x78, 0x74] demo_text"
proof -
  have bytes: "chain_bytes (demo_disk []) demo_fs [3] = demo_text @ replicate 507 0"
    using demo_sectors(2) [of "[]"] by (simp add: chain_bytes_def)
  have "fs_mounted demo_fs" "fs_sectors_per_cluster demo_fs = 1" by (simp_all add: demo_fs_def)
  moreover have "chain (demo_disk []) demo_fs 3 [3]" "list_all (cluster_readable (demo_disk []) demo_fs) [3]"
    using demo_chain [of 3 "[]"] demo_readable [of 3 "[]"] by simp_all
  moreover have "resolve_entry (demo_disk []) demo_fs (Some [0x2F, 0x61, 0x2E, 0x74, 0x78, 0x74]) zero_entry = (Ok, demo_file)"
    by (rule demo_resolves)
  moreover have "demo_text = take 5 (chain_bytes (demo_disk []) demo_fs [3])" unfolding bytes by (simp add: demo_text_def)
  ultimately show ?thesis
    unfolding fat32_holds_def prod.case
    by (intro conjI exI [of _ demo_file] exI [of _ "[3]"]) (simp_all add: demo_file_def is_root_path_def at_nul_def clusters_needed_def)
qed


end
