(* ===== verification/Fat32_Write.thy ===== *)
theory Fat32_Write
  imports Fat_Table Vfs
begin

text \<open>
  The FAT32 writer (\<^verbatim>\<open>kernel/filesystem/fat32_write.cpp\<close>): directory slots, path resolution, and the operations
  that create, write, copy, move and remove files and directories, with the undo steps of their error paths.  The
  operations run in the error monad of the table theory; a name or a directory entry is a list of bytes, and a
  path is a C string (\<open>None\<close> for a null pointer) ended by a zero byte or by the end of the list.
\<close>

unbundle bit_operations_syntax

record directory_slot =
  ds_lba :: u32
  ds_offset :: u16

definition no_slot :: directory_slot where
  "no_slot = \<lparr>ds_lba = 0, ds_offset = 0\<rparr>"

record resolved_path =
  rp_parent_cluster :: u32
  rp_name :: "u8 list"
  rp_exists :: bool
  rp_slot :: directory_slot
  rp_entry :: "u8 list"

subsection \<open>Directory slots\<close>

definition directory_lba :: "bpb_geometry \<Rightarrow> u32 \<Rightarrow> nat \<Rightarrow> u32 option" where
  "directory_lba g cluster sector_index =
     (if \<not> (valid_cluster g cluster \<and> sector_index < unat (sectors_per_cluster g)) then None
      else case cluster_to_lba (first_data_lba g) (ucast (sectors_per_cluster g)) cluster of None \<Rightarrow> None
      | Some first \<Rightarrow>
      (case checked_add_u32 first (of_nat sector_index) of None \<Rightarrow> None
      | Some lba \<Rightarrow> if lba < total_sectors g then Some lba else None))"

definition valid_slot :: "bpb_geometry \<Rightarrow> directory_slot \<Rightarrow> bool" where
  "valid_slot g slot \<longleftrightarrow> ds_lba slot \<ge> first_data_lba g \<and> ds_lba slot < total_sectors g \<and>
     ds_offset slot < 512 \<and> ds_offset slot mod 32 = 0"

definition live_short_entry :: "u8 list \<Rightarrow> bool" where
  "live_short_entry entry \<longleftrightarrow> entry ! 0 \<noteq> 0 \<and> entry ! 0 \<noteq> 0xE5 \<and> entry ! 11 \<noteq> 0x0F \<and> entry ! 11 AND 0x08 = 0"

text \<open>
  What a search reports: an error, the slot and the bytes of the entry found, or, for a missing name, the first free
  slot (\<open>no_slot\<close> when there is none), whether it is the end mark, and the cluster the search ended in.
\<close>

datatype search = SearchError status | Found directory_slot "u8 list" | Missing directory_slot bool u32

record vacancy =
  have_free :: bool
  free_slot :: directory_slot
  free_is_end :: bool

definition name_matches :: "u8 list \<Rightarrow> u8 list \<Rightarrow> bool" where
  "name_matches name entry \<longleftrightarrow> list_all (\<lambda>i. ascii_upper (entry ! i) = name ! i) [0..<11]"

definition note_free :: "u32 \<Rightarrow> nat \<Rightarrow> u8 list \<Rightarrow> vacancy \<Rightarrow> vacancy" where
  "note_free lba offset entry v =
     (if (entry ! 0 = 0 \<or> entry ! 0 = 0xE5) \<and> \<not> have_free v
      then \<lparr>have_free = True, free_slot = \<lparr>ds_lba = lba, ds_offset = of_nat offset\<rparr>, free_is_end = (entry ! 0 = 0)\<rparr>
      else v)"

fun find_in_sector ::
  "u8 list \<Rightarrow> u32 \<Rightarrow> u32 \<Rightarrow> u8 list \<Rightarrow> nat list \<Rightarrow> vacancy \<Rightarrow> (vacancy, search) flow" where
  "find_in_sector name cluster lba sector [] v = Continue v"
| "find_in_sector name cluster lba sector (offset # offsets) v =
     (let entry = take 32 (drop offset sector); v = note_free lba offset entry v
      in if entry ! 0 = 0 then Stop (Missing (free_slot v) (free_is_end v) cluster)
      else if live_short_entry entry \<and> name_matches name entry
      then Stop (Found \<lparr>ds_lba = lba, ds_offset = of_nat offset\<rparr> entry)
      else find_in_sector name cluster lba sector offsets v)"

fun find_in_cluster ::
  "storage \<Rightarrow> bpb_geometry \<Rightarrow> u8 list \<Rightarrow> u32 \<Rightarrow> nat list \<Rightarrow> vacancy \<Rightarrow> (vacancy, search) flow" where
  "find_in_cluster d g name cluster [] v = Continue v"
| "find_in_cluster d g name cluster (sector_index # rest) v =
     (case directory_lba g cluster sector_index of None \<Rightarrow> Stop (SearchError Corrupt)
      | Some lba \<Rightarrow>
      (case read_sector d Test lba of None \<Rightarrow> Stop (SearchError IoError)
      | Some sector \<Rightarrow>
      (case find_in_sector name cluster lba sector entry_offsets v of
         Stop r \<Rightarrow> Stop r
       | Continue v \<Rightarrow> find_in_cluster d g name cluster rest v)))"

fun find_in_chain :: "storage \<Rightarrow> bpb_geometry \<Rightarrow> u8 list \<Rightarrow> nat \<Rightarrow> u32 \<Rightarrow> vacancy \<Rightarrow> search" where
  "find_in_chain d g name 0 cluster v = SearchError Corrupt"
| "find_in_chain d g name (Suc left) cluster v =
     (case chain_next d g cluster False of Inl step \<Rightarrow> SearchError step
      | Inr next \<Rightarrow>
      (case find_in_cluster d g name cluster [0..<unat (sectors_per_cluster g)] v of
         Stop r \<Rightarrow> r
       | Continue v \<Rightarrow>
           (case next of None \<Rightarrow> Missing (free_slot v) (free_is_end v) cluster
            | Some n \<Rightarrow> find_in_chain d g name left n v)))"

definition find_in_directory :: "storage \<Rightarrow> bpb_geometry \<Rightarrow> u32 \<Rightarrow> u8 list \<Rightarrow> search" where
  "find_in_directory d g first_cluster name =
     (if \<not> valid_cluster g first_cluster then SearchError Corrupt
      else find_in_chain d g name (unat (cluster_count g)) first_cluster
             \<lparr>have_free = False, free_slot = no_slot, free_is_end = False\<rparr>)"

definition encode_component :: "u8 list option \<Rightarrow> u8 list option" where
  "encode_component name =
     (case name of None \<Rightarrow> None
      | Some n \<Rightarrow> let len = length (takeWhile (\<lambda>c. c \<noteq> 0) (take 13 n))
          in if len < 13 then encode_short_name (Some (take len n)) else None)"

definition short_component :: "u8 list \<Rightarrow> u8 list" where
  "short_component encoded =
     takeWhile (\<lambda>c. c \<noteq> 0x20) (take 8 encoded) @
     (if encoded ! 8 \<noteq> 0x20 then 0x2E # takeWhile (\<lambda>c. c \<noteq> 0x20) (take 3 (drop 8 encoded)) else [])"

text \<open>Replace the bytes from an offset on.\<close>

definition put_bytes :: "u8 list \<Rightarrow> nat \<Rightarrow> u8 list \<Rightarrow> u8 list" where
  "put_bytes sector offset bytes = take offset sector @ bytes @ drop (offset + length bytes) sector"

text \<open>The result of storing an entry: the status, and whether a failed write is known to have left the entry alone
  (the pointer \<^verbatim>\<open>unchanged\<close>, which is null unless \<open>observe\<close>).\<close>

definition put_directory_entry ::
  "ata_write \<Rightarrow> bpb_geometry \<Rightarrow> directory_slot \<Rightarrow> u8 list \<Rightarrow> bool \<Rightarrow> storage \<Rightarrow> (status \<times> bool) \<times> storage" where
  "put_directory_entry w g slot entry observe d =
     (if \<not> valid_slot g slot then ((Corrupt, False), d)
      else case load_sector d (ds_lba slot) of Inl e \<Rightarrow> ((e, False), d)
      | Inr sector \<Rightarrow>
          let previous = take 32 (drop (unat (ds_offset slot)) sector);
              (result, d) = store_sector w (ds_lba slot) (put_bytes sector (unat (ds_offset slot)) entry) d
          in case result of Inr _ \<Rightarrow> ((Ok, False), d)
             | Inl _ \<Rightarrow>
                 ((IoError, observe \<and>
                    (case load_sector d (ds_lba slot) of Inl _ \<Rightarrow> False
                     | Inr observed \<Rightarrow> take 32 (drop (unat (ds_offset slot)) observed) = previous)), d))"

definition clear_end_marker :: "ata_write \<Rightarrow> bpb_geometry \<Rightarrow> directory_slot \<Rightarrow> unit io" where
  "clear_end_marker w g slot =
     (if \<not> valid_slot g slot then io_fail Corrupt
      else io_bind (io_ask (\<lambda>d. load_sector d (ds_lba slot))) (\<lambda>sector.
           if sector ! unat (ds_offset slot) = 0 then io_ret ()
           else store_sector w (ds_lba slot) (sector[unat (ds_offset slot) := 0])))"

fun unlinked_in_all :: "storage \<Rightarrow> bpb_geometry \<Rightarrow> u32 \<Rightarrow> u32 list \<Rightarrow> bool" where
  "unlinked_in_all d g tail [] = True"
| "unlinked_in_all d g tail (copy # copies) =
     (case read_entry d g tail copy of Inl _ \<Rightarrow> False
      | Inr raw \<Rightarrow> is_eoc raw \<and> unlinked_in_all d g tail copies)"

definition reclaim_if_unlinked :: "ata_write \<Rightarrow> fat32_state \<Rightarrow> bpb_geometry \<Rightarrow> u32 \<Rightarrow> u32 \<Rightarrow> unit io" where
  "reclaim_if_unlinked w fs g tail fresh =
     io_bind (io_ask (\<lambda>d. Inr (unlinked_in_all d g tail (fat_copies g)))) (\<lambda>free.
     if free then io_ignore (free_chain w fs fresh) else io_ret ())"

definition entry_first_cluster :: "u8 list \<Rightarrow> u32" where
  "entry_first_cluster entry = push_bit 16 (ucast (le16 entry 20 AND 0x0FFF)) OR ucast (le16 entry 26)"

definition set_first_cluster :: "u8 list \<Rightarrow> u32 \<Rightarrow> u8 list" where
  "set_first_cluster entry cluster =
     entry[20 := ucast (drop_bit 16 cluster), 21 := ucast (drop_bit 24 cluster), 26 := ucast cluster,
           27 := ucast (drop_bit 8 cluster)]"

definition is_dot_entry :: "u8 list \<Rightarrow> bool" where
  "is_dot_entry entry \<longleftrightarrow> entry ! 11 AND 0x10 \<noteq> 0 \<and>
     (entry ! 0 = 0x2E \<and> entry ! 1 = 0x20 \<or> entry ! 0 = 0x2E \<and> entry ! 1 = 0x2E) \<and>
     list_all (\<lambda>i. entry ! i = 0x20) [2..<11]"

definition is_directory_entry :: "u8 list \<Rightarrow> bool" where
  "is_directory_entry entry \<longleftrightarrow> entry ! 11 AND 0x10 \<noteq> 0"

subsection \<open>Checks before a change\<close>

fun empty_in_sector :: "u8 list \<Rightarrow> nat list \<Rightarrow> (bool, status) flow" where
  "empty_in_sector sector [] = Continue False"
| "empty_in_sector sector (offset # offsets) =
     (let entry = take 32 (drop offset sector)
      in if entry ! 0 = 0 then Continue True
      else if entry ! 0 \<noteq> 0xE5 \<and> \<not> is_dot_entry entry then Stop DirectoryNotEmpty
      else empty_in_sector sector offsets)"

text \<open>The boolean is the flag \<^verbatim>\<open>past_end_marker\<close>.\<close>

fun empty_in_cluster :: "storage \<Rightarrow> bpb_geometry \<Rightarrow> u32 \<Rightarrow> nat list \<Rightarrow> (bool, status) flow" where
  "empty_in_cluster d g cluster [] = Continue False"
| "empty_in_cluster d g cluster (sector_index # rest) =
     (case directory_lba g cluster sector_index of None \<Rightarrow> Stop Corrupt
      | Some lba \<Rightarrow>
      (case read_sector d Test lba of None \<Rightarrow> Stop IoError
      | Some sector \<Rightarrow>
      (case empty_in_sector sector entry_offsets of
         Stop r \<Rightarrow> Stop r
       | Continue True \<Rightarrow> Continue True
       | Continue False \<Rightarrow> empty_in_cluster d g cluster rest)))"

fun empty_in_chain :: "storage \<Rightarrow> bpb_geometry \<Rightarrow> nat \<Rightarrow> bool \<Rightarrow> u32 \<Rightarrow> status + unit" where
  "empty_in_chain d g 0 past_end_marker cluster = Inl Corrupt"
| "empty_in_chain d g (Suc left) past_end_marker cluster =
     (case chain_next d g cluster True of Inl step \<Rightarrow> Inl step
      | Inr next \<Rightarrow>
      (case (if past_end_marker then Continue True else empty_in_cluster d g cluster [0..<unat (sectors_per_cluster g)]) of
         Stop status \<Rightarrow> Inl status
       | Continue past_end_marker \<Rightarrow>
           (case next of None \<Rightarrow> Inr () | Some n \<Rightarrow> empty_in_chain d g left past_end_marker n)))"

definition directory_is_empty :: "storage \<Rightarrow> bpb_geometry \<Rightarrow> u32 \<Rightarrow> status + unit" where
  "directory_is_empty d g first =
     (if \<not> valid_cluster g first then Inl Corrupt else empty_in_chain d g (unat (cluster_count g)) False first)"

definition validate_directory_chain :: "storage \<Rightarrow> bpb_geometry \<Rightarrow> u32 \<Rightarrow> status + unit" where
  "validate_directory_chain d g first =
     (if \<not> valid_cluster g first then Inl Corrupt
      else case check_chain d g (unat (cluster_count g)) first of
             Inl status \<Rightarrow> Inl status | Inr True \<Rightarrow> Inr () | Inr False \<Rightarrow> Inl Corrupt)"

fun validate_links :: "storage \<Rightarrow> bpb_geometry \<Rightarrow> nat \<Rightarrow> u32 \<Rightarrow> status + unit" where
  "validate_links d g 0 cluster = Inr ()"
| "validate_links d g (Suc left) cluster =
     (case chain_next d g cluster True of Inl step \<Rightarrow> Inl step
      | Inr next \<Rightarrow>
          if (next = None) \<noteq> (left = 0) then Inl Corrupt
          else validate_links d g left (case next of None \<Rightarrow> 0 | Some n \<Rightarrow> n))"

text \<open>A file of the given size has as many clusters in its chain; \<^verbatim>\<open>write_file\<close> repeats this part of
  \<^verbatim>\<open>validate_file_chain\<close> for the file it replaces.\<close>

definition validate_size_chain :: "storage \<Rightarrow> bpb_geometry \<Rightarrow> u32 \<Rightarrow> u32 \<Rightarrow> u32 \<Rightarrow> status + unit" where
  "validate_size_chain d g cluster_bytes bytes first =
     (case file_cluster_count (ucast bytes) cluster_bytes of Inl e \<Rightarrow> Inl e
      | Inr count \<Rightarrow>
          if (count = 0) \<noteq> (first = 0) \<or> count > cluster_count g \<or> first \<noteq> 0 \<and> \<not> valid_cluster g first
          then Inl Corrupt else validate_links d g (unat count) first)"

definition validate_file_chain :: "storage \<Rightarrow> bpb_geometry \<Rightarrow> u8 list \<Rightarrow> u32 \<Rightarrow> status + unit" where
  "validate_file_chain d g entry first =
     (case checked_mul_u32 (ucast (sectors_per_cluster g)) 512 of None \<Rightarrow> Inl Corrupt
      | Some cluster_bytes \<Rightarrow> validate_size_chain d g cluster_bytes (le32 entry 28) first)"

subsection \<open>Paths\<close>

definition first_part :: "u8 list \<Rightarrow> u8 list" where
  "first_part cs = takeWhile (\<lambda>c. c \<noteq> 0x2F) cs"

definition after_first :: "u8 list \<Rightarrow> u8 list" where
  "after_first cs = dropWhile (\<lambda>c. c \<noteq> 0x2F) cs"

lemma after_first_shorter: "after_first cs = c # rest \<Longrightarrow> length rest < length cs"
  using length_dropWhile_le [of "\<lambda>c. c \<noteq> 0x2F" cs] by (simp add: after_first_def)

function components_valid :: "u8 list \<Rightarrow> bool" where
  "components_valid cs \<longleftrightarrow> encode_short_name (Some (first_part cs)) \<noteq> None \<and>
     (case after_first cs of [] \<Rightarrow> True | _ # rest \<Rightarrow> rest \<noteq> [] \<and> components_valid rest)"
  by pat_completeness auto
termination
  by (relation "measure length") (auto dest: after_first_shorter)

function resolve_components :: "storage \<Rightarrow> bpb_geometry \<Rightarrow> u8 list \<Rightarrow> u32 \<Rightarrow> status + resolved_path" where
  "resolve_components d g cs parent =
     (case encode_short_name (Some (first_part cs)) of None \<Rightarrow> Inl InvalidName
      | Some encoded \<Rightarrow>
      (case after_first cs of
         [] \<Rightarrow>
           (case find_in_directory d g parent encoded of
              SearchError e \<Rightarrow> Inl e
            | Found slot entry \<Rightarrow> Inr \<lparr>rp_parent_cluster = parent, rp_name = encoded, rp_exists = True, rp_slot = slot, rp_entry = entry\<rparr>
            | Missing _ _ _ \<Rightarrow> Inr \<lparr>rp_parent_cluster = parent, rp_name = encoded, rp_exists = False, rp_slot = no_slot,
                rp_entry = replicate 32 0\<rparr>)
       | _ # rest \<Rightarrow>
           (case find_in_directory d g parent encoded of
              SearchError e \<Rightarrow> Inl e
            | Missing _ _ _ \<Rightarrow> Inl NotFound
            | Found slot entry \<Rightarrow>
                if \<not> is_directory_entry entry then Inl NotDirectory
                else let child = push_bit 16 (ucast (le16 entry 20)) OR ucast (le16 entry 26)
                in if \<not> valid_cluster g child then Inl Corrupt
                else resolve_components d g rest child)))"
  by pat_completeness auto
termination
  by (relation "measure (\<lambda>(d, g, cs, parent). length cs)") (auto dest: after_first_shorter)

definition resolve_path :: "storage \<Rightarrow> fat32_state \<Rightarrow> u8 list option \<Rightarrow> status + resolved_path" where
  "resolve_path d fs path =
     (case path of None \<Rightarrow> Inl InvalidName
      | Some p \<Rightarrow>
      let len = length (takeWhile (\<lambda>c. c \<noteq> 0) (take kPathCapacity p)); cs = take len p
      in if len = 0 \<or> len = kPathCapacity then Inl InvalidName
      else let cs = (if hd cs = 0x2F then tl cs else cs)
      in if cs = [] then Inl InvalidName
      else if \<not> components_valid cs then Inl InvalidName
      else case geometry_for_write fs of Inl ready \<Rightarrow> Inl ready
      | Inr g \<Rightarrow> resolve_components d g cs (root_cluster g))"

declare components_valid.simps [simp del] and resolve_components.simps [simp del]

subsection \<open>Directory entries\<close>

definition find_directory_entry :: "storage \<Rightarrow> fat32_state \<Rightarrow> u32 \<Rightarrow> u8 list option \<Rightarrow> status + directory_slot \<times> u8 list" where
  "find_directory_entry d fs directory_cluster name =
     (case encode_component name of None \<Rightarrow> Inl InvalidName
      | Some encoded \<Rightarrow>
      (case geometry_for_write fs of Inl ready \<Rightarrow> Inl ready
      | Inr g \<Rightarrow>
      (case find_in_directory d g directory_cluster encoded of
         SearchError e \<Rightarrow> Inl e | Missing _ _ _ \<Rightarrow> Inl NotFound | Found slot entry \<Rightarrow> Inr (slot, entry))))"

definition read_directory_slot :: "storage \<Rightarrow> fat32_state \<Rightarrow> directory_slot \<Rightarrow> status + u8 list" where
  "read_directory_slot d fs slot =
     (case geometry_for_write fs of Inl ready \<Rightarrow> Inl ready
      | Inr g \<Rightarrow>
          if \<not> valid_slot g slot then Inl Corrupt
          else (case load_sector d (ds_lba slot) of Inl e \<Rightarrow> Inl e
                | Inr sector \<Rightarrow> Inr (take 32 (drop (unat (ds_offset slot)) sector))))"

text \<open>Store an entry without asking what a failed write left behind.\<close>

definition replace_directory_entry :: "ata_write \<Rightarrow> bpb_geometry \<Rightarrow> directory_slot \<Rightarrow> u8 list \<Rightarrow> unit io" where
  "replace_directory_entry w g slot entry d =
     (let ((status, _), d) = put_directory_entry w g slot entry False d in (if status = Ok then Inr () else Inl status, d))"

definition update_directory_entry :: "ata_write \<Rightarrow> fat32_state \<Rightarrow> directory_slot \<Rightarrow> u8 list \<Rightarrow> u32 \<Rightarrow> u32 \<Rightarrow> unit io" where
  "update_directory_entry w fs slot name first_cluster bytes =
     (case geometry_for_write fs of Inl ready \<Rightarrow> io_fail ready
      | Inr g \<Rightarrow>
          if first_cluster \<noteq> 0 \<and> \<not> valid_cluster g first_cluster then io_fail Corrupt
          else io_bind (io_ask (\<lambda>d. read_directory_slot d fs slot)) (\<lambda>entry.
               if \<not> live_short_entry entry then io_fail NotFound
               else let entry = take 11 name @ drop 11 entry;
                        entry = entry[20 := ucast (drop_bit 16 first_cluster),
                                      21 := (entry ! 21 AND 0xF0) OR (ucast (drop_bit 24 first_cluster) AND 0x0F),
                                      26 := ucast first_cluster, 27 := ucast (drop_bit 8 first_cluster)]
                    in replace_directory_entry w g slot (put32 entry 28 bytes)))"

definition delete_directory_entry :: "ata_write \<Rightarrow> fat32_state \<Rightarrow> directory_slot \<Rightarrow> unit io" where
  "delete_directory_entry w fs slot =
     io_bind (io_ask (\<lambda>d. read_directory_slot d fs slot)) (\<lambda>entry.
     if \<not> live_short_entry entry then io_fail NotFound
     else case geometry_for_write fs of Inl ready \<Rightarrow> io_fail ready
          | Inr g \<Rightarrow> replace_directory_entry w g slot (entry[0 := 0xE5]))"

text \<open>Whether a free slot needs a new cluster behind it, and where the end mark moves (\<open>no_slot\<close> if it does not).\<close>

definition plan_end_marker ::
  "storage \<Rightarrow> bpb_geometry \<Rightarrow> directory_slot \<Rightarrow> bool \<Rightarrow> u32 \<Rightarrow> status + bool \<times> directory_slot" where
  "plan_end_marker d g vacant vacant_is_end tail =
     (let need_growth = (ds_lba vacant = 0)
      in if \<not> vacant_is_end then Inr (need_growth, no_slot)
      else if ds_offset vacant < 512 - 32
      then Inr (need_growth, \<lparr>ds_lba = ds_lba vacant, ds_offset = ds_offset vacant + 32\<rparr>)
      else let sector_index = (ds_lba vacant - first_data_lba g) mod ucast (sectors_per_cluster g)
      in if sector_index + 1 < ucast (sectors_per_cluster g)
      then Inr (need_growth, \<lparr>ds_lba = ds_lba vacant + 1, ds_offset = 0\<rparr>)
      else case chain_next d g tail False of Inl step \<Rightarrow> Inl step
      | Inr None \<Rightarrow> Inr (True, no_slot)
      | Inr (Some next) \<Rightarrow>
          (case chain_next d g next False of Inl check \<Rightarrow> Inl check
           | Inr _ \<Rightarrow>
               (case directory_lba g next 0 of None \<Rightarrow> Inl Corrupt
                | Some lba \<Rightarrow> Inr (need_growth, \<lparr>ds_lba = lba, ds_offset = 0\<rparr>))))"

fun clear_cluster :: "ata_write \<Rightarrow> bpb_geometry \<Rightarrow> u32 \<Rightarrow> nat list \<Rightarrow> unit io" where
  "clear_cluster w g cluster [] = io_ret ()"
| "clear_cluster w g cluster (i # rest) =
     (case directory_lba g cluster i of None \<Rightarrow> io_fail Corrupt
      | Some lba \<Rightarrow> io_bind (store_sector w lba (replicate 512 0)) (\<lambda>_. clear_cluster w g cluster rest))"

definition grow_directory :: "ata_write \<Rightarrow> fat32_state \<Rightarrow> bpb_geometry \<Rightarrow> u32 \<Rightarrow> u32 io" where
  "grow_directory w fs g tail =
     io_bind (allocate_chain w fs 1) (\<lambda>fresh.
     io_try (clear_cluster w g fresh [0..<unat (sectors_per_cluster g)])
       (\<lambda>status. io_bind (io_ignore (free_chain w fs fresh)) (\<lambda>_. io_fail status)) (\<lambda>_.
     io_try (write_fat_entry w fs fresh 0x0FFFFFFF)
       (\<lambda>status. io_bind (io_ignore (free_chain w fs fresh)) (\<lambda>_. io_fail status)) (\<lambda>_.
     io_try (write_fat_entry w fs tail fresh)
       (\<lambda>status. io_bind (reclaim_if_unlinked w fs g tail fresh) (\<lambda>_. io_fail status)) (\<lambda>_.
     io_ret fresh))))"

text \<open>The slot to fill and the cluster added for it, 0 if none was.\<close>

definition prepare_slot ::
  "ata_write \<Rightarrow> fat32_state \<Rightarrow> bpb_geometry \<Rightarrow> directory_slot \<Rightarrow> bool \<Rightarrow> u32 \<Rightarrow> bool \<Rightarrow> directory_slot \<Rightarrow> (directory_slot \<times> u32) io" where
  "prepare_slot w fs g vacant vacant_is_end tail need_growth next_marker =
     (if need_growth
      then io_bind (grow_directory w fs g tail) (\<lambda>fresh.
           case directory_lba g fresh 0 of None \<Rightarrow> io_fail Corrupt
           | Some lba \<Rightarrow> io_ret (if ds_lba vacant = 0 then \<lparr>ds_lba = lba, ds_offset = 0\<rparr> else vacant, fresh))
      else if vacant_is_end then io_bind (clear_end_marker w g next_marker) (\<lambda>_. io_ret (vacant, 0))
      else io_ret (vacant, 0))"

text \<open>The results: an error or the slot used, and the flag \<^verbatim>\<open>definitely_unpublished\<close>.\<close>

definition publish_entry ::
  "ata_write \<Rightarrow> fat32_state \<Rightarrow> bpb_geometry \<Rightarrow> u32 \<Rightarrow> u8 list \<Rightarrow> directory_slot \<Rightarrow> u32 \<Rightarrow> storage \<Rightarrow>
     ((status + directory_slot) \<times> bool) \<times> storage" where
  "publish_entry w fs g tail published vacant fresh d =
     (let ((publish, unchanged), d) = put_directory_entry w g vacant published True d
      in if publish \<noteq> Ok
      then ((Inl IoError, unchanged),
            if fresh \<noteq> 0 \<and> unchanged
            then snd (io_bind (write_fat_entry w fs tail 0x0FFFFFFF) (\<lambda>_. free_chain w fs fresh) d) else d)
      else ((Inr vacant, False), d))"

definition create_directory_entry ::
  "ata_write \<Rightarrow> fat32_state \<Rightarrow> u32 \<Rightarrow> u8 list option \<Rightarrow> u8 list \<Rightarrow> storage \<Rightarrow> ((status + directory_slot) \<times> bool) \<times> storage" where
  "create_directory_entry w fs directory_cluster name entry d =
     (case encode_component name of None \<Rightarrow> ((Inl InvalidName, True), d)
      | Some encoded \<Rightarrow>
      (case geometry_for_write fs of Inl ready \<Rightarrow> ((Inl ready, True), d)
      | Inr g \<Rightarrow>
      (case find_in_directory d g directory_cluster encoded of
         Found _ _ \<Rightarrow> ((Inl AlreadyExists, True), d)
       | SearchError e \<Rightarrow> ((Inl e, True), d)
       | Missing vacant vacant_is_end tail \<Rightarrow>
      (case plan_end_marker d g vacant vacant_is_end tail of Inl e \<Rightarrow> ((Inl e, True), d)
      | Inr (need_growth, next_marker) \<Rightarrow>
      (case prepare_slot w fs g vacant vacant_is_end tail need_growth next_marker d of
         (Inl e, d) \<Rightarrow> ((Inl e, True), d)
       | (Inr (vacant, fresh), d) \<Rightarrow> publish_entry w fs g tail (encoded @ drop 11 entry) vacant fresh d)))))"

subsection \<open>The public operations\<close>

definition create_entry :: "ata_write \<Rightarrow> fat32_state \<Rightarrow> u32 \<Rightarrow> u8 list \<Rightarrow> u8 list \<Rightarrow> directory_slot io" where
  "create_entry w fs parent name entry d =
     (let ((result, _), d) = create_directory_entry w fs parent (Some (short_component name)) entry d in (result, d))"

definition touch :: "ata_write \<Rightarrow> fat32_state \<Rightarrow> u8 list option \<Rightarrow> unit io" where
  "touch w fs path =
     io_bind (io_ask (\<lambda>d. resolve_path d fs path)) (\<lambda>resolved.
     if rp_exists resolved
     then if is_directory_entry (rp_entry resolved) then io_fail IsDirectory else io_ret ()
     else io_bind (create_entry w fs (rp_parent_cluster resolved) (rp_name resolved) ((replicate 32 0)[11 := 0x20])) (\<lambda>_. io_ret ()))"

text \<open>Publish the entry of a fresh chain.  When the entry is certainly not in the directory the chain is freed again.\<close>

definition publish_fresh :: "ata_write \<Rightarrow> fat32_state \<Rightarrow> u8 list option \<Rightarrow> resolved_path \<Rightarrow> u8 list \<Rightarrow> u32 \<Rightarrow> unit io" where
  "publish_fresh w fs path resolved entry fresh d =
     (case create_directory_entry w fs (rp_parent_cluster resolved) (Some (short_component (rp_name resolved))) entry d of
        ((Inr _, _), d) \<Rightarrow> (Inr (), d)
      | ((Inl status, definitely_unpublished), d) \<Rightarrow>
          if definitely_unpublished \<and> fresh \<noteq> 0 \<and>
             (case resolve_path d fs path of Inl _ \<Rightarrow> False | Inr observed \<Rightarrow> \<not> rp_exists observed)
          then io_try (free_chain w fs fresh) (\<lambda>_. io_fail IoError) (\<lambda>_. io_fail status) d
          else (Inl status, d))"

definition dot_entry :: "u8 list \<Rightarrow> u32 \<Rightarrow> u8 list" where
  "dot_entry name cluster = set_first_cluster (name @ replicate (11 - length name) 0x20 @ [0x10] @ replicate 20 0) cluster"

definition prepare_directory :: "ata_write \<Rightarrow> bpb_geometry \<Rightarrow> u32 \<Rightarrow> u32 \<Rightarrow> unit io" where
  "prepare_directory w g fresh parent =
     io_bind (clear_cluster w g fresh [0..<unat (sectors_per_cluster g)]) (\<lambda>_.
     case directory_lba g fresh 0 of None \<Rightarrow> io_fail Corrupt
     | Some lba \<Rightarrow> store_sector w lba
         (dot_entry [0x2E] fresh @ dot_entry [0x2E, 0x2E] (if parent = root_cluster g then 0 else parent) @ replicate 448 0))"

definition mkdir :: "ata_write \<Rightarrow> fat32_state \<Rightarrow> u8 list option \<Rightarrow> unit io" where
  "mkdir w fs path =
     io_bind (io_ask (\<lambda>d. resolve_path d fs path)) (\<lambda>resolved.
     if rp_exists resolved then io_fail AlreadyExists
     else io_bind (io_ask (\<lambda>d. geometry_for_write fs)) (\<lambda>g.
     io_bind (allocate_chain w fs 1) (\<lambda>fresh.
     io_try (prepare_directory w g fresh (rp_parent_cluster resolved))
       (\<lambda>status. io_try (free_chain w fs fresh) (\<lambda>_. io_fail IoError) (\<lambda>_. io_fail status)) (\<lambda>_.
     publish_fresh w fs path resolved (set_first_cluster ((replicate 32 0)[11 := 0x10]) fresh) fresh))))"

text \<open>\<^verbatim>\<open>first == 0 || free_chain(first) == Ok ? Ok : IoError\<close>\<close>

definition drop_chain :: "ata_write \<Rightarrow> fat32_state \<Rightarrow> u32 \<Rightarrow> unit io" where
  "drop_chain w fs first =
     (if first = 0 then io_ret () else io_try (free_chain w fs first) (\<lambda>_. io_fail IoError) (\<lambda>_. io_ret ()))"

definition remove_path :: "ata_write \<Rightarrow> fat32_state \<Rightarrow> u8 list option \<Rightarrow> unit io" where
  "remove_path w fs path =
     io_bind (io_ask (\<lambda>d. resolve_path d fs path)) (\<lambda>resolved.
     if \<not> rp_exists resolved then io_fail NotFound
     else io_bind (io_ask (\<lambda>d. geometry_for_write fs)) (\<lambda>g.
     let first = entry_first_cluster (rp_entry resolved)
     in io_bind (io_ask (\<lambda>d. if is_directory_entry (rp_entry resolved) then directory_is_empty d g first
                             else validate_file_chain d g (rp_entry resolved) first)) (\<lambda>_.
        io_bind (delete_directory_entry w fs (rp_slot resolved)) (\<lambda>_.
        drop_chain w fs first))))"

subsection \<open>File contents\<close>

definition padded_sector :: "u8 list \<Rightarrow> u8 list" where
  "padded_sector data = take 512 data @ replicate (512 - length (take 512 data)) 0"

text \<open>The list is the data not yet written; its length is the variable \<^verbatim>\<open>remaining\<close>.\<close>

fun write_cluster :: "ata_write \<Rightarrow> bpb_geometry \<Rightarrow> u32 \<Rightarrow> nat list \<Rightarrow> u8 list \<Rightarrow> u8 list io" where
  "write_cluster w g cluster [] data = io_ret data"
| "write_cluster w g cluster (sector_index # rest) data =
     (if data = [] then io_ret data
      else case directory_lba g cluster sector_index of None \<Rightarrow> io_fail Corrupt
      | Some lba \<Rightarrow> io_bind (store_sector w lba (padded_sector data)) (\<lambda>_.
          write_cluster w g cluster rest (drop 512 data)))"

fun write_clusters :: "ata_write \<Rightarrow> bpb_geometry \<Rightarrow> nat \<Rightarrow> u32 \<Rightarrow> u8 list \<Rightarrow> u8 list io" where
  "write_clusters w g 0 cluster data = io_ret data"
| "write_clusters w g (Suc left) cluster data =
     io_bind (write_cluster w g cluster [0..<unat (sectors_per_cluster g)] data) (\<lambda>data.
     if 0 < left
     then io_bind (io_ask (\<lambda>d. chain_next d g cluster False)) (\<lambda>next.
          case next of None \<Rightarrow> io_fail Corrupt | Some n \<Rightarrow> write_clusters w g left n data)
     else io_ret data)"

definition file_entry :: "u8 list \<Rightarrow> u32 \<Rightarrow> u32 \<Rightarrow> u8 list" where
  "file_entry name first_cluster bytes =
     put32 (set_first_cluster (take 11 name @ [0x20] @ replicate 20 0) first_cluster) 28 bytes"

text \<open>The entry of a written file: replaced in its slot, or created.\<close>

definition publish_file :: "ata_write \<Rightarrow> fat32_state \<Rightarrow> u8 list option \<Rightarrow> resolved_path \<Rightarrow> u32 \<Rightarrow> u32 \<Rightarrow> unit io" where
  "publish_file w fs path resolved fresh bytes =
     (if rp_exists resolved
      then io_try (update_directory_entry w fs (rp_slot resolved) (rp_name resolved) fresh bytes)
             (\<lambda>status. io_bind (io_ask (\<lambda>d. Inr (read_directory_slot d fs (rp_slot resolved)))) (\<lambda>observed.
                if observed = Inr (rp_entry resolved)
                then io_try (free_chain w fs fresh) (\<lambda>_. io_fail IoError) (\<lambda>_. io_fail status)
                else io_fail status))
             io_ret
      else publish_fresh w fs path resolved (file_entry (rp_name resolved) fresh bytes) fresh)"

definition write_file :: "ata_write \<Rightarrow> fat32_state \<Rightarrow> u8 list option \<Rightarrow> u8 list option \<Rightarrow> u64 \<Rightarrow> unit io" where
  "write_file w fs path data bytes =
     (if bytes > 0xFFFFFFFF then io_fail Unsupported
      else if bytes \<noteq> 0 \<and> data = None then io_fail Unsupported
      else let contents = (case data of None \<Rightarrow> [] | Some bs \<Rightarrow> take (unat bytes) bs)
      in io_bind (io_ask (\<lambda>d. resolve_path d fs path)) (\<lambda>resolved.
      if rp_exists resolved \<and> is_directory_entry (rp_entry resolved) then io_fail IsDirectory
      else io_bind (io_ask (\<lambda>d. geometry_for_write fs)) (\<lambda>g.
      case checked_mul_u32 (ucast (sectors_per_cluster g)) 512 of None \<Rightarrow> io_fail Corrupt
      | Some cluster_bytes \<Rightarrow>
      io_bind (io_ask (\<lambda>d. file_cluster_count bytes cluster_bytes)) (\<lambda>clusters.
      let old_cluster = (if rp_exists resolved then entry_first_cluster (rp_entry resolved) else 0)
      in io_bind (io_ask (\<lambda>d. if rp_exists resolved
                    then validate_size_chain d g cluster_bytes (le32 (rp_entry resolved) 28) old_cluster else Inr ())) (\<lambda>_.
         io_bind (allocate_chain w fs clusters) (\<lambda>fresh.
         io_try (io_bind (write_clusters w g (unat clusters) fresh contents) (\<lambda>rest.
                   if rest \<noteq> [] then io_fail Corrupt else io_ret ()))
           (release_chain w fs fresh) (\<lambda>_.
         io_bind (publish_file w fs path resolved fresh (ucast bytes)) (\<lambda>_.
         drop_chain w fs old_cluster))))))))"

fun copy_cluster :: "ata_write \<Rightarrow> bpb_geometry \<Rightarrow> u32 \<Rightarrow> u32 \<Rightarrow> nat list \<Rightarrow> nat \<Rightarrow> nat io" where
  "copy_cluster w g source_cluster target_cluster [] remaining = io_ret remaining"
| "copy_cluster w g source_cluster target_cluster (sector_index # rest) remaining =
     (if remaining = 0 then io_ret remaining
      else case directory_lba g source_cluster sector_index of None \<Rightarrow> io_fail Corrupt
      | Some source_lba \<Rightarrow>
      (case directory_lba g target_cluster sector_index of None \<Rightarrow> io_fail Corrupt
      | Some target_lba \<Rightarrow>
      io_bind (io_ask (\<lambda>d. load_sector d source_lba)) (\<lambda>sector.
      io_bind (store_sector w target_lba (padded_sector (take (min remaining 512) sector))) (\<lambda>_.
      copy_cluster w g source_cluster target_cluster rest (remaining - min remaining 512)))))"

fun copy_clusters :: "ata_write \<Rightarrow> bpb_geometry \<Rightarrow> nat \<Rightarrow> u32 \<Rightarrow> u32 \<Rightarrow> nat \<Rightarrow> nat io" where
  "copy_clusters w g 0 source_cluster target_cluster remaining = io_ret remaining"
| "copy_clusters w g (Suc left) source_cluster target_cluster remaining =
     io_bind (copy_cluster w g source_cluster target_cluster [0..<unat (sectors_per_cluster g)] remaining) (\<lambda>remaining.
     io_bind (io_ask (\<lambda>d. chain_next d g source_cluster True)) (\<lambda>source_next.
     io_bind (io_ask (\<lambda>d. chain_next d g target_cluster True)) (\<lambda>target_next.
     if (source_next = None) \<noteq> (left = 0) \<or> (target_next = None) \<noteq> (left = 0) then io_fail Corrupt
     else copy_clusters w g left (case source_next of None \<Rightarrow> 0 | Some n \<Rightarrow> n)
            (case target_next of None \<Rightarrow> 0 | Some n \<Rightarrow> n) remaining)))"

definition copy_file :: "ata_write \<Rightarrow> fat32_state \<Rightarrow> u8 list option \<Rightarrow> u8 list option \<Rightarrow> unit io" where
  "copy_file w fs source destination =
     io_bind (io_ask (\<lambda>d. resolve_path d fs source)) (\<lambda>from.
     if \<not> rp_exists from then io_fail NotFound
     else if is_directory_entry (rp_entry from) then io_fail IsDirectory
     else io_bind (io_ask (\<lambda>d. resolve_path d fs destination)) (\<lambda>to.
     if rp_exists to then io_fail AlreadyExists
     else io_bind (io_ask (\<lambda>d. geometry_for_write fs)) (\<lambda>g.
     case checked_mul_u32 (ucast (sectors_per_cluster g)) 512 of None \<Rightarrow> io_fail Corrupt
     | Some cluster_bytes \<Rightarrow>
     let bytes = le32 (rp_entry from) 28; source_first = entry_first_cluster (rp_entry from)
     in io_bind (io_ask (\<lambda>d. file_cluster_count (ucast bytes) cluster_bytes)) (\<lambda>clusters.
        if clusters > cluster_count g then io_fail Corrupt
        else io_bind (io_ask (\<lambda>d. validate_file_chain d g (rp_entry from) source_first)) (\<lambda>_.
        io_bind (allocate_chain w fs clusters) (\<lambda>fresh.
        io_try (io_bind (copy_clusters w g (unat clusters) source_first fresh (unat bytes)) (\<lambda>remaining.
                  if remaining \<noteq> 0 then io_fail Corrupt else io_ret ()))
          (release_chain w fs fresh) (\<lambda>_.
        publish_fresh w fs destination to (file_entry (rp_name to) fresh bytes) fresh)))))))"

text \<open>The last two steps of a move between directories: the old entry is marked deleted; if that fails and the entry is
  still there, the new entry is taken back.\<close>

definition retire_source :: "ata_write \<Rightarrow> fat32_state \<Rightarrow> bpb_geometry \<Rightarrow> resolved_path \<Rightarrow> directory_slot \<Rightarrow> unit io" where
  "retire_source w fs g from published d =
     (let ((status, source_unchanged), d) = put_directory_entry w g (rp_slot from) ((rp_entry from)[0 := 0xE5]) True d
      in if status = Ok then (Inr (), d)
      else (Inl IoError, if source_unchanged then snd (delete_directory_entry w fs published d) else d))"

definition move_path :: "ata_write \<Rightarrow> fat32_state \<Rightarrow> u8 list option \<Rightarrow> u8 list option \<Rightarrow> unit io" where
  "move_path w fs source destination =
     io_bind (io_ask (\<lambda>d. resolve_path d fs source)) (\<lambda>from.
     if \<not> rp_exists from then io_fail NotFound
     else io_bind (io_ask (\<lambda>d. resolve_path d fs destination)) (\<lambda>to.
     if rp_exists to then io_fail AlreadyExists
     else io_bind (io_ask (\<lambda>d. geometry_for_write fs)) (\<lambda>g.
     let directory = is_directory_entry (rp_entry from); same_parent = (rp_parent_cluster from = rp_parent_cluster to);
         first = entry_first_cluster (rp_entry from)
     in if directory \<and> \<not> same_parent then io_fail Unsupported
     else io_bind (io_ask (\<lambda>d. if directory then validate_directory_chain d g first
                              else validate_file_chain d g (rp_entry from) first)) (\<lambda>_.
     if same_parent then replace_directory_entry w g (rp_slot from) (take 11 (rp_name to) @ drop 11 (rp_entry from))
     else io_bind (create_entry w fs (rp_parent_cluster to) (rp_name to) (rp_entry from)) (\<lambda>published.
          retire_source w fs g from published)))))"

subsection \<open>Confinement to the volume\<close>

definition volume_region :: "bpb_geometry \<Rightarrow> u32 set" where
  "volume_region g = {lba. fat_begin_lba g \<le> lba \<and> lba < total_sectors g}"

definition data_region :: "bpb_geometry \<Rightarrow> u32 set" where
  "data_region g = {lba. first_data_lba g \<le> lba \<and> lba < total_sectors g}"

lemma directory_lba_region: "directory_lba g cluster i = Some lba \<Longrightarrow> lba \<in> data_region g"
  by (auto simp: directory_lba_def data_region_def checked_add_Some cluster_to_lba_Some unat_le_iff split: if_splits option.splits)

lemma touches_put_directory_entry:
  assumes "honest_drive w"
  shows "touches (data_region g) (put_directory_entry w g slot entry observe)"
  unfolding touches_def
proof
  fix d
  show "changed_only (data_region g) d (snd (put_directory_entry w g slot entry observe d))"
  proof (cases "valid_slot g slot")
    case True
    then have "ds_lba slot \<in> data_region g" by (simp add: valid_slot_def data_region_def)
    then have "changed_only (data_region g) d (snd (store_sector w (ds_lba slot) sector d))" for sector
      using touches_store [OF assms] unfolding touches_def by blast
    then show ?thesis
      by (auto simp: put_directory_entry_def Let_def split: sum.splits prod.splits) (metis snd_conv)+
  qed (simp add: put_directory_entry_def)
qed

lemma touches_replace_directory_entry: "honest_drive w \<Longrightarrow> touches (data_region g) (replace_directory_entry w g slot entry)"
  using touches_put_directory_entry [of w g slot entry False]
  by (auto simp: touches_def replace_directory_entry_def case_prod_beta Let_def)

lemma touches_update_directory_entry: "honest_drive w \<Longrightarrow> touches (data_region (fs_bpb fs)) (update_directory_entry w fs slot name c bytes)"
  by (auto simp: update_directory_entry_def Let_def geometry_for_write_Inr intro!: touch_rules touches_replace_directory_entry split: sum.split)

lemma touches_delete_directory_entry:
  assumes "honest_drive w"
  shows "touches (data_region (fs_bpb fs)) (delete_directory_entry w fs slot)"
proof -
  have "touches (data_region (fs_bpb fs)) (case geometry_for_write fs of Inl ready \<Rightarrow> io_fail ready
      | Inr g \<Rightarrow> replace_directory_entry w g slot entry)" for entry
    using touches_replace_directory_entry [OF assms] by (auto simp: geometry_for_write_Inr intro: touch_rules split: sum.split)
  then show ?thesis unfolding delete_directory_entry_def by (intro touch_rules)
qed

lemma touches_clear_end_marker: "honest_drive w \<Longrightarrow> touches (data_region g) (clear_end_marker w g slot)"
  by (auto simp: clear_end_marker_def valid_slot_def data_region_def intro!: touch_rules touches_store)

lemma touches_clear_cluster: "honest_drive w \<Longrightarrow> touches (data_region g) (clear_cluster w g c is)"
  by (induction "is") (auto intro!: touch_rules touches_store directory_lba_region split: option.split)

lemma touches_write_cluster: "honest_drive w \<Longrightarrow> touches (data_region g) (write_cluster w g c is data)"
  by (induction "is" arbitrary: data) (auto intro!: touch_rules touches_store directory_lba_region split: option.split)

lemma touches_write_clusters: "honest_drive w \<Longrightarrow> touches (data_region g) (write_clusters w g n c data)"
  by (induction n arbitrary: c data) (auto intro!: touch_rules touches_write_cluster split: option.split)

lemma touches_copy_cluster: "honest_drive w \<Longrightarrow> touches (data_region g) (copy_cluster w g c c' is n)"
  by (induction "is" arbitrary: n) (auto intro!: touch_rules touches_store directory_lba_region split: option.split)

lemma touches_copy_clusters: "honest_drive w \<Longrightarrow> touches (data_region g) (copy_clusters w g k c c' n)"
  by (induction k arbitrary: c c' n) (auto intro!: touch_rules touches_copy_cluster split: option.split)

lemma touches_prepare_directory: "honest_drive w \<Longrightarrow> touches (data_region g) (prepare_directory w g c c')"
  by (auto simp: prepare_directory_def intro!: touch_rules touches_clear_cluster touches_store directory_lba_region split: option.split)

lemma regions_in_volume:
  assumes "geometry_ok disk g"
  shows "fat_region g \<subseteq> volume_region g" "data_region g \<subseteq> volume_region g"
  using assms by (auto simp: fat_region_def volume_region_def data_region_def geometry_ok_def unat_le_iff)

lemma touches_volume:
  assumes "honest_drive w" "geometry_ok disk (fs_bpb fs)"
  shows "touches (volume_region (fs_bpb fs)) (free_chain w fs c)" "touches (volume_region (fs_bpb fs)) (allocate_chain w fs n)"
    "touches (volume_region (fs_bpb fs)) (write_fat_entry w fs c v)" "touches (volume_region (fs_bpb fs)) (release_chain w fs c status)"
    "touches (volume_region (fs_bpb fs)) (put_directory_entry w (fs_bpb fs) slot entry observe)"
    "touches (volume_region (fs_bpb fs)) (replace_directory_entry w (fs_bpb fs) slot entry)"
    "touches (volume_region (fs_bpb fs)) (update_directory_entry w fs slot name c bytes)"
    "touches (volume_region (fs_bpb fs)) (delete_directory_entry w fs slot)"
    "touches (volume_region (fs_bpb fs)) (clear_end_marker w (fs_bpb fs) slot)"
    "touches (volume_region (fs_bpb fs)) (clear_cluster w (fs_bpb fs) c is)"
    "touches (volume_region (fs_bpb fs)) (write_clusters w (fs_bpb fs) k c data)"
    "touches (volume_region (fs_bpb fs)) (copy_clusters w (fs_bpb fs) k c c' j)"
    "touches (volume_region (fs_bpb fs)) (prepare_directory w (fs_bpb fs) c c')"
  by (intro touches_mono [OF _ regions_in_volume(1) [OF assms(2)]] touch_rules assms(1)
      touches_mono [OF touches_put_directory_entry [OF assms(1)] regions_in_volume(2) [OF assms(2)]]
      touches_mono [OF touches_replace_directory_entry [OF assms(1)] regions_in_volume(2) [OF assms(2)]]
      touches_mono [OF touches_update_directory_entry [OF assms(1)] regions_in_volume(2) [OF assms(2)]]
      touches_mono [OF touches_delete_directory_entry [OF assms(1)] regions_in_volume(2) [OF assms(2)]]
      touches_mono [OF touches_clear_end_marker [OF assms(1)] regions_in_volume(2) [OF assms(2)]]
      touches_mono [OF touches_clear_cluster [OF assms(1)] regions_in_volume(2) [OF assms(2)]]
      touches_mono [OF touches_write_clusters [OF assms(1)] regions_in_volume(2) [OF assms(2)]]
      touches_mono [OF touches_copy_clusters [OF assms(1)] regions_in_volume(2) [OF assms(2)]]
      touches_mono [OF touches_prepare_directory [OF assms(1)] regions_in_volume(2) [OF assms(2)]])+

lemma touches_prepare_slot:
  assumes "honest_drive w" "geometry_ok disk (fs_bpb fs)"
  shows "touches (volume_region (fs_bpb fs)) (prepare_slot w fs (fs_bpb fs) vacant e tail need marker)"
  by (auto simp: prepare_slot_def grow_directory_def reclaim_if_unlinked_def
      intro!: touch_rules touches_volume [OF assms] split: option.split)

lemma touches_publish_entry:
  assumes "honest_drive w" "geometry_ok disk (fs_bpb fs)"
  shows "touches (volume_region (fs_bpb fs)) (publish_entry w fs (fs_bpb fs) tail entry vacant fresh)"
  unfolding touches_def
proof
  fix d
  obtain st u d1 where put: "put_directory_entry w (fs_bpb fs) vacant entry True d = ((st, u), d1)" by (metis prod.exhaust)
  have one: "changed_only (volume_region (fs_bpb fs)) d d1"
    using touches_volume(5) [OF assms, of vacant entry True] put unfolding touches_def by (metis snd_conv)
  have "touches (volume_region (fs_bpb fs)) (io_bind (write_fat_entry w fs tail 0x0FFFFFFF) (\<lambda>_. free_chain w fs fresh))"
    by (intro touch_rules touches_volume [OF assms])
  then have "changed_only (volume_region (fs_bpb fs)) d1 (snd (io_bind (write_fat_entry w fs tail 0x0FFFFFFF) (\<lambda>_. free_chain w fs fresh) d1))"
    by (simp add: touches_def)
  then show "changed_only (volume_region (fs_bpb fs)) d (snd (publish_entry w fs (fs_bpb fs) tail entry vacant fresh d))"
    using one by (auto simp: publish_entry_def put intro: changed_only_trans)
qed

lemma touches_create_directory_entry:
  assumes "honest_drive w" "geometry_ok disk (fs_bpb fs)"
  shows "touches (volume_region (fs_bpb fs)) (create_directory_entry w fs c name entry)"
  unfolding touches_def
proof
  fix d
  let ?V = "volume_region (fs_bpb fs)"
  have "changed_only ?V d (snd (case prepare_slot w fs (fs_bpb fs) v e tail need marker d of
         (Inl e, d) \<Rightarrow> ((Inl e, True), d)
       | (Inr (vacant, fresh), d) \<Rightarrow> publish_entry w fs (fs_bpb fs) tail bytes vacant fresh d))" for v e tail need marker bytes
  proof -
    obtain r d1 where p: "prepare_slot w fs (fs_bpb fs) v e tail need marker d = (r, d1)" by fastforce
    have one: "changed_only ?V d d1"
      using touches_prepare_slot [OF assms, of v e tail need marker] p unfolding touches_def by (metis snd_conv)
    have "changed_only ?V d1 (snd (publish_entry w fs (fs_bpb fs) tail bytes vacant fresh d1))" for vacant fresh
      using touches_publish_entry [OF assms] unfolding touches_def by blast
    then show ?thesis using one by (auto simp: p split: sum.splits intro: changed_only_trans)
  qed
  then show "changed_only ?V d (snd (create_directory_entry w fs c name entry d))"
    by (auto simp: create_directory_entry_def geometry_for_write_Inr split: option.split sum.split search.split)
qed

lemma touches_publish_fresh:
  assumes "honest_drive w" "geometry_ok disk (fs_bpb fs)"
  shows "touches (volume_region (fs_bpb fs)) (publish_fresh w fs path resolved entry fresh)"
  unfolding touches_def
proof
  fix d
  let ?V = "volume_region (fs_bpb fs)"
  obtain r u d1 where c: "create_directory_entry w fs (rp_parent_cluster resolved) (Some (short_component (rp_name resolved))) entry d = ((r, u), d1)"
    by (metis prod.exhaust)
  have one: "changed_only ?V d d1"
    using touches_create_directory_entry [OF assms, of "rp_parent_cluster resolved" "Some (short_component (rp_name resolved))" entry] c
    unfolding touches_def by (metis snd_conv)
  have "touches ?V (io_try (free_chain w fs fresh) (\<lambda>_. io_fail IoError) (\<lambda>_. io_fail status :: unit io))" for status
    by (intro touch_rules touches_volume [OF assms])
  then have "changed_only ?V d1 (snd (io_try (free_chain w fs fresh) (\<lambda>_. io_fail IoError) (\<lambda>_. io_fail status :: unit io) d1))" for status
    unfolding touches_def by blast
  then show "changed_only ?V d (snd (publish_fresh w fs path resolved entry fresh d))"
    using one by (auto simp: publish_fresh_def c split: sum.splits intro: changed_only_trans)
qed

lemma touches_create_entry:
  assumes "honest_drive w" "geometry_ok disk (fs_bpb fs)"
  shows "touches (volume_region (fs_bpb fs)) (create_entry w fs c name entry)"
  using touches_create_directory_entry [OF assms]
  by (simp add: touches_def create_entry_def case_prod_beta Let_def)

lemma touches_retire_source:
  assumes "honest_drive w" "geometry_ok disk (fs_bpb fs)"
  shows "touches (volume_region (fs_bpb fs)) (retire_source w fs (fs_bpb fs) from published)"
  unfolding touches_def
proof
  fix d
  let ?V = "volume_region (fs_bpb fs)"
  obtain st u d1 where put: "put_directory_entry w (fs_bpb fs) (rp_slot from) ((rp_entry from)[0 := 0xE5]) True d = ((st, u), d1)"
    by (metis prod.exhaust)
  have "changed_only ?V d d1"
    using touches_volume(5) [OF assms, of "rp_slot from" "(rp_entry from)[0 := 0xE5]" True] put unfolding touches_def by (metis snd_conv)
  moreover have "changed_only ?V d1 (snd (delete_directory_entry w fs published d1))"
    using touches_volume(8) [OF assms] unfolding touches_def by blast
  ultimately show "changed_only ?V d (snd (retire_source w fs (fs_bpb fs) from published d))"
    by (auto simp: retire_source_def put intro: changed_only_trans)
qed

lemma touches_publish_file:
  assumes "honest_drive w" "geometry_ok disk (fs_bpb fs)"
  shows "touches (volume_region (fs_bpb fs)) (publish_file w fs path resolved fresh bytes)"
  unfolding publish_file_def by (intro touch_rules touches_volume [OF assms] touches_publish_fresh [OF assms])

lemma touches_option [touch_rules]:
  "(x = None \<Longrightarrow> touches S m) \<Longrightarrow> (\<And>y. x = Some y \<Longrightarrow> touches S (f y)) \<Longrightarrow> touches S (case x of None \<Rightarrow> m | Some y \<Rightarrow> f y)"
  by (cases x) auto

text \<open>An operation that asks for the geometry continues with that of the mounted volume.\<close>

lemma touches_with_geometry:
  assumes "fs_mounted fs \<Longrightarrow> mirroring_enabled (fs_bpb fs) \<Longrightarrow> touches S (f (fs_bpb fs))"
  shows "touches S (io_bind (io_ask (\<lambda>d. geometry_for_write fs)) f)"
proof (cases "geometry_for_write fs")
  case (Inl e)
  then show ?thesis by (simp add: touches_def io_bind_def io_try_def io_ask_def io_fail_def)
next
  case (Inr g)
  then have "touches S (f g)" using assms unfolding geometry_for_write_Inr by blast
  then show ?thesis using Inr by (simp add: touches_def io_bind_def io_try_def io_ask_def)
qed

text \<open>The calls of \<^verbatim>\<open>vfs.cpp\<close> and \<^verbatim>\<open>filesystem.cpp\<close> that change the volume; both files only forward them.\<close>

datatype write_call =
    Touch "u8 list option" | WriteFile "u8 list option" "u8 list option" u64 | Mkdir "u8 list option" |
    Remove "u8 list option" | CopyFile "u8 list option" "u8 list option" | Move "u8 list option" "u8 list option"

fun write_step :: "ata_write \<Rightarrow> fat32_state \<Rightarrow> write_call \<Rightarrow> unit io" where
  "write_step w fs (Touch path) = touch w fs path"
| "write_step w fs (WriteFile path data bytes) = write_file w fs path data bytes"
| "write_step w fs (Mkdir path) = mkdir w fs path"
| "write_step w fs (Remove path) = remove_path w fs path"
| "write_step w fs (CopyFile source destination) = copy_file w fs source destination"
| "write_step w fs (Move source destination) = move_path w fs source destination"

fun write_run :: "ata_write \<Rightarrow> fat32_state \<Rightarrow> write_call list \<Rightarrow> storage \<Rightarrow> storage" where
  "write_run w fs [] d = d"
| "write_run w fs (call # calls) d = write_run w fs calls (snd (write_step w fs call d))"

lemma touches_write_step:
  assumes "honest_drive w" "geometry_ok disk (fs_bpb fs)"
  shows "touches (volume_region (fs_bpb fs)) (write_step w fs call)"
proof -
  note rules = touch_rules touches_volume [OF assms] touches_publish_fresh [OF assms] touches_create_entry [OF assms]
    touches_retire_source [OF assms] touches_publish_file [OF assms]
  have "touches (volume_region (fs_bpb fs)) (touch w fs path)" for path
    unfolding touch_def by (intro rules)
  moreover have "touches (volume_region (fs_bpb fs)) (mkdir w fs path)" for path
    unfolding mkdir_def by (intro touches_with_geometry rules)
  moreover have drop: "touches (volume_region (fs_bpb fs)) (drop_chain w fs c)" for c
    unfolding drop_chain_def by (intro rules)
  moreover have "touches (volume_region (fs_bpb fs)) (remove_path w fs path)" for path
    unfolding remove_path_def Let_def by (intro touches_with_geometry rules drop)
  moreover have "touches (volume_region (fs_bpb fs)) (write_file w fs path data bytes)" for path data bytes
    unfolding write_file_def Let_def by (intro touches_with_geometry rules drop)
  moreover have "touches (volume_region (fs_bpb fs)) (copy_file w fs path path')" for path path'
    unfolding copy_file_def Let_def by (intro touches_with_geometry rules)
  moreover have "touches (volume_region (fs_bpb fs)) (move_path w fs path path')" for path path'
    unfolding move_path_def Let_def by (intro touches_with_geometry rules)
  ultimately show ?thesis by (cases call) simp_all
qed

lemma write_run_confined:
  assumes "honest_drive w" "geometry_ok disk (fs_bpb fs)"
  shows "changed_only (volume_region (fs_bpb fs)) d (write_run w fs calls d)"
proof (induction calls arbitrary: d)
  case (Cons call calls)
  have "changed_only (volume_region (fs_bpb fs)) d (snd (write_step w fs call d))"
    using touches_write_step [OF assms] unfolding touches_def by blast
  then show ?case using Cons by (auto intro: changed_only_trans)
qed simp

text \<open>
  C12: the writer stays inside the mounted volume.  Whatever files and directories a sequence of calls creates, writes, copies,
  moves and removes, on whatever contents of the disk and whether or not its transfers succeed, the boot disk is
  untouched, on the data disk only sectors between the first table and the end of the volume change, and mounting again
  gives the same volume.
\<close>

theorem writer_confined:
  assumes "mount d0 fs0 = (True, volume, fs)" "honest_drive w" "disk_info Test d = disk_info Test d0"
    and "read_sector d Test 0 = read_sector d0 Test 0" "d' = write_run w fs calls d"
  shows "(\<forall>lba. g_ata_read d' Master lba = g_ata_read d Master lba) \<and>
    (\<forall>lba. lba < fs_fat_begin_lba fs \<or> vi_total_sectors volume \<le> lba \<longrightarrow> g_ata_read d' Slave lba = g_ata_read d Slave lba) \<and>
    mount d' fs0 = (True, volume, fs)"
proof -
  let ?g = "fs_bpb fs"
  have m: "mounted_on (lba28_sector_count (disk_info Test d0)) fs" using assms(1) by (rule mount_mounted)
  then have g: "geometry_ok (lba28_sector_count (disk_info Test d0)) ?g" by (simp add: mounted_on_def)
  have v: "vi_total_sectors volume = total_sectors ?g" "fs_fat_begin_lba fs = fat_begin_lba ?g"
    using assms(1) by (auto simp: mount_def Let_def split: if_splits option.splits)
  have c: "changed_only (volume_region ?g) d d'" unfolding assms(5) by (rule write_run_confined [OF assms(2) g])
  have "0 < fat_begin_lba ?g" using g by (simp add: geometry_ok_def unat_less_iff)
  then have "0 \<notin> volume_region ?g" by (auto simp: volume_region_def)
  then have "read_sector d' Test 0 = read_sector d0 Test 0" using changed_only_read [OF c] assms(4) by simp
  moreover have "disk_info Test d' = disk_info Test d0" using c assms(3) by (simp add: changed_only_def disk_info_def)
  ultimately have "mount d' fs0 = mount d0 fs0" unfolding mount_def by (simp only:)
  moreover have "g_ata_read d' Slave lba = g_ata_read d Slave lba" if "lba < fat_begin_lba ?g \<or> total_sectors ?g \<le> lba" for lba
  proof -
    have "lba \<notin> volume_region ?g" using that by (auto simp: volume_region_def)
    then show ?thesis using c by (simp add: changed_only_def)
  qed
  ultimately show ?thesis using c assms(1) v by (simp add: changed_only_def)
qed

theorem writer_confined_witness:
  "fst (mount (write_run ram_write demo_fs [Mkdir (Some [0x61]), WriteFile (Some [0x62]) (Some [1, 2, 3]) 3] mirror_disk) demo_fs)"
proof -
  have "disk_info Test mirror_disk = disk_info Test (demo_disk [])" by (simp add: disk_info_def mirror_disk_def)
  moreover have "read_sector mirror_disk Test 0 = read_sector (demo_disk []) Test 0" by (simp add: mirror_read demo_read)
  moreover have "honest_drive ram_write" using ram_write_reliable by (simp add: reliable_drive_def)
  ultimately show ?thesis
    using writer_confined [OF demo_mounts [of "[]" demo_fs], of ram_write mirror_disk _
      "[Mkdir (Some [0x61]), WriteFile (Some [0x62]) (Some [1, 2, 3]) 3]"] by simp
qed

end
