(* ===== verification/Fat32_Content.thy ===== *)
theory Fat32_Content
  imports Fat32_Write
begin

text \<open>
  What a written file contains: the data loops of \<open>write_file\<close> against the reader's view of a chain, and the
  directory entry that publishes it.  The main result joins writer and reader: after a file has been
  overwritten, reading the entry gives the new bytes.
\<close>

unbundle bit_operations_syntax

subsection \<open>Sectors of clusters\<close>

definition volume_whole :: "storage \<Rightarrow> bpb_geometry \<Rightarrow> bool" where
  "volume_whole d g \<longleftrightarrow> (\<forall>lba. lba \<in> data_region g \<longrightarrow> (\<exists>s. read_sector d Test lba = Some s \<and> length s = 512))"

definition cluster_lbas :: "bpb_geometry \<Rightarrow> u32 \<Rightarrow> u32 set" where
  "cluster_lbas g c = {lba. \<exists>i. directory_lba g c i = Some lba}"

lemma store_sector_ok:
  assumes "reliable_drive w" "read_sector d Test lba = Some old"
  obtains d' where "store_sector w lba s d = (Inr (), d')" "read_sector d' Test = (read_sector d Test)(lba := Some s)"
proof -
  have h: "honest_drive w" using assms(1) by (simp add: reliable_drive_def)
  obtain r d' where run: "store_sector w lba s d = (r, d')" by fastforce
  note res = store_sector_result [OF h run]
  have r: "r = Inr ()" using res(3) assms by blast
  then have "read_sector d' Test = (read_sector d Test)(lba := Some s)" using res(1,2) by (auto simp: fun_eq_iff)
  then show thesis using that run r by blast
qed

lemma volume_whole_upd:
  "volume_whole d g \<Longrightarrow> read_sector d' Test = (read_sector d Test)(lba := Some s) \<Longrightarrow> length s = 512 \<Longrightarrow> volume_whole d' g"
  by (auto simp: volume_whole_def)

lemma directory_lba_place:
  assumes "geometry_ok disk g" "valid_cluster g c" "i < unat (sectors_per_cluster g)"
  obtains lba where "directory_lba g c i = Some lba"
    "unat lba = unat (first_data_lba g) + (unat c - 2) * unat (sectors_per_cluster g) + i" "lba < total_sectors g"
    "cluster_to_lba (first_data_lba g) (ucast (sectors_per_cluster g)) c = Some (lba - of_nat i)"
proof -
  obtain base where base: "cluster_to_lba (first_data_lba g) (ucast (sectors_per_cluster g)) c = Some base"
    "unat base + unat (sectors_per_cluster g) \<le> unat (total_sectors g)"
    using geometry_cluster [OF assms(1), of c] assms(2) by (auto simp: valid_cluster_unat)
  have place: "unat base = unat (first_data_lba g) + (unat c - 2) * unat (sectors_per_cluster g)"
    using base(1) unfolding cluster_to_lba_Some by (simp add: unat_ucast_up)
  have "unat (sectors_per_cluster g) < 2 ^ LENGTH(8)" by (rule unsigned_less)
  then have i: "i < 2 ^ 8" using assms(3) by simp
  then have ui: "unat (of_nat i :: u32) = i" by (intro unat_of_nat_small) simp
  have "unat base + i < 2 ^ 32" using base(2) assms(3) unat_less_32 [of "total_sectors g"] by linarith
  then have add: "checked_add_u32 base (of_nat i) = Some (base + of_nat i)" "unat (base + of_nat i) = unat base + i"
    unfolding checked_add_Some ui by (simp_all add: unat_word_ariths ui)
  then have "base + of_nat i < total_sectors g" using base(2) assms(3) by (simp add: unat_less_iff)
  then show thesis using that [of "base + of_nat i"] assms(2,3) base(1) add place by (simp add: directory_lba_def)
qed

lemma directory_lba_Some: "directory_lba g c i = Some lba \<Longrightarrow> valid_cluster g c \<and> i < unat (sectors_per_cluster g)"
  by (simp add: directory_lba_def split: if_splits)

lemma directory_lba_inj:
  assumes "geometry_ok disk g" "directory_lba g c i = Some lba" "directory_lba g c' i' = Some lba"
  shows "c' = c \<and> i' = i"
proof -
  let ?n = "unat (sectors_per_cluster g)"
  have v: "valid_cluster g c" "i < ?n" "valid_cluster g c'" "i' < ?n" using directory_lba_Some assms(2,3) by blast+
  have "unat lba = unat (first_data_lba g) + (unat c - 2) * ?n + i" "unat lba = unat (first_data_lba g) + (unat c' - 2) * ?n + i'"
    using directory_lba_place [OF assms(1) v(1,2)] directory_lba_place [OF assms(1) v(3,4)] assms(2,3) by (metis option.inject)+
  then have eq: "(unat c - 2) * ?n + i = (unat c' - 2) * ?n + i'" by simp
  have "((unat c - 2) * ?n + i) div ?n = unat c - 2" "((unat c' - 2) * ?n + i') div ?n = unat c' - 2" using v by simp_all
  then have c: "unat c - 2 = unat c' - 2" using eq by simp
  then have "i = i'" using eq by simp
  moreover have "unat c = unat c'" using c v(1,3) unfolding valid_cluster_unat by linarith
  ultimately show ?thesis by (simp add: unat_eq_iff)
qed

lemma cluster_lbas_disjoint: "geometry_ok disk g \<Longrightarrow> c \<noteq> c' \<Longrightarrow> cluster_lbas g c \<inter> cluster_lbas g c' = {}"
  using directory_lba_inj by (fastforce simp: cluster_lbas_def)

lemma cluster_lbas_data: "lba \<in> cluster_lbas g c \<Longrightarrow> lba \<in> data_region g"
  using directory_lba_region by (auto simp: cluster_lbas_def)

lemma data_sector_lba:
  assumes "mounted_on disk fs" "directory_lba (fs_bpb fs) c i = Some lba"
  shows "data_sector d fs c i = (case read_sector d Test lba of None \<Rightarrow> [] | Some s \<Rightarrow> s)"
proof -
  have g: "geometry_ok disk (fs_bpb fs)" using assms(1) by (simp add: mounted_on_def)
  have v: "valid_cluster (fs_bpb fs) c" "i < unat (sectors_per_cluster (fs_bpb fs))" using directory_lba_Some assms(2) by blast+
  obtain l where l: "directory_lba (fs_bpb fs) c i = Some l"
    "cluster_to_lba (first_data_lba (fs_bpb fs)) (ucast (sectors_per_cluster (fs_bpb fs))) c = Some (l - of_nat i)"
    using directory_lba_place [OF g v] by metis
  then have "l = lba" using assms(2) by simp
  moreover have "fs_first_data_lba fs = first_data_lba (fs_bpb fs)" "fs_sectors_per_cluster fs = sectors_per_cluster (fs_bpb fs)"
    using assms(1) by (simp_all add: mounted_on_def)
  ultimately show ?thesis using l(2) by (simp add: data_sector_def)
qed

lemma data_sector_same:
  assumes "mounted_on disk fs" "valid_cluster (fs_bpb fs) c" "i < unat (fs_sectors_per_cluster fs)"
    and "\<And>lba. lba \<in> cluster_lbas (fs_bpb fs) c \<Longrightarrow> read_sector d' Test lba = read_sector d Test lba"
  shows "data_sector d' fs c i = data_sector d fs c i"
proof -
  have g: "geometry_ok disk (fs_bpb fs)" "fs_sectors_per_cluster fs = sectors_per_cluster (fs_bpb fs)"
    using assms(1) by (simp_all add: mounted_on_def)
  obtain lba where lba: "directory_lba (fs_bpb fs) c i = Some lba"
    using directory_lba_place [OF g(1) assms(2)] assms(3) unfolding g(2) by blast
  then have "lba \<in> cluster_lbas (fs_bpb fs) c" by (auto simp: cluster_lbas_def)
  then show ?thesis using data_sector_lba [OF assms(1) lba] assms(4) by simp
qed

lemma whole_data_sector:
  assumes "mounted_on disk fs" "volume_whole d (fs_bpb fs)" "valid_cluster (fs_bpb fs) c" "i < unat (fs_sectors_per_cluster fs)"
  shows "length (data_sector d fs c i) = 512"
proof -
  have g: "geometry_ok disk (fs_bpb fs)" "fs_sectors_per_cluster fs = sectors_per_cluster (fs_bpb fs)"
    using assms(1) by (simp_all add: mounted_on_def)
  obtain lba where lba: "directory_lba (fs_bpb fs) c i = Some lba"
    using directory_lba_place [OF g(1) assms(3)] assms(4) unfolding g(2) by blast
  then obtain s where "read_sector d Test lba = Some s" "length s = 512"
    using directory_lba_region assms(2) unfolding volume_whole_def by blast
  then show ?thesis using data_sector_lba [OF assms(1) lba] by simp
qed

text \<open>The table is read from sectors before the data region only.\<close>

lemma fat_same:
  assumes "geometry_ok disk g" "\<And>lba. lba < first_data_lba g \<Longrightarrow> read_sector d' Test lba = read_sector d Test lba"
  shows "fat_at d' g = fat_at d g" "fat_ok d' g = fat_ok d g"
proof -
  have e: "read_entry d' g c k = read_entry d g c k" for c k
    using assms(2) entry_location_region by (fastforce simp: read_entry_def fat_region_def split: option.split)
  then show at: "fat_at d' g = fat_at d g" by (simp add: fat_at_def fun_eq_iff)
  have "fat_sectors_whole d' g = fat_sectors_whole d g" using assms(2) by (auto simp: fat_sectors_whole_def)
  then show "fat_ok d' g = fat_ok d g" by (simp add: fat_ok_def e at)
qed

subsection \<open>The data loops\<close>

lemma io_bind_run: "m d = (Inr x, d1) \<Longrightarrow> io_bind m f d = f x d1"
  by (simp add: io_bind_def io_try_def)

lemma io_try_run: "m d = (Inr x, d1) \<Longrightarrow> io_try m h f d = f x d1"
  by (simp add: io_try_def)

lemma io_ask_run: "f d = Inr x \<Longrightarrow> io_bind (io_ask f) k d = k x d"
  by (simp add: io_bind_def io_try_def io_ask_def)

lemma length_padded [simp]: "length (padded_sector data) = 512"
  by (simp add: padded_sector_def)

lemma take_padded:
  "take n (padded_sector data @ rest) = take 512 data @ take (n - 512) rest" if "n = length data"
  using that by (auto simp: padded_sector_def min_def)

lemma write_cluster_result:
  assumes "mounted_on disk fs" "reliable_drive w" "valid_cluster (fs_bpb fs) c" "i \<le> unat (fs_sectors_per_cluster fs)"
    and "volume_whole d (fs_bpb fs)"
  shows "\<exists>d'. write_cluster w (fs_bpb fs) c [i..<unat (fs_sectors_per_cluster fs)] data d =
        (Inr (drop (512 * (unat (fs_sectors_per_cluster fs) - i)) data), d') \<and> volume_whole d' (fs_bpb fs) \<and>
      take (length data) (concat (map (data_sector d' fs c) [i..<unat (fs_sectors_per_cluster fs)])) =
        take (512 * (unat (fs_sectors_per_cluster fs) - i)) data \<and>
      (\<forall>lba. (\<forall>j. i \<le> j \<longrightarrow> directory_lba (fs_bpb fs) c j \<noteq> Some lba) \<longrightarrow> read_sector d' Test lba = read_sector d Test lba)"
  using assms(4,5)
proof (induction "unat (fs_sectors_per_cluster fs) - i" arbitrary: i data d)
  case 0
  then have "i = unat (fs_sectors_per_cluster fs)" by simp
  then show ?case using 0 by (simp add: io_ret_def)
next
  case (Suc k)
  let ?n = "unat (fs_sectors_per_cluster fs)"
  have g: "geometry_ok disk (fs_bpb fs)" "fs_sectors_per_cluster fs = sectors_per_cluster (fs_bpb fs)"
    using assms(1) by (simp_all add: mounted_on_def)
  have i: "i < ?n" using Suc.hyps(2) by simp
  then have upt: "[i..<?n] = i # [Suc i..<?n]" by (simp add: upt_conv_Cons)
  show ?case
  proof (cases "data = []")
    case True
    then show ?thesis using Suc.prems by (simp add: upt io_ret_def)
  next
    case False
    obtain lba where lba: "directory_lba (fs_bpb fs) c i = Some lba" "lba \<in> data_region (fs_bpb fs)"
      using directory_lba_place [OF g(1) assms(3)] directory_lba_region i unfolding g(2) by metis
    obtain old where "read_sector d Test lba = Some old" using Suc.prems(2) lba(2) unfolding volume_whole_def by blast
    then obtain d1 where d1: "store_sector w lba (padded_sector data) d = (Inr (), d1)"
      "read_sector d1 Test = (read_sector d Test)(lba := Some (padded_sector data))"
      using store_sector_ok [OF assms(2)] by metis
    have whole: "volume_whole d1 (fs_bpb fs)" using volume_whole_upd [OF Suc.prems(2) d1(2)] by simp
    have left: "k = ?n - Suc i" "Suc i \<le> ?n" using Suc.hyps(2) by simp_all
    obtain d' where d': "write_cluster w (fs_bpb fs) c [Suc i..<?n] (drop 512 data) d1 = (Inr (drop (512 * (?n - Suc i)) (drop 512 data)), d')"
      "volume_whole d' (fs_bpb fs)"
      "take (length (drop 512 data)) (concat (map (data_sector d' fs c) [Suc i..<?n])) = take (512 * (?n - Suc i)) (drop 512 data)"
      "\<forall>l. (\<forall>j. Suc i \<le> j \<longrightarrow> directory_lba (fs_bpb fs) c j \<noteq> Some l) \<longrightarrow> read_sector d' Test l = read_sector d1 Test l"
      using Suc.hyps(1) [OF left whole, of "drop 512 data"] by blast
    have "read_sector d' Test lba = read_sector d1 Test lba"
    proof -
      have "j = i" if "directory_lba (fs_bpb fs) c j = Some lba" for j using directory_lba_inj [OF g(1) lba(1) that] by simp
      then show ?thesis using d'(4) by (metis Suc_n_not_le_n)
    qed
    then have sec: "data_sector d' fs c i = padded_sector data" using data_sector_lba [OF assms(1) lba(1)] d1(2) by simp
    have k: "512 * (?n - i) = 512 + 512 * (?n - Suc i)" using i by simp
    have "write_cluster w (fs_bpb fs) c [i..<?n] data d = (Inr (drop (512 * (?n - i)) data), d')"
      using False d1(1) d'(1) by (simp add: upt lba(1) io_bind_run k add.commute)
    moreover have "take (length data) (concat (map (data_sector d' fs c) [i..<?n])) = take (512 * (?n - i)) data"
      unfolding upt list.map concat.simps sec take_padded [OF refl] k take_add using d'(3) by simp
    moreover have "read_sector d' Test l = read_sector d Test l" if "\<forall>j. i \<le> j \<longrightarrow> directory_lba (fs_bpb fs) c j \<noteq> Some l" for l
      using that d'(4) d1(2) lba(1) by (metis Suc_leD fun_upd_apply order_refl)
    ultimately show ?thesis using d'(2) by blast
  qed
qed

lemma chain_bytes_Cons: "chain_bytes d fs (c # cs) = concat (cluster_sectors d fs c) @ chain_bytes d fs cs"
  by (simp add: chain_bytes_def)

lemma cluster_sectors_whole:
  assumes "mounted_on disk fs" "volume_whole d (fs_bpb fs)" "valid_cluster (fs_bpb fs) c"
  shows "length (concat (cluster_sectors d fs c)) = 512 * unat (fs_sectors_per_cluster fs)"
  using length_concat_512 [of "cluster_sectors d fs c"] whole_data_sector [OF assms] by (simp add: cluster_sectors_def)

lemma take_append_part:
  assumes "length a = m" "take n a = take m (xs :: 'a list)" "take (n - m) b = take k (drop m xs)" "n = length xs"
  shows "take n (a @ b) = take (m + k) xs"
proof (cases "n \<le> m")
  case True
  then show ?thesis using assms by (simp add: min_def)
next
  case False
  then have "a = take m xs" using assms(1,2) by simp
  then show ?thesis using assms(1,3) False by (simp add: take_add)
qed

lemma write_clusters_result:
  assumes "mounted_on disk fs" "reliable_drive w" "g = fs_bpb fs" "cb = 512 * unat (fs_sectors_per_cluster fs)"
    and "chain d fs c zs" "fat_ok d g" "volume_whole d g"
  shows "\<exists>d'. write_clusters w g (length zs) c data d = (Inr (drop (cb * length zs) data), d') \<and> volume_whole d' g \<and>
      take (length data) (chain_bytes d' fs zs) = take (cb * length zs) data \<and>
      (\<forall>lba. (\<forall>z\<in>set zs. lba \<notin> cluster_lbas g z) \<longrightarrow> read_sector d' Test lba = read_sector d Test lba)"
  using assms(5-7)
proof (induction zs arbitrary: c data d)
  case (Cons z zs)
  have g: "geometry_ok disk g" "fs_sectors_per_cluster fs = sectors_per_cluster g" using assms(1,3) by (simp_all add: mounted_on_def)
  have z: "z = c" and v: "valid_cluster g c"
    using Cons.prems(1) by (cases zs; auto simp: assms(3) valid_data_cluster_geometry [OF assms(1)])+
  have v': "valid_cluster g y" if "y \<in> set zs" for y
    using chain_valid [OF Cons.prems(1), of y] that by (simp add: assms(3) valid_data_cluster_geometry [OF assms(1)])
  obtain d1 where d1: "write_cluster w g c [0..<unat (sectors_per_cluster g)] data d = (Inr (drop cb data), d1)" "volume_whole d1 g"
    "take (length data) (concat (cluster_sectors d1 fs c)) = take cb data"
    "\<forall>lba. lba \<notin> cluster_lbas g c \<longrightarrow> read_sector d1 Test lba = read_sector d Test lba"
    using write_cluster_result [OF assms(1,2), of c 0 d data] v Cons.prems(3)
    by (auto simp: assms(3,4) g(2) cluster_sectors_def cluster_lbas_def)
  have fat1: "read_sector d1 Test lba = read_sector d Test lba" if "lba < first_data_lba g" for lba
    using d1(4) cluster_lbas_data [of lba g c] that by (metis (mono_tags, lifting) data_region_def leD mem_Collect_eq)
  note fat = fat_same [OF g(1) fat1]
  show ?case
  proof (cases zs)
    case Nil
    have "take (length data) (concat (cluster_sectors d1 fs c)) = take cb data" by (rule d1(3))
    then show ?thesis using d1 by (simp add: Nil z io_bind_run io_ret_def chain_bytes_Cons chain_bytes_def)
  next
    case (Cons y ys)
    have ch: "chain d fs y zs" "next_cluster d fs c = Inr (Some y)" using Cons.prems(1) Cons by simp_all
    have ch1: "chain d1 fs y zs"
      using ch(1) chain_cong [OF assms(1), of d d1 zs y] Cons.prems(2) fat by (simp add: assms(3))
    have nx: "chain_next d1 g c False = Inr (Some y)"
      using chain_next_fat [OF g(1) _ v, of d1 False] next_cluster_fat [OF assms(1), of d c] v Cons.prems(2) fat ch(2)
      by (simp add: assms(3))
    obtain d' where d': "write_clusters w g (length zs) y (drop cb data) d1 = (Inr (drop (cb * length zs) (drop cb data)), d')"
      "volume_whole d' g" "take (length (drop cb data)) (chain_bytes d' fs zs) = take (cb * length zs) (drop cb data)"
      "\<forall>lba. (\<forall>z\<in>set zs. lba \<notin> cluster_lbas g z) \<longrightarrow> read_sector d' Test lba = read_sector d1 Test lba"
      using Cons.IH [OF ch1, of "drop cb data"] Cons.prems(2) fat(2) d1(2) by blast
    have c: "c \<notin> set zs" using chain_distinct [OF Cons.prems(1)] z by simp
    have keep: "read_sector d' Test lba = read_sector d1 Test lba" if "lba \<in> cluster_lbas g c" for lba
    proof -
      have "lba \<notin> cluster_lbas g x" if "x \<in> set zs" for x
        using cluster_lbas_disjoint [OF g(1), of c x] c that \<open>lba \<in> cluster_lbas g c\<close> by auto
      then show ?thesis using d'(4) by blast
    qed
    have "data_sector d' fs c i = data_sector d1 fs c i" if "i < unat (fs_sectors_per_cluster fs)" for i
      by (rule data_sector_same [OF assms(1) v [unfolded assms(3)] that keep [unfolded assms(3)]])
    then have "cluster_sectors d' fs c = cluster_sectors d1 fs c" by (simp add: cluster_sectors_def)
    then have "take (length data) (chain_bytes d' fs (z # zs)) = take (cb + cb * length zs) data"
      unfolding chain_bytes_Cons z using d1(3) d'(3) cluster_sectors_whole [OF assms(1), of d1 c] d1(2) v
      by (intro take_append_part) (simp_all add: assms(3,4))
    moreover have "write_clusters w g (length (z # zs)) c data d = (Inr (drop (cb * length (z # zs)) data), d')"
      using d1(1) d'(1) by (simp add: io_bind_run io_ask_run nx Cons add.commute)
    ultimately show ?thesis using d'(2,4) d1(4) z by (intro exI [of _ d']) auto
  qed
qed simp

subsection \<open>The slot of an entry\<close>

text \<open>A slot the search found lies in a sector of an allocated cluster and holds the reported bytes.\<close>

definition slot_in :: "storage \<Rightarrow> bpb_geometry \<Rightarrow> u8 list \<Rightarrow> directory_slot \<Rightarrow> u8 list \<Rightarrow> bool" where
  "slot_in d g name slot entry \<longleftrightarrow> (\<exists>c i sector k. valid_cluster g c \<and> fat_at d g c \<noteq> 0 \<and> directory_lba g c i = Some (ds_lba slot) \<and>
     read_sector d Test (ds_lba slot) = Some sector \<and> k < 16 \<and> unat (ds_offset slot) = 32 * k \<and>
     entry = take 32 (drop (32 * k) sector) \<and> live_short_entry entry \<and> name_matches name entry)"

lemma find_in_sector_found:
  assumes "find_in_sector name c lba sector offsets v = Stop (Found slot entry)" "set offsets \<subseteq> set entry_offsets"
  shows "ds_lba slot = lba \<and> (\<exists>k<16. unat (ds_offset slot) = 32 * k \<and> entry = take 32 (drop (32 * k) sector)) \<and>
    live_short_entry entry \<and> name_matches name entry"
  using assms
proof (induction offsets arbitrary: v)
  case (Cons offset offsets)
  then obtain k where k: "offset = 32 * k" "k < 16" by (auto simp: entry_offsets_def)
  have "unat (of_nat (32 * k) :: u16) = 32 * k" using k(2) by (intro unat_of_nat_small) simp
  then show ?case using Cons k by (auto simp: Let_def split: if_splits)
qed simp

lemma find_in_cluster_found:
  assumes "find_in_cluster d g name c is v = Stop (Found slot entry)" "valid_cluster g c" "fat_at d g c \<noteq> 0"
  shows "slot_in d g name slot entry"
  using assms(1)
proof (induction "is" arbitrary: v)
  case (Cons i "is")
  then obtain lba sector where r: "directory_lba g c i = Some lba" "read_sector d Test lba = Some sector"
    by (auto split: option.splits)
  show ?case
  proof (cases "find_in_sector name c lba sector entry_offsets v")
    case (Stop x)
    then have "x = Found slot entry" using Cons.prems r by simp
    then show ?thesis using find_in_sector_found [of name c lba sector entry_offsets v slot entry] Stop r assms(2,3)
      by (auto simp: slot_in_def)
  qed (use Cons r in auto)
qed simp

lemma find_in_chain_found:
  assumes "geometry_ok disk g" "fat_ok d g" "find_in_chain d g name n c v = Found slot entry" "valid_cluster g c"
  shows "slot_in d g name slot entry"
  using assms(3,4)
proof (induction n arbitrary: c v)
  case (Suc n)
  then obtain nx where nx: "chain_next d g c False = Inr nx" by (auto split: sum.splits)
  then have nz: "fat_at d g c \<noteq> 0" and vn: "\<And>y. nx = Some y \<Longrightarrow> valid_cluster g y"
    using chain_next_fat [OF assms(1,2) Suc.prems(2)]
    by (auto simp: next_in_def classify_fat_entry_def fat_entry_value_def fat28_def split: if_splits)
  show ?case
  proof (cases "find_in_cluster d g name c [0..<unat (sectors_per_cluster g)] v")
    case (Stop x)
    then have "x = Found slot entry" using Suc.prems(1) nx by simp
    then show ?thesis using find_in_cluster_found Stop Suc.prems(2) nz by blast
  next
    case (Continue v')
    then show ?thesis using Suc.prems(1) nx Suc.IH vn by (auto split: option.splits)
  qed
qed simp

lemma resolve_components_found:
  assumes "resolve_components d g cs parent = Inr r" "rp_exists r" "geometry_ok disk g" "fat_ok d g"
  shows "\<exists>part. encode_short_name (Some part) = Some (rp_name r) \<and> slot_in d g (rp_name r) (rp_slot r) (rp_entry r)"
  using assms(1)
proof (induction cs arbitrary: parent rule: length_induct)
  case (1 cs)
  note step = 1(2) [unfolded resolve_components.simps [of d g cs parent]]
  obtain encoded where e: "encode_short_name (Some (first_part cs)) = Some encoded" using step by (auto split: option.splits)
  show ?case
  proof (cases "after_first cs")
    case Nil
    then obtain slot entry where f: "find_in_directory d g parent encoded = Found slot entry"
      "rp_name r = encoded" "rp_slot r = slot" "rp_entry r = entry"
      using step e assms(2) by (auto split: search.splits)
    then have "find_in_chain d g encoded (unat (cluster_count g)) parent \<lparr>have_free = False, free_slot = no_slot, free_is_end = False\<rparr> = Found slot entry"
      "valid_cluster g parent"
      by (simp_all add: find_in_directory_def split: if_splits)
    then show ?thesis using find_in_chain_found [OF assms(3,4)] f e by blast
  next
    case (Cons c rest)
    then obtain child where "resolve_components d g rest child = Inr r"
      using step e by (auto simp: Let_def split: search.splits if_splits)
    then show ?thesis using 1(1) after_first_shorter [OF Cons] by blast
  qed
qed

lemma resolve_path_found:
  assumes "resolve_path d fs path = Inr r" "rp_exists r" "mounted_on disk fs" "fat_ok d (fs_bpb fs)"
  shows "\<exists>part. encode_short_name (Some part) = Some (rp_name r) \<and> slot_in d (fs_bpb fs) (rp_name r) (rp_slot r) (rp_entry r)"
proof -
  obtain cs where "resolve_components d (fs_bpb fs) cs (root_cluster (fs_bpb fs)) = Inr r"
    using assms(1) by (auto simp: resolve_path_def Let_def geometry_for_write_Inr split: option.splits if_splits sum.splits)
  then show ?thesis using resolve_components_found assms(2-4) by (auto simp: mounted_on_def)
qed

subsection \<open>Replacing an entry\<close>

definition updated_entry :: "u8 list \<Rightarrow> u8 list \<Rightarrow> u32 \<Rightarrow> u32 \<Rightarrow> u8 list" where
  "updated_entry entry name c bytes =
     put32 ((take 11 name @ drop 11 entry)[20 := ucast (drop_bit 16 c),
        21 := ((take 11 name @ drop 11 entry) ! 21 AND 0xF0) OR (ucast (drop_bit 24 c) AND 0x0F),
        26 := ucast c, 27 := ucast (drop_bit 8 c)]) 28 bytes"

lemma length_updated: "length name = 11 \<Longrightarrow> length entry = 32 \<Longrightarrow> length (updated_entry entry name c bytes) = 32"
  by (simp add: updated_entry_def)

lemma nth_updated:
  assumes "length name = 11" "length entry = 32"
  shows "i < 11 \<Longrightarrow> updated_entry entry name c bytes ! i = name ! i"
    "updated_entry entry name c bytes ! 11 = entry ! 11"
    "updated_entry entry name c bytes ! 20 = ucast (drop_bit 16 c)"
    "updated_entry entry name c bytes ! 21 = (entry ! 21 AND 0xF0) OR (ucast (drop_bit 24 c) AND 0x0F)"
    "updated_entry entry name c bytes ! 26 = ucast c" "updated_entry entry name c bytes ! 27 = ucast (drop_bit 8 c)"
    "le32 (updated_entry entry name c bytes) 28 = bytes"
  using assms by (simp_all add: updated_entry_def le32_put32) (simp_all add: put32_eq nth_append)

lemma cluster_field:
  assumes "unat c < 2 ^ 28"
  shows "push_bit 16 (ucast (ucast (ucast (drop_bit 16 c) :: u8) OR push_bit 8 (ucast (ucast (drop_bit 24 c) AND 0x0F :: u8)) :: u16)) OR
     ucast (ucast (ucast c :: u8) OR push_bit 8 (ucast (ucast (drop_bit 8 c) :: u8)) :: u16) = (c :: u32)"
proof (rule bit_word_eqI)
  fix n assume "n < LENGTH(32)"
  have small: "bit c k \<Longrightarrow> k < 28" for k
  proof -
    have "c = take_bit 28 c" using assms by (simp add: unat_eq_iff unat_take_bit)
    then show "bit c k \<Longrightarrow> k < 28" by (metis bit_take_bit_iff)
  qed
  have m: "(0x0F :: u8) = mask 4" by (simp add: mask_eq_exp_minus_1)
  consider "n < 8" | "8 \<le> n" "n < 16" | "16 \<le> n" "n < 24" | "24 \<le> n" "n < 32" using \<open>n < LENGTH(32)\<close> by force
  then show "bit (push_bit 16 (ucast (ucast (ucast (drop_bit 16 c) :: u8) OR push_bit 8 (ucast (ucast (drop_bit 24 c) AND 0x0F :: u8)) :: u16)) OR
     ucast (ucast (ucast c :: u8) OR push_bit 8 (ucast (ucast (drop_bit 8 c) :: u8)) :: u16) :: u32) n = bit c n"
    unfolding m using small [of n] by cases (auto simp: bit_simps)
qed

lemma decode_updated:
  assumes "live_short_entry entry" "length entry = 32" "\<not> is_directory_entry entry" "entry ! 21 AND 0xF0 = 0"
    and "encode_short_name (Some part) = Some name" "unat c < 2 ^ 28"
  shows "decode_directory_entry (Some (updated_entry entry name c bytes)) =
    (Normal, Some \<lparr>de_name = map ascii_upper part, de_is_directory = False, de_first_cluster = c, de_size = bytes\<rparr>)"
proof -
  let ?e = "updated_entry entry name c bytes"
  have n: "length name = 11" "name ! 0 \<notin> {0x00, 0xE5, 0x05, 0x2E}" "format_short_name (Some name) = Some (map ascii_upper part)"
    using short_name_codec [of part] assms(5) by simp_all
  note nth = nth_updated [OF n(1) assms(2), where c = c and bytes = bytes]
  have "take 11 ?e = name" using n(1) length_updated [OF n(1) assms(2)] nth(1) by (intro nth_equalityI) simp_all
  then have "take 8 ?e = take 8 name" "take 3 (drop 8 ?e) = take 3 (drop 8 name)"
    using take_take [of 8 11 ?e] take_drop [of 3 8 ?e] take_drop [of 3 8 name] n(1) by simp_all
  then have "format_short_name (Some ?e) = format_short_name (Some name)" unfolding format_short_name_def option.case by (simp only:)
  then have "format_short_name (Some ?e) = Some (map ascii_upper part)" using n(3) by simp
  moreover have "push_bit 16 (ucast (le16 ?e 20)) OR ucast (le16 ?e 26) = c"
    using cluster_field [OF assms(6)] nth(3-6) assms(4) by (simp add: le16_def)
  ultimately show ?thesis
    using n(2) nth assms(1,3) by (simp add: decode_directory_entry_def live_short_entry_def is_directory_entry_def Let_def)
qed

lemma put_bytes_at:
  assumes "off + 32 \<le> length sector" "length bytes = 32"
  shows "take 32 (drop off (put_bytes sector off bytes)) = bytes" "length (put_bytes sector off bytes) = length sector"
  using assms by (simp_all add: put_bytes_def)

lemma slot_in_facts:
  assumes "slot_in d g name slot entry" "volume_whole d g"
  obtains c sector where "valid_cluster g c" "fat_at d g c \<noteq> 0" "ds_lba slot \<in> cluster_lbas g c" "valid_slot g slot"
    "read_sector d Test (ds_lba slot) = Some sector" "length sector = 512" "unat (ds_offset slot) + 32 \<le> 512"
    "entry = take 32 (drop (unat (ds_offset slot)) sector)" "length entry = 32" "live_short_entry entry"
proof -
  obtain c i sector k where s: "valid_cluster g c" "fat_at d g c \<noteq> 0" "directory_lba g c i = Some (ds_lba slot)"
    "read_sector d Test (ds_lba slot) = Some sector" "k < 16" "unat (ds_offset slot) = 32 * k"
    "entry = take 32 (drop (32 * k) sector)" "live_short_entry entry"
    using assms(1) by (auto simp: slot_in_def)
  have r: "ds_lba slot \<in> data_region g" using directory_lba_region s(3) by blast
  then have len: "length sector = 512" using assms(2) s(4) unfolding volume_whole_def by fastforce
  have "ds_offset slot mod 32 = 0" using s(6) by (simp add: unat_eq_iff unat_mod_word)
  moreover have "ds_offset slot < 512" using s(5,6) by (simp add: unat_less_iff)
  ultimately have "valid_slot g slot" using r by (simp add: valid_slot_def data_region_def)
  then show thesis using that [of c sector] s len by (auto simp: cluster_lbas_def)
qed

lemma update_directory_entry_result:
  assumes "geometry_for_write fs = Inr g" "reliable_drive w" "valid_slot g slot" "read_sector d Test (ds_lba slot) = Some sector"
    and "live_short_entry (take 32 (drop (unat (ds_offset slot)) sector))" "c = 0 \<or> valid_cluster g c"
  shows "\<exists>d'. update_directory_entry w fs slot name c bytes d = (Inr (), d') \<and>
    read_sector d' Test = (read_sector d Test)(ds_lba slot := Some (put_bytes sector (unat (ds_offset slot))
      (updated_entry (take 32 (drop (unat (ds_offset slot)) sector)) name c bytes)))"
proof -
  let ?e = "updated_entry (take 32 (drop (unat (ds_offset slot)) sector)) name c bytes"
  obtain d' where d': "store_sector w (ds_lba slot) (put_bytes sector (unat (ds_offset slot)) ?e) d = (Inr (), d')"
    "read_sector d' Test = (read_sector d Test)(ds_lba slot := Some (put_bytes sector (unat (ds_offset slot)) ?e))"
    using store_sector_ok [OF assms(2,4)] by metis
  have load: "load_sector d (ds_lba slot) = Inr sector" using assms(4) by (simp add: load_sector_def)
  have "read_directory_slot d fs slot = Inr (take 32 (drop (unat (ds_offset slot)) sector))"
    using assms(1,3) load by (simp add: read_directory_slot_def)
  moreover have "replace_directory_entry w g slot ?e d = (Inr (), d')"
    using d'(1) assms(3) load by (simp add: replace_directory_entry_def put_directory_entry_def Let_def)
  ultimately have "update_directory_entry w fs slot name c bytes d = (Inr (), d')"
    using assms(1,5,6) by (auto simp: update_directory_entry_def io_ask_run Let_def updated_entry_def)
  then show ?thesis using d'(2) by blast
qed

subsection \<open>The old chain\<close>

lemma validate_links_chain:
  assumes "mounted_on disk fs" "fat_ok d (fs_bpb fs)" "validate_links d (fs_bpb fs) (Suc n) c = Inr ()" "valid_cluster (fs_bpb fs) c"
  shows "\<exists>xs. chain d fs c xs"
  using assms(3,4)
proof (induction n arbitrary: c)
  case 0
  have g: "geometry_ok disk (fs_bpb fs)" using assms(1) by (simp add: mounted_on_def)
  have "next_cluster d fs c = Inr None"
    using 0 chain_next_fat [OF g assms(2) 0(2), of True] next_cluster_fat [OF assms(1,2) 0(2)] by (auto split: sum.splits if_splits)
  then show ?case using 0(2) by (intro exI [of _ "[c]"]) (simp add: valid_data_cluster_geometry [OF assms(1)])
next
  case (Suc n)
  have g: "geometry_ok disk (fs_bpb fs)" using assms(1) by (simp add: mounted_on_def)
  note eq = chain_next_fat [OF g assms(2) Suc.prems(2), of True] next_cluster_fat [OF assms(1,2) Suc.prems(2)]
  obtain y where y: "next_cluster d fs c = Inr (Some y)" "validate_links d (fs_bpb fs) (Suc n) y = Inr ()"
    using Suc.prems(1) eq unfolding validate_links.simps(2) [of _ _ "Suc n"] by (auto split: sum.splits if_splits option.splits)
  then have "valid_cluster (fs_bpb fs) y" using eq by (auto simp: next_in_def split: if_splits)
  then obtain xs where xs: "chain d fs y xs" using Suc.IH y(2) by blast
  then obtain ys where "xs = y # ys" by (cases xs rule: remdups_adj.cases) auto
  then show ?case using xs y(1) Suc.prems(2)
    by (intro exI [of _ "c # xs"]) (simp add: valid_data_cluster_geometry [OF assms(1)])
qed

lemma validate_size_chain_result:
  assumes "mounted_on disk fs" "fat_ok d (fs_bpb fs)" "validate_size_chain d (fs_bpb fs) cb bytes first = Inr ()"
  shows "first = 0 \<or> (\<exists>xs. chain d fs first xs)"
proof (rule disjCI)
  assume no: "\<nexists>xs. chain d fs first xs"
  obtain count :: u32 where c: "(count = 0) = (first = 0)" "first = 0 \<or> valid_cluster (fs_bpb fs) first"
    "validate_links d (fs_bpb fs) (unat count) first = Inr ()"
    using assms(3) by (auto simp: validate_size_chain_def split: sum.splits if_splits)
  show "first = 0"
  proof (rule ccontr)
    assume "first \<noteq> 0"
    then obtain n where "unat count = Suc n" "valid_cluster (fs_bpb fs) first"
      using c(1,2) by (metis not0_implies_Suc unat_eq_zero)
    then show False using validate_links_chain [OF assms(1,2)] c(3) no by simp
  qed
qed

subsection \<open>Overwriting a file\<close>

lemma ceiling_div:
  assumes "0 < (cb :: nat)"
  shows "(len + cb - 1) div cb = len div cb + (if len mod cb \<noteq> 0 then 1 else 0)"
proof -
  define q where "q = cb * (len div cb)"
  have len: "len = q + len mod cb" "len mod cb < cb" using assms by (simp_all add: q_def)
  have "cb * (len div cb + (if len mod cb \<noteq> 0 then 1 else 0)) = q + (if len mod cb \<noteq> 0 then cb else 0)" by (simp add: q_def)
  then show ?thesis using len by (intro div_nat_eqI) (simp_all split: if_splits)
qed

lemma file_cluster_count_result:
  assumes "len < 2 ^ 32" "0 < unat cb"
  shows "\<exists>n. file_cluster_count (of_nat len) cb = Inr n \<and> unat n = (len + unat cb - 1) div unat cb"
proof -
  have len: "unat (of_nat len :: u64) = len" using assms(1) by (intro unat_of_nat_small) simp
  have cb: "unat (ucast cb :: u64) = unat cb" by (simp add: unat_ucast_up)
  define v :: u64 where "v = of_nat len div ucast cb + (if of_nat len mod ucast cb \<noteq> (0 :: u64) then 1 else 0)"
  let ?q = "len div unat cb" and ?x = "if len mod unat cb \<noteq> 0 then 1 else 0 :: nat"
  have parts: "unat (of_nat len div ucast cb :: u64) = ?q" "of_nat len mod ucast cb \<noteq> (0 :: u64) \<longleftrightarrow> len mod unat cb \<noteq> 0"
    by (simp_all add: unat_div_word unat_mod_word len cb unat_eq_iff)
  have "?q + ?x \<le> len + 1" by (intro add_mono) simp_all
  also have "\<dots> < 2 ^ 64" using assms(1) by simp
  finally have "?q + ?x < 2 ^ LENGTH(64)" by simp
  then have v: "unat v = ?q + ?x" unfolding v_def parts(2)
    using parts(1) unat_add_lem [of "of_nat len div ucast cb :: u64" 1] by (cases "len mod unat cb = 0") simp_all
  have "?q + ?x \<le> len"
  proof (cases "len mod unat cb = 0")
    case False
    then have "1 < unat cb" using assms(2) by (cases "unat cb = 1") auto
    moreover have "0 < len" using False by (cases len) auto
    ultimately have "?q < len" by (intro div_less_dividend)
    then show ?thesis by simp
  qed simp
  then have "unat (ucast v :: u32) = unat v" using assms(1) v by (simp add: unsigned_ucast_eq take_bit_nat_eq_self)
  moreover have "\<not> of_nat len > (0xFFFFFFFF :: u64)" using assms(1) by (simp add: unat_less_iff len not_less)
  moreover have "cb \<noteq> 0" using assms(2) by auto
  ultimately have "file_cluster_count (of_nat len) cb = Inr (ucast v) \<and> unat (ucast v :: u32) = (len + unat cb - 1) div unat cb"
    unfolding ceiling_div [OF assms(2)] using v by (simp add: file_cluster_count_def v_def)
  then show ?thesis by blast
qed

lemma regions_disjoint: "lba \<in> data_region g \<Longrightarrow> lba \<notin> fat_region g"
  by (auto simp: data_region_def fat_region_def leD)

lemma whole_after_table:
  assumes "touches (fat_region g) m" "m d = (r, d')" "volume_whole d g"
  shows "volume_whole d' g"
proof -
  have "read_sector d' Test lba = read_sector d Test lba" if "lba \<in> data_region g" for lba
    using touches_read [OF assms(1,2)] regions_disjoint that by blast
  then show ?thesis using assms(3) by (simp add: volume_whole_def)
qed

lemma fresh_contents:
  assumes "mounted_on disk fs" "mirroring_enabled (fs_bpb fs)" "reliable_drive w" "g = fs_bpb fs" "fat_ok d g" "volume_whole d g"
    and "zs = take (unat n) (free_clusters (fat_at d g) (unat (cluster_count g)))" "length zs = unat n"
    and "length data \<le> 512 * unat (fs_sectors_per_cluster fs) * unat n"
  obtains fresh d1 d2 where "allocate_chain w fs n d = (Inr fresh, d1)" "write_clusters w g (unat n) fresh data d1 = (Inr [], d2)"
    "fresh = end_or hd zs" "fat_ok d2 g" "volume_whole d2 g" "fat_at d2 g = linked (fat_at d g) zs"
    "zs \<noteq> [] \<Longrightarrow> chain d2 fs fresh zs \<and> take (length data) (chain_bytes d2 fs zs) = data"
    "\<And>lba. lba \<notin> fat_region g \<Longrightarrow> \<forall>z\<in>set zs. lba \<notin> cluster_lbas g z \<Longrightarrow> read_sector d2 Test lba = read_sector d Test lba"
proof (cases "n = 0")
  case True
  then have "allocate_chain w fs n d = (Inr 0, d)" "zs = []" "data = []"
    using assms by (simp_all add: allocate_chain_def geometry_for_write_def mounted_geometry_def mounted_on_def io_ret_def)
  then show thesis using that [of 0 d d] True assms(5,6) by (simp add: end_or_def io_ret_def)
next
  case False
  have h: "honest_drive w" using assms(3) by (simp add: reliable_drive_def)
  have g: "geometry_ok disk g" using assms(1,4) by (simp add: mounted_on_def)
  obtain r d1 where run: "allocate_chain w fs n d = (r, d1)" by fastforce
  note touch = touches_allocate_chain [OF h, of fs n, folded assms(4)]
  have "unat n \<le> length (free_clusters (fat_at d g) (unat (cluster_count g)))" using assms(7,8) by simp
  then have d1: "r = Inr (end_or hd zs)" "fat_ok d1 g" "fat_at d1 g = linked (fat_at d g) zs"
    using allocate_chain_result [OF assms(1,2) h _ False run] assms(3,5) unfolding allocated_def Let_def assms(4,7) by auto
  have whole: "volume_whole d1 g" by (rule whole_after_table [OF touch run assms(6)])
  have b: "distinct zs" "\<forall>z\<in>set zs. valid_cluster g z"
    using free_clusters_bounds [OF g order_refl] by (auto simp: assms(7) dest: in_set_takeD)
  have "zs \<noteq> []" using assms(8) False by (auto simp: unat_eq_0)
  then have ch: "chain d1 fs (hd zs) zs" using linked_chain [OF assms(1), of d1 zs "fat_at d g"] d1 b by (simp add: assms(4))
  obtain d2 where d2: "write_clusters w g (length zs) (hd zs) data d1 = (Inr [], d2)" "volume_whole d2 g"
    "take (length data) (chain_bytes d2 fs zs) = data"
    "\<forall>lba. (\<forall>z\<in>set zs. lba \<notin> cluster_lbas g z) \<longrightarrow> read_sector d2 Test lba = read_sector d1 Test lba"
    using write_clusters_result [OF assms(1,3,4) refl ch d1(2) whole, of data] assms(8,9) by auto
  have "read_sector d2 Test lba = read_sector d1 Test lba" if "lba < first_data_lba g" for lba
    using d2(4) cluster_lbas_data [of lba g] that by (metis (mono_tags, lifting) data_region_def leD mem_Collect_eq)
  note fat = fat_same [OF g this]
  have ch2: "chain d2 fs (hd zs) zs" using ch chain_cong [OF assms(1), of d1 d2] d1(2) fat by (simp add: assms(4))
  have other: "read_sector d2 Test lba = read_sector d Test lba"
    if "lba \<notin> fat_region g" "\<forall>z\<in>set zs. lba \<notin> cluster_lbas g z" for lba
    using d2(4) that(2) touches_read [OF touch run that(1)] by simp
  have hd: "end_or hd zs = hd zs" using \<open>zs \<noteq> []\<close> by (simp add: end_or_def)
  show thesis
  proof (rule that)
    show "allocate_chain w fs n d = (Inr (hd zs), d1)" using run d1(1) hd by simp
    show "write_clusters w g (unat n) (hd zs) data d1 = (Inr [], d2)" using d2(1) assms(8) by simp
    show "hd zs = end_or hd zs" by (rule hd [symmetric])
    show "fat_ok d2 g" "volume_whole d2 g" "fat_at d2 g = linked (fat_at d g) zs" using fat d1 d2(2) by simp_all
    show "chain d2 fs (hd zs) zs \<and> take (length data) (chain_bytes d2 fs zs) = data" using ch2 d2(3) by simp
  qed (rule other)
qed

lemma chain_allocated:
  assumes "mounted_on disk fs" "fat_ok d (fs_bpb fs)" "chain d fs c xs" "x \<in> set xs"
  shows "fat_at d (fs_bpb fs) x \<noteq> 0"
proof
  assume "fat_at d (fs_bpb fs) x = 0"
  moreover obtain k where k: "k < length xs" "xs ! k = x" using assms(4) by (meson in_set_conv_nth)
  have "chain d fs x (drop k xs)" using chain_drop [OF assms(3) k(1)] k(2) by simp
  then have v: "valid_data_cluster fs x" "\<exists>r. next_cluster d fs x = Inr r"
    by (cases "drop k xs" rule: remdups_adj.cases; auto)+
  ultimately show False
    using next_cluster_fat [OF assms(1,2), of x]
    by (auto simp: valid_data_cluster_geometry [OF assms(1)] next_in_def classify_fat_entry_def fat_entry_value_def fat28_def)
qed

lemma drop_chain_result:
  assumes "mounted_on disk fs" "reliable_drive w" "geometry_for_write fs = Inr g" "fat_ok d g" "c = 0 \<or> chain d fs c xs"
  shows "\<exists>d'. drop_chain w fs c d = (Inr (), d') \<and> fat_ok d' g \<and>
    fat_at d' g = (\<lambda>x. if c \<noteq> 0 \<and> x \<in> set xs then 0 else fat_at d g x) \<and> changed_only (fat_region g) d d'"
proof (cases "c = 0")
  case True
  then show ?thesis using assms(4) by (simp add: drop_chain_def io_ret_def)
next
  case False
  have h: "honest_drive w" using assms(2) by (simp add: reliable_drive_def)
  have gg: "g = fs_bpb fs" using assms(3) by (simp add: geometry_for_write_Inr)
  obtain r d' where run: "free_chain w fs c d = (r, d')" by fastforce
  note res = free_chain_result [OF assms(1) h assms(3,4) run]
  have ch: "chain d fs c xs" using assms(5) False by simp
  have "changed_only (fat_region g) d d'" using touches_free_chain [OF h, of fs c] run unfolding touches_def gg by (metis snd_conv)
  then show ?thesis using res(1,2) [OF ch] assms(2) False run by (auto simp: drop_chain_def io_try_def io_ret_def)
qed

lemma whole_cluster_readable:
  assumes "mounted_on disk fs" "volume_whole d (fs_bpb fs)" "valid_cluster (fs_bpb fs) c"
  shows "cluster_readable d fs c"
proof -
  let ?g = "fs_bpb fs"
  have m: "geometry_ok disk ?g" "fs_first_data_lba fs = first_data_lba ?g" "fs_sectors_per_cluster fs = sectors_per_cluster ?g"
    using assms(1) by (simp_all add: mounted_on_def)
  obtain base where base: "cluster_to_lba (first_data_lba ?g) (ucast (sectors_per_cluster ?g)) c = Some base"
    "unat base + unat (sectors_per_cluster ?g) \<le> unat (total_sectors ?g)"
    using geometry_cluster [OF m(1), of c] assms(3) by (auto simp: valid_cluster_unat)
  have "\<exists>s. read_sector d Test (base + of_nat i) = Some s \<and> length s = 512" if i: "i < unat (sectors_per_cluster ?g)" for i
  proof -
    obtain l where l: "directory_lba ?g c i = Some l" "Some base = Some (l - of_nat i)"
      using directory_lba_place [OF m(1) assms(3) i] base(1) by metis
    then have "base + of_nat i = l" by simp
    then show ?thesis using directory_lba_region [OF l(1)] assms(2) by (simp add: volume_whole_def)
  qed
  moreover have "unat base + unat (sectors_per_cluster ?g) \<le> 2 ^ 32" using base(2) unat_less_32 [of "total_sectors ?g"] by linarith
  ultimately show ?thesis using base(1) unfolding cluster_readable_def m(2,3) by fastforce
qed

lemma read_written:
  assumes "mounted_on disk fs" "volume_whole d (fs_bpb fs)" "cb = 512 * unat (fs_sectors_per_cluster fs)"
    and "length zs = (length data + cb - 1) div cb" "length data < 2 ^ 32"
    and "data \<noteq> [] \<Longrightarrow> chain d fs (de_first_cluster e) zs \<and> take (length data) (chain_bytes d fs zs) = data"
    and "resolve_entry d fs p zero_entry = (Ok, e)" "\<not> de_is_directory e" "unat (de_size e) = length data"
  shows "read_file d fs p 0 True n = (Ok, take (unat n) data, de_size e)"
proof (cases "data = [] \<or> n = 0")
  case True
  have "fs_mounted fs" using assms(1) by (simp add: mounted_on_def)
  moreover have "data = [] \<Longrightarrow> de_size e = 0" using assms(9) by (simp add: unat_eq_iff)
  ultimately show ?thesis using True assms(7,8) by (auto simp: read_file_def)
next
  case False
  let ?m = "min (length data) (unat n)"
  have m: "fs_mounted fs" "0 < unat (fs_sectors_per_cluster fs)" using assms(1) by (auto simp: mounted_on_def geometry_ok_def)
  have ch: "chain d fs (de_first_cluster e) zs" "take (length data) (chain_bytes d fs zs) = data" using assms(6) False by auto
  have r: "list_all (cluster_readable d fs) zs"
    using whole_cluster_readable [OF assms(1,2)] chain_valid [OF ch(1)]
    by (auto simp: list_all_iff valid_data_cluster_geometry [OF assms(1)])
  have pos: "0 < length data" "0 < ?m" using False by (auto simp: unat_gt_0)
  have size: "0 < de_size e" using pos(1) assms(9) by (simp add: unat_less_iff)
  have cb: "0 < cb" using m(2) assms(3) by simp
  have shift: "length data + cb - 1 = (length data - 1) + cb" using pos(1) by linarith
  have len: "length zs = (length data - 1) div cb + 1" unfolding assms(4) shift using cb div_add_self2 [of cb "length data - 1"] by simp
  have need: "clusters_needed cb 0 ?m \<le> length zs" "?m = length data \<Longrightarrow> clusters_needed cb 0 ?m = length zs"
    using len by (simp_all add: clusters_needed_def div_le_mono)
  have "take ?m (chain_bytes d fs zs) = take (unat n) data"
    using ch(2) by (metis min.commute take_take)
  then show ?thesis
    using read_file_result [OF m assms(7,8) ch(1) r size _ refl refl] False need assms(3,9) by (auto simp: not_less)
qed

text \<open>The steps of a successful overwrite, on the disk states between them.\<close>

lemma write_file_steps:
  assumes "geometry_for_write fs = Inr g" "length data < 2 ^ 32" "resolve_path d fs path = Inr r"
    and "rp_exists r" "\<not> is_directory_entry (rp_entry r)" "checked_mul_u32 (ucast (sectors_per_cluster g)) 512 = Some cb"
    and "file_cluster_count (of_nat (length data)) cb = Inr n"
    and "validate_size_chain d g cb (le32 (rp_entry r) 28) (entry_first_cluster (rp_entry r)) = Inr ()"
    and "allocate_chain w fs n d = (Inr fresh, d1)" "write_clusters w g (unat n) fresh data d1 = (Inr [], d2)"
    and "update_directory_entry w fs (rp_slot r) (rp_name r) fresh (of_nat (length data)) d2 = (Inr (), d3)"
    and "drop_chain w fs (entry_first_cluster (rp_entry r)) d3 = (Inr (), d4)"
  shows "write_file w fs path (Some data) (of_nat (length data)) d = (Inr (), d4)"
proof -
  have len: "unat (of_nat (length data) :: u64) = length data" using assms(2) by (intro unat_of_nat_small) simp
  have "\<not> of_nat (length data) > (0xFFFFFFFF :: u64)" using assms(2) by (simp add: unat_less_iff len not_less)
  moreover have "ucast (of_nat (length data) :: u64) = (of_nat (length data) :: u32)" 
    by (metis len of_nat_unat)
  moreover have a: "io_bind (write_clusters w g (unat n) fresh data) (\<lambda>rest. if rest \<noteq> [] then io_fail Corrupt else io_ret ()) d1 = (Inr (), d2)"
    using assms(10) by (simp add: io_bind_run io_ret_def)
  moreover have b: "publish_file w fs path r fresh (of_nat (length data)) d2 = (Inr (), d3)"
    using assms(4,11) by (simp add: publish_file_def io_try_run io_ret_def)
  ultimately show ?thesis
    using assms(1-9,12) by (simp add: write_file_def len io_ask_run io_bind_run io_try_run Let_def)
qed

lemma replace_entry_disk:
  assumes "mounted_on disk fs" "reliable_drive w" "geometry_for_write fs = Inr g" "fat_ok d g" "volume_whole d g"
    and "valid_slot g slot" "read_sector d Test (ds_lba slot) = Some sector" "length sector = 512" "unat (ds_offset slot) + 32 \<le> 512"
    and "entry = take 32 (drop (unat (ds_offset slot)) sector)" "live_short_entry entry" "length name = 11"
    and "c = 0 \<or> valid_cluster g c" "old = 0 \<or> chain d fs old xs"
  obtains d3 d4 where "update_directory_entry w fs slot name c bytes d = (Inr (), d3)" "drop_chain w fs old d3 = (Inr (), d4)"
    "fat_ok d4 g" "volume_whole d4 g" "fat_at d4 g = (\<lambda>x. if old \<noteq> 0 \<and> x \<in> set xs then 0 else fat_at d g x)"
    "\<And>lba. lba \<notin> fat_region g \<Longrightarrow> lba \<noteq> ds_lba slot \<Longrightarrow> read_sector d4 Test lba = read_sector d Test lba"
    "read_directory_slot d4 fs slot = Inr (updated_entry entry name c bytes)"
proof -
  let ?e = "updated_entry entry name c bytes" and ?off = "unat (ds_offset slot)"
  have gg: "g = fs_bpb fs" using assms(3) by (simp add: geometry_for_write_Inr)
  have g: "geometry_ok disk g" using assms(1) by (simp add: mounted_on_def gg)
  obtain d3 where d3: "update_directory_entry w fs slot name c bytes d = (Inr (), d3)"
    "read_sector d3 Test = (read_sector d Test)(ds_lba slot := Some (put_bytes sector ?off ?e))"
    using update_directory_entry_result [OF assms(3,2,6,7), of c name bytes] assms(10,11,13) by auto
  have len: "length ?e = 32" using assms(8-10,12) by (intro length_updated) simp_all
  note put = put_bytes_at [of ?off sector ?e, unfolded assms(8), OF assms(9) len]
  have whole3: "volume_whole d3 g" using volume_whole_upd [OF assms(5) d3(2)] put(2) by simp
  have slot: "ds_lba slot \<in> data_region g" using assms(6) by (simp add: valid_slot_def data_region_def)
  have "read_sector d3 Test lba = read_sector d Test lba" if "lba < first_data_lba g" for lba
    using slot that d3(2) by (auto simp: data_region_def)
  note fat3 = fat_same [OF g this]
  have ok3: "fat_ok d3 g" using fat3 assms(4) by simp
  have ch3: "old = 0 \<or> chain d3 fs old xs" using assms(14) chain_cong [OF assms(1), of d d3 xs old] assms(4) fat3 unfolding gg by metis
  obtain d4 where d4: "drop_chain w fs old d3 = (Inr (), d4)" "fat_ok d4 g"
    "fat_at d4 g = (\<lambda>x. if old \<noteq> 0 \<and> x \<in> set xs then 0 else fat_at d3 g x)" "changed_only (fat_region g) d3 d4"
    using drop_chain_result [OF assms(1,2,3) ok3 ch3] by blast
  have same: "read_sector d4 Test lba = read_sector d3 Test lba" if "lba \<notin> fat_region g" for lba
    using changed_only_read [OF d4(4) that] .
  show thesis
  proof (rule that [OF d3(1) d4(1,2)])
    show "volume_whole d4 g" using whole3 same regions_disjoint unfolding volume_whole_def by metis
    show "fat_at d4 g = (\<lambda>x. if old \<noteq> 0 \<and> x \<in> set xs then 0 else fat_at d g x)" by (auto simp: d4(3) fat3(1) fun_eq_iff)
    show "read_sector d4 Test lba = read_sector d Test lba" if "lba \<notin> fat_region g" "lba \<noteq> ds_lba slot" for lba
      using same [OF that(1)] that(2) d3(2) by simp
    have "read_sector d4 Test (ds_lba slot) = Some (put_bytes sector ?off ?e)"
      using same [OF regions_disjoint [OF slot]] d3(2) by simp
    then show "read_directory_slot d4 fs slot = Inr ?e"
      using assms(3,6) put(1) by (simp add: read_directory_slot_def load_sector_def)
  qed
qed

lemma cluster_bytes_count:
  assumes "mounted_on disk fs" "g = fs_bpb fs" "cb = 512 * unat (fs_sectors_per_cluster fs)"
  shows "\<exists>cbw. checked_mul_u32 (ucast (sectors_per_cluster g)) 512 = Some cbw \<and> unat cbw = cb" "0 < cb"
proof -
  have g: "geometry_ok disk g" "fs_sectors_per_cluster fs = sectors_per_cluster g" using assms(1,2) by (simp_all add: mounted_on_def)
  have up: "unat (ucast (sectors_per_cluster g) :: u32) = unat (sectors_per_cluster g)" by (simp add: unat_ucast_up)
  have "unat (sectors_per_cluster g) \<le> 128" "0 < unat (sectors_per_cluster g)" using g(1) by (simp_all add: geometry_ok_def)
  then have small: "\<not> 2 ^ 32 \<le> unat (ucast (sectors_per_cluster g) :: u32) * unat (512 :: u32)" and "0 < cb"
    unfolding up assms(3) g(2) by simp_all
  then show "0 < cb" by simp
  obtain cbw where cbw: "checked_mul_u32 (ucast (sectors_per_cluster g)) 512 = Some cbw"
    using small checked_mul_None [of "ucast (sectors_per_cluster g)" 512] by (metis not_None_eq)
  then have "unat cbw = cb" unfolding checked_mul_Some up assms(3) g(2) by simp
  then show "\<exists>cbw. checked_mul_u32 (ucast (sectors_per_cluster g)) 512 = Some cbw \<and> unat cbw = cb" using cbw by blast
qed

lemma chain_bytes_same:
  assumes "mounted_on disk fs" "\<forall>z\<in>set zs. valid_cluster (fs_bpb fs) z"
    and "\<And>z lba. z \<in> set zs \<Longrightarrow> lba \<in> cluster_lbas (fs_bpb fs) z \<Longrightarrow> read_sector d' Test lba = read_sector d Test lba"
  shows "chain_bytes d' fs zs = chain_bytes d fs zs"
proof -
  have "cluster_sectors d' fs z = cluster_sectors d fs z" if "z \<in> set zs" for z
    using data_sector_same [OF assms(1) _ _ assms(3) [OF that]] assms(2) that by (simp add: cluster_sectors_def)
  then show ?thesis unfolding chain_bytes_def by (metis (mono_tags, lifting) map_eq_conv)
qed

lemma ceiling_covers: "0 < (cb :: nat) \<Longrightarrow> n \<le> cb * ((n + cb - 1) div cb)"
proof -
  assume cb: "0 < cb"
  have "n + cb - 1 = cb * ((n + cb - 1) div cb) + (n + cb - 1) mod cb" by simp
  moreover have "(n + cb - 1) mod cb \<le> cb - 1" using cb by (simp add: Suc_leI less_Suc_eq_le [symmetric])
  ultimately show ?thesis using cb by linarith
qed

text \<open>The entry of an existing file is pointed at a fresh chain and its old chain is dropped.\<close>

lemma publish_over:
  assumes "mounted_on disk fs" "reliable_drive w" "geometry_for_write fs = Inr g" "fat_ok d g" "volume_whole d g"
    and "slot_in d g name slot entry" "length name = 11" "old = 0 \<or> chain d fs old xs"
    and zb: "\<forall>z\<in>set zs. valid_cluster g z \<and> fat_at d g z = 0" and fresh: "fresh = end_or hd zs"
    and f: "fat_ok d2 g" "volume_whole d2 g" "fat_at d2 g = linked (fat_at d g) zs"
      "\<And>lba. lba \<notin> fat_region g \<Longrightarrow> \<forall>z\<in>set zs. lba \<notin> cluster_lbas g z \<Longrightarrow> read_sector d2 Test lba = read_sector d Test lba"
  obtains d3 d4 where "update_directory_entry w fs slot name fresh bytes d2 = (Inr (), d3)" "drop_chain w fs old d3 = (Inr (), d4)"
    "fat_ok d4 g" "volume_whole d4 g" "fat_at d4 g = (\<lambda>x. if old \<noteq> 0 \<and> x \<in> set xs then 0 else linked (fat_at d g) zs x)"
    "read_directory_slot d4 fs slot = Inr (updated_entry entry name fresh bytes)"
    "chain d4 fs fresh zs = chain d2 fs fresh zs" "chain_bytes d4 fs zs = chain_bytes d2 fs zs"
    "\<And>lba c. lba \<in> cluster_lbas g c \<Longrightarrow> fat_at d g c \<noteq> 0 \<Longrightarrow> lba \<noteq> ds_lba slot \<Longrightarrow> read_sector d4 Test lba = read_sector d Test lba"
proof -
  have gg: "g = fs_bpb fs" using assms(3) by (simp add: geometry_for_write_Inr)
  have g: "geometry_ok disk g" using assms(1) by (simp add: mounted_on_def gg)
  obtain sc sector where slot: "valid_cluster g sc" "fat_at d g sc \<noteq> 0" "ds_lba slot \<in> cluster_lbas g sc"
    "valid_slot g slot" "read_sector d Test (ds_lba slot) = Some sector" "length sector = 512"
    "unat (ds_offset slot) + 32 \<le> 512" "entry = take 32 (drop (unat (ds_offset slot)) sector)"
    "length entry = 32" "live_short_entry entry"
    using slot_in_facts [OF assms(6,5)] by metis
  have away: "c \<noteq> z" if "fat_at d g c \<noteq> 0" "z \<in> set zs" for c z using that zb by auto
  have data2: "read_sector d2 Test lba = read_sector d Test lba" if "lba \<in> cluster_lbas g c" "fat_at d g c \<noteq> 0" for lba c
  proof (rule f(4))
    show "lba \<notin> fat_region g" using regions_disjoint cluster_lbas_data that(1) by blast
    show "\<forall>z\<in>set zs. lba \<notin> cluster_lbas g z" using cluster_lbas_disjoint [OF g away [OF that(2)]] that(1) by blast
  qed
  have xa: "fat_at d g x \<noteq> 0" if "old \<noteq> 0" "x \<in> set xs" for x
    using chain_allocated [OF assms(1)] assms(4,8) that unfolding gg by blast
  have "fat_at d2 g x = fat_at d g x" if "old \<noteq> 0" "x \<in> set xs" for x
    using f(3) xa [OF that] zb by (auto simp: linked_outside)
  then have xs2: "old = 0 \<or> chain d2 fs old xs"
    using chain_cong [OF assms(1), of d d2 xs old] assms(4,8) f(1) unfolding gg by metis
  have fresh2: "fresh = 0 \<or> valid_cluster g fresh" using fresh zb by (auto simp: end_or_def)
  have sec2: "read_sector d2 Test (ds_lba slot) = Some sector" using data2 [OF slot(3,2)] slot(5) by simp
  obtain d3 d4 where d4: "update_directory_entry w fs slot name fresh bytes d2 = (Inr (), d3)"
    "drop_chain w fs old d3 = (Inr (), d4)" "fat_ok d4 g" "volume_whole d4 g"
    "fat_at d4 g = (\<lambda>x. if old \<noteq> 0 \<and> x \<in> set xs then 0 else fat_at d2 g x)"
    "\<And>lba. lba \<notin> fat_region g \<Longrightarrow> lba \<noteq> ds_lba slot \<Longrightarrow> read_sector d4 Test lba = read_sector d2 Test lba"
    "read_directory_slot d4 fs slot = Inr (updated_entry entry name fresh bytes)"
    by (rule replace_entry_disk [OF assms(1-3) f(1,2) slot(4) sec2 slot(6,7,8,10) assms(7) fresh2 xs2, of bytes]) (rule that)
  have keep: "read_sector d4 Test lba = read_sector d2 Test lba" if "lba \<in> cluster_lbas g c" "lba \<noteq> ds_lba slot" for lba c
    using d4(6) that regions_disjoint cluster_lbas_data by metis
  have zx: "fat_at d4 g z = fat_at d2 g z" if "z \<in> set zs" for z
  proof -
    have "\<not> (old \<noteq> 0 \<and> z \<in> set xs)" using xa zb that by blast
    then show ?thesis unfolding d4(5) by auto
  qed
  have slz: "ds_lba slot \<notin> cluster_lbas g z" if "z \<in> set zs" for z
    using cluster_lbas_disjoint [OF g away [OF slot(2) that]] slot(3) by blast
  show thesis
  proof (rule that [OF d4(1-4)])
    show "fat_at d4 g = (\<lambda>x. if old \<noteq> 0 \<and> x \<in> set xs then 0 else linked (fat_at d g) zs x)" by (auto simp: d4(5) f(3) fun_eq_iff)
    show "chain d4 fs fresh zs = chain d2 fs fresh zs"
      using chain_cong [OF assms(1), of d2 d4 zs fresh] f(1) d4(3) zx unfolding gg by blast
    show "chain_bytes d4 fs zs = chain_bytes d2 fs zs"
      using chain_bytes_same [OF assms(1), of zs d4 d2] zb keep slz unfolding gg by metis
    show "read_sector d4 Test lba = read_sector d Test lba"
      if "lba \<in> cluster_lbas g c" "fat_at d g c \<noteq> 0" "lba \<noteq> ds_lba slot" for lba c
      using keep [OF that(1,3)] data2 [OF that(1,2)] by simp
  qed (rule d4(7))
qed

lemma overwrite_existing:
  assumes "mounted_on disk fs" "mirroring_enabled (fs_bpb fs)" "reliable_drive w" "g = fs_bpb fs" "fat_ok d g" "volume_whole d g"
    and "resolve_path d fs path = Inr r" "rp_exists r" "\<not> is_directory_entry (rp_entry r)" "rp_entry r ! 21 AND 0xF0 = 0"
    and "validate_file_chain d g (rp_entry r) (entry_first_cluster (rp_entry r)) = Inr ()"
    and "length data < 2 ^ 32" "cb = 512 * unat (fs_sectors_per_cluster fs)"
    and "(length data + cb - 1) div cb \<le> length (free_clusters (fat_at d g) (unat (cluster_count g)))"
  shows "\<exists>d' raw e. write_file w fs path (Some data) (of_nat (length data)) d = (Inr (), d') \<and>
      read_directory_slot d' fs (rp_slot r) = Inr raw \<and> decode_directory_entry (Some raw) = (Normal, Some e) \<and>
      (\<exists>part. encode_short_name (Some part) = Some (rp_name r) \<and> de_name e = map ascii_upper part) \<and>
      \<not> de_is_directory e \<and> unat (de_size e) = length data \<and>
      (\<forall>p n. resolve_entry d' fs p zero_entry = (Ok, e) \<longrightarrow> read_file d' fs p 0 True n = (Ok, take (unat n) data, de_size e)) \<and>
      fat_ok d' g \<and>
      (\<forall>xs. chain d fs (entry_first_cluster (rp_entry r)) xs \<longrightarrow> (\<forall>x\<in>set xs. fat_at d' g x = 0)) \<and>
      (\<forall>c. fat_at d g c \<noteq> 0 \<longrightarrow> \<not> (\<exists>xs. chain d fs (entry_first_cluster (rp_entry r)) xs \<and> c \<in> set xs) \<longrightarrow>
        fat_at d' g c = fat_at d g c \<and>
        (\<forall>lba\<in>cluster_lbas g c. lba \<noteq> ds_lba (rp_slot r) \<longrightarrow> read_sector d' Test lba = read_sector d Test lba))"
proof -
  let ?old = "entry_first_cluster (rp_entry r)"
  have gw: "geometry_for_write fs = Inr g" using assms(1,2,4) by (simp add: geometry_for_write_Inr mounted_on_def)
  have g: "geometry_ok disk g" using assms(1,4) by (simp add: mounted_on_def)
  obtain part where part: "encode_short_name (Some part) = Some (rp_name r)" and si: "slot_in d g (rp_name r) (rp_slot r) (rp_entry r)"
    using resolve_path_found [OF assms(7,8,1)] assms(4,5) by auto
  have entry: "length (rp_entry r) = 32" "live_short_entry (rp_entry r)" using slot_in_facts [OF si assms(6)] by metis+
  have nlen: "length (rp_name r) = 11" using short_name_codec [of part] part by simp
  note cb = cluster_bytes_count(2) [OF assms(1,4,13)]
  obtain cbw where cbw: "checked_mul_u32 (ucast (sectors_per_cluster g)) 512 = Some cbw" "unat cbw = cb"
    using cluster_bytes_count(1) [OF assms(1,4,13)] by blast
  obtain n where n: "file_cluster_count (of_nat (length data)) cbw = Inr n" "unat n = (length data + cb - 1) div cb"
    using file_cluster_count_result [OF assms(12), of cbw] cbw(2) cb by auto
  have val: "validate_size_chain d g cbw (le32 (rp_entry r) 28) ?old = Inr ()"
    using assms(11) cbw(1) by (simp add: validate_file_chain_def)
  obtain xs where xs: "?old = 0 \<or> chain d fs ?old xs" using validate_size_chain_result [OF assms(1)] assms(4,5) val by metis
  define zs where "zs = take (unat n) (free_clusters (fat_at d g) (unat (cluster_count g)))"
  have zs: "length zs = unat n" using assms(14) n(2) by (simp add: zs_def)
  have zb: "\<forall>z\<in>set zs. valid_cluster g z \<and> fat_at d g z = 0"
    using free_clusters_bounds [OF g order_refl] by (auto simp: zs_def dest: in_set_takeD)
  have fits: "length data \<le> 512 * unat (fs_sectors_per_cluster fs) * unat n"
    using ceiling_covers [OF cb, of "length data"] n(2) assms(13) by simp
  obtain fresh d1 d2 where f: "allocate_chain w fs n d = (Inr fresh, d1)" "write_clusters w g (unat n) fresh data d1 = (Inr [], d2)"
    "fresh = end_or hd zs" "fat_ok d2 g" "volume_whole d2 g" "fat_at d2 g = linked (fat_at d g) zs"
    "zs \<noteq> [] \<Longrightarrow> chain d2 fs fresh zs \<and> take (length data) (chain_bytes d2 fs zs) = data"
    "\<And>lba. lba \<notin> fat_region g \<Longrightarrow> \<forall>z\<in>set zs. lba \<notin> cluster_lbas g z \<Longrightarrow> read_sector d2 Test lba = read_sector d Test lba"
    using fresh_contents [OF assms(1-6) zs_def zs fits] by metis
  obtain d3 d4 where d4: "update_directory_entry w fs (rp_slot r) (rp_name r) fresh (of_nat (length data)) d2 = (Inr (), d3)"
    "drop_chain w fs ?old d3 = (Inr (), d4)" "fat_ok d4 g" "volume_whole d4 g"
    "fat_at d4 g = (\<lambda>x. if ?old \<noteq> 0 \<and> x \<in> set xs then 0 else linked (fat_at d g) zs x)"
    "read_directory_slot d4 fs (rp_slot r) = Inr (updated_entry (rp_entry r) (rp_name r) fresh (of_nat (length data)))"
    "chain d4 fs fresh zs = chain d2 fs fresh zs" "chain_bytes d4 fs zs = chain_bytes d2 fs zs"
    "\<And>lba c. lba \<in> cluster_lbas g c \<Longrightarrow> fat_at d g c \<noteq> 0 \<Longrightarrow> lba \<noteq> ds_lba (rp_slot r) \<Longrightarrow> read_sector d4 Test lba = read_sector d Test lba"
    by (rule publish_over [OF assms(1,3) gw assms(5,6) si nlen xs zb f(3,4,5,6), of "of_nat (length data)"])
      (rule f(8), assumption+, rule that, assumption+)
  have run: "write_file w fs path (Some data) (of_nat (length data)) d = (Inr (), d4)"
    by (rule write_file_steps [OF gw assms(12,7,8,9) cbw(1) n(1) val f(1,2) d4(1,2)])
  define e where "e = \<lparr>de_name = map ascii_upper part, de_is_directory = False, de_first_cluster = fresh, de_size = of_nat (length data)\<rparr>"
  have e: "\<not> de_is_directory e" "unat (de_size e) = length data" "de_first_cluster e = fresh" "de_name e = map ascii_upper part"
    using assms(12) unat_of_nat_small [of "length data", where ?'a = 32] by (simp_all add: e_def)
  have "fresh = 0 \<or> valid_cluster g fresh" using f(3) zb by (auto simp: end_or_def)
  then have "unat fresh < 2 ^ 28" using g by (auto simp: valid_cluster_unat geometry_ok_def)
  then have dec: "decode_directory_entry (Some (updated_entry (rp_entry r) (rp_name r) fresh (of_nat (length data)))) = (Normal, Some e)"
    unfolding e_def by (rule decode_updated [OF entry(2,1) assms(9,10) part])
  have ne: "zs \<noteq> []" if "data \<noteq> []" using fits zs that by auto
  have reads: "read_file d4 fs p 0 True k = (Ok, take (unat k) data, de_size e)" if "resolve_entry d4 fs p zero_entry = (Ok, e)" for p k
    using read_written [OF assms(1) d4(4) [unfolded assms(4)] assms(13) _ assms(12) _ that e(1,2), of zs] zs n(2) ne f(7) d4(7,8) e(3) by simp
  have old: "\<forall>x\<in>set ys. fat_at d4 g x = 0" if ch: "chain d fs ?old ys" for ys
  proof -
    have "?old \<noteq> 0" using ch by (cases ys rule: remdups_adj.cases) (auto simp: valid_data_cluster_def)
    moreover from this have "ys = xs" using chain_unique ch xs by blast
    ultimately show ?thesis using d4(5) by simp
  qed
  have others: "fat_at d4 g c = fat_at d g c" if c: "fat_at d g c \<noteq> 0" "\<not> (\<exists>xs. chain d fs ?old xs \<and> c \<in> set xs)" for c
  proof -
    have "c \<notin> set zs" "\<not> (?old \<noteq> 0 \<and> c \<in> set xs)" using zb xs c by auto
    then show ?thesis using d4(5) by (auto simp: linked_outside)
  qed
  show ?thesis
    by (rule exI [of _ d4], rule exI [of _ "updated_entry (rp_entry r) (rp_name r) fresh (of_nat (length data))"], rule exI [of _ e])
      (intro conjI allI impI ballI run d4(3,6,9) dec e(1,2) reads others exI [of _ part] part e(4) old [rule_format])
qed


subsection \<open>The sample file\<close>

definition demo_resolved :: resolved_path where
  "demo_resolved = \<lparr>rp_parent_cluster = 2, rp_name = [0x41, 0x20, 0x20, 0x20, 0x20, 0x20, 0x20, 0x20, 0x54, 0x58, 0x54],
     rp_exists = True, rp_slot = \<lparr>ds_lba = 1132, ds_offset = 0\<rparr>, rp_entry = demo_slot\<rparr>"

lemma mirror_data: "1132 \<le> lba \<Longrightarrow> lba < 70000 \<Longrightarrow> read_sector mirror_disk Test lba = demo_ata [] Slave lba"
  by (auto simp: mirror_disk_def demo_disk_def read_sector_def sector_accessible_def disk_info_def drive_for_def Let_def
      unat_less_iff unat_le_iff)

lemma mirror_whole: "volume_whole mirror_disk demo_geometry"
proof -
  have "\<exists>s. read_sector mirror_disk Test lba = Some s \<and> length s = 512" if "1132 \<le> lba" "lba < 70000" for lba
    using mirror_data [OF that] that
    by (auto simp: demo_ata_def demo_boot_sector_def demo_fat_sector_def demo_slot_def demo_text_def not_le)
  then show ?thesis by (simp add: volume_whole_def data_region_def demo_geometry_def)
qed

lemma mirror_next: "c = 2 \<or> c = 3 \<Longrightarrow> chain_next mirror_disk demo_geometry c check = Inr None"
proof -
  assume c: "c = 2 \<or> c = 3"
  have g: "geometry_ok 80000 demo_geometry" using demo_mounted by (simp add: mounted_on_def demo_bpb)
  have "valid_cluster demo_geometry c" using c by (auto simp: valid_cluster_def demo_geometry_def)
  then show ?thesis using chain_next_fat [OF g mirror_ok] c by (auto simp: next_in_def mirror_at classify_eoc)
qed

lemma mirror_found: "find_in_directory mirror_disk demo_geometry 2 (rp_name demo_resolved) = Found \<lparr>ds_lba = 1132, ds_offset = 0\<rparr> demo_slot"
proof -
  have n: "unat (cluster_count demo_geometry) = Suc 68867" by (simp add: demo_geometry_def)
  have one: "unat (sectors_per_cluster demo_geometry) = 1" by (simp add: demo_geometry_def)
  have l: "directory_lba demo_geometry 2 0 = Some 1132"
    by (simp add: directory_lba_def valid_cluster_def demo_geometry_def cluster_to_lba_def checked_mul_u32_def checked_add_u32_def)
  have s: "read_sector mirror_disk Test 1132 = Some (demo_slot @ replicate 480 0)" by (simp add: mirror_data demo_ata_def)
  have f: "find_in_sector (rp_name demo_resolved) 2 1132 (demo_slot @ replicate 480 0) entry_offsets v =
      Stop (Found \<lparr>ds_lba = 1132, ds_offset = 0\<rparr> demo_slot)" for v
    by (simp add: entry_offsets_def upt_rec demo_slot_def live_short_entry_def name_matches_def demo_resolved_def ascii_upper_def Let_def note_free_def)
  have "valid_cluster demo_geometry 2" by (simp add: valid_cluster_def demo_geometry_def)
  then show ?thesis unfolding find_in_directory_def n find_in_chain.simps(2) by (simp add: one mirror_next l s f)
qed

lemma mirror_resolves: "resolve_path mirror_disk demo_fs (Some [0x61, 0x2E, 0x74, 0x78, 0x74]) = Inr demo_resolved"
proof -
  let ?p = "[0x61, 0x2E, 0x74, 0x78, 0x74] :: u8 list"
  have e: "encode_short_name (Some ?p) = Some (rp_name demo_resolved)" unfolding demo_resolved_def by code_simp
  have "components_valid ?p" by (simp add: components_valid.simps [of ?p] first_part_def after_first_def e)
  moreover have "resolve_components mirror_disk demo_geometry ?p 2 = Inr demo_resolved"
    using mirror_found e by (simp add: resolve_components.simps [of _ _ ?p] first_part_def after_first_def) (simp add: demo_resolved_def)
  moreover have "geometry_for_write demo_fs = Inr demo_geometry" "root_cluster demo_geometry = 2"
    using demo_bpb by (simp_all add: geometry_for_write_Inr demo_fs_def demo_geometry_def)
  ultimately show ?thesis by (simp add: resolve_path_def kPathCapacity_def)
qed

lemma mirror_valid_chain: "validate_file_chain mirror_disk demo_geometry demo_slot (entry_first_cluster demo_slot) = Inr ()"
proof -
  have "entry_first_cluster demo_slot = 3" "le32 demo_slot 28 = 5"
    by (simp_all add: entry_first_cluster_def demo_slot_def le16_def le32_def)
  moreover have "valid_cluster demo_geometry 3" by (simp add: valid_cluster_def demo_geometry_def)
  ultimately show ?thesis
    using mirror_next [of 3 True]
    by (simp add: validate_file_chain_def validate_size_chain_def file_cluster_count_def checked_mul_u32_def demo_geometry_def)
qed

lemma mirror_file_facts:
  "1 \<le> length (free_clusters (fat_at mirror_disk demo_geometry) 68868)"
  "rp_exists demo_resolved" "\<not> is_directory_entry (rp_entry demo_resolved)" "rp_entry demo_resolved ! 21 AND 0xF0 = 0"
  "rp_entry demo_resolved = demo_slot" "rp_slot demo_resolved = \<lparr>ds_lba = 1132, ds_offset = 0\<rparr>" "entry_first_cluster demo_slot = 3"
  "unat (fs_sectors_per_cluster demo_fs) = 1" "unat (cluster_count demo_geometry) = 68868"
proof -
  show "1 \<le> length (free_clusters (fat_at mirror_disk demo_geometry) 68868)" using arg_cong [OF mirror_free, of length] by simp
qed (simp_all add: demo_resolved_def demo_slot_def is_directory_entry_def entry_first_cluster_def le16_def demo_fs_def demo_geometry_def)


end
