(* ===== verification/Elf.thy ===== *)
theory Elf
  imports User_Space Fat32_Helpers
begin

text \<open>
  Program images (\<^verbatim>\<open>kernel/user/elf.cpp\<close>): the ELF64 header checks, the collection of the loadable segments
  and the page plan.  A file is the list of its bytes; the packed header structs are read field by field
  at their offsets, in the little-endian order of the machine.
\<close>

unbundle bit_operations_syntax

datatype elf_status =
    ElfOk | BadMagic | Truncated | ElfUnsupported | InvalidSegment | RangeOverflow | OverlappingSegments
  | InterpreterNotSupported | AddressOutOfRange | InvalidEntry

record load_segment =
  ls_virtual_address :: u64
  ls_memory_size :: u64
  ls_file_offset :: u64
  ls_file_size :: u64
  ls_flags :: u32

record elf_image_info =
  ei_entry :: u64
  ei_segments :: "load_segment list"

record segment_page_plan =
  sp_first_page :: u64
  sp_page_count :: u64
  sp_writable :: bool
  sp_executable :: bool
  sp_file_offset :: u64
  sp_file_bytes :: u64
  sp_memory_bytes :: u64

definition PF_X :: u32 where [kernel_const]: "PF_X = 1"
definition PF_W :: u32 where [kernel_const]: "PF_W = 2"
definition kElfHeaderSize :: nat where [kernel_const]: "kElfHeaderSize = 64"
definition kProgramHeaderSize :: nat where [kernel_const]: "kProgramHeaderSize = 56"
definition kMaxSegments :: nat where [kernel_const]: "kMaxSegments = 16"

definition le64 :: "u8 list \<Rightarrow> nat \<Rightarrow> u64" where
  "le64 p i = ucast (le32 p i) OR push_bit 32 (ucast (le32 p (i + 4)))"

definition checked_add :: "u64 \<Rightarrow> u64 \<Rightarrow> u64 option" where
  "checked_add left right = (if right > UINT64_MAX - left then None else Some (left + right))"

definition checked_mul :: "u64 \<Rightarrow> u64 \<Rightarrow> u64 option" where
  "checked_mul left right = (if left \<noteq> 0 \<and> right > UINT64_MAX div left then None else Some (left * right))"

definition read_bytes :: "u8 list \<Rightarrow> u64 \<Rightarrow> nat \<Rightarrow> u8 list option" where
  "read_bytes data offset len =
     (if unat offset > length data \<or> len > length data - unat offset then None
      else Some (take len (drop (unat offset) data)))"

record elf64_header =
  eh_ident :: "u8 list"
  eh_type :: u16
  eh_machine :: u16
  eh_entry :: u64
  eh_program_header_offset :: u64
  eh_header_size :: u16
  eh_program_header_size :: u16
  eh_program_header_count :: u16

definition elf64_header_of :: "u8 list \<Rightarrow> elf64_header" where
  "elf64_header_of b = \<lparr>eh_ident = take 16 b, eh_type = le16 b 16, eh_machine = le16 b 18, eh_entry = le64 b 24,
     eh_program_header_offset = le64 b 32, eh_header_size = le16 b 52, eh_program_header_size = le16 b 54,
     eh_program_header_count = le16 b 56\<rparr>"

record elf64_program_header =
  ph_type :: u32
  ph_flags :: u32
  ph_offset :: u64
  ph_virtual_address :: u64
  ph_file_size :: u64
  ph_memory_size :: u64

definition elf64_program_header_of :: "u8 list \<Rightarrow> elf64_program_header" where
  "elf64_program_header_of b = \<lparr>ph_type = le32 b 0, ph_flags = le32 b 4, ph_offset = le64 b 8, ph_virtual_address = le64 b 16,
     ph_file_size = le64 b 32, ph_memory_size = le64 b 40\<rparr>"

definition segment_permissions :: "u32 \<Rightarrow> bool \<times> bool" where
  "segment_permissions elf_flags = (elf_flags AND PF_W \<noteq> 0, elf_flags AND PF_X \<noteq> 0)"

text \<open>
  One program header: an error, or what it adds to the loop's state, which is the list of the page ranges
  and segments so far and whether one of them is executable and contains the entry.
\<close>

record elf_scan =
  es_expanded :: "(u64 \<times> u64) list"
  es_segments :: "load_segment list"
  es_entry_seen :: bool

definition inspect_program_header :: "u8 list \<Rightarrow> elf64_header \<Rightarrow> u16 \<Rightarrow> elf_scan \<Rightarrow> elf_status + elf_scan" where
  "inspect_program_header data header index scan =
     (case checked_mul (ucast index) (ucast (eh_program_header_size header)) of None \<Rightarrow> Inl RangeOverflow
      | Some relative_offset \<Rightarrow>
     (case checked_add (eh_program_header_offset header) relative_offset of None \<Rightarrow> Inl RangeOverflow
      | Some offset \<Rightarrow>
     (case read_bytes data offset kProgramHeaderSize of None \<Rightarrow> Inl Truncated
      | Some bytes \<Rightarrow>
     let ph = elf64_program_header_of bytes
     in if ph_type ph = 3 then Inl InterpreterNotSupported
     else if ph_type ph = 2 then Inl ElfUnsupported
     else if ph_type ph \<noteq> 1 then Inr scan
     else if length (es_segments scan) = kMaxSegments then Inl InvalidSegment
     else if ph_file_size ph > ph_memory_size ph then Inl InvalidSegment
     else case checked_add (ph_offset ph) (ph_file_size ph) of None \<Rightarrow> Inl RangeOverflow
      | Some file_end \<Rightarrow>
     if unat file_end > length data then Inl Truncated
     else case checked_add (ph_virtual_address ph) (ph_memory_size ph) of None \<Rightarrow> Inl RangeOverflow
      | Some virtual_end \<Rightarrow>
     if ph_memory_size ph = 0 then Inl InvalidSegment
     else let expanded_start = align_down (ph_virtual_address ph) kPageSize;
              expanded_end = align_up virtual_end kPageSize
     in if expanded_end = UINT64_MAX \<or> expanded_start < kUserImageBase \<or> expanded_end > kUserImageLimit \<or>
           expanded_start \<ge> expanded_end then Inl AddressOutOfRange
     else if list_ex (\<lambda>(s, e). expanded_start < e \<and> expanded_end > s) (es_expanded scan) then Inl OverlappingSegments
     else Inr \<lparr>es_expanded = es_expanded scan @ [(expanded_start, expanded_end)],
            es_segments = es_segments scan @ [\<lparr>ls_virtual_address = ph_virtual_address ph, ls_memory_size = ph_memory_size ph,
              ls_file_offset = ph_offset ph, ls_file_size = ph_file_size ph, ls_flags = ph_flags ph\<rparr>],
            es_entry_seen = (es_entry_seen scan \<or> (ph_flags ph AND PF_X \<noteq> 0 \<and>
              eh_entry header \<ge> ph_virtual_address ph \<and> eh_entry header < virtual_end))\<rparr>)))"

fun inspect_loop :: "u8 list \<Rightarrow> elf64_header \<Rightarrow> nat list \<Rightarrow> elf_scan \<Rightarrow> elf_status + elf_scan" where
  "inspect_loop data header [] scan = Inr scan"
| "inspect_loop data header (index # rest) scan =
     (case inspect_program_header data header (of_nat index) scan of
        Inl error \<Rightarrow> Inl error | Inr scan \<Rightarrow> inspect_loop data header rest scan)"

definition inspect_elf64 :: "u8 list option \<Rightarrow> elf_status + elf_image_info" where
  "inspect_elf64 data =
     (case data of None \<Rightarrow> Inl Truncated
      | Some d \<Rightarrow>
     if length d < kElfHeaderSize then Inl Truncated
     else case read_bytes d 0 64 of None \<Rightarrow> Inl Truncated
      | Some bytes \<Rightarrow>
     let header = elf64_header_of bytes
     in if eh_ident header ! 0 \<noteq> 0x7F \<or> eh_ident header ! 1 \<noteq> 0x45 \<or> eh_ident header ! 2 \<noteq> 0x4C \<or> eh_ident header ! 3 \<noteq> 0x46
     then Inl BadMagic
     else if eh_ident header ! 4 \<noteq> 2 \<or> eh_ident header ! 5 \<noteq> 1 \<or> eh_type header \<noteq> 2 \<or> eh_machine header \<noteq> 62 \<or>
             unat (eh_header_size header) < kElfHeaderSize then Inl ElfUnsupported
     else if unat (eh_program_header_size header) < kProgramHeaderSize then Inl Truncated
     else case checked_mul (ucast (eh_program_header_count header)) (ucast (eh_program_header_size header)) of
        None \<Rightarrow> Inl RangeOverflow
      | Some program_headers_bytes \<Rightarrow>
     (case checked_add (eh_program_header_offset header) program_headers_bytes of
        None \<Rightarrow> Inl RangeOverflow
      | Some program_headers_end \<Rightarrow>
     if unat program_headers_end > length d then Inl Truncated
     else case inspect_loop d header [0..<unat (eh_program_header_count header)]
                 \<lparr>es_expanded = [], es_segments = [], es_entry_seen = False\<rparr> of
        Inl error \<Rightarrow> Inl error
      | Inr scan \<Rightarrow>
          if \<not> es_entry_seen scan then Inl InvalidEntry
          else if es_segments scan = [] then Inl InvalidSegment
          else Inr \<lparr>ei_entry = eh_entry header, ei_segments = es_segments scan\<rparr>))"

fun plan_segments :: "load_segment list \<Rightarrow> elf_status + segment_page_plan list" where
  "plan_segments [] = Inr []"
| "plan_segments (segment # rest) =
     (case checked_add (ls_virtual_address segment) (ls_memory_size segment) of None \<Rightarrow> Inl RangeOverflow
      | Some segment_end \<Rightarrow>
     let first = align_down (ls_virtual_address segment) kPageSize;
         last_page = align_up segment_end kPageSize
     in if last_page = UINT64_MAX \<or> last_page \<le> first then Inl RangeOverflow
     else let (writable, executable) = segment_permissions (ls_flags segment)
     in case plan_segments rest of Inl error \<Rightarrow> Inl error
      | Inr plans \<Rightarrow>
          Inr (\<lparr>sp_first_page = first, sp_page_count = (last_page - first) div kPageSize, sp_writable = writable,
                 sp_executable = executable, sp_file_offset = ls_file_offset segment, sp_file_bytes = ls_file_size segment,
                 sp_memory_bytes = ls_memory_size segment\<rparr> # plans))"

text \<open>The plan array is given by its capacity; \<open>None\<close> is the null pointer.\<close>

definition build_load_plan :: "u8 list option \<Rightarrow> nat option \<Rightarrow> elf_status + segment_page_plan list" where
  "build_load_plan elf out_capacity =
     (case inspect_elf64 elf of Inl status \<Rightarrow> Inl status
      | Inr info \<Rightarrow>
          if (case out_capacity of None \<Rightarrow> ei_segments info \<noteq> [] | Some n \<Rightarrow> length (ei_segments info) > n) then Inl InvalidSegment
          else plan_segments (ei_segments info))"

subsection \<open>Accepted images\<close>

text \<open>The addresses of a segment and of the pages it touches, as natural numbers.\<close>

definition segment_bytes :: "load_segment \<Rightarrow> nat set" where
  "segment_bytes s = {unat (ls_virtual_address s) ..< unat (ls_virtual_address s) + unat (ls_memory_size s)}"

definition page_range :: "load_segment \<Rightarrow> u64 \<times> u64" where
  "page_range s = (align_down (ls_virtual_address s) kPageSize, align_up (ls_virtual_address s + ls_memory_size s) kPageSize)"

definition segment_ok :: "nat \<Rightarrow> load_segment \<Rightarrow> bool" where
  "segment_ok file_length s \<longleftrightarrow> ls_memory_size s \<noteq> 0 \<and> ls_file_size s \<le> ls_memory_size s \<and>
     unat (ls_file_offset s) + unat (ls_file_size s) \<le> file_length \<and>
     unat (ls_virtual_address s) + unat (ls_memory_size s) \<le> unat kUserImageLimit \<and>
     kUserImageBase \<le> fst (page_range s) \<and> snd (page_range s) \<le> kUserImageLimit \<and> fst (page_range s) < snd (page_range s)"

definition ranges_disjoint :: "u64 \<times> u64 \<Rightarrow> u64 \<times> u64 \<Rightarrow> bool" where
  "ranges_disjoint a b \<longleftrightarrow> snd a \<le> fst b \<or> snd b \<le> fst a"

definition scan_ok :: "nat \<Rightarrow> u64 \<Rightarrow> elf_scan \<Rightarrow> bool" where
  "scan_ok file_length entry scan \<longleftrightarrow> es_expanded scan = map page_range (es_segments scan) \<and>
     length (es_segments scan) \<le> kMaxSegments \<and> list_all (segment_ok file_length) (es_segments scan) \<and>
     sorted_wrt ranges_disjoint (es_expanded scan) \<and>
     (es_entry_seen scan \<longrightarrow> (\<exists>s\<in>set (es_segments scan). ls_flags s AND PF_X \<noteq> 0 \<and> unat entry \<in> segment_bytes s))"

lemma checked_add_64_Some: "checked_add a b = Some c \<longleftrightarrow> unat a + unat b < 2 ^ 64 \<and> c = a + b \<and> unat c = unat a + unat b"
proof -
  have "unat (UINT64_MAX - a) = 18446744073709551615 - unat a" by (subst unat_sub) simp_all
  moreover have "unat a < 2 ^ 64" using unsigned_less [of a, where 'a = nat] by simp
  ultimately have "b > UINT64_MAX - a \<longleftrightarrow> \<not> unat a + unat b < 2 ^ 64" unfolding word_less_nat_alt by (simp add: not_less) linarith
  moreover have "unat a + unat b < 2 ^ 64 \<Longrightarrow> unat (a + b) = unat a + unat b" using unat_add_lem [of a b] by simp
  ultimately show ?thesis by (auto simp: checked_add_def)
qed

lemma align_up_within:
  assumes "align_up v kPageSize \<le> kUserImageLimit"
  shows "unat v \<le> unat (align_up v kPageSize)" "unat (align_up v kPageSize) = (unat v + 4095) div 4096 * 4096"
proof -
  have small: "unat v \<le> 2 ^ 64 - 4096"
  proof (rule ccontr)
    assume "\<not> ?thesis"
    then have "align_up v kPageSize = 0xFFFFFFFFFFFFF000" by (intro align_up_page_saturates) simp
    then show False using assms by (simp add: kUserImageLimit_def)
  qed
  then show "unat v \<le> unat (align_up v kPageSize)" "unat (align_up v kPageSize) = (unat v + 4095) div 4096 * 4096"
    using align_up_page_ge unat_align_up_page by simp_all
qed

definition segment_of :: "elf64_program_header \<Rightarrow> load_segment" where
  "segment_of ph = \<lparr>ls_virtual_address = ph_virtual_address ph, ls_memory_size = ph_memory_size ph,
     ls_file_offset = ph_offset ph, ls_file_size = ph_file_size ph, ls_flags = ph_flags ph\<rparr>"

lemma inspect_program_header_adds:
  assumes "inspect_program_header d header i scan = Inr scan'" "scan' \<noteq> scan"
  obtains s where "scan' = \<lparr>es_expanded = es_expanded scan @ [page_range s], es_segments = es_segments scan @ [s],
      es_entry_seen = (es_entry_seen scan \<or> (ls_flags s AND PF_X \<noteq> 0 \<and> eh_entry header \<ge> ls_virtual_address s \<and>
        eh_entry header < ls_virtual_address s + ls_memory_size s))\<rparr>"
    "length (es_segments scan) \<noteq> kMaxSegments" "ls_file_size s \<le> ls_memory_size s" "ls_memory_size s \<noteq> 0"
    "unat (ls_file_offset s) + unat (ls_file_size s) \<le> length d"
    "checked_add (ls_virtual_address s) (ls_memory_size s) = Some (ls_virtual_address s + ls_memory_size s)"
    "\<not> fst (page_range s) < kUserImageBase" "\<not> snd (page_range s) > kUserImageLimit" "\<not> fst (page_range s) \<ge> snd (page_range s)"
    "\<not> list_ex (\<lambda>(a, b). fst (page_range s) < b \<and> snd (page_range s) > a) (es_expanded scan)"
proof -
  obtain bytes file_end virtual_end where ph: "ph_file_size (elf64_program_header_of bytes) \<le> ph_memory_size (elf64_program_header_of bytes)"
      "checked_add (ph_offset (elf64_program_header_of bytes)) (ph_file_size (elf64_program_header_of bytes)) = Some file_end"
      "unat file_end \<le> length d" "ph_memory_size (elf64_program_header_of bytes) \<noteq> 0"
      "checked_add (ph_virtual_address (elf64_program_header_of bytes)) (ph_memory_size (elf64_program_header_of bytes)) = Some virtual_end"
      "length (es_segments scan) \<noteq> kMaxSegments"
    and rest: "(let expanded_start = align_down (ph_virtual_address (elf64_program_header_of bytes)) kPageSize;
              expanded_end = align_up virtual_end kPageSize
     in if expanded_end = UINT64_MAX \<or> expanded_start < kUserImageBase \<or> expanded_end > kUserImageLimit \<or>
           expanded_start \<ge> expanded_end then Inl AddressOutOfRange
     else if list_ex (\<lambda>(s, e). expanded_start < e \<and> expanded_end > s) (es_expanded scan) then Inl OverlappingSegments
     else Inr \<lparr>es_expanded = es_expanded scan @ [(expanded_start, expanded_end)],
            es_segments = es_segments scan @ [segment_of (elf64_program_header_of bytes)],
            es_entry_seen = (es_entry_seen scan \<or> (ph_flags (elf64_program_header_of bytes) AND PF_X \<noteq> 0 \<and>
              eh_entry header \<ge> ph_virtual_address (elf64_program_header_of bytes) \<and> eh_entry header < virtual_end))\<rparr>) = Inr scan'"
    using assms unfolding inspect_program_header_def segment_of_def by (auto simp: Let_def not_less split: option.splits if_splits)
  define s where "s = segment_of (elf64_program_header_of bytes)"
  have v: "virtual_end = ls_virtual_address s + ls_memory_size s" using ph(5) by (simp add: checked_add_64_Some s_def segment_of_def)
  have r: "page_range s = (align_down (ph_virtual_address (elf64_program_header_of bytes)) kPageSize, align_up virtual_end kPageSize)"
    by (simp add: page_range_def v) (simp add: s_def segment_of_def)
  show thesis
    by (rule that [of s]) (use ph rest v r in \<open>auto simp: s_def segment_of_def Let_def checked_add_64_Some split: if_splits\<close>)
qed

lemma inspect_program_header_ok:
  assumes "inspect_program_header d header i scan = Inr scan'" "scan_ok (length d) (eh_entry header) scan"
  shows "scan_ok (length d) (eh_entry header) scan'"
proof (cases "scan' = scan")
  case False
  from inspect_program_header_adds [OF assms(1) False] obtain s where s:
    "scan' = \<lparr>es_expanded = es_expanded scan @ [page_range s], es_segments = es_segments scan @ [s],
      es_entry_seen = (es_entry_seen scan \<or> (ls_flags s AND PF_X \<noteq> 0 \<and> eh_entry header \<ge> ls_virtual_address s \<and>
        eh_entry header < ls_virtual_address s + ls_memory_size s))\<rparr>"
    "length (es_segments scan) \<noteq> kMaxSegments" "ls_file_size s \<le> ls_memory_size s" "ls_memory_size s \<noteq> 0"
    "unat (ls_file_offset s) + unat (ls_file_size s) \<le> length d"
    "checked_add (ls_virtual_address s) (ls_memory_size s) = Some (ls_virtual_address s + ls_memory_size s)"
    "\<not> fst (page_range s) < kUserImageBase" "\<not> snd (page_range s) > kUserImageLimit" "\<not> fst (page_range s) \<ge> snd (page_range s)"
    "\<not> list_ex (\<lambda>(a, b). fst (page_range s) < b \<and> snd (page_range s) > a) (es_expanded scan)" by blast
  have e: "unat (ls_virtual_address s + ls_memory_size s) = unat (ls_virtual_address s) + unat (ls_memory_size s)"
    using s(6) by (simp add: checked_add_64_Some)
  have "snd (page_range s) \<le> kUserImageLimit" using s(8) by simp
  then have "unat (ls_virtual_address s) + unat (ls_memory_size s) \<le> unat kUserImageLimit"
    using align_up_within(1) [of "ls_virtual_address s + ls_memory_size s"] e by (simp add: page_range_def word_le_nat_alt)
  then have "segment_ok (length d) s" using s by (simp add: segment_ok_def not_less not_le)
  moreover have "\<forall>r\<in>set (es_expanded scan). ranges_disjoint r (page_range s)"
    using s(10) by (auto simp: list_ex_iff ranges_disjoint_def not_less)
  moreover have "unat (eh_entry header) \<in> segment_bytes s" if "ls_virtual_address s \<le> eh_entry header"
      "eh_entry header < ls_virtual_address s + ls_memory_size s"
    using that e by (simp add: segment_bytes_def word_le_nat_alt word_less_nat_alt)
  ultimately show ?thesis
    using assms(2) s(1,2) by (auto simp: scan_ok_def sorted_wrt_append)
qed (use assms in simp)

lemma inspect_loop_ok:
  assumes "inspect_loop d header is scan = Inr scan'" "scan_ok (length d) (eh_entry header) scan"
  shows "scan_ok (length d) (eh_entry header) scan'"
  using assms
  by (induction d header "is" scan rule: inspect_loop.induct) (auto split: sum.splits dest: inspect_program_header_ok)

text \<open>The pages of a plan and what it has to do with its segment.\<close>

definition plan_bytes :: "segment_page_plan \<Rightarrow> nat set" where
  "plan_bytes p = {unat (sp_first_page p) ..< unat (sp_first_page p) + 4096 * unat (sp_page_count p)}"

definition plans_segment :: "nat \<Rightarrow> load_segment \<Rightarrow> segment_page_plan \<Rightarrow> bool" where
  "plans_segment file_length s p \<longleftrightarrow>
     unat (sp_first_page p) mod 4096 = 0 \<and> sp_page_count p \<noteq> 0 \<and> segment_bytes s \<noteq> {} \<and>
     plan_bytes p = (\<Union>a\<in>segment_bytes s. {a div 4096 * 4096 ..< (a div 4096 + 1) * 4096}) \<and>
     plan_bytes p \<subseteq> {unat kUserImageBase ..< unat kUserImageLimit} \<and>
     sp_writable p = (ls_flags s AND PF_W \<noteq> 0) \<and> sp_executable p = (ls_flags s AND PF_X \<noteq> 0) \<and>
     sp_file_offset p = ls_file_offset s \<and> sp_file_bytes p = ls_file_size s \<and> sp_memory_bytes p = ls_memory_size s \<and>
     unat (sp_file_offset p) + unat (sp_file_bytes p) \<le> file_length \<and> sp_file_bytes p \<le> sp_memory_bytes p"

lemma touched_pages:
  assumes "(0 :: nat) < n"
  shows "(\<Union>a\<in>{v ..< v + n}. {a div 4096 * 4096 ..< (a div 4096 + 1) * 4096}) = {v - v mod 4096 ..< (v + n + 4095) div 4096 * 4096}"
proof (intro equalityI subsetI)
  fix x assume "x \<in> (\<Union>a\<in>{v ..< v + n}. {a div 4096 * 4096 ..< (a div 4096 + 1) * 4096})"
  then obtain a where a: "v \<le> a" "a < v + n" "a div 4096 * 4096 \<le> x" "x < (a div 4096 + 1) * 4096" by auto
  have "v div 4096 \<le> a div 4096" using a(1) by (rule div_le_mono)
  moreover have "a div 4096 + 1 \<le> (v + n + 4095) div 4096" using a(2) by linarith
  ultimately show "x \<in> {v - v mod 4096 ..< (v + n + 4095) div 4096 * 4096}" using a(3,4) minus_mod_eq_div_mult [of v 4096] by auto
next
  fix x assume x: "x \<in> {v - v mod 4096 ..< (v + n + 4095) div 4096 * 4096}"
  define a where "a = max v (min x (v + n - 1))"
  have "v \<le> a" "a < v + n" using assms by (auto simp: a_def)
  moreover have "a div 4096 = x div 4096"
  proof -
    have lo: "v div 4096 \<le> x div 4096" using x minus_mod_eq_div_mult [of v 4096] by (simp add: less_eq_div_iff_mult_less_eq)
    have "v + n + 4095 = v + n - 1 + 4096" using assms by simp
    then have "(v + n + 4095) div 4096 = (v + n - 1) div 4096 + 1" by (simp only: div_add_self2)
    then have hi: "x div 4096 \<le> (v + n - 1) div 4096"
      using x less_mult_imp_div_less [of x "(v + n + 4095) div 4096" 4096] by simp
    show ?thesis
    proof (cases "x < v")
      case True
      then show ?thesis using lo assms div_le_mono [of x v 4096] by (simp add: a_def)
    next
      case False
      then show ?thesis using hi div_le_mono [of "v + n - 1" x 4096] by (cases "x \<le> v + n - 1") (auto simp: a_def min_def max_def)
    qed
  qed
  moreover have "x div 4096 * 4096 \<le> x \<and> x < (x div 4096 + 1) * 4096"
    using div_mult_mod_eq [of x 4096] mod_less_divisor [of 4096 x] by (simp add: algebra_simps)
  ultimately show "x \<in> (\<Union>a\<in>{v ..< v + n}. {a div 4096 * 4096 ..< (a div 4096 + 1) * 4096})"
    by (intro UN_I [of a]) simp_all
qed

lemma plan_segment_ok:
  assumes "segment_ok file_length s"
  obtains p where "plan_segments (s # rest) = (case plan_segments rest of Inl e \<Rightarrow> Inl e | Inr ps \<Rightarrow> Inr (p # ps))"
    "plans_segment file_length s p" "plan_bytes p = {unat (fst (page_range s)) ..< unat (snd (page_range s))}"
proof -
  let ?v = "ls_virtual_address s" and ?n = "ls_memory_size s"
  define first fin where "first = align_down ?v kPageSize" and "fin = align_up (?v + ?n) kPageSize"
  have pr: "page_range s = (first, fin)" by (simp add: page_range_def first_def fin_def)
  have ok: "?n \<noteq> 0" "ls_file_size s \<le> ?n" "unat (ls_file_offset s) + unat (ls_file_size s) \<le> file_length"
    "unat ?v + unat ?n \<le> unat kUserImageLimit" "kUserImageBase \<le> first" "fin \<le> kUserImageLimit" "first < fin"
    using assms pr by (simp_all add: segment_ok_def)
  have sum: "checked_add ?v ?n = Some (?v + ?n)" "unat (?v + ?n) = unat ?v + unat ?n"
    using ok(4) unat_add_lem [of ?v ?n] by (simp_all add: checked_add_64_Some kUserImageLimit_def)
  have f: "unat first = unat ?v - unat ?v mod 4096" by (simp add: first_def unat_align_down_page)
  have l: "unat fin = (unat ?v + unat ?n + 4095) div 4096 * 4096"
    using align_up_within(2) [of "?v + ?n"] ok(6) sum(2) by (simp add: fin_def)
  have diff: "unat (fin - first) = unat fin - unat first" using ok(7) by (intro unat_sub) simp
  have fm: "unat first mod 4096 = 0" unfolding f by (simp add: minus_mod_eq_mult_div)
  have count: "4096 * unat ((fin - first) div kPageSize) = unat fin - unat first"
  proof -
    have "4096 dvd unat fin - unat first" using fm l by (intro dvd_diff_nat) (auto simp: mod_eq_0_iff_dvd)
    then show ?thesis by (simp add: unat_div_word diff)
  qed
  have le: "unat first < unat fin" using ok(7) by (simp add: word_less_nat_alt)
  define p where "p = \<lparr>sp_first_page = first, sp_page_count = (fin - first) div kPageSize,
    sp_writable = (ls_flags s AND PF_W \<noteq> 0), sp_executable = (ls_flags s AND PF_X \<noteq> 0), sp_file_offset = ls_file_offset s,
    sp_file_bytes = ls_file_size s, sp_memory_bytes = ?n\<rparr>"
  have bytes: "plan_bytes p = {unat first ..< unat fin}" using count le by (simp add: plan_bytes_def p_def)
  have "fin \<noteq> UINT64_MAX" using ok(6) by (auto simp: kUserImageLimit_def word_le_nat_alt)
  then have "plan_segments (s # rest) = (case plan_segments rest of Inl e \<Rightarrow> Inl e | Inr ps \<Rightarrow> Inr (p # ps))"
    using ok(7) [folded not_le] sum(1)
    by (cases "plan_segments rest") (auto simp: Let_def segment_permissions_def first_def [symmetric] fin_def [symmetric] p_def)
  moreover have "plans_segment file_length s p"
  proof -
    have nz: "0 < unat ?n" using ok(1) by (simp add: unat_gt_0)
    then have "plan_bytes p = (\<Union>a\<in>segment_bytes s. {a div 4096 * 4096 ..< (a div 4096 + 1) * 4096})"
      unfolding bytes segment_bytes_def touched_pages [OF nz] f l by simp
    moreover have "sp_page_count p \<noteq> 0" using count le by (auto simp: p_def)
    ultimately show ?thesis
      using ok fm nz bytes by (auto simp: plans_segment_def p_def segment_bytes_def word_le_nat_alt)
  qed
  ultimately show thesis using that bytes pr by simp
qed

lemma plan_segments_ok:
  assumes "list_all (segment_ok file_length) ss"
  shows "\<exists>ps. plan_segments ss = Inr ps \<and> list_all2 (plans_segment file_length) ss ps \<and>
    map plan_bytes ps = map (\<lambda>s. {unat (fst (page_range s)) ..< unat (snd (page_range s))}) ss"
  using assms
proof (induction ss)
  case (Cons s ss)
  then obtain ps where ps: "plan_segments ss = Inr ps" "list_all2 (plans_segment file_length) ss ps"
      "map plan_bytes ps = map (\<lambda>s. {unat (fst (page_range s)) ..< unat (snd (page_range s))}) ss" by auto
  have "segment_ok file_length s" using Cons.prems by simp
  from plan_segment_ok [OF this, of ss] obtain p where "plan_segments (s # ss) = Inr (p # ps)" "plans_segment file_length s p"
      "plan_bytes p = {unat (fst (page_range s)) ..< unat (snd (page_range s))}" using ps(1) by auto
  then show ?case using ps by auto
qed simp

text \<open>
  C33: the load plan of an accepted program.  For every file, \<open>build_load_plan\<close> with room for sixteen segments
  fails exactly as \<open>inspect_elf64\<close> does; otherwise there are one to sixteen plans, one per loadable segment
  in order.  Each consists of exactly the pages that the segment's addresses touch, inside the user image
  region, with the permissions of the segment and its part of the file within the file.  The pages of
  different plans are disjoint, and the entry point lies in an executable segment.
\<close>

theorem load_plan_spec:
  "case build_load_plan (Some d) (Some 16) of
     Inl e \<Rightarrow> inspect_elf64 (Some d) = Inl e
   | Inr plans \<Rightarrow> \<exists>info. inspect_elf64 (Some d) = Inr info \<and> plans \<noteq> [] \<and> length plans \<le> 16 \<and>
       list_all2 (plans_segment (length d)) (ei_segments info) plans \<and>
       sorted_wrt (\<lambda>p q. plan_bytes p \<inter> plan_bytes q = {}) plans \<and>
       list_ex (\<lambda>s. ls_flags s AND PF_X \<noteq> 0 \<and> unat (ei_entry info) \<in> segment_bytes s) (ei_segments info)"
proof (cases "inspect_elf64 (Some d)")
  case (Inl e)
  then show ?thesis by (simp add: build_load_plan_def)
next
  case (Inr info)
  let ?h = "elf64_header_of (take 64 d)"
  obtain scan where scan: "inspect_loop d ?h [0..<unat (eh_program_header_count ?h)]
        \<lparr>es_expanded = [], es_segments = [], es_entry_seen = False\<rparr> = Inr scan"
      "es_entry_seen scan" "es_segments scan \<noteq> []" "info = \<lparr>ei_entry = eh_entry ?h, ei_segments = es_segments scan\<rparr>"
    using Inr unfolding inspect_elf64_def by (auto simp: Let_def read_bytes_def split: option.splits if_splits sum.splits)
  have start: "scan_ok (length d) (eh_entry ?h) \<lparr>es_expanded = [], es_segments = [], es_entry_seen = False\<rparr>"
    by (simp add: scan_ok_def)
  note ok = inspect_loop_ok [OF scan(1) start, unfolded scan_ok_def kMaxSegments_def]
  have entry: "list_ex (\<lambda>s. ls_flags s AND PF_X \<noteq> 0 \<and> unat (eh_entry ?h) \<in> segment_bytes s) (es_segments scan)"
    using ok scan(2) by (auto simp: list_ex_iff)
  have segments: "list_all (segment_ok (length d)) (es_segments scan)" using ok by blast
  obtain ps where ps: "plan_segments (es_segments scan) = Inr ps" "list_all2 (plans_segment (length d)) (es_segments scan) ps"
      "map plan_bytes ps = map (\<lambda>s. {unat (fst (page_range s)) ..< unat (snd (page_range s))}) (es_segments scan)"
    using plan_segments_ok [OF segments] by blast
  have "sorted_wrt (\<lambda>A B. A \<inter> B = {}) (map plan_bytes ps)"
    unfolding ps(3) using ok
    by (auto simp: sorted_wrt_map ranges_disjoint_def word_le_nat_alt elim!: sorted_wrt_mono_rel [rotated])
  then have "sorted_wrt (\<lambda>p q. plan_bytes p \<inter> plan_bytes q = {}) ps" by (simp add: sorted_wrt_map)
  moreover have "length ps = length (es_segments scan)" using ps(2) by (simp add: list_all2_lengthD)
  ultimately show ?thesis
    using Inr scan(3,4) ok ps(1,2) entry by (auto simp: build_load_plan_def)
qed

end
