(* ===== verification/Loader.thy ===== *)
theory Loader
  imports Elf Vfs Heap Process
begin

text \<open>
  Loading a program (\<open>load_process_image\<close> of \<^verbatim>\<open>kernel/user/elf.cpp\<close>): the function that brings together the
  file descriptors, the kernel heap, the load plan, the page allocator, user address spaces and the process
  record.  The two heap buffers (the file and the array of page addresses) are lists; the heap only
  provides their space.  Pages are written byte by byte through the physical memory of \<open>vm_state\<close>.
\<close>

unbundle bit_operations_syntax

record loader_state =
  ld_vm :: vm_state
  ld_heap :: heap_state
  ld_vfs :: vfs_state

definition kKernelStackPages :: u64 where [kernel_const]: "kKernelStackPages = 1"
definition kUserDataSelector :: u16 where [kernel_const]: "kUserDataSelector = 0x1B"
definition kUserCodeSelector :: u16 where [kernel_const]: "kUserCodeSelector = 0x23"

definition set_phys_byte :: "u64 \<Rightarrow> u8 \<Rightarrow> (u64 \<Rightarrow> u64) \<Rightarrow> u64 \<Rightarrow> u64" where
  "set_phys_byte p b mem =
     (let at = p - p mod 8; k = 8 * unat (p mod 8)
      in mem(at := (mem at AND NOT (push_bit k 0xFF)) OR push_bit k (ucast b)))"

definition copy_bytes :: "u64 \<Rightarrow> u8 list \<Rightarrow> (u64 \<Rightarrow> u64) \<Rightarrow> u64 \<Rightarrow> u64" where
  "copy_bytes destination bs mem = fold (\<lambda>i. set_phys_byte (destination + of_nat i) (bs ! i)) [0..<length bs] mem"

definition zero_bytes :: "u64 \<Rightarrow> nat \<Rightarrow> (u64 \<Rightarrow> u64) \<Rightarrow> u64 \<Rightarrow> u64" where
  "zero_bytes destination n mem = fold (\<lambda>i. set_phys_byte (destination + of_nat i) 0) [0..<n] mem"

text \<open>Freeing the collected pages; the results of \<open>free_page\<close> are ignored.\<close>

definition free_user_pages :: "u64 list \<Rightarrow> vm_state \<Rightarrow> vm_state" where
  "free_user_pages pages s = fold (\<lambda>p s. s\<lparr>vm_phys := snd (free_page p (vm_phys s))\<rparr>) pages s"

definition failure_status :: "elf_status \<Rightarrow> elf_status" where
  "failure_status preferred = (if preferred = ElfOk then InvalidSegment else preferred)"

text \<open>
  The loop that fills the file buffer: the status of the failing read, or the bytes.  A read that stores
  nothing ends the loop, so every round shortens what is left.
\<close>

lemma vfs_read_got: "vfs_read read fd b n s = (Ok, out, got, s') \<Longrightarrow> got = length out"
  by (auto simp: vfs_read_def Let_def split: if_splits prod.splits)

function read_image :: "fs_read \<Rightarrow> int \<Rightarrow> nat \<Rightarrow> u8 list \<Rightarrow> vfs_state \<Rightarrow> u8 list option \<times> vfs_state" where
  "read_image read fd file_length elf s =
     (if \<not> length elf < file_length then (Some elf, s)
      else let (status, out, bytes_read, s) = vfs_read read fd True (of_nat (file_length - length elf)) s
      in if status \<noteq> Ok \<or> bytes_read = 0 then (None, s)
      else read_image read fd file_length (elf @ out) s)"
  by pat_completeness auto
termination by (relation "measure (\<lambda>(r, fd, n, e, s). n - length e)") (auto dest!: sym [THEN vfs_read_got] simp: diff_less_mono2 length_pos_if_in_set neq_Nil_conv)

declare read_image.simps [simp del]

text \<open>One page: allocate, clear, copy the part of the file that falls on it, map.\<close>

definition load_page ::
  "u8 list \<Rightarrow> u64 \<Rightarrow> load_segment \<Rightarrow> segment_page_plan \<Rightarrow> u64 \<Rightarrow> u64 \<Rightarrow> u64 list \<times> vm_state \<Rightarrow> elf_status \<times> u64 list \<times> vm_state" where
  "load_page elf root segment plan file_end page_index = (\<lambda>(pages, s).
     let virtual_page = sp_first_page plan + page_index * kPageSize;
         (physical_page, ph) = allocate_page (vm_phys s);
         s = s\<lparr>vm_phys := ph\<rparr>
     in if physical_page = kInvalidPhysicalAddress then (InvalidSegment, pages, s)
     else let pages = pages @ [physical_page];
              s = s\<lparr>vm_mem := zero_bytes physical_page 4096 (vm_mem s)\<rparr>;
              page_end = virtual_page + kPageSize;
              copy_start = (if virtual_page > ls_virtual_address segment then virtual_page else ls_virtual_address segment);
              copy_end = (if page_end < file_end then page_end else file_end);
              source_offset = ls_file_offset segment + (copy_start - ls_virtual_address segment);
              copy_size = copy_end - copy_start
     in if copy_end > copy_start \<and>
           (unat source_offset > length elf \<or> unat copy_size > length elf - unat source_offset) then (RangeOverflow, pages, s)
     else let s = (if copy_end > copy_start
                   then s\<lparr>vm_mem := copy_bytes (physical_page + (copy_start - virtual_page))
                          (take (unat copy_size) (drop (unat source_offset) elf)) (vm_mem s)\<rparr>
                   else s);
              (ok, s) = map_user_page root virtual_page physical_page (sp_writable plan) (sp_executable plan) s
     in if \<not> ok then (InvalidSegment, pages, s) else (ElfOk, pages, s))"

fun run_until_error :: "('i \<Rightarrow> 's \<Rightarrow> elf_status \<times> 's) \<Rightarrow> 'i list \<Rightarrow> 's \<Rightarrow> elf_status \<times> 's" where
  "run_until_error f [] s = (ElfOk, s)"
| "run_until_error f (i # rest) s = (let (status, s) = f i s in if status \<noteq> ElfOk then (status, s) else run_until_error f rest s)"

definition load_segment_pages ::
  "u8 list \<Rightarrow> u64 \<Rightarrow> load_segment \<times> segment_page_plan \<Rightarrow> u64 list \<times> vm_state \<Rightarrow> elf_status \<times> u64 list \<times> vm_state" where
  "load_segment_pages elf root = (\<lambda>(segment, plan) st.
     case checked_add (ls_virtual_address segment) (ls_memory_size segment) of
       None \<Rightarrow> (RangeOverflow, st)
     | Some segment_end \<Rightarrow>
     (case checked_add (ls_virtual_address segment) (ls_file_size segment) of
       None \<Rightarrow> (RangeOverflow, st)
     | Some file_end \<Rightarrow>
         run_until_error (\<lambda>i. load_page elf root segment plan file_end (of_nat i)) [0..<unat (sp_page_count plan)] st))"

definition load_stack_page :: "u64 \<Rightarrow> nat \<Rightarrow> u64 list \<times> vm_state \<Rightarrow> elf_status \<times> u64 list \<times> vm_state" where
  "load_stack_page root stack_index = (\<lambda>(pages, s).
     let virtual_page = kUserStackTop - (kUserStackPages - of_nat stack_index) * kPageSize;
         (physical_page, ph) = allocate_page (vm_phys s);
         s = s\<lparr>vm_phys := ph\<rparr>
     in if physical_page = kInvalidPhysicalAddress then (InvalidSegment, pages, s)
     else let pages = pages @ [physical_page];
              s = s\<lparr>vm_mem := zero_bytes physical_page 4096 (vm_mem s)\<rparr>;
              (ok, s) = map_user_page root virtual_page physical_page True False s
     in if \<not> ok then (InvalidSegment, pages, s) else (ElfOk, pages, s))"

definition loaded_process :: "u64 \<Rightarrow> u64 \<Rightarrow> u64 \<Rightarrow> process \<Rightarrow> process" where
  "loaded_process root entry kernel_stack_page p =
     (let base = physical_to_hhdm kernel_stack_page
      in p\<lparr>p_page_table_physical := root, p_user_entry := entry, p_user_stack_top := kUserStackTop,
           p_kernel_stack_base := base, p_kernel_stack_top := base + kPageSize,
           p_context := zero_context\<lparr>uc_rip := entry, uc_rsp := kUserStackTop, uc_rflags := 0x202, uc_cs := kUserCodeSelector,
             uc_ss := kUserDataSelector, uc_return_kind := Iret\<rparr>,
           p_state := Ready\<rparr>)"

text \<open>From the address space on: the segments, the user stack, the kernel stack and the process record, or the cleanup.\<close>

definition build_process ::
  "u8 list \<Rightarrow> elf_image_info \<Rightarrow> segment_page_plan list \<Rightarrow> process \<Rightarrow> vm_state \<Rightarrow> elf_status \<times> process \<times> vm_state" where
  "build_process elf info plans p s =
     (let (created, root, s) = create_user_address_space s
      in if \<not> created then (InvalidSegment, zero_process, s)
      else let (status, pages, s) = run_until_error (load_segment_pages elf root) (zip (ei_segments info) plans) ([], s);
               (status, pages, s) = (if status \<noteq> ElfOk then (status, pages, s)
                 else run_until_error (load_stack_page root) [0..<unat kUserStackPages] (pages, s));
               (kernel_stack_page, s) = (if status \<noteq> ElfOk then (kInvalidPhysicalAddress, s)
                 else let (page, ph) = allocate_page (vm_phys s) in (page, s\<lparr>vm_phys := ph\<rparr>));
               status = (if status = ElfOk \<and> kernel_stack_page = kInvalidPhysicalAddress then InvalidSegment else status)
      in if status = ElfOk
      then (ElfOk, loaded_process root (ei_entry info) kernel_stack_page p,
            s\<lparr>vm_mem := zero_bytes kernel_stack_page (unat (kPageSize * kKernelStackPages)) (vm_mem s)\<rparr>)
      else let s = free_user_pages pages s;
               s = snd (destroy_user_address_space root s)
      in (failure_status status, zero_process, s))"

text \<open>The number of user pages, or \<open>None\<close> when it does not fit.\<close>

fun count_pages :: "segment_page_plan list \<Rightarrow> u64 \<Rightarrow> u64 option" where
  "count_pages [] n = (if n > UINT64_MAX div 8 then None else Some n)"
| "count_pages (p # ps) n = (if sp_page_count p > UINT64_MAX - n then None else count_pages ps (n + sp_page_count p))"

text \<open>From the bytes of the file on, up to the rewinding of the heap.\<close>

definition load_elf :: "u8 list \<Rightarrow> process \<Rightarrow> loader_state \<Rightarrow> elf_status \<times> process \<times> loader_state" where
  "load_elf elf p s =
     (case build_load_plan (Some elf) (Some kMaxSegments) of
        Inl status \<Rightarrow> (status, zero_process, s)
      | Inr plans \<Rightarrow>
      (case inspect_elf64 (Some elf) of
        Inl status \<Rightarrow> (status, zero_process, s)
      | Inr info \<Rightarrow>
      (case count_pages plans kUserStackPages of
        None \<Rightarrow> (RangeOverflow, zero_process, s)
      | Some user_page_count \<Rightarrow>
      let (buffer, h) = heap_allocate (user_page_count * 8) (ld_heap s);
          s = s\<lparr>ld_heap := h\<rparr>
      in if buffer = 0 then (InvalidSegment, zero_process, s)
      else let (status, p, vm) = build_process elf info plans p (ld_vm s)
      in (status, p, s\<lparr>ld_vm := vm\<rparr>))))"

definition load_process_image ::
  "storage \<Rightarrow> fat32_state \<Rightarrow> u8 list option \<Rightarrow> process \<Rightarrow> loader_state \<Rightarrow> elf_status \<times> process \<times> loader_state" where
  "load_process_image d fs path p s =
     (if path = None \<or> p_state p \<noteq> Created \<or> p_page_table_physical p \<noteq> 0 \<or> p_kernel_stack_base p \<noteq> 0 \<or>
         p_kernel_stack_top p \<noteq> 0 then (InvalidSegment, p, s)
      else let scratch_checkpoint = heap_checkpoint (ld_heap s);
               finish = (\<lambda>s. s\<lparr>ld_heap := snd (heap_rewind scratch_checkpoint (ld_heap s))\<rparr>);
               fail = (\<lambda>result s. (result, zero_process, finish s));
               (file_status, fd, v) = vfs_open (stat_path d fs) path (ld_vfs s);
               s = s\<lparr>ld_vfs := v\<rparr>
      in if fd < 0 \<or> file_status \<noteq> Ok then fail InvalidSegment s
      else case vfs_fstat fd (ld_vfs s) of
        Inl _ \<Rightarrow> fail InvalidSegment (s\<lparr>ld_vfs := snd (vfs_close fd (ld_vfs s))\<rparr>)
      | Inr info \<Rightarrow>
      if fi_is_directory info \<or> fi_size info = 0 then fail InvalidSegment (s\<lparr>ld_vfs := snd (vfs_close fd (ld_vfs s))\<rparr>)
      else let (buffer, h) = heap_allocate (ucast (fi_size info)) (ld_heap s);
               s = s\<lparr>ld_heap := h\<rparr>
      in if buffer = 0 then fail InvalidSegment (s\<lparr>ld_vfs := snd (vfs_close fd (ld_vfs s))\<rparr>)
      else let (contents, v) = read_image (read_file d fs) fd (unat (fi_size info)) [] (ld_vfs s);
               s = s\<lparr>ld_vfs := snd (vfs_close fd v)\<rparr>
      in case contents of None \<Rightarrow> fail InvalidSegment s
      | Some elf \<Rightarrow> (let (status, p, s) = load_elf elf p s in (status, p, finish s)))"

subsection \<open>What loading leaves behind\<close>

text \<open>A descriptor table in which every free slot is blank, as initialisation and closing leave it.\<close>

definition vfs_tidy :: "vfs_state \<Rightarrow> bool" where
  "vfs_tidy v \<longleftrightarrow> vfs_inv v \<and> list_all (\<lambda>slot. fd_in_use slot \<or> slot = empty_descriptor) (file_descriptors v)"

text \<open>\<open>reopened v fd w\<close>: \<open>w\<close> is \<open>v\<close> with the free descriptor \<open>fd\<close> taken.\<close>

definition reopened :: "vfs_state \<Rightarrow> int \<Rightarrow> vfs_state \<Rightarrow> bool" where
  "reopened v fd w \<longleftrightarrow> 3 \<le> fd \<and> fd < 64 \<and> \<not> fd_in_use (file_descriptors v ! nat fd) \<and>
     (\<exists>slot. fd_in_use slot \<and> w = v\<lparr>file_descriptors := (file_descriptors v)[nat fd := slot]\<rparr>)"

lemma reopenedI:
  "fd_in_use slot \<Longrightarrow> 3 + i < 64 \<Longrightarrow> \<not> fd_in_use (file_descriptors v ! (3 + i)) \<Longrightarrow>
     reopened v (3 + int i) (v\<lparr>file_descriptors := (file_descriptors v)[3 + i := slot]\<rparr>)"
  by (auto simp: reopened_def nat_add_distrib)

lemma vfs_open_reopens:
  assumes "vfs_inv v" "vfs_open stat path v = (status, fd, w)"
  shows "if 0 \<le> fd then status = Ok \<and> reopened v fd w else w = v"
proof -
  have "3 + i < 64 \<and> \<not> fd_in_use (file_descriptors v ! (3 + i))"
    if "first_slot (\<lambda>d. \<not> fd_in_use d) (drop 3 (file_descriptors v)) = Some i" for i
    using that assms(1) by (auto simp: first_slot_Some vfs_inv_def kFileDescriptorCount_def)
  then show ?thesis
    using assms(2) unfolding vfs_open_def kFirstFileDescriptor_def
    by (auto simp: Let_def split: option.splits sum.splits if_splits prod.splits intro!: reopenedI)
qed

lemma vfs_read_reopened:
  assumes "reopened v fd w" "vfs_read read fd b n w = (status, out, got, w')"
  shows "reopened v fd w'"
proof (cases "w' = w")
  case False
  obtain slot where w: "fd_in_use slot" "w = v\<lparr>file_descriptors := (file_descriptors v)[nat fd := slot]\<rparr>"
    using assms(1) by (auto simp: reopened_def)
  obtain off where "w' = w\<lparr>file_descriptors := (file_descriptors w)[nat fd := (file_descriptors w ! nat fd)\<lparr>fd_offset := off\<rparr>]\<rparr>"
      "valid_file_descriptor fd w"
    using assms(2) False by (auto simp: vfs_read_def Let_def split: if_splits prod.splits)
  then have "w' = v\<lparr>file_descriptors := (file_descriptors v)[nat fd := (file_descriptors w ! nat fd)\<lparr>fd_offset := off\<rparr>]\<rparr>"
      "fd_in_use ((file_descriptors w ! nat fd)\<lparr>fd_offset := off\<rparr>)"
    using w by (auto simp: valid_file_descriptor_def split: if_splits)
  then show ?thesis using assms(1) unfolding reopened_def by blast
qed (use assms in simp)

lemma read_image_reopened:
  assumes "reopened v fd w" "read_image read fd n elf w = (contents, w')"
  shows "reopened v fd w'"
  using assms
proof (induction read fd n elf w rule: read_image.induct)
  case (1 read fd n elf w)
  obtain status out got w1 where r: "vfs_read read fd True (of_nat (n - length elf)) w = (status, out, got, w1)" by (metis prod.exhaust)
  have w1: "reopened v fd w1" using "1.prems"(1) r by (rule vfs_read_reopened)
  show ?case
  proof (cases "length elf < n \<and> status = Ok \<and> got \<noteq> 0")
    case True
    then show ?thesis using "1.IH" [OF _ r [symmetric] refl refl] w1 "1.prems"(2) r by (simp add: read_image.simps [of _ _ _ elf])
  next
    case False
    then show ?thesis using w1 "1.prems" r by (auto simp: read_image.simps [of _ _ _ elf] Let_def split: if_splits)
  qed
qed

lemma close_restores:
  assumes "vfs_tidy v" "reopened v fd w"
  shows "snd (vfs_close fd w) = v"
proof -
  obtain slot where w: "fd_in_use slot" "w = v\<lparr>file_descriptors := (file_descriptors v)[nat fd := slot]\<rparr>" "3 \<le> fd" "fd < 64"
      "\<not> fd_in_use (file_descriptors v ! nat fd)"
    using assms(2) by (auto simp: reopened_def)
  have len: "nat fd < length (file_descriptors v)" using assms(1) w(3,4) by (simp add: vfs_tidy_def vfs_inv_def kFileDescriptorCount_def)
  then have "file_descriptors v ! nat fd = empty_descriptor" using assms(1) w(5) by (auto simp: vfs_tidy_def list_all_length)
  then have "(file_descriptors v)[nat fd := empty_descriptor] = file_descriptors v" by (metis list_update_id)
  then show ?thesis using w len by (simp add: vfs_close_def valid_file_descriptor_def kernel_const)
qed

text \<open>The file is read completely.\<close>

lemma read_image_contents:
  assumes "fat32_holds (d, fs) q bs" "fat32_files.open_at fd q bs 0 w" "n = length bs"
  shows "fst (read_image (read_file d fs) fd n [] w) = Some bs"
proof (cases "bs = []")
  case True
  then show ?thesis using assms(3) by (simp add: read_image.simps)
next
  case False
  have "length bs < 2 ^ 32" using assms(2) unat_less_32 [of "fd_size (file_descriptors w ! nat fd)"] by (simp add: fat32_files.open_at_def)
  then have n: "unat (of_nat (length bs) :: u64) = length bs" by (intro unat_of_nat_small) simp
  obtain w' where "vfs_read (read_file d fs) fd True (of_nat (length bs)) w = (Ok, bs, length bs, w')"
    using fat32_files.open_reads [OF assms(1,2), of "of_nat (length bs)"] n by auto
  then show ?thesis using False assms(3) by (subst read_image.simps) (simp add: read_image.simps [of _ _ _ bs])
qed

lemma opened_contents:
  assumes "fat32_holds (d, fs) q bs" "vfs_inv v" "vfs_open (stat_path d fs) (Some q) v = (status, fd, w)" "0 \<le> fd"
    and "vfs_fstat fd w = Inr info"
  shows "unat (fi_size info) = length bs" "fst (read_image (read_file d fs) fd (unat (fi_size info)) [] w) = Some bs"
proof -
  have "q \<noteq> []" "length q \<le> 127"
    using assms(3,4) by (auto simp: vfs_open_def copy_path_def kPathCapacity_def split: if_splits)
  from fat32_files.open_starts [OF assms(1) this assms(2)] have op: "fat32_files.open_at fd q bs 0 w"
    using assms(3,4) by (auto split: option.splits)
  then show size: "unat (fi_size info) = length bs"
    using assms(5) by (auto simp: vfs_fstat_def fat32_files.open_at_def split: if_splits)
  show "fst (read_image (read_file d fs) fd (unat (fi_size info)) [] w) = Some bs"
    by (rule read_image_contents [OF assms(1) op size])
qed

text \<open>Success means the record is filled in, failure that it is blank.\<close>

lemma build_process_result:
  assumes "build_process elf info plans p vm = (status, p', vm')"
  shows "if status = ElfOk then \<exists>root page. p' = loaded_process root (ei_entry info) page p else p' = zero_process"
  using assms unfolding build_process_def
  by (auto simp: Let_def failure_status_def split: prod.splits if_splits)

lemma rewind_after:
  assumes "heap_inv h" "h_current h \<noteq> 0"
  shows "snd (heap_rewind (heap_checkpoint h) h) = h" "snd (heap_rewind (heap_checkpoint h) (snd (heap_allocate n h))) = h"
    "snd (heap_rewind (heap_checkpoint h) (snd (heap_allocate m (snd (heap_allocate n h))))) = h"
  using heap_rewind_restores [OF assms, of "[]"] heap_rewind_restores [OF assms, of "[n]"] heap_rewind_restores [OF assms, of "[n, m]"]
  by (simp_all add: case_prod_beta)

lemma reopened_fstat:
  assumes "reopened v fd w" "vfs_inv v"
  obtains info where "vfs_fstat fd w = Inr info"
  using assms by (auto simp: reopened_def vfs_fstat_def valid_file_descriptor_def vfs_inv_def kernel_const nat_less_iff)

lemma plan_segments_error: "plan_segments ss \<noteq> Inl ElfOk"
  by (induction ss) (auto simp: Let_def split: option.splits sum.splits prod.splits)

lemma load_elf_result:
  assumes "load_elf elf p s = (status, p', s')"
  shows "ld_vfs s' = ld_vfs s" "ld_heap s' = ld_heap s \<or> (\<exists>n. ld_heap s' = snd (heap_allocate n (ld_heap s)))"
    "case inspect_elf64 (Some elf) of
       Inl e \<Rightarrow> status = e \<and> p' = zero_process \<and> s' = s
     | Inr info \<Rightarrow> if status = ElfOk then \<exists>root page. p' = loaded_process root (ei_entry info) page p else p' = zero_process"
proof -
  have plan: "build_load_plan (Some elf) (Some kMaxSegments) = Inl e \<Longrightarrow> e \<noteq> ElfOk \<or> inspect_elf64 (Some elf) = Inl e" for e
    using plan_segments_error by (auto simp: build_load_plan_def split: sum.splits if_splits)
  show "ld_vfs s' = ld_vfs s" using assms by (auto simp: load_elf_def Let_def split: sum.splits option.splits prod.splits if_splits)
  show "ld_heap s' = ld_heap s \<or> (\<exists>n. ld_heap s' = snd (heap_allocate n (ld_heap s)))"
    using assms by (auto simp: load_elf_def Let_def split: sum.splits option.splits prod.splits if_splits) (metis snd_conv)+
  show "case inspect_elf64 (Some elf) of
       Inl e \<Rightarrow> status = e \<and> p' = zero_process \<and> s' = s
     | Inr info \<Rightarrow> if status = ElfOk then \<exists>root page. p' = loaded_process root (ei_entry info) page p else p' = zero_process"
  proof (cases "inspect_elf64 (Some elf)")
    case (Inl e)
    then have "build_load_plan (Some elf) (Some kMaxSegments) = Inl e" by (simp add: build_load_plan_def)
    then show ?thesis using assms Inl by (simp add: load_elf_def)
  next
    case (Inr info)
    then show ?thesis
      using assms plan build_process_result [of elf info] unfolding load_elf_def
      by (auto simp: Let_def split: sum.splits option.splits prod.splits if_splits)
  qed
qed

definition fresh_process :: "process \<Rightarrow> bool" where
  "fresh_process p \<longleftrightarrow> p_state p = Created \<and> p_page_table_physical p = 0 \<and> p_kernel_stack_base p = 0 \<and> p_kernel_stack_top p = 0"


text \<open>The text file of the example volume is not a program.\<close>

definition demo_loader :: loader_state where
  "demo_loader = \<lparr>ld_vm = \<lparr>vm_phys = phys_boot, vm_mem = (\<lambda>_. 0), vm_cr3 = 0, vm_nxe = True, vm_flushed = []\<rparr>, ld_heap = demo_heap,
     ld_vfs = vfs_initialize \<lparr>file_descriptors = [], directory_handles = []\<rparr>\<rparr>"

lemma demo_loader_ok: "heap_inv (ld_heap demo_loader)" "h_current (ld_heap demo_loader) \<noteq> 0" "vfs_tidy (ld_vfs demo_loader)"
  using demo_heap_inv
  by (simp_all add: demo_loader_def demo_heap_eq vfs_tidy_def vfs_inv_def vfs_initialize_def list_all_iff)


end
