(* ===== verification/Net_Wire.thy ===== *)
theory Net_Wire
  imports Prelude
begin

text \<open>
  The wire formats of the network stack (\<^verbatim>\<open>kernel/net/ethernet.cpp\<close>, \<^verbatim>\<open>ipv4.cpp\<close>, \<^verbatim>\<open>icmp.cpp\<close>,
  \<^verbatim>\<open>udp.cpp\<close>): parsers and builders with the Internet checksum.  A builder takes the output buffer as a
  list of at least \<open>capacity\<close> bytes (\<open>None\<close> for a null pointer) and answers the changed buffer with the
  length written; a parser takes the bytes it may read, as many as its length argument says.  A view of a
  payload is the payload's bytes.
\<close>

unbundle bit_operations_syntax

type_synonym mac_address = "u8 list"
type_synonym ipv4_address = "u8 list"

definition host_to_be16 :: "u16 \<Rightarrow> u16" where
  "host_to_be16 value = push_bit 8 value OR drop_bit 8 value"

definition be16 :: "u8 \<Rightarrow> u8 \<Rightarrow> u16" where
  "be16 a b = push_bit 8 (ucast a) OR ucast b"

definition read_be16 :: "u8 list \<Rightarrow> nat \<Rightarrow> u16" where
  "read_be16 bytes offset = be16 (bytes ! offset) (bytes ! (offset + 1))"

definition be16_bytes :: "u16 \<Rightarrow> u8 list" where
  "be16_bytes value = [ucast (drop_bit 8 value AND 0xFF), ucast (value AND 0xFF)]"

text \<open>Stores at consecutive offsets, the loop \<^verbatim>\<open>buffer[offset + i] = bytes[i]\<close>.\<close>

fun write_bytes :: "nat \<Rightarrow> u8 list \<Rightarrow> u8 list \<Rightarrow> u8 list" where
  "write_bytes offset [] buffer = buffer"
| "write_bytes offset (b # bs) buffer = write_bytes (offset + 1) bs (buffer[offset := b])"

definition write_be16 :: "nat \<Rightarrow> u16 \<Rightarrow> u8 list \<Rightarrow> u8 list" where
  "write_be16 offset value buffer = write_bytes offset (be16_bytes value) buffer"

text \<open>The payload of a builder: a pointer and a length.\<close>

definition payload_bytes :: "u8 list option \<Rightarrow> u16 \<Rightarrow> u8 list" where
  "payload_bytes payload payload_length =
     (case payload of None \<Rightarrow> [] | Some p \<Rightarrow> take (unat payload_length) p)"

subsection \<open>Ethernet\<close>

datatype ether_type = EtherIpv4 | EtherArp

fun ether_value :: "ether_type \<Rightarrow> u16" where
  "ether_value EtherIpv4 = 0x0800"
| "ether_value EtherArp = 0x0806"

definition supported_type :: "u16 \<Rightarrow> bool" where
  "supported_type value \<longleftrightarrow> value = ether_value EtherIpv4 \<or> value = ether_value EtherArp"

record ethernet_view =
  ev_destination :: mac_address
  ev_source :: mac_address
  ev_type :: ether_type
  ev_payload :: "u8 list"

definition parse_ethernet :: "u8 list option \<Rightarrow> u16 \<Rightarrow> ethernet_view option" where
  "parse_ethernet frame len =
     (case frame of None \<Rightarrow> None
      | Some f \<Rightarrow>
          if len < 14 then None
          else let type_value = be16 (f ! 12) (f ! 13)
          in if \<not> supported_type type_value then None
          else Some \<lparr>ev_destination = map (\<lambda>i. f ! i) [0..<6], ev_source = map (\<lambda>i. f ! (6 + i)) [0..<6],
                 ev_type = (if type_value = ether_value EtherIpv4 then EtherIpv4 else EtherArp),
                 ev_payload = take (unat (len - 14)) (drop 14 f)\<rparr>)"

definition build_ethernet ::
  "u8 list option \<Rightarrow> u16 \<Rightarrow> mac_address \<Rightarrow> mac_address \<Rightarrow> ether_type \<Rightarrow> u8 list option \<Rightarrow> u16 \<Rightarrow>
     (u8 list \<times> u16) option" where
  "build_ethernet frame capacity destination source kind payload payload_length =
     (let type_value = ether_value kind; required = (14 :: u32) + ucast payload_length
      in case frame of None \<Rightarrow> None
      | Some f \<Rightarrow>
          if (payload = None \<and> payload_length \<noteq> 0) \<or> \<not> supported_type type_value \<or>
             required > ucast capacity \<or> required > 0xFFFF then None
          else let f = write_bytes 0 (take 6 destination) f;
                   f = write_bytes 6 (take 6 source) f;
                   f = write_be16 12 type_value f;
                   f = write_bytes 14 (payload_bytes payload payload_length) f
          in Some (f, ucast required))"

subsection \<open>The Internet checksum\<close>

text \<open>The words of the data, big-endian, an odd last byte filled with zero.\<close>

fun sum_words :: "u32 \<Rightarrow> u8 list \<Rightarrow> u32" where
  "sum_words acc (a # b # rest) = sum_words (acc + ucast (be16 a b)) rest"
| "sum_words acc [a] = acc + ucast (push_bit 8 (ucast a) :: u16)"
| "sum_words acc [] = acc"

definition carry_round :: "u32 \<Rightarrow> u32" where
  "carry_round acc = (acc AND 0xFFFF) + drop_bit 16 acc"

lemma unat_carry_parts:
  "unat (acc AND 0xFFFF :: u32) = unat acc mod 65536" "unat (drop_bit 16 acc :: u32) = unat acc div 65536"
proof -
  have "(0xFFFF :: u32) = mask 16" by (simp add: mask_eq_exp_minus_1)
  then show "unat (acc AND 0xFFFF :: u32) = unat acc mod 65536" by (simp only: unat_and_mask) simp
  show "unat (drop_bit 16 acc :: u32) = unat acc div 65536" by (simp add: unat_drop_bit_div)
qed

lemma unat_carry_round: "unat (carry_round acc) = unat acc mod 65536 + unat acc div 65536"
proof -
  have "unat acc mod 65536 < 65536" "unat acc div 65536 < 65536"
    using unat_less_32 [of acc] by (simp_all add: div_less_iff_less_mult)
  then have "unat acc mod 65536 + unat acc div 65536 < 2 ^ 32" by simp
  then show ?thesis unfolding carry_round_def by (simp add: unat_word_ariths unat_carry_parts)
qed

function fold_carry :: "u32 \<Rightarrow> u32" where
  "fold_carry acc = (if drop_bit 16 acc \<noteq> 0 then fold_carry (carry_round acc) else acc)"
  by pat_completeness auto
termination
proof (relation "measure unat", goal_cases)
  case (2 acc)
  then have "0 < unat acc div 65536" by (metis unat_carry_parts(2) unat_gt_0)
  moreover have "unat acc = 65536 * (unat acc div 65536) + unat acc mod 65536" by simp
  ultimately have "unat (carry_round acc) < unat acc" unfolding unat_carry_round by linarith
  then show ?case by simp
qed simp

declare fold_carry.simps [simp del]

definition checksum :: "u8 list option \<Rightarrow> u16" where
  "checksum data =
     (case data of None \<Rightarrow> 0xFFFF | Some bytes \<Rightarrow> ucast (NOT (fold_carry (sum_words 0 bytes))))"

subsection \<open>IPv4\<close>

record packet_view =
  pv_source :: ipv4_address
  pv_destination :: ipv4_address
  pv_protocol :: u8
  pv_payload :: "u8 list"

definition ipv4_parse :: "u8 list option \<Rightarrow> u16 \<Rightarrow> packet_view option" where
  "ipv4_parse packet len =
     (case packet of None \<Rightarrow> None
      | Some p \<Rightarrow>
      if len < 20 then None
      else let version = drop_bit 4 (p ! 0); ihl = p ! 0 AND 0x0F
      in if version \<noteq> 4 \<or> ihl < 5 then None
      else let header_length = (ucast ihl * 4 :: u16)
      in if header_length > len then None
      else let total_length = read_be16 p 2
      in if total_length < header_length \<or> total_length > len then None
      else let fragment = read_be16 p 6
      in if fragment AND 0x3FFF \<noteq> 0 then None
      else if checksum (Some (take (unat header_length) p)) \<noteq> 0 then None
      else Some \<lparr>pv_source = map (\<lambda>i. p ! (12 + i)) [0..<4], pv_destination = map (\<lambda>i. p ! (16 + i)) [0..<4],
             pv_protocol = p ! 9,
             pv_payload = take (unat (total_length - header_length)) (drop (unat header_length) p)\<rparr>)"

definition ipv4_build ::
  "u8 list option \<Rightarrow> u16 \<Rightarrow> ipv4_address \<Rightarrow> ipv4_address \<Rightarrow> u8 \<Rightarrow> u16 \<Rightarrow> u8 list option \<Rightarrow> u16 \<Rightarrow>
     (u8 list \<times> u16) option" where
  "ipv4_build packet capacity source destination protocol identification payload payload_length =
     (let required = (20 :: u32) + ucast payload_length
      in case packet of None \<Rightarrow> None
      | Some p \<Rightarrow>
          if (payload = None \<and> payload_length \<noteq> 0) \<or> required > ucast capacity \<or> required > 0xFFFF then None
          else let p = p[0 := 0x45];
                   p = p[1 := 0];
                   p = write_be16 2 (ucast required) p;
                   p = write_be16 4 identification p;
                   p = write_be16 6 0 p;
                   p = p[8 := 64];
                   p = p[9 := protocol];
                   p = write_be16 10 0 p;
                   p = write_bytes 12 (take 4 source) p;
                   p = write_bytes 16 (take 4 destination) p;
                   header_checksum = checksum (Some (take 20 p));
                   p = write_be16 10 header_checksum p;
                   p = write_bytes 20 (payload_bytes payload payload_length) p
          in Some (p, ucast required))"

definition next_hop :: "ipv4_address \<Rightarrow> ipv4_address \<Rightarrow> ipv4_address \<Rightarrow> ipv4_address \<Rightarrow> ipv4_address" where
  "next_hop destination local_ip netmask gateway =
     (let same_subnet = list_all (\<lambda>i. destination ! i AND netmask ! i = local_ip ! i AND netmask ! i) [0..<4]
      in if same_subnet then destination else gateway)"

subsection \<open>ICMP echo\<close>

text \<open>The checksum of \<^verbatim>\<open>icmp.cpp\<close> repeats the text of the one of \<^verbatim>\<open>ipv4.cpp\<close>.\<close>

definition build_echo_request :: "u8 list option \<Rightarrow> u16 \<Rightarrow> u16 \<Rightarrow> u16 \<Rightarrow> (u8 list \<times> u16) option" where
  "build_echo_request payload capacity identifier sequence =
     (case payload of None \<Rightarrow> None
      | Some p \<Rightarrow>
          if capacity < 40 then None
          else let p = p[0 := 8];
                   p = p[1 := 0];
                   p = write_be16 2 0 p;
                   p = write_be16 4 identifier p;
                   p = write_be16 6 sequence p;
                   p = write_bytes 8 (map of_nat [0..<32]) p;
                   p = write_be16 2 (checksum (Some (take 40 p))) p
          in Some (p, 40))"

definition accept_echo_reply :: "u8 list option \<Rightarrow> u16 \<Rightarrow> u16 \<Rightarrow> u16 \<Rightarrow> u16 option" where
  "accept_echo_reply payload len expected_identifier expected_sequence =
     (case payload of None \<Rightarrow> None
      | Some p \<Rightarrow>
          if len < 8 then None
          else if p ! 0 \<noteq> 0 \<or> p ! 1 \<noteq> 0 then None
          else if checksum (Some (take (unat len) p)) \<noteq> 0 then None
          else if read_be16 p 4 \<noteq> expected_identifier \<or> read_be16 p 6 \<noteq> expected_sequence then None
          else Some (len - 8))"

subsection \<open>UDP\<close>

definition kMaxPayloadLength :: u16 where [kernel_const]: "kMaxPayloadLength = 1472"

definition pseudo_header_sum :: "ipv4_address \<Rightarrow> ipv4_address \<Rightarrow> u16 \<Rightarrow> u32" where
  "pseudo_header_sum source destination len =
     ucast (be16 (source ! 0) (source ! 1)) + ucast (be16 (destination ! 0) (destination ! 1)) +
     ucast (be16 (source ! 2) (source ! 3)) + ucast (be16 (destination ! 2) (destination ! 3)) + 17 + ucast len"

definition udp_checksum :: "ipv4_address \<Rightarrow> ipv4_address \<Rightarrow> u8 list option \<Rightarrow> u16 \<Rightarrow> u16" where
  "udp_checksum source destination datagram len =
     (case datagram of None \<Rightarrow> 0xFFFF
      | Some d \<Rightarrow>
          ucast (NOT (fold_carry (sum_words (pseudo_header_sum source destination len) (take (unat len) d)))))"

record datagram_view =
  dv_source_port :: u16
  dv_destination_port :: u16
  dv_payload :: "u8 list"

definition udp_build ::
  "u8 list option \<Rightarrow> u16 \<Rightarrow> ipv4_address \<Rightarrow> ipv4_address \<Rightarrow> u16 \<Rightarrow> u16 \<Rightarrow> u8 list option \<Rightarrow> u16 \<Rightarrow>
     (u8 list \<times> u16) option" where
  "udp_build datagram capacity source destination source_port destination_port payload payload_length =
     (let required = (8 :: u32) + ucast payload_length
      in case datagram of None \<Rightarrow> None
      | Some d \<Rightarrow>
          if (payload = None \<and> payload_length \<noteq> 0) \<or> payload_length > kMaxPayloadLength \<or>
             required > ucast capacity then None
          else let d = write_be16 0 source_port d;
                   d = write_be16 2 destination_port d;
                   d = write_be16 4 (ucast required) d;
                   d = write_be16 6 0 d;
                   d = write_bytes 8 (payload_bytes payload payload_length) d;
                   packet_checksum = udp_checksum source destination (Some d) (ucast required);
                   packet_checksum = (if packet_checksum = 0 then 0xFFFF else packet_checksum);
                   d = write_be16 6 packet_checksum d
          in Some (d, ucast required))"

definition udp_parse :: "u8 list option \<Rightarrow> u16 \<Rightarrow> ipv4_address \<Rightarrow> ipv4_address \<Rightarrow> datagram_view option" where
  "udp_parse datagram enclosing_length source destination =
     (case datagram of None \<Rightarrow> None
      | Some d \<Rightarrow>
          if enclosing_length < 8 then None
          else let len = read_be16 d 4
          in if len < 8 \<or> len > enclosing_length then None
          else if read_be16 d 6 \<noteq> 0 \<and> udp_checksum source destination (Some d) len \<noteq> 0 then None
          else Some \<lparr>dv_source_port = read_be16 d 0, dv_destination_port = read_be16 d 2,
                 dv_payload = take (unat (len - 8)) (drop 8 d)\<rparr>)"

subsection \<open>Checksum arithmetic\<close>

lemma unat_ucast_wider:
  fixes w :: "'a::len word"
  assumes "LENGTH('a) \<le> LENGTH('b)"
  shows "unat (ucast w :: 'b::len word) = unat w"
  using assms by (simp add: unsigned_ucast_eq take_bit_nat_eq_self order_less_le_trans [OF unsigned_less])

lemma unat_byte_shift: "unat (push_bit 8 (ucast a) :: u16) = 256 * unat a" for a :: u8
proof -
  have "unat a < 2 ^ 8" using unsigned_less [of a] by simp
  then show ?thesis by (simp add: unat_push_bit unat_ucast_wider)
qed

lemma unat_be16: "unat (be16 a b) = 256 * unat a + unat b"
proof -
  have "unat a < 2 ^ 8" "unat b < 2 ^ 8" using unsigned_less [of a] unsigned_less [of b] by simp_all
  moreover have "be16 a b = push_bit 8 (ucast a) + ucast b"
    unfolding be16_def by (rule disjunctive_add [symmetric]) (auto simp: bit_simps dest: bit_imp_le_length)
  ultimately show ?thesis by (simp add: unat_word_ariths unat_byte_shift unat_ucast_wider)
qed

lemma be16_bytes_parts: "be16_bytes v = [a, b] \<Longrightarrow> be16 a b = v"
proof -
  assume "be16_bytes v = [a, b]"
  then have a: "a = ucast (drop_bit 8 v AND 0xFF)" and b: "b = ucast (v AND 0xFF)" by (simp_all add: be16_bytes_def)
  have m: "(0xFF :: u16) = mask 8" by (simp add: mask_eq_exp_minus_1)
  have v: "unat v < 65536" using unsigned_less [of v] by simp
  have down: "unat (ucast x :: u8) = unat x mod 256" for x :: u16
    by (simp add: unsigned_ucast_eq take_bit_eq_mod)
  have "unat a = unat v div 256" "unat b = unat v mod 256"
    unfolding a b down m unat_and_mask using v by (simp_all add: unat_drop_bit_div)
  then show ?thesis by (simp add: unat_eq_iff unat_be16)
qed

lemma be16_bytes_form: obtains a b where "be16_bytes v = [a, b]" "be16 a b = v"
proof -
  have "be16_bytes v = [be16_bytes v ! 0, be16_bytes v ! 1]" by (simp add: be16_bytes_def)
  then show thesis using that be16_bytes_parts by blast
qed

fun words_sum :: "u8 list \<Rightarrow> nat" where
  "words_sum (a # b # rest) = unat (be16 a b) + words_sum rest"
| "words_sum [a] = 256 * unat a"
| "words_sum [] = 0"

lemma words_sum_append: "even (length xs) \<Longrightarrow> words_sum (xs @ ys) = words_sum xs + words_sum ys"
  by (induction xs rule: words_sum.induct) auto

lemma words_sum_bound: "words_sum xs \<le> 65535 * ((length xs + 1) div 2)"
proof (induction xs rule: words_sum.induct)
  case (1 a b rest)
  have "unat (be16 a b) < 2 ^ 16" using unsigned_less [of "be16 a b"] by simp
  then show ?case using 1 by simp
next
  case (2 a)
  have "unat a < 2 ^ 8" using unsigned_less [of a] by simp
  then show ?case by simp
qed simp

lemma sum_words_result:
  "unat acc + words_sum xs < 2 ^ 32 \<Longrightarrow> unat (sum_words acc xs) = unat acc + words_sum xs"
proof (induction acc xs rule: sum_words.induct)
  case (1 acc a b rest)
  have "unat (acc + ucast (be16 a b)) = unat acc + unat (be16 a b)"
    using 1(2) by (simp add: unat_word_ariths unat_ucast_wider)
  then show ?case using 1 by simp
next
  case (2 acc a)
  then show ?case by (simp add: unat_word_ariths unat_ucast_wider unat_byte_shift)
qed simp

lemma mod_65535_step: "0 < n \<Longrightarrow> (n mod 65536 + n div 65536 - 1) mod 65535 = (n - 1 :: nat) mod 65535"
proof -
  assume "0 < n"
  have n: "n = 65536 * (n div 65536) + n mod 65536" by simp
  define q r where "q = n div 65536" and "r = n mod 65536"
  have "n = 65536 * q + r" using n by (simp add: q_def r_def)
  then have "n - 1 = (r + q - 1) + 65535 * q" using \<open>0 < n\<close> by auto
  then show ?thesis by (simp flip: q_def r_def)
qed

text \<open>Folding the carries gives the representative modulo 65535 that is zero only for a zero sum.\<close>

lemma fold_carry_result:
  "unat (fold_carry acc) = (if unat acc = 0 then 0 else (unat acc - 1) mod 65535 + 1)"
proof (induction acc rule: fold_carry.induct)
  case (1 acc)
  show ?case
  proof (cases "drop_bit 16 acc = 0")
    case True
    then have "unat acc div 65536 = 0" by (metis unat_carry_parts(2) unat_0)
    then have "unat acc < 65536" by simp
    then show ?thesis using True by (subst fold_carry.simps) auto
  next
    case False
    then have "0 < unat acc div 65536" by (metis unat_carry_parts(2) unat_gt_0)
    then have pos: "0 < unat acc" "0 < unat (carry_round acc)" by (auto simp: unat_carry_round intro: gr0I)
    have "unat (fold_carry acc) = unat (fold_carry (carry_round acc))" using False by (subst fold_carry.simps) simp
    then show ?thesis using 1 [OF False] pos mod_65535_step [OF pos(1)] by (simp add: unat_carry_round)
  qed
qed

lemma fold_carry_16: "unat (fold_carry acc) < 65536"
  unfolding fold_carry_result using mod_less_divisor [of 65535 "unat acc - 1"] by simp

lemma unat_complement:
  fixes w :: u32
  assumes "unat w < 65536"
  shows "unat (ucast (NOT w) :: u16) = 65535 - unat w"
proof -
  have "NOT w = - 1 - w" by (simp add: not_eq_complement)
  then have n: "unat (NOT w) = 2 ^ 32 - 1 - unat w" using unat_max_minus [of w] by simp
  have "unat (ucast (NOT w) :: u16) = unat (NOT w) mod 65536"
    by (simp add: unsigned_ucast_eq take_bit_eq_mod)
  also have "\<dots> = 65535 - unat w"
  proof -
    have "2 ^ 32 - 1 - unat w = (65535 - unat w) + 65536 * 65535" using assms by simp
    then show ?thesis unfolding n by (simp only: mod_mult_self2) (use assms in simp)
  qed
  finally show ?thesis .
qed

definition ones_sum :: "nat \<Rightarrow> nat" where
  "ones_sum n = (if n = 0 then 0 else (n - 1) mod 65535 + 1)"

lemma complement_sum:
  assumes "unat acc + words_sum xs < 2 ^ 32"
  shows "unat (ucast (NOT (fold_carry (sum_words acc xs))) :: u16) = 65535 - ones_sum (unat acc + words_sum xs)"
  using unat_complement [OF fold_carry_16] sum_words_result [OF assms]
  by (simp add: fold_carry_result ones_sum_def)

lemma ones_sum_full: "ones_sum (n + (65535 - ones_sum n)) = 65535"
proof (cases "n = 0")
  case False
  define r where "r = (n - 1) mod 65535"
  have r: "r < 65535" "n - 1 = 65535 * ((n - 1) div 65535) + r" by (simp_all add: r_def)
  have "n + (65535 - ones_sum n) - 1 = 65535 * ((n - 1) div 65535) + 65534"
    using r False unfolding ones_sum_def r_def [symmetric] by simp
  then have "(n + (65535 - ones_sum n) - 1) mod 65535 = 65534" by (simp only: mod_mult_self4) simp
  then show ?thesis using False by (simp add: ones_sum_def)
qed (simp add: ones_sum_def)

lemma ones_sum_again: "ones_sum n = 65535 \<Longrightarrow> ones_sum (n + 65535) = 65535"
proof -
  assume "ones_sum n = 65535"
  then have n: "n \<noteq> 0" "(n - 1) mod 65535 = 65534" by (auto simp: ones_sum_def split: if_splits)
  then have "n + 65535 - 1 = n - 1 + 65535" by arith
  then show ?thesis using n by (simp only: ones_sum_def mod_add_self2) simp
qed

subsection \<open>Buffers\<close>

lemma write_bytes_eq:
  "offset + length bs \<le> length buffer \<Longrightarrow>
     write_bytes offset bs buffer = take offset buffer @ bs @ drop (offset + length bs) buffer"
proof (induction bs arbitrary: offset buffer)
  case (Cons b bs)
  have "write_bytes (offset + 1) bs (buffer[offset := b]) =
      take (offset + 1) (buffer[offset := b]) @ bs @ drop (offset + 1 + length bs) (buffer[offset := b])"
    using Cons.prems by (intro Cons.IH) simp
  then show ?case using Cons.prems by (simp add: take_Suc_conv_app_nth)
qed simp

lemma list_update_write: "xs[i := v] = write_bytes i [v] xs"
  by simp

lemma length_write_bytes [simp]: "length (write_bytes offset bs buffer) = length buffer"
  by (induction offset bs buffer rule: write_bytes.induct) simp_all

lemma write_bytes_tail:
  "length pre = offset \<Longrightarrow> length mid = length bs \<Longrightarrow>
     write_bytes offset bs (pre @ mid @ post) = pre @ bs @ post"
  by (simp add: write_bytes_eq)

lemma length_be16_bytes [simp]: "length (be16_bytes v) = 2"
  by (simp add: be16_bytes_def)

lemma list_4: "length xs = 4 \<Longrightarrow> xs = [xs ! 0, xs ! 1, xs ! 2, xs ! 3]"
  by (auto simp: length_Suc_conv numeral_eq_Suc)

lemma words_sum_be16 [simp]: "words_sum (be16_bytes v @ xs) = unat v + words_sum xs"
  by (rule be16_bytes_form [of v]) simp

lemma unat_required:
  assumes "k < 2 ^ 16"
  shows "unat ((of_nat k :: u32) + ucast (n :: u16)) = k + unat n"
proof -
  have k: "unat (of_nat k :: u32) = k" using assms by (intro unat_of_nat_small) simp
  have u: "unat (ucast n :: u32) = unat n" by (simp add: unat_ucast_wider)
  have "unat n < 2 ^ 16" using unsigned_less [of n] by simp
  then have "k + unat n < 2 ^ 32" using assms by simp
  then show ?thesis using k u by (simp add: unat_word_ariths)
qed

lemma unat_required_16:
  assumes "k < 2 ^ 16" "k + unat n < 2 ^ 16"
  shows "unat (ucast ((of_nat k :: u32) + ucast (n :: u16)) :: u16) = k + unat n"
proof -
  have "unat ((of_nat k :: u32) + ucast n) = k + unat n" using assms(1) by (rule unat_required)
  then show ?thesis using assms(2) by (simp add: unsigned_ucast_eq take_bit_nat_eq_self)
qed

lemma fits_iff:
  assumes "k < 2 ^ 16"
  shows "(of_nat k :: u32) + ucast (n :: u16) > ucast (capacity :: u16) \<longleftrightarrow> k + unat n > unat capacity"
  using unat_required [OF assms, of n] by (simp add: unat_less_iff unat_ucast_wider)

lemma fits_16_iff:
  assumes "k < 2 ^ 16"
  shows "(of_nat k :: u32) + ucast (n :: u16) > 0xFFFF \<longleftrightarrow> k + unat n > 65535"
  using unat_required [OF assms, of n] by (simp add: unat_less_iff)

subsection \<open>Ethernet round trip\<close>

lemma be16_ether: "be16 a b = ether_value kind \<Longrightarrow> supported_type (be16 a b)"
  by (cases kind) (auto simp: supported_type_def)

lemma list_6: "length xs = 6 \<Longrightarrow> xs = [xs ! 0, xs ! 1, xs ! 2, xs ! 3, xs ! 4, xs ! 5]"
  by (auto simp: length_Suc_conv numeral_eq_Suc)

lemma build_ethernet_form:
  assumes "length destination = 6" "length source = 6" "length data = unat n" "unat capacity \<le> length frame"
  shows "build_ethernet (Some frame) capacity destination source kind (Some data) n =
    (if 14 + unat n > unat capacity then None
     else Some (destination @ source @ be16_bytes (ether_value kind) @ data @ drop (14 + unat n) frame,
                ucast ((14 :: u32) + ucast n)))"
proof -
  have c: "unat capacity < 2 ^ 16" using unsigned_less [of capacity] by simp
  have fit: "(14 :: u32) + ucast n > ucast capacity \<longleftrightarrow> 14 + unat n > unat capacity"
    "(14 :: u32) + ucast n > 0xFFFF \<longleftrightarrow> 14 + unat n > 65535"
    using fits_iff [where k = 14] fits_16_iff [where k = 14] by simp_all
  have "supported_type (ether_value kind)" by (cases kind) (simp_all add: supported_type_def)
  moreover have "write_bytes 14 data (write_be16 12 (ether_value kind) (write_bytes 6 source (write_bytes 0 destination frame))) =
     destination @ source @ be16_bytes (ether_value kind) @ data @ drop (14 + unat n) frame" if "14 + unat n \<le> unat capacity"
    using assms that by (simp add: write_bytes_eq write_be16_def add.commute)
  ultimately show ?thesis
    using assms fit c by (simp add: build_ethernet_def Let_def payload_bytes_def)
qed

text \<open>
  An Ethernet frame built from its parts, padded behind by any bytes up to the received length,
  parses back to the same addresses and type with the payload followed by the padding; the builder
  refuses exactly a frame that does not fit and leaves the buffer behind the frame alone.
\<close>

lemma ethernet_roundtrip:
  assumes "length destination = 6" "length source = 6" "length data = unat n" "unat capacity \<le> length frame"
  shows "case build_ethernet (Some frame) capacity destination source kind (Some data) n of
     None \<Rightarrow> 14 + unat n > unat capacity
   | Some (frame', len) \<Rightarrow> unat len = 14 + unat n \<and> length frame' = length frame \<and>
       drop (unat len) frame' = drop (unat len) frame \<and>
       (\<forall>pad received. unat received = unat len + length pad \<longrightarrow>
          parse_ethernet (Some (take (unat len) frame' @ pad)) received =
            Some \<lparr>ev_destination = destination, ev_source = source, ev_type = kind, ev_payload = data @ pad\<rparr>)"
proof (cases "14 + unat n > unat capacity")
  case True
  then show ?thesis by (simp add: build_ethernet_form [OF assms])
next
  case False
  have c: "unat capacity < 2 ^ 16" using unsigned_less [of capacity] by simp
  have len: "unat (ucast ((14 :: u32) + ucast n) :: u16) = 14 + unat n"
    using unat_required_16 [of 14 n] False c by simp
  obtain a b where ab: "be16_bytes (ether_value kind) = [a, b]" "be16 a b = ether_value kind" by (rule be16_bytes_form)
  have parse: "parse_ethernet (Some (destination @ source @ a # b # data @ pad)) received =
      Some \<lparr>ev_destination = destination, ev_source = source, ev_type = kind, ev_payload = data @ pad\<rparr>"
    if "unat received = 14 + unat n + length pad" for pad and received :: u16
  proof -
    have "14 \<le> received" using that by (simp add: unat_le_iff)
    then have "unat (received - 14) = unat n + length pad" using that by (simp add: unat_sub)
    moreover have "map ((!) (destination @ source @ a # b # data @ pad)) [0..<6] = destination"
      "map (\<lambda>i. (destination @ source @ a # b # data @ pad) ! (6 + i)) [0..<6] = source"
      using assms(1,2) by (auto intro!: nth_equalityI simp: nth_append)
    ultimately show ?thesis
      using \<open>14 \<le> received\<close> assms ab(2) by (cases kind) (auto simp: parse_ethernet_def nth_append supported_type_def)
  qed
  show ?thesis
    using build_ethernet_form [OF assms, of kind] False len assms parse ab(1) by (auto simp: not_le)
qed

subsection \<open>IPv4 round trip\<close>

definition ipv4_header :: "u16 \<Rightarrow> u16 \<Rightarrow> u8 \<Rightarrow> u16 \<Rightarrow> ipv4_address \<Rightarrow> ipv4_address \<Rightarrow> u8 list" where
  "ipv4_header len identification protocol check source destination =
     [0x45, 0] @ be16_bytes len @ be16_bytes identification @ be16_bytes 0 @ [64, protocol] @ be16_bytes check @
     source @ destination"

lemma length_ipv4_header [simp]:
  "length source = 4 \<Longrightarrow> length destination = 4 \<Longrightarrow> length (ipv4_header l i p c source destination) = 20"
  by (simp add: ipv4_header_def)

lemma ipv4_header_sum:
  "words_sum (ipv4_header l i p c source destination) = words_sum (ipv4_header l i p 0 source destination) + unat c"
  by (simp add: ipv4_header_def)

lemma header_checksum:
  assumes "length source = 4" "length destination = 4"
    and "c = checksum (Some (ipv4_header l i p 0 source destination))"
  shows "checksum (Some (ipv4_header l i p c source destination)) = 0"
proof -
  let ?h = "\<lambda>c. ipv4_header l i p c source destination"
  have small: "words_sum (?h c) < 2 ^ 32" for c using words_sum_bound [of "?h c"] assms(1,2) by simp
  have ck: "unat (checksum (Some (?h c))) = 65535 - ones_sum (words_sum (?h c))" for c
    using complement_sum [of 0 "?h c"] small [of c] by (simp add: checksum_def)
  have "words_sum (?h c) = words_sum (?h 0) + (65535 - ones_sum (words_sum (?h 0)))"
    using ipv4_header_sum [of l i p c] ck [of 0] assms(3) by simp
  then have "ones_sum (words_sum (?h c)) = 65535" using ones_sum_full by simp
  then show ?thesis using ck [of c] by (simp add: unat_eq_iff)
qed

lemma ipv4_build_form:
  assumes "length source = 4" "length destination = 4" "length data = unat n" "unat capacity \<le> length packet"
    and "len = ucast ((20 :: u32) + ucast n)"
  shows "ipv4_build (Some packet) capacity source destination protocol identification (Some data) n =
    (if 20 + unat n > unat capacity then None
     else Some (ipv4_header len identification protocol
                  (checksum (Some (ipv4_header len identification protocol 0 source destination))) source destination
                @ data @ drop (20 + unat n) packet, len))"
proof (cases "20 + unat n > unat capacity")
  case True
  then show ?thesis using fits_iff [where k = 20 and n = n and capacity = capacity] by (simp add: ipv4_build_def)
next
  case False
  have c: "unat capacity < 2 ^ 16" using unsigned_less [of capacity] by simp
  have fit: "\<not> (20 :: u32) + ucast n > ucast capacity" "\<not> (20 :: u32) + ucast n > 0xFFFF"
    using fits_iff [where k = 20 and n = n and capacity = capacity] fits_16_iff [where k = 20 and n = n] False c by simp_all
  let ?h = "\<lambda>c. ipv4_header len identification protocol c source destination"
  define p8 where "p8 = write_bytes 16 destination (write_bytes 12 source (write_be16 10 0 ((write_be16 6 0
    (write_be16 4 identification (write_be16 2 len (packet[0 := 0x45, 1 := 0]))))[8 := 64, 9 := protocol])))"
  have p8: "p8 = ?h 0 @ drop 20 packet"
    using False assms(1,2,4)
    by (simp add: p8_def list_update_write write_bytes_eq write_be16_def ipv4_header_def del: write_bytes.simps)
  have "write_be16 10 ck (?h 0 @ drop 20 packet) = ?h ck @ drop 20 packet" for ck
    using assms(1,2) by (simp add: write_bytes_eq write_be16_def ipv4_header_def del: write_bytes.simps)
  moreover have "write_bytes 20 data (?h ck @ drop 20 packet) = ?h ck @ data @ drop (20 + unat n) packet" for ck
    using False assms(1-4) by (simp add: write_bytes_eq add.commute)
  moreover have "take 20 p8 = ?h 0" using assms(1,2) by (simp add: p8)
  ultimately show ?thesis
    using False fit assms p8 unfolding p8_def by (simp add: ipv4_build_def Let_def payload_bytes_def)
qed

lemma ipv4_parse_header:
  assumes "length source = 4" "length destination = 4" "unat len = 20 + length data"
    and "check = checksum (Some (ipv4_header len identification protocol 0 source destination))"
    and "unat received = unat len + length pad"
  shows "ipv4_parse (Some (ipv4_header len identification protocol check source destination @ data @ pad)) received =
    Some \<lparr>pv_source = source, pv_destination = destination, pv_protocol = protocol, pv_payload = data\<rparr>"
proof -
  let ?h = "ipv4_header len identification protocol check source destination"
  obtain l1 l2 where l: "be16_bytes len = [l1, l2]" "be16 l1 l2 = len" by (rule be16_bytes_form)
  obtain z1 z2 where z: "be16_bytes 0 = [z1, z2]" "be16 z1 z2 = 0" by (rule be16_bytes_form)
  obtain i1 i2 where i: "be16_bytes identification = [i1, i2]" by (rule be16_bytes_form)
  obtain c1 c2 where c: "be16_bytes check = [c1, c2]" by (rule be16_bytes_form)
  obtain s0 s1 s2 s3 where s: "source = [s0, s1, s2, s3]" using list_4 [OF assms(1)] by blast
  obtain d0 d1 d2 d3 where d: "destination = [d0, d1, d2, d3]" using list_4 [OF assms(2)] by blast
  have h: "?h @ data @ pad = [0x45, 0, l1, l2, i1, i2, z1, z2, 64, protocol, c1, c2, s0, s1, s2, s3, d0, d1, d2, d3] @ data @ pad"
    by (simp add: ipv4_header_def l i z c s d)
  have t20: "take 20 (?h @ data @ pad) = ?h" "drop 20 (?h @ data @ pad) = data @ pad" using assms(1,2) by simp_all
  have ck: "checksum (Some ?h) = 0" using header_checksum [OF assms(1,2,4)] .
  have n: "20 \<le> received" "len \<le> received" "20 \<le> len" "unat (len - 20) = length data"
    using assms(3,5) by (simp_all add: unat_le_iff unat_sub)
  have f: "(?h @ data @ pad) ! 0 = 0x45" "read_be16 (?h @ data @ pad) 2 = len" "read_be16 (?h @ data @ pad) 6 = 0"
    "(?h @ data @ pad) ! 9 = protocol"
    "map (\<lambda>i. (?h @ data @ pad) ! (12 + i)) [0..<4] = source" "map (\<lambda>i. (?h @ data @ pad) ! (16 + i)) [0..<4] = destination"
    unfolding h by (simp_all add: read_be16_def l z s d upt_rec)
  show ?thesis
    unfolding ipv4_parse_def option.case f Let_def using n t20 ck by (simp add: not_less)
qed

text \<open>
  An IPv4 packet built by the stack carries a header checksum its own parser accepts, and parses
  back to the same addresses, protocol and payload whatever padding follows it; the builder refuses
  exactly a packet that does not fit and leaves the buffer behind the packet alone.
\<close>

lemma ipv4_roundtrip:
  assumes "length source = 4" "length destination = 4" "length data = unat n" "unat capacity \<le> length packet"
  shows "case ipv4_build (Some packet) capacity source destination protocol identification (Some data) n of
     None \<Rightarrow> 20 + unat n > unat capacity
   | Some (packet', len) \<Rightarrow> unat len = 20 + unat n \<and> length packet' = length packet \<and>
       drop (unat len) packet' = drop (unat len) packet \<and> checksum (Some (take 20 packet')) = 0 \<and>
       (\<forall>pad received. unat received = unat len + length pad \<longrightarrow>
          ipv4_parse (Some (take (unat len) packet' @ pad)) received =
            Some \<lparr>pv_source = source, pv_destination = destination, pv_protocol = protocol, pv_payload = data\<rparr>)"
proof (cases "20 + unat n > unat capacity")
  case True
  then show ?thesis by (simp add: ipv4_build_form [OF assms refl])
next
  case False
  define len :: u16 where "len = ucast ((20 :: u32) + ucast n)"
  have "unat capacity < 2 ^ 16" using unsigned_less [of capacity] by simp
  then have len: "unat len = 20 + unat n" using unat_required_16 [of 20 n] False by (simp add: len_def)
  define check where "check = checksum (Some (ipv4_header len identification protocol 0 source destination))"
  have "ipv4_build (Some packet) capacity source destination protocol identification (Some data) n =
      Some (ipv4_header len identification protocol check source destination @ data @ drop (20 + unat n) packet, len)"
    using ipv4_build_form [OF assms len_def] False by (simp add: check_def)
  moreover have "ipv4_parse (Some (ipv4_header len identification protocol check source destination @ data @ pad)) received =
      Some \<lparr>pv_source = source, pv_destination = destination, pv_protocol = protocol, pv_payload = data\<rparr>"
    if "unat received = unat len + length pad" for pad received
    using ipv4_parse_header [OF assms(1,2) _ check_def that, of data] len assms(3) by simp
  moreover have "checksum (Some (ipv4_header len identification protocol check source destination)) = 0"
    using header_checksum [OF assms(1,2) check_def] .
  ultimately show ?thesis using False len assms by (auto simp: not_less)
qed

subsection \<open>UDP round trip\<close>

definition udp_header :: "u16 \<Rightarrow> u16 \<Rightarrow> u16 \<Rightarrow> u16 \<Rightarrow> u8 list" where
  "udp_header source_port destination_port len check =
     be16_bytes source_port @ be16_bytes destination_port @ be16_bytes len @ be16_bytes check"

lemma length_udp_header [simp]: "length (udp_header s d l c) = 8"
  by (simp add: udp_header_def)

lemma udp_header_sum:
  "words_sum (udp_header s d l c @ data) = words_sum (udp_header s d l 0 @ data) + unat c"
  by (simp add: udp_header_def)

lemma pseudo_header_bound: "unat (pseudo_header_sum source destination len) < 400000"
proof -
  have w: "unat (ucast (v :: u16) :: u32) < 65536" for v using unsigned_less [of v] by (simp add: unat_ucast_wider)
  have add: "unat (a + b) \<le> unat a + unat b" for a b :: u32 by (simp add: unat_word_ariths)
  let ?x = "\<lambda>a b. ucast (be16 a b) :: u32"
  have "unat (pseudo_header_sum source destination len) \<le>
      unat (?x (source ! 0) (source ! 1)) + unat (?x (destination ! 0) (destination ! 1)) +
      unat (?x (source ! 2) (source ! 3)) + unat (?x (destination ! 2) (destination ! 3)) + 17 + unat (ucast len :: u32)"
    unfolding pseudo_header_sum_def
    by (intro order.trans [OF add] add_mono order.refl) simp_all
  then show ?thesis using w [of "be16 (source ! 0) (source ! 1)"] w [of "be16 (destination ! 0) (destination ! 1)"]
    w [of "be16 (source ! 2) (source ! 3)"] w [of "be16 (destination ! 2) (destination ! 3)"] w [of len] by linarith
qed

lemma udp_checksum_result:
  assumes "length d \<ge> unat len"
  shows "unat (udp_checksum source destination (Some d) len) =
    65535 - ones_sum (unat (pseudo_header_sum source destination len) + words_sum (take (unat len) d))"
proof -
  have "unat len < 2 ^ 16" using unsigned_less [of len] by simp
  then have "words_sum (take (unat len) d) \<le> 65535 * 32768"
  proof -
    have "length (take (unat len) d) = unat len" using assms by simp
    moreover have "(unat len + 1) div 2 \<le> 32768" using \<open>unat len < 2 ^ 16\<close> by simp
    ultimately have "65535 * ((length (take (unat len) d) + 1) div 2) \<le> 65535 * 32768" by simp
    then show ?thesis using words_sum_bound [of "take (unat len) d"] by linarith
  qed
  then have "unat (pseudo_header_sum source destination len) + words_sum (take (unat len) d) < 2 ^ 32"
    using pseudo_header_bound [of source destination len] by simp
  from complement_sum [OF this] show ?thesis by (simp add: udp_checksum_def)
qed

definition udp_check :: "ipv4_address \<Rightarrow> ipv4_address \<Rightarrow> u16 \<Rightarrow> u16 \<Rightarrow> u16 \<Rightarrow> u8 list \<Rightarrow> u16" where
  "udp_check source destination sp dp len data =
     (let c = udp_checksum source destination (Some (udp_header sp dp len 0 @ data)) len
      in if c = 0 then 0xFFFF else c)"

lemma udp_check_accepted:
  assumes "unat len = 8 + length data"
  shows "udp_check source destination sp dp len data \<noteq> 0"
    "udp_checksum source destination (Some (udp_header sp dp len (udp_check source destination sp dp len data) @ data @ pad)) len = 0"
proof -
  let ?n = "unat (pseudo_header_sum source destination len) + words_sum (udp_header sp dp len 0 @ data)"
  let ?c = "udp_check source destination sp dp len data"
  have res: "unat (udp_checksum source destination (Some (udp_header sp dp len c @ data @ tail)) len) =
      65535 - ones_sum (unat (pseudo_header_sum source destination len) + words_sum (udp_header sp dp len c @ data))" for c tail
    using udp_checksum_result [of len "udp_header sp dp len c @ data @ tail" source destination] assms by simp
  have first: "unat (udp_checksum source destination (Some (udp_header sp dp len 0 @ data)) len) = 65535 - ones_sum ?n"
    using res [of 0 "[]"] by simp
  show "?c \<noteq> 0" by (simp add: udp_check_def Let_def)
  have c: "unat ?c = (if ones_sum ?n = 65535 then 65535 else 65535 - ones_sum ?n)"
    using first by (auto simp: udp_check_def Let_def unat_eq_iff ones_sum_def)
  have "ones_sum (?n + unat ?c) = 65535"
  proof (cases "ones_sum ?n = 65535")
    case True
    then show ?thesis using c ones_sum_again [of ?n] by simp
  next
    case False
    then show ?thesis using c ones_sum_full [of ?n] by simp
  qed
  then show "udp_checksum source destination (Some (udp_header sp dp len ?c @ data @ pad)) len = 0"
    using res [of ?c pad] udp_header_sum [of sp dp len ?c data] by (simp add: unat_eq_iff add.assoc)
qed

lemma udp_build_form:
  assumes "length data = unat n" "unat capacity \<le> length datagram" "len = ucast ((8 :: u32) + ucast n)"
  shows "udp_build (Some datagram) capacity source destination sp dp (Some data) n =
    (if n > kMaxPayloadLength \<or> 8 + unat n > unat capacity then None
     else Some (udp_header sp dp len (udp_check source destination sp dp len data) @ data @ drop (8 + unat n) datagram, len))"
proof (cases "n > kMaxPayloadLength \<or> 8 + unat n > unat capacity")
  case True
  then show ?thesis using fits_iff [where k = 8 and n = n and capacity = capacity] by (auto simp: udp_build_def Let_def)
next
  case False
  have c: "unat capacity < 2 ^ 16" using unsigned_less [of capacity] by simp
  have fit: "\<not> (8 :: u32) + ucast n > ucast capacity"
    using fits_iff [where k = 8 and n = n and capacity = capacity] False by simp
  have len: "unat len = 8 + unat n" using unat_required_16 [of 8 n] False c assms(3) by simp
  let ?d = "udp_header sp dp len 0 @ data @ drop (8 + unat n) datagram"
  have hdr: "write_be16 6 0 (write_be16 4 len (write_be16 2 dp (write_be16 0 sp datagram))) = udp_header sp dp len 0 @ drop 8 datagram"
  proof -
    have "8 \<le> length datagram" using False assms(2) by simp
    then show ?thesis by (simp add: write_bytes_eq write_be16_def udp_header_def numeral_2_eq_2 [symmetric] del: write_bytes.simps)
  qed
  have body: "write_bytes 8 data (udp_header sp dp len 0 @ drop 8 datagram) = ?d"
    using False assms(1,2) by (simp add: write_bytes_eq add.commute)
  have ck: "write_be16 6 v ?d = udp_header sp dp len v @ data @ drop (8 + unat n) datagram" for v
    by (simp add: write_bytes_eq write_be16_def udp_header_def del: write_bytes.simps)
  have "take (unat len) ?d = take (unat len) (udp_header sp dp len 0 @ data)" using len assms(1) by simp
  then have "udp_checksum source destination (Some ?d) len =
      udp_checksum source destination (Some (udp_header sp dp len 0 @ data)) len" by (simp only: udp_checksum_def option.case)
  then have check: "(if udp_checksum source destination (Some ?d) len = 0 then 0xFFFF
      else udp_checksum source destination (Some ?d) len) = udp_check source destination sp dp len data"
    by (simp add: udp_check_def Let_def)
  show ?thesis
    using False fit assms(1) unfolding udp_build_def Let_def option.case payload_bytes_def assms(3) [symmetric]
      hdr take_all [OF eq_refl [OF assms(1)]] body check ck
    by simp
qed

lemma udp_parse_header:
  assumes "unat len = 8 + length data" "unat received = unat len + length pad"
  shows "udp_parse (Some (udp_header sp dp len (udp_check source destination sp dp len data) @ data @ pad)) received source destination =
    Some \<lparr>dv_source_port = sp, dv_destination_port = dp, dv_payload = data\<rparr>"
proof -
  let ?c = "udp_check source destination sp dp len data"
  let ?d = "udp_header sp dp len ?c @ data @ pad"
  obtain a1 a2 where a: "be16_bytes sp = [a1, a2]" "be16 a1 a2 = sp" by (rule be16_bytes_form)
  obtain b1 b2 where b: "be16_bytes dp = [b1, b2]" "be16 b1 b2 = dp" by (rule be16_bytes_form)
  obtain l1 l2 where l: "be16_bytes len = [l1, l2]" "be16 l1 l2 = len" by (rule be16_bytes_form)
  obtain c1 c2 where c: "be16_bytes ?c = [c1, c2]" "be16 c1 c2 = ?c" by (rule be16_bytes_form)
  have f: "read_be16 ?d 0 = sp" "read_be16 ?d 2 = dp" "read_be16 ?d 4 = len" "read_be16 ?d 6 = ?c"
    by (simp_all add: udp_header_def read_be16_def a b l c)
  have n: "8 \<le> received" "len \<le> received" "8 \<le> len" "unat (len - 8) = length data"
    using assms by (simp_all add: unat_le_iff unat_sub)
  show ?thesis
    unfolding udp_parse_def option.case Let_def f using n udp_check_accepted [OF assms(1)] by (simp add: not_less)
qed

end
