(* ===== verification/Net_Tables.thy ===== *)
theory Net_Tables
  imports Net_Wire
begin

text \<open>
  The tables of the network stack: the ARP cache with its packet codec (\<^verbatim>\<open>kernel/net/arp.cpp\<close>) and the
  UDP port bindings (\<^verbatim>\<open>kernel/net/udp_bindings.cpp\<close>).  Both are arrays of eight slots and refine a partial
  map; the bindings' contract is the locale \<open>port_table\<close>.
\<close>

unbundle bit_operations_syntax

subsection \<open>The ARP cache\<close>

record cache_entry =
  ce_ip :: ipv4_address
  ce_mac :: mac_address
  ce_valid :: bool

record arp_cache =
  g_cache :: "cache_entry list"
  g_replace_index :: u8

definition kCacheSize :: nat where [kernel_const]: "kCacheSize = 8"

definition ipv4_equals :: "ipv4_address \<Rightarrow> ipv4_address \<Rightarrow> bool" where
  "ipv4_equals left right \<longleftrightarrow> list_all (\<lambda>i. left ! i = right ! i) [0..<4]"

definition arp_reset :: arp_cache where
  "arp_reset = \<lparr>g_cache = replicate kCacheSize \<lparr>ce_ip = replicate 4 0, ce_mac = replicate 6 0, ce_valid = False\<rparr>,
     g_replace_index = 0\<rparr>"

definition learn :: "ipv4_address \<Rightarrow> mac_address \<Rightarrow> arp_cache \<Rightarrow> arp_cache" where
  "learn ip mac c =
     (case first_slot (\<lambda>e. ce_valid e \<and> ipv4_equals (ce_ip e) ip) (g_cache c) of
        Some i \<Rightarrow> c\<lparr>g_cache := (g_cache c)[i := (g_cache c ! i)\<lparr>ce_mac := mac\<rparr>]\<rparr>
      | None \<Rightarrow>
      (case first_slot (\<lambda>e. \<not> ce_valid e) (g_cache c) of
        Some i \<Rightarrow> c\<lparr>g_cache := (g_cache c)[i := \<lparr>ce_ip = ip, ce_mac = mac, ce_valid = True\<rparr>]\<rparr>
      | None \<Rightarrow>
          c\<lparr>g_cache := (g_cache c)[unat (g_replace_index c) := \<lparr>ce_ip = ip, ce_mac = mac, ce_valid = True\<rparr>],
            g_replace_index := of_nat ((unat (g_replace_index c) + 1) mod kCacheSize)\<rparr>))"

definition arp_lookup :: "ipv4_address \<Rightarrow> arp_cache \<Rightarrow> mac_address option" where
  "arp_lookup ip c =
     (case first_slot (\<lambda>e. ce_valid e \<and> ipv4_equals (ce_ip e) ip) (g_cache c) of
        None \<Rightarrow> None | Some i \<Rightarrow> Some (ce_mac (g_cache c ! i)))"

definition build_packet ::
  "u8 list option \<Rightarrow> u16 \<Rightarrow> u16 \<Rightarrow> mac_address \<Rightarrow> ipv4_address \<Rightarrow> mac_address \<Rightarrow> ipv4_address \<Rightarrow> (u8 list \<times> u16) option" where
  "build_packet payload capacity operation local_mac local_ip target_mac target_ip =
     (case payload of None \<Rightarrow> None
      | Some p \<Rightarrow>
          if capacity < 28 then None
          else let p = write_be16 0 1 p;
                   p = write_be16 2 0x0800 p;
                   p = p[4 := 6];
                   p = p[5 := 4];
                   p = write_be16 6 operation p;
                   p = write_bytes 8 (take 6 local_mac) p;
                   p = write_bytes 18 (take 6 target_mac) p;
                   p = write_bytes 14 (take 4 local_ip) p;
                   p = write_bytes 24 (take 4 target_ip) p
          in Some (p, 28))"

definition build_request ::
  "u8 list option \<Rightarrow> u16 \<Rightarrow> mac_address \<Rightarrow> ipv4_address \<Rightarrow> ipv4_address \<Rightarrow> (u8 list \<times> u16) option" where
  "build_request payload capacity local_mac local_ip target_ip =
     build_packet payload capacity 1 local_mac local_ip (replicate 6 0) target_ip"

definition build_reply ::
  "u8 list option \<Rightarrow> u16 \<Rightarrow> mac_address \<Rightarrow> ipv4_address \<Rightarrow> mac_address \<Rightarrow> ipv4_address \<Rightarrow> (u8 list \<times> u16) option" where
  "build_reply payload capacity local_mac local_ip target_mac target_ip =
     build_packet payload capacity 2 local_mac local_ip target_mac target_ip"

text \<open>The result of an accepted packet: whether to reply, and the sender.\<close>

definition parse_and_learn ::
  "u8 list option \<Rightarrow> u16 \<Rightarrow> ipv4_address \<Rightarrow> arp_cache \<Rightarrow> (bool \<times> mac_address \<times> ipv4_address) option \<times> arp_cache" where
  "parse_and_learn payload len local_ip c =
     (case payload of None \<Rightarrow> (None, c)
      | Some p \<Rightarrow>
          if len < 28 then (None, c)
          else if read_be16 p 0 \<noteq> 1 \<or> read_be16 p 2 \<noteq> 0x0800 \<or> p ! 4 \<noteq> 6 \<or> p ! 5 \<noteq> 4 then (None, c)
          else let operation = read_be16 p 6
          in if operation \<noteq> 1 \<and> operation \<noteq> 2 then (None, c)
          else let sender_mac = map (\<lambda>i. p ! (8 + i)) [0..<6];
                   sender_ip = map (\<lambda>i. p ! (14 + i)) [0..<4];
                   c = learn sender_ip sender_mac c;
                   target_ip = map (\<lambda>i. p ! (24 + i)) [0..<4];
                   should_reply = (operation = 1 \<and> ipv4_equals target_ip local_ip)
          in (Some (should_reply, sender_mac, sender_ip), c))"

subsection \<open>UDP bindings\<close>

text \<open>A receiver is a callback with its context; \<open>None\<close> is the null callback.\<close>

record 'r udp_entry =
  ub_in_use :: bool
  ub_port :: u16
  ub_receiver :: "'r option"

definition kMaxUdpBindings :: nat where [kernel_const]: "kMaxUdpBindings = 8"

definition empty_binding :: "'r udp_entry" where
  "empty_binding = \<lparr>ub_in_use = False, ub_port = 0, ub_receiver = None\<rparr>"

definition bindings_empty :: "'r udp_entry list" where
  "bindings_empty = replicate kMaxUdpBindings empty_binding"

definition bind_port :: "u16 \<Rightarrow> 'r option \<Rightarrow> 'r udp_entry list \<Rightarrow> bool \<times> 'r udp_entry list" where
  "bind_port port receiver t =
     (if port = 0 \<or> receiver = None then (False, t)
      else if first_slot (\<lambda>e. ub_in_use e \<and> ub_port e = port) t \<noteq> None then (False, t)
      else case first_slot (\<lambda>e. \<not> ub_in_use e) t of
             Some i \<Rightarrow> (True, t[i := \<lparr>ub_in_use = True, ub_port = port, ub_receiver = receiver\<rparr>])
           | None \<Rightarrow> (False, t))"

definition unbind_port :: "u16 \<Rightarrow> 'r udp_entry list \<Rightarrow> bool \<times> 'r udp_entry list" where
  "unbind_port port t =
     (case first_slot (\<lambda>e. ub_in_use e \<and> ub_port e = port) t of
        Some i \<Rightarrow> (True, t[i := empty_binding])
      | None \<Rightarrow> (False, t))"

text \<open>Which receiver a datagram for the port is handed to.\<close>

definition receiver_of :: "'r udp_entry list \<Rightarrow> u16 \<Rightarrow> 'r option" where
  "receiver_of t destination_port =
     (case first_slot (\<lambda>e. ub_in_use e \<and> ub_port e = destination_port) t of
        Some i \<Rightarrow> ub_receiver (t ! i)
      | None \<Rightarrow> None)"

subsection \<open>The contract of the bindings\<close>

locale port_table =
  fixes bind :: "u16 \<Rightarrow> 'r option \<Rightarrow> 't \<Rightarrow> bool \<times> 't"
    and unbind :: "u16 \<Rightarrow> 't \<Rightarrow> bool \<times> 't"
    and receiver :: "'t \<Rightarrow> u16 \<Rightarrow> 'r option"
    and bound :: "'t \<Rightarrow> u16 set"
    and inv :: "'t \<Rightarrow> bool"
    and capacity :: nat
  assumes bind_inv: "inv t \<Longrightarrow> inv (snd (bind p r t))"
    and unbind_inv: "inv t \<Longrightarrow> inv (snd (unbind p t))"
    and bound_receiver: "inv t \<Longrightarrow> p \<in> bound t \<longleftrightarrow> receiver t p \<noteq> None"
    and bound_capacity: "inv t \<Longrightarrow> finite (bound t) \<and> card (bound t) \<le> capacity"
    and bind_accepts: "inv t \<Longrightarrow> fst (bind p r t) \<longleftrightarrow> p \<noteq> 0 \<and> r \<noteq> None \<and> p \<notin> bound t \<and> card (bound t) < capacity"
    and bind_receiver: "inv t \<Longrightarrow> receiver (snd (bind p r t)) = (if fst (bind p r t) then (receiver t)(p := r) else receiver t)"
    and unbind_accepts: "inv t \<Longrightarrow> fst (unbind p t) \<longleftrightarrow> p \<in> bound t"
    and unbind_receiver: "inv t \<Longrightarrow> receiver (snd (unbind p t)) = (receiver t)(p := None)"
begin

text \<open>A binding can be undone, and what was bound stays with its receiver while others come and go.\<close>

lemma bind_unbind:
  assumes "inv t" "fst (bind p r t)"
  shows "receiver (snd (unbind p (snd (bind p r t)))) = receiver t" "fst (unbind p (snd (bind p r t)))"
proof -
  have "receiver t p = None" using assms bind_accepts bound_receiver by blast
  then show "receiver (snd (unbind p (snd (bind p r t)))) = receiver t"
    using assms unbind_receiver [OF bind_inv] bind_receiver by (auto simp: fun_eq_iff)
  show "fst (unbind p (snd (bind p r t)))"
    using assms bind_receiver bind_accepts unbind_accepts [OF bind_inv] bound_receiver [OF bind_inv] by auto
qed

lemma bind_keeps_other:
  assumes "inv t" "receiver t q = Some r'"
  shows "receiver (snd (bind p r t)) q = Some r'"
proof (cases "p = q")
  case True
  then have "\<not> fst (bind p r t)" using assms bind_accepts bound_receiver by auto
  then show ?thesis using assms bind_receiver by simp
next
  case False
  then show ?thesis using assms bind_receiver by simp
qed

end

subsection \<open>The bindings meet the contract\<close>

definition binding_inv :: "'r udp_entry list \<Rightarrow> bool" where
  "binding_inv t \<longleftrightarrow> length t = kMaxUdpBindings \<and> slots_ok ub_in_use ub_port t \<and>
     (\<forall>i<length t. ub_in_use (t ! i) \<longrightarrow> ub_receiver (t ! i) \<noteq> None \<and> ub_port (t ! i) \<noteq> 0)"

definition used_slots :: "'r udp_entry list \<Rightarrow> nat set" where
  "used_slots t = {i. i < length t \<and> ub_in_use (t ! i)}"

definition bound_ports :: "'r udp_entry list \<Rightarrow> u16 set" where
  "bound_ports t = (\<lambda>i. ub_port (t ! i)) ` used_slots t"

lemma receiver_slot_map:
  "receiver_of t p = (case slot_map ub_in_use ub_port t p of None \<Rightarrow> None | Some e \<Rightarrow> ub_receiver e)"
  by (simp add: receiver_of_def slot_map_def split: option.splits)

lemma bound_ports_slot_map:
  assumes "binding_inv t"
  shows "p \<in> bound_ports t \<longleftrightarrow> slot_map ub_in_use ub_port t p \<noteq> None" "p \<in> bound_ports t \<longleftrightarrow> receiver_of t p \<noteq> None"
proof -
  have ok: "slots_ok ub_in_use ub_port t" using assms by (simp add: binding_inv_def)
  show "p \<in> bound_ports t \<longleftrightarrow> slot_map ub_in_use ub_port t p \<noteq> None"
    unfolding slot_map_None by (auto simp: bound_ports_def used_slots_def)
  then show "p \<in> bound_ports t \<longleftrightarrow> receiver_of t p \<noteq> None"
    using assms slot_map_Some [OF ok, of p] by (auto simp: receiver_slot_map binding_inv_def split: option.splits)
qed

lemma card_bound_ports:
  assumes "binding_inv t"
  shows "card (bound_ports t) = card (used_slots t)"
proof -
  have "inj_on (\<lambda>i. ub_port (t ! i)) (used_slots t)"
    using assms by (auto simp: inj_on_def used_slots_def binding_inv_def slots_ok_def)
  then show ?thesis by (simp add: bound_ports_def card_image)
qed

lemma free_slot_iff:
  assumes "binding_inv t"
  shows "first_slot (\<lambda>e. \<not> ub_in_use e) t \<noteq> None \<longleftrightarrow> card (bound_ports t) < kMaxUdpBindings"
proof -
  have fin: "used_slots t \<subseteq> {..<length t}" by (auto simp: used_slots_def)
  have "first_slot (\<lambda>e. \<not> ub_in_use e) t \<noteq> None \<longleftrightarrow> used_slots t \<noteq> {..<length t}"
    unfolding first_slot_None by (auto simp: used_slots_def all_set_conv_all_nth)
  also have "\<dots> \<longleftrightarrow> card (used_slots t) < length t"
    using fin card_seteq [of "{..<length t}" "used_slots t"] psubset_card_mono [of "{..<length t}" "used_slots t"] by fastforce
  finally show ?thesis using assms card_bound_ports [OF assms] by (simp add: binding_inv_def)
qed

lemma binding_write:
  assumes "binding_inv t" "i < length t" "e = \<lparr>ub_in_use = True, ub_port = p, ub_receiver = Some r\<rparr>"
    and "p \<noteq> 0" "p \<notin> bound_ports t" "\<not> ub_in_use (t ! i)"
  shows "binding_inv (t[i := e])" "receiver_of (t[i := e]) = (receiver_of t)(p := Some r)"
proof -
  have ok: "slots_ok ub_in_use ub_port t" using assms(1) by (simp add: binding_inv_def)
  have none: "\<forall>j<length t. ub_in_use (t ! j) \<longrightarrow> ub_port (t ! j) \<noteq> p"
    using assms(1,5) bound_ports_slot_map(1) [of t p] by (simp add: slot_map_None)
  have ok': "slots_ok ub_in_use ub_port (t[i := e])" using ok assms(2,3) none by (intro slots_ok_write) auto
  then show "binding_inv (t[i := e])" using assms(1-4) by (auto simp: binding_inv_def nth_list_update)
  show "receiver_of (t[i := e]) = (receiver_of t)(p := Some r)"
    unfolding fun_eq_iff receiver_slot_map slot_map_write [OF ok assms(2) ok'] using assms(3,6)
    by (simp add: receiver_slot_map)
qed

lemma bind_port_cases:
  assumes "binding_inv t"
  shows "fst (bind_port p r t) \<longleftrightarrow> p \<noteq> 0 \<and> r \<noteq> None \<and> p \<notin> bound_ports t \<and> card (bound_ports t) < kMaxUdpBindings"
    "\<not> fst (bind_port p r t) \<Longrightarrow> snd (bind_port p r t) = t"
    "fst (bind_port p r t) \<Longrightarrow> binding_inv (snd (bind_port p r t)) \<and> receiver_of (snd (bind_port p r t)) = (receiver_of t)(p := r)"
proof -
  have dup: "first_slot (\<lambda>e. ub_in_use e \<and> ub_port e = p) t \<noteq> None \<longleftrightarrow> p \<in> bound_ports t"
    using bound_ports_slot_map(1) [OF assms, of p] by (simp add: slot_map_def)
  show acc: "fst (bind_port p r t) \<longleftrightarrow> p \<noteq> 0 \<and> r \<noteq> None \<and> p \<notin> bound_ports t \<and> card (bound_ports t) < kMaxUdpBindings"
    using dup free_slot_iff [OF assms] by (auto simp: bind_port_def split: option.splits)
  show "\<not> fst (bind_port p r t) \<Longrightarrow> snd (bind_port p r t) = t"
    by (auto simp: bind_port_def split: option.splits)
  assume b: "fst (bind_port p r t)"
  then obtain i where i: "first_slot (\<lambda>e. \<not> ub_in_use e) t = Some i"
    "snd (bind_port p r t) = t[i := \<lparr>ub_in_use = True, ub_port = p, ub_receiver = r\<rparr>]"
    by (auto simp: bind_port_def split: option.splits if_splits)
  then show "binding_inv (snd (bind_port p r t)) \<and> receiver_of (snd (bind_port p r t)) = (receiver_of t)(p := r)"
    using b acc binding_write [OF assms, of i _ p] by (auto simp: first_slot_Some)
qed

lemma unbind_port_cases:
  assumes "binding_inv t"
  shows "fst (unbind_port p t) \<longleftrightarrow> p \<in> bound_ports t"
    "binding_inv (snd (unbind_port p t))" "receiver_of (snd (unbind_port p t)) = (receiver_of t)(p := None)"
proof -
  have ok: "slots_ok ub_in_use ub_port t" using assms by (simp add: binding_inv_def)
  have sm: "p \<in> bound_ports t \<longleftrightarrow> first_slot (\<lambda>e. ub_in_use e \<and> ub_port e = p) t \<noteq> None"
    using bound_ports_slot_map(1) [OF assms, of p] by (simp add: slot_map_def)
  show "fst (unbind_port p t) \<longleftrightarrow> p \<in> bound_ports t" using sm by (simp add: unbind_port_def split: option.splits)
  show "binding_inv (snd (unbind_port p t))" "receiver_of (snd (unbind_port p t)) = (receiver_of t)(p := None)"
  proof (atomize (full), cases "first_slot (\<lambda>e. ub_in_use e \<and> ub_port e = p) t")
    case None
    then show "binding_inv (snd (unbind_port p t)) \<and> receiver_of (snd (unbind_port p t)) = (receiver_of t)(p := None)"
      using assms by (auto simp: unbind_port_def receiver_of_def fun_eq_iff)
  next
    case (Some i)
    have i: "i < length t" "ub_in_use (t ! i)" "ub_port (t ! i) = p" using Some by (auto simp: first_slot_Some)
    have ok': "slots_ok ub_in_use ub_port (t[i := empty_binding])"
      using ok i(1) by (intro slots_ok_write) (auto simp: empty_binding_def)
    have "binding_inv (t[i := empty_binding])"
      using assms ok' i(1) by (auto simp: binding_inv_def nth_list_update empty_binding_def)
    moreover have "receiver_of (t[i := empty_binding]) = (receiver_of t)(p := None)"
      unfolding fun_eq_iff receiver_slot_map slot_map_write [OF ok i(1) ok'] using i
      by (simp add: receiver_slot_map empty_binding_def)
    ultimately show "binding_inv (snd (unbind_port p t)) \<and> receiver_of (snd (unbind_port p t)) = (receiver_of t)(p := None)"
      using Some by (simp add: unbind_port_def)
  qed
qed

lemma bindings_empty_inv: "binding_inv bindings_empty"
  by (simp add: binding_inv_def bindings_empty_def slots_ok_def empty_binding_def)

interpretation udp_ports: port_table bind_port unbind_port receiver_of bound_ports binding_inv kMaxUdpBindings
proof (unfold_locales, goal_cases)
  case (1 t p r)
  then show ?case using bind_port_cases(2,3) [OF 1] by metis
next
  case (2 t p)
  then show ?case using unbind_port_cases(2) by blast
next
  case (3 t p)
  then show ?case by (rule bound_ports_slot_map)
next
  case (4 t)
  have "used_slots t \<subseteq> {..<kMaxUdpBindings}" using 4 by (auto simp: used_slots_def binding_inv_def)
  then have "finite (used_slots t)" "card (used_slots t) \<le> kMaxUdpBindings"
    using finite_subset card_mono [of "{..<kMaxUdpBindings}" "used_slots t"] by auto
  then show ?case using card_bound_ports [OF 4] by (simp add: bound_ports_def)
next
  case (5 t p r)
  then show ?case by (rule bind_port_cases)
next
  case (6 t p r)
  then show ?case using bind_port_cases(2,3) [OF 6, of p r] by auto
next
  case (7 t p)
  then show ?case by (rule unbind_port_cases)
next
  case (8 t p)
  then show ?case by (rule unbind_port_cases)
qed

text \<open>
  The table as a whole against its specification: a partial map from ports to receivers with room for
  eight.  \<open>run_ports\<close> runs a sequence of calls on the table and collects their results, \<open>spec_ports\<close> does
  the same on the map.
\<close>

datatype 'r port_call = Bind u16 "'r option" | Unbind u16

fun run_ports :: "'r port_call list \<Rightarrow> 'r udp_entry list \<Rightarrow> bool list \<times> 'r udp_entry list" where
  "run_ports [] t = ([], t)"
| "run_ports (Bind p r # cs) t = (case bind_port p r t of (ok, t) \<Rightarrow> map_prod (Cons ok) id (run_ports cs t))"
| "run_ports (Unbind p # cs) t = (case unbind_port p t of (ok, t) \<Rightarrow> map_prod (Cons ok) id (run_ports cs t))"

fun spec_ports :: "'r port_call list \<Rightarrow> (u16 \<rightharpoonup> 'r) \<Rightarrow> bool list \<times> (u16 \<rightharpoonup> 'r)" where
  "spec_ports [] m = ([], m)"
| "spec_ports (Bind p r # cs) m =
     (let ok = (p \<noteq> 0 \<and> r \<noteq> None \<and> m p = None \<and> card (dom m) < 8)
      in map_prod (Cons ok) id (spec_ports cs (if ok then m(p := r) else m)))"
| "spec_ports (Unbind p # cs) m = map_prod (Cons (m p \<noteq> None)) id (spec_ports cs (m(p := None)))"

lemma bound_ports_dom: "binding_inv t \<Longrightarrow> bound_ports t = dom (receiver_of t)"
  using udp_ports.bound_receiver by (auto simp: dom_def)

lemma run_ports_refines:
  assumes "binding_inv t"
  shows "map_prod id receiver_of (run_ports cs t) = spec_ports cs (receiver_of t)"
  using assms
proof (induction cs arbitrary: t)
  case (Cons c cs)
  show ?case
  proof (cases c)
    case (Bind p r)
    obtain ok t' where call: "bind_port p r t = (ok, t')" by (rule prod.exhaust)
    have ok: "ok \<longleftrightarrow> p \<noteq> 0 \<and> r \<noteq> None \<and> receiver_of t p = None \<and> card (dom (receiver_of t)) < 8"
      using udp_ports.bind_accepts [OF Cons.prems, of p r] bound_ports_dom [OF Cons.prems] call
      by (simp add: kMaxUdpBindings_def domIff)
    have m': "receiver_of t' = (if ok then (receiver_of t)(p := r) else receiver_of t)"
      using udp_ports.bind_receiver [OF Cons.prems, of p r] call by simp
    have "spec_ports (c # cs) (receiver_of t) = map_prod (Cons ok) id (spec_ports cs (receiver_of t'))"
      unfolding Bind spec_ports.simps Let_def m' ok ..
    moreover have "binding_inv t'" using udp_ports.bind_inv [OF Cons.prems, of p r] call by simp
    ultimately show ?thesis using Cons.IH [of t', symmetric] call by (simp add: Bind prod.map_comp o_def)
  next
    case (Unbind p)
    obtain ok t' where call: "unbind_port p t = (ok, t')" by (rule prod.exhaust)
    have "ok \<longleftrightarrow> receiver_of t p \<noteq> None"
      using udp_ports.unbind_accepts [OF Cons.prems, of p] bound_ports_dom [OF Cons.prems] call by (simp add: domIff)
    moreover have "receiver_of t' = (receiver_of t)(p := None)"
      using udp_ports.unbind_receiver [OF Cons.prems, of p] call by simp
    ultimately have "spec_ports (c # cs) (receiver_of t) = map_prod (Cons ok) id (spec_ports cs (receiver_of t'))"
      by (simp add: Unbind)
    moreover have "binding_inv t'" using udp_ports.unbind_inv [OF Cons.prems, of p] call by simp
    ultimately show ?thesis using Cons.IH [of t', symmetric] call by (simp add: Unbind prod.map_comp o_def)
  qed
qed simp

text \<open>
  The UDP binding table refines a partial map.  For every sequence of bind and unbind calls on the
  empty table, every call answers as the map with room for eight ports would, and in the end the receiver
  found for any port is the map's entry.
\<close>

theorem udp_bindings_refine_map:
  "map_prod id receiver_of (run_ports calls bindings_empty) = spec_ports calls Map.empty"
proof -
  have "receiver_of (bindings_empty :: 'a udp_entry list) = Map.empty"
    by (simp add: receiver_of_def fun_eq_iff bindings_empty_def empty_binding_def kMaxUdpBindings_def numeral_eq_Suc)
  then show ?thesis using run_ports_refines [OF bindings_empty_inv] by metis
qed

subsection \<open>The ARP cache as a map\<close>

definition arp_inv :: "arp_cache \<Rightarrow> bool" where
  "arp_inv c \<longleftrightarrow> length (g_cache c) = kCacheSize \<and> unat (g_replace_index c) < kCacheSize \<and>
     slots_ok ce_valid ce_ip (g_cache c) \<and> (\<forall>i<length (g_cache c). length (ce_ip (g_cache c ! i)) = 4)"

lemma arp_reset_inv: "arp_inv arp_reset"
  by (simp add: arp_inv_def arp_reset_def slots_ok_def kCacheSize_def)

lemma ipv4_equals_iff: "length a = 4 \<Longrightarrow> length b = 4 \<Longrightarrow> ipv4_equals a b \<longleftrightarrow> a = b"
  by (auto simp: ipv4_equals_def list_all_iff list_eq_iff_nth_eq)

lemma first_slot_cong: "(\<And>i. i < length xs \<Longrightarrow> P (xs ! i) = Q (xs ! i)) \<Longrightarrow> first_slot P xs = first_slot Q xs"
proof (induction xs)
  case (Cons x xs)
  have "P x = Q x" using Cons.prems [of 0] by simp
  moreover have "first_slot P xs = first_slot Q xs" using Cons.prems [of "Suc _"] by (intro Cons.IH) auto
  ultimately show ?case by simp
qed simp

lemma arp_slot:
  assumes "arp_inv c" "length ip = 4"
  shows "first_slot (\<lambda>e. ce_valid e \<and> ipv4_equals (ce_ip e) ip) (g_cache c) =
    first_slot (\<lambda>e. ce_valid e \<and> ce_ip e = ip) (g_cache c)"
  using assms by (intro first_slot_cong) (simp add: arp_inv_def ipv4_equals_iff)

lemma arp_lookup_map:
  assumes "arp_inv c" "length ip = 4"
  shows "arp_lookup ip c = map_option ce_mac (slot_map ce_valid ce_ip (g_cache c) ip)"
  using arp_slot [OF assms] by (simp add: arp_lookup_def slot_map_def split: option.splits)

lemma arp_write:
  assumes "arp_inv c" "i < kCacheSize" "unat r < kCacheSize" "length (ce_ip e) = 4" "ce_valid e"
    and "\<forall>j<kCacheSize. ce_valid (g_cache c ! j) \<longrightarrow> ce_ip (g_cache c ! j) = ce_ip e \<longrightarrow> j = i"
    and "c' = c\<lparr>g_cache := (g_cache c)[i := e], g_replace_index := r\<rparr>" "length other = 4"
  shows "arp_inv c'" "arp_lookup other c' =
    (if other = ce_ip e then Some (ce_mac e)
     else if ce_valid (g_cache c ! i) \<and> ce_ip (g_cache c ! i) = other then None else arp_lookup other c)"
proof -
  have ok: "slots_ok ce_valid ce_ip (g_cache c)" and len: "length (g_cache c) = kCacheSize"
    using assms(1) by (simp_all add: arp_inv_def)
  have i: "i < length (g_cache c)" using assms(2) len by simp
  have ok': "slots_ok ce_valid ce_ip ((g_cache c)[i := e])" using ok i assms(6) len by (intro slots_ok_write) auto
  then show inv: "arp_inv c'" using assms(1-4,7) len by (auto simp: arp_inv_def nth_list_update)
  have "arp_lookup other c' = map_option ce_mac (slot_map ce_valid ce_ip ((g_cache c)[i := e]) other)"
    using arp_lookup_map [OF inv assms(8)] assms(7) by simp
  then show "arp_lookup other c' = (if other = ce_ip e then Some (ce_mac e)
     else if ce_valid (g_cache c ! i) \<and> ce_ip (g_cache c ! i) = other then None else arp_lookup other c)"
    unfolding slot_map_write [OF ok i ok'] arp_lookup_map [OF assms(1,8)] using assms(5) by auto
qed

text \<open>The three ways of learning: a known address, a free slot, and a full cache.\<close>

lemma learn_known:
  assumes "arp_inv c" "length ip = 4" "length other = 4" "arp_lookup ip c \<noteq> None"
  shows "arp_inv (learn ip mac c)" "arp_lookup other (learn ip mac c) = (if other = ip then Some mac else arp_lookup other c)"
    "g_replace_index (learn ip mac c) = g_replace_index c"
proof -
  note slot = arp_slot [OF assms(1,2)]
  have len: "length (g_cache c) = kCacheSize" "unat (g_replace_index c) < kCacheSize"
    and ok: "slots_ok ce_valid ce_ip (g_cache c)" using assms(1) by (simp_all add: arp_inv_def)
  obtain i where Some: "first_slot (\<lambda>e. ce_valid e \<and> ce_ip e = ip) (g_cache c) = Some i"
    using assms(4) slot by (auto simp: arp_lookup_def split: option.splits)
  then have i: "i < kCacheSize" "ce_valid (g_cache c ! i)" "ce_ip (g_cache c ! i) = ip"
    using len by (auto simp: first_slot_Some)
  have eq: "learn ip mac c = c\<lparr>g_cache := (g_cache c)[i := (g_cache c ! i)\<lparr>ce_mac := mac\<rparr>], g_replace_index := g_replace_index c\<rparr>"
    using Some slot by (simp add: learn_def)
  have only: "\<forall>j<kCacheSize. ce_valid (g_cache c ! j) \<longrightarrow>
      ce_ip (g_cache c ! j) = ce_ip ((g_cache c ! i)\<lparr>ce_mac := mac\<rparr>) \<longrightarrow> j = i"
    using ok i len by (auto simp: slots_ok_def)
  show "arp_inv (learn ip mac c)" "arp_lookup other (learn ip mac c) = (if other = ip then Some mac else arp_lookup other c)"
    using arp_write [OF assms(1) i(1) len(2) _ _ only eq assms(3)] i assms(2) by simp_all
  show "g_replace_index (learn ip mac c) = g_replace_index c" by (simp add: eq)
qed

lemma unknown_slots:
  assumes "arp_inv c" "length ip = 4" "arp_lookup ip c = None"
  shows "first_slot (\<lambda>e. ce_valid e \<and> ipv4_equals (ce_ip e) ip) (g_cache c) = None"
    "\<forall>j<kCacheSize. ce_valid (g_cache c ! j) \<longrightarrow> ce_ip (g_cache c ! j) \<noteq> ip"
proof -
  show none: "first_slot (\<lambda>e. ce_valid e \<and> ipv4_equals (ce_ip e) ip) (g_cache c) = None"
    using assms(3) by (simp add: arp_lookup_def split: option.splits)
  then show "\<forall>j<kCacheSize. ce_valid (g_cache c ! j) \<longrightarrow> ce_ip (g_cache c ! j) \<noteq> ip"
    unfolding arp_slot [OF assms(1,2)] using assms(1) by (auto simp: arp_inv_def first_slot_None all_set_conv_all_nth)
qed

lemma learn_free:
  assumes "arp_inv c" "length ip = 4" "length other = 4" "arp_lookup ip c = None" "\<not> list_all ce_valid (g_cache c)"
  shows "arp_inv (learn ip mac c)" "arp_lookup other (learn ip mac c) = (if other = ip then Some mac else arp_lookup other c)"
    "g_replace_index (learn ip mac c) = g_replace_index c"
proof -
  note new = unknown_slots [OF assms(1,2,4)]
  have len: "length (g_cache c) = kCacheSize" "unat (g_replace_index c) < kCacheSize" using assms(1) by (simp_all add: arp_inv_def)
  obtain i where Some: "first_slot (\<lambda>e. \<not> ce_valid e) (g_cache c) = Some i"
    using assms(5) by (cases "first_slot (\<lambda>e. \<not> ce_valid e) (g_cache c)") (auto simp: first_slot_None list_all_iff)
  then have i: "i < kCacheSize" "\<not> ce_valid (g_cache c ! i)" using len by (auto simp: first_slot_Some)
  have eq: "learn ip mac c = c\<lparr>g_cache := (g_cache c)[i := \<lparr>ce_ip = ip, ce_mac = mac, ce_valid = True\<rparr>], g_replace_index := g_replace_index c\<rparr>"
    using new(1) Some by (simp add: learn_def)
  show "arp_inv (learn ip mac c)" "arp_lookup other (learn ip mac c) = (if other = ip then Some mac else arp_lookup other c)"
    using arp_write [OF assms(1) i(1) len(2) _ _ _ eq assms(3)] new(2) i assms(2) by simp_all
  show "g_replace_index (learn ip mac c) = g_replace_index c" by (simp add: eq)
qed

lemma learn_full:
  assumes "arp_inv c" "length ip = 4" "length other = 4" "arp_lookup ip c = None" and full: "list_all ce_valid (g_cache c)"
  shows "arp_inv (learn ip mac c)" "arp_lookup other (learn ip mac c) =
      (if other = ip then Some mac else if ce_ip (g_cache c ! unat (g_replace_index c)) = other then None else arp_lookup other c)"
    "unat (g_replace_index (learn ip mac c)) = (unat (g_replace_index c) + 1) mod kCacheSize"
proof -
  note new = unknown_slots [OF assms(1,2,4)]
  have len: "length (g_cache c) = kCacheSize" "unat (g_replace_index c) < kCacheSize" using assms(1) by (simp_all add: arp_inv_def)
  have none: "first_slot (\<lambda>e. \<not> ce_valid e) (g_cache c) = None" using full by (simp add: first_slot_None list_all_iff)
  define r :: u8 where "r = of_nat ((unat (g_replace_index c) + 1) mod kCacheSize)"
  have r: "unat r = (unat (g_replace_index c) + 1) mod kCacheSize"
    unfolding r_def by (rule unat_of_nat_small) (simp add: kCacheSize_def order.strict_trans [OF mod_less_divisor])
  then have r8: "unat r < kCacheSize" by (simp add: kCacheSize_def)
  have eq: "learn ip mac c = c\<lparr>g_cache := (g_cache c)[unat (g_replace_index c) := \<lparr>ce_ip = ip, ce_mac = mac, ce_valid = True\<rparr>],
      g_replace_index := r\<rparr>"
    using new(1) none by (simp add: learn_def r_def)
  have "ce_valid (g_cache c ! unat (g_replace_index c))" using full len by (simp add: list_all_length)
  then show "arp_inv (learn ip mac c)" "arp_lookup other (learn ip mac c) = (if other = ip then Some mac
      else if ce_ip (g_cache c ! unat (g_replace_index c)) = other then None else arp_lookup other c)"
    using arp_write [OF assms(1) len(2) r8 _ _ _ eq assms(3)] new(2) assms(2) by simp_all
  show "unat (g_replace_index (learn ip mac c)) = (unat (g_replace_index c) + 1) mod kCacheSize" using r by (simp add: eq)
qed

lemma learn_same:
  assumes "arp_inv c" "length ip = 4"
  shows "arp_inv (learn ip mac c)" "arp_lookup ip (learn ip mac c) = Some mac"
  using learn_known [OF assms(1,2,2)] learn_free [OF assms(1,2,2)] learn_full [OF assms(1,2,2)]
  by (cases "arp_lookup ip c = None"; cases "list_all ce_valid (g_cache c)"; simp)+

text \<open>
  The ARP cache is a bounded map.  Learning an address keeps the cache well formed, makes the new
  hardware address the answer for it, and changes no other answer, except that a full cache that did not
  know the address forgets exactly the entry at the replacement index, which then moves on by one.
\<close>

theorem arp_learn_spec:
  assumes "arp_inv c" "length ip = 4" "length other = 4"
  shows "arp_inv (learn ip mac c) \<and>
    arp_lookup other (learn ip mac c) =
      (if other = ip then Some mac
       else if arp_lookup ip c = None \<and> list_all ce_valid (g_cache c) \<and> ce_ip (g_cache c ! unat (g_replace_index c)) = other
       then None else arp_lookup other c) \<and>
    unat (g_replace_index (learn ip mac c)) =
      (if arp_lookup ip c = None \<and> list_all ce_valid (g_cache c)
       then (unat (g_replace_index c) + 1) mod kCacheSize else unat (g_replace_index c))"
proof (cases "arp_lookup ip c = None")
  case True
  then show ?thesis
    using learn_free [OF assms] learn_full [OF assms] by (cases "list_all ce_valid (g_cache c)") simp_all
next
  case False
  then show ?thesis using learn_known [OF assms False] by auto
qed

text \<open>
  A full cache of eight neighbours: learning a ninth forgets the first and no other.
\<close>

definition eight_neighbours :: arp_cache where
  "eight_neighbours = fold (\<lambda>n. learn [10, 0, 2, n] [2, 0, 0, 0, 0, n]) [3, 4, 5, 6, 7, 8, 9, 10] arp_reset"

lemma eight_neighbours_inv: "arp_inv eight_neighbours"
  unfolding eight_neighbours_def by (simp add: learn_same arp_reset_inv)

lemma eight_neighbours_full:
  "list_all ce_valid (g_cache eight_neighbours) \<and> arp_lookup [10, 0, 2, 11] eight_neighbours = None \<and>
   ce_ip (g_cache eight_neighbours ! unat (g_replace_index eight_neighbours)) = [10, 0, 2, 3] \<and>
   arp_lookup [10, 0, 2, 4] eight_neighbours = Some [2, 0, 0, 0, 0, 4]"
  by code_simp

theorem arp_learn_spec_witness:
  "arp_lookup [10, 0, 2, 3] (learn [10, 0, 2, 11] [2, 0, 0, 0, 0, 11] eight_neighbours) = None \<and>
   arp_lookup [10, 0, 2, 4] (learn [10, 0, 2, 11] [2, 0, 0, 0, 0, 11] eight_neighbours) = Some [2, 0, 0, 0, 0, 4]"
  using arp_learn_spec [OF eight_neighbours_inv, of "[10, 0, 2, 11]" "[10, 0, 2, 3]" "[2, 0, 0, 0, 0, 11]"]
    arp_learn_spec [OF eight_neighbours_inv, of "[10, 0, 2, 11]" "[10, 0, 2, 4]" "[2, 0, 0, 0, 0, 11]"] eight_neighbours_full
  by simp

subsection \<open>ARP packets\<close>

definition arp_bytes :: "u16 \<Rightarrow> mac_address \<Rightarrow> ipv4_address \<Rightarrow> mac_address \<Rightarrow> ipv4_address \<Rightarrow> u8 list" where
  "arp_bytes operation local_mac local_ip target_mac target_ip =
     be16_bytes 1 @ be16_bytes 0x0800 @ [6, 4] @ be16_bytes operation @ local_mac @ local_ip @ target_mac @ target_ip"

lemma build_packet_form:
  assumes "length local_mac = 6" "length target_mac = 6" "length local_ip = 4" "length target_ip = 4" "length p = 28"
  shows "build_packet (Some p) 28 operation local_mac local_ip target_mac target_ip =
    Some (arp_bytes operation local_mac local_ip target_mac target_ip, 28)"
  using assms
  by (simp add: build_packet_def Let_def list_update_write write_bytes_eq write_be16_def arp_bytes_def del: write_bytes.simps)

lemma length_arp_bytes:
  "length local_mac = 6 \<Longrightarrow> length target_mac = 6 \<Longrightarrow> length local_ip = 4 \<Longrightarrow> length target_ip = 4 \<Longrightarrow>
     length (arp_bytes operation local_mac local_ip target_mac target_ip) = 28"
  by (simp add: arp_bytes_def)

lemma parse_arp_bytes:
  assumes "length local_mac = 6" "length target_mac = 6" "length local_ip = 4" "length target_ip = 4"
    and "operation = 1 \<or> operation = 2" "28 \<le> len" "length ip = 4"
  shows "parse_and_learn (Some (arp_bytes operation local_mac local_ip target_mac target_ip @ pad)) len ip c =
    (Some (operation = 1 \<and> target_ip = ip, local_mac, local_ip), learn local_ip local_mac c)"
proof -
  let ?p = "arp_bytes operation local_mac local_ip target_mac target_ip @ pad"
  obtain a1 a2 where a: "be16_bytes 1 = [a1, a2]" "be16 a1 a2 = 1" by (rule be16_bytes_form)
  obtain b1 b2 where b: "be16_bytes 0x0800 = [b1, b2]" "be16 b1 b2 = 0x0800" by (rule be16_bytes_form)
  obtain o1 o2 where o: "be16_bytes operation = [o1, o2]" "be16 o1 o2 = operation" by (rule be16_bytes_form)
  have p: "?p = [a1, a2, b1, b2, 6, 4, o1, o2] @ local_mac @ local_ip @ target_mac @ target_ip @ pad"
    by (simp add: arp_bytes_def a b o)
  have f: "read_be16 ?p 0 = 1" "read_be16 ?p 2 = 0x0800" "?p ! 4 = 6" "?p ! 5 = 4" "read_be16 ?p 6 = operation"
    unfolding p by (simp_all add: read_be16_def a b o)
  have fields: "map (\<lambda>i. ?p ! (8 + i)) [0..<6] = local_mac" "map (\<lambda>i. ?p ! (14 + i)) [0..<4] = local_ip"
    "map (\<lambda>i. ?p ! (24 + i)) [0..<4] = target_ip"
    unfolding p using assms(1-4) by (auto intro!: nth_equalityI simp: nth_append)
  show ?thesis
    unfolding parse_and_learn_def option.case f fields Let_def using assms(4-7) by (auto simp: ipv4_equals_iff not_less)
qed

end
