(* ===== verification/Network.thy ===== *)
theory Network
  imports Net_Tables
begin

text \<open>
  The network service (\<^verbatim>\<open>kernel/net/network.cpp\<close>): ARP resolution, ping and UDP on top of the codecs and
  tables.  The file-scope variables are the record \<open>net_state\<close>, which also collects the frames the card
  accepted (\<open>nt_sent\<close>) and the receive callbacks made (\<open>nt_calls\<close>).  The card is a parameter: \<open>nic frame\<close>
  says whether it takes a frame.  \<open>now\<close> is the uptime in seconds, read once per operation.  The local
  buffers of the code start with unspecified bytes, here zeros; only the part written is ever used.
\<close>

unbundle bit_operations_syntax

record net_status =
  ns_online :: bool
  ns_mac :: mac_address
  ns_ip :: ipv4_address
  ns_netmask :: ipv4_address
  ns_gateway :: ipv4_address

datatype ping_state = PingIdle | ResolvingArp | WaitingReply | ReplyReceived | HostUnreachable | TimedOut

record ping_result =
  pr_state :: ping_state
  pr_address :: ipv4_address
  pr_sequence :: u16
  pr_payload_bytes :: u16

record pending_udp =
  pu_occupied :: bool
  pu_next_hop :: ipv4_address
  pu_packet_length :: u16
  pu_deadline :: u64
  pu_packet :: "u8 list"

record 'r net_state =
  nt_status :: net_status
  nt_ping :: ping_result
  nt_next_hop :: ipv4_address
  nt_deadline :: u64
  nt_next_sequence :: u16
  nt_next_identification :: u16
  nt_bindings :: "'r udp_entry list"
  nt_pending :: pending_udp
  nt_arp :: arp_cache
  nt_sent :: "u8 list list"
  nt_calls :: "('r \<times> ipv4_address \<times> u16 \<times> u16 \<times> u8 list) list"

type_synonym nic = "u8 list \<Rightarrow> bool"

definition kLocalIp :: ipv4_address where [kernel_const]: "kLocalIp = [10, 0, 2, 15]"
definition kNetmask :: ipv4_address where [kernel_const]: "kNetmask = [255, 255, 255, 0]"
definition kGateway :: ipv4_address where [kernel_const]: "kGateway = [10, 0, 2, 2]"
definition kBroadcastMac :: mac_address where [kernel_const]: "kBroadcastMac = replicate 6 0xFF"
definition kMaxFramesPerPoll :: nat where [kernel_const]: "kMaxFramesPerPoll = 8"
definition kPingIdentifier :: u16 where [kernel_const]: "kPingIdentifier = 0x4C95"
definition kArpTimeoutSeconds :: u64 where [kernel_const]: "kArpTimeoutSeconds = 1"
definition kReplyTimeoutSeconds :: u64 where [kernel_const]: "kReplyTimeoutSeconds = 2"

definition idle_ping :: ping_result where
  "idle_ping = \<lparr>pr_state = PingIdle, pr_address = replicate 4 0, pr_sequence = 0, pr_payload_bytes = 0\<rparr>"

definition mac_equals :: "mac_address \<Rightarrow> mac_address \<Rightarrow> bool" where
  "mac_equals left right \<longleftrightarrow> list_all (\<lambda>i. left ! i = right ! i) [0..<6]"

subsection \<open>Sending\<close>

definition nic_transmit :: "nic \<Rightarrow> u8 list \<Rightarrow> 'r net_state \<Rightarrow> bool \<times> 'r net_state" where
  "nic_transmit nic frame s = (if nic frame then (True, s\<lparr>nt_sent := nt_sent s @ [frame]\<rparr>) else (False, s))"

definition transmit_ethernet ::
  "nic \<Rightarrow> mac_address \<Rightarrow> ether_type \<Rightarrow> u8 list \<Rightarrow> u16 \<Rightarrow> 'r net_state \<Rightarrow> bool \<times> 'r net_state" where
  "transmit_ethernet nic destination kind payload payload_length s =
     (case build_ethernet (Some (replicate 1518 0)) 1518 destination (ns_mac (nt_status s)) kind (Some payload) payload_length of
        None \<Rightarrow> (False, s)
      | Some (frame, frame_length) \<Rightarrow> nic_transmit nic (take (unat frame_length) frame) s)"

definition transmit_arp_request :: "nic \<Rightarrow> ipv4_address \<Rightarrow> 'r net_state \<Rightarrow> bool \<times> 'r net_state" where
  "transmit_arp_request nic target s =
     (case build_request (Some (replicate 28 0)) 28 (ns_mac (nt_status s)) (ns_ip (nt_status s)) target of
        None \<Rightarrow> (False, s)
      | Some (payload, payload_length) \<Rightarrow> transmit_ethernet nic kBroadcastMac EtherArp payload payload_length s)"

definition transmit_arp_reply :: "nic \<Rightarrow> mac_address \<Rightarrow> ipv4_address \<Rightarrow> 'r net_state \<Rightarrow> bool \<times> 'r net_state" where
  "transmit_arp_reply nic target_mac target_ip s =
     (case build_reply (Some (replicate 28 0)) 28 (ns_mac (nt_status s)) (ns_ip (nt_status s)) target_mac target_ip of
        None \<Rightarrow> (False, s)
      | Some (payload, payload_length) \<Rightarrow> transmit_ethernet nic target_mac EtherArp payload payload_length s)"

definition transmit_echo_request :: "nic \<Rightarrow> u64 \<Rightarrow> mac_address \<Rightarrow> 'r net_state \<Rightarrow> bool \<times> 'r net_state" where
  "transmit_echo_request nic now destination_mac s =
     (case build_echo_request (Some (replicate 40 0)) 40 kPingIdentifier (pr_sequence (nt_ping s)) of
        None \<Rightarrow> (False, s)
      | Some (icmp_payload, icmp_length) \<Rightarrow>
      let identification = nt_next_identification s;
          s = s\<lparr>nt_next_identification := identification + 1\<rparr>
      in case ipv4_build (Some (replicate 1500 0)) 1500 (ns_ip (nt_status s)) (pr_address (nt_ping s)) 1 identification
                (Some icmp_payload) icmp_length of
        None \<Rightarrow> (False, s)
      | Some (ipv4_packet, ipv4_length) \<Rightarrow>
      (case transmit_ethernet nic destination_mac EtherIpv4 ipv4_packet ipv4_length s of
        (False, s) \<Rightarrow> (False, s)
      | (True, s) \<Rightarrow>
          (True, s\<lparr>nt_ping := (nt_ping s)\<lparr>pr_state := WaitingReply\<rparr>, nt_deadline := now + kReplyTimeoutSeconds\<rparr>)))"

subsection \<open>Receiving\<close>

definition release_pending :: "'r net_state \<Rightarrow> 'r net_state" where
  "release_pending s = s\<lparr>nt_pending := (nt_pending s)\<lparr>pu_occupied := False\<rparr>\<rparr>"

definition set_ping :: "ping_state \<Rightarrow> 'r net_state \<Rightarrow> 'r net_state" where
  "set_ping st s = s\<lparr>nt_ping := (nt_ping s)\<lparr>pr_state := st\<rparr>\<rparr>"

definition handle_arp :: "nic \<Rightarrow> u64 \<Rightarrow> ethernet_view \<Rightarrow> 'r net_state \<Rightarrow> 'r net_state" where
  "handle_arp nic now frame s =
     (case parse_and_learn (Some (ev_payload frame)) (of_nat (length (ev_payload frame))) (ns_ip (nt_status s)) (nt_arp s) of
        (None, c) \<Rightarrow> s\<lparr>nt_arp := c\<rparr>
      | (Some (should_reply, sender_mac, sender_ip), c) \<Rightarrow>
      let s = s\<lparr>nt_arp := c\<rparr>;
          s = (if should_reply then snd (transmit_arp_reply nic sender_mac sender_ip s) else s);
          s = (if pr_state (nt_ping s) = ResolvingArp
               then case arp_lookup (nt_next_hop s) (nt_arp s) of
                      None \<Rightarrow> s
                    | Some next_hop_mac \<Rightarrow>
                        (case transmit_echo_request nic now next_hop_mac s of
                           (True, s) \<Rightarrow> s | (False, s) \<Rightarrow> set_ping HostUnreachable s)
               else s)
      in if pu_occupied (nt_pending s)
         then if now \<ge> pu_deadline (nt_pending s) then release_pending s
              else if ipv4_equals sender_ip (pu_next_hop (nt_pending s))
              then snd (transmit_ethernet nic sender_mac EtherIpv4 (pu_packet (nt_pending s))
                          (pu_packet_length (nt_pending s)) (release_pending s))
              else s
         else s)"

definition udp_dispatch ::
  "ipv4_address \<Rightarrow> u16 \<Rightarrow> u16 \<Rightarrow> u8 list \<Rightarrow> 'r net_state \<Rightarrow> 'r net_state" where
  "udp_dispatch source source_port destination_port payload s =
     (case receiver_of (nt_bindings s) destination_port of
        None \<Rightarrow> s
      | Some r \<Rightarrow> s\<lparr>nt_calls := nt_calls s @ [(r, source, source_port, destination_port, payload)]\<rparr>)"

definition handle_ipv4 :: "ethernet_view \<Rightarrow> 'r net_state \<Rightarrow> 'r net_state" where
  "handle_ipv4 frame s =
     (case ipv4_parse (Some (ev_payload frame)) (of_nat (length (ev_payload frame))) of
        None \<Rightarrow> s
      | Some packet \<Rightarrow>
          if \<not> ipv4_equals (pv_destination packet) (ns_ip (nt_status s)) then s
          else if pv_protocol packet = 1
          then if pr_state (nt_ping s) \<noteq> WaitingReply \<or> \<not> ipv4_equals (pv_source packet) (pr_address (nt_ping s)) then s
               else (case accept_echo_reply (Some (pv_payload packet)) (of_nat (length (pv_payload packet)))
                            kPingIdentifier (pr_sequence (nt_ping s)) of
                       None \<Rightarrow> s
                     | Some n \<Rightarrow> s\<lparr>nt_ping := (nt_ping s)\<lparr>pr_payload_bytes := n, pr_state := ReplyReceived\<rparr>\<rparr>)
          else if pv_protocol packet = 17
          then (case udp_parse (Some (pv_payload packet)) (of_nat (length (pv_payload packet)))
                       (pv_source packet) (pv_destination packet) of
                  None \<Rightarrow> s
                | Some d \<Rightarrow> udp_dispatch (pv_source packet) (dv_source_port d) (dv_destination_port d) (dv_payload d) s)
          else s)"

definition dispatch_frame :: "nic \<Rightarrow> u64 \<Rightarrow> u8 list \<Rightarrow> 'r net_state \<Rightarrow> 'r net_state" where
  "dispatch_frame nic now bytes s =
     (case parse_ethernet (Some bytes) (of_nat (length bytes)) of
        None \<Rightarrow> s
      | Some frame \<Rightarrow>
          if \<not> mac_equals (ev_destination frame) (ns_mac (nt_status s)) \<and>
             \<not> mac_equals (ev_destination frame) kBroadcastMac then s
          else if ev_type frame = EtherArp then handle_arp nic now frame s
          else handle_ipv4 frame s)"

definition advance_timeout :: "u64 \<Rightarrow> 'r net_state \<Rightarrow> 'r net_state" where
  "advance_timeout now s =
     (let s = (if pu_occupied (nt_pending s) \<and> now \<ge> pu_deadline (nt_pending s) then release_pending s else s)
      in if pr_state (nt_ping s) = ResolvingArp \<and> now \<ge> nt_deadline s then set_ping HostUnreachable s
         else if pr_state (nt_ping s) = WaitingReply \<and> now \<ge> nt_deadline s then set_ping TimedOut s
         else s)"

subsection \<open>The public operations\<close>

text \<open>The result of the card's initialisation is its success and its address.\<close>

definition net_initialize :: "bool \<Rightarrow> mac_address \<Rightarrow> 'r net_state \<Rightarrow> bool \<times> 'r net_state" where
  "net_initialize card_ok hardware_mac s =
     (let s = s\<lparr>nt_status := \<lparr>ns_online = False, ns_mac = replicate 6 0, ns_ip = kLocalIp, ns_netmask = kNetmask,
                  ns_gateway = kGateway\<rparr>,
                nt_ping := idle_ping, nt_next_hop := replicate 4 0, nt_deadline := 0, nt_next_sequence := 1,
                nt_next_identification := 1, nt_pending := (nt_pending s)\<lparr>pu_occupied := False\<rparr>,
                nt_arp := arp_reset, nt_bindings := bindings_empty\<rparr>
      in if \<not> card_ok then (False, s)
         else (True, s\<lparr>nt_status := (nt_status s)\<lparr>ns_mac := take 6 hardware_mac, ns_online := True\<rparr>\<rparr>))"

definition bind_udp_port :: "u16 \<Rightarrow> 'r option \<Rightarrow> 'r net_state \<Rightarrow> bool \<times> 'r net_state" where
  "bind_udp_port port receiver s =
     (let (ok, t) = bind_port port receiver (nt_bindings s) in (ok, s\<lparr>nt_bindings := t\<rparr>))"

definition unbind_udp_port :: "u16 \<Rightarrow> 'r net_state \<Rightarrow> bool \<times> 'r net_state" where
  "unbind_udp_port port s = (let (ok, t) = unbind_port port (nt_bindings s) in (ok, s\<lparr>nt_bindings := t\<rparr>))"

definition send_udp ::
  "nic \<Rightarrow> u64 \<Rightarrow> ipv4_address \<Rightarrow> u16 \<Rightarrow> u16 \<Rightarrow> u8 list option \<Rightarrow> u16 \<Rightarrow> 'r net_state \<Rightarrow> bool \<times> 'r net_state" where
  "send_udp nic now destination source_port destination_port payload payload_length s =
     (if \<not> ns_online (nt_status s) \<or> source_port = 0 \<or> destination_port = 0 \<or>
         (payload = None \<and> payload_length \<noteq> 0) \<or> payload_length > kMaxPayloadLength then (False, s)
      else let hop = next_hop destination (ns_ip (nt_status s)) (ns_netmask (nt_status s)) (ns_gateway (nt_status s));
               cached = arp_lookup hop (nt_arp s);
               s = (if cached = None \<and> pu_occupied (nt_pending s) \<and> now \<ge> pu_deadline (nt_pending s)
                    then release_pending s else s)
      in if cached = None \<and> pu_occupied (nt_pending s) then (False, s)
      else case udp_build (Some (replicate 1480 0)) 1480 (ns_ip (nt_status s)) destination source_port destination_port
                  payload payload_length of
        None \<Rightarrow> (False, s)
      | Some (datagram, datagram_length) \<Rightarrow>
      let identification = nt_next_identification s;
          s = s\<lparr>nt_next_identification := identification + 1\<rparr>
      in case ipv4_build (Some (replicate 1500 0)) 1500 (ns_ip (nt_status s)) destination 17 identification
                (Some datagram) datagram_length of
        None \<Rightarrow> (False, s)
      | Some (packet, packet_length) \<Rightarrow>
      (case cached of
        Some next_hop_mac \<Rightarrow> transmit_ethernet nic next_hop_mac EtherIpv4 packet packet_length s
      | None \<Rightarrow>
          let s = s\<lparr>nt_pending := \<lparr>pu_occupied = True, pu_next_hop = hop, pu_packet_length = packet_length,
                      pu_deadline = now + kArpTimeoutSeconds, pu_packet = take (unat packet_length) packet\<rparr>\<rparr>
          in case transmit_arp_request nic hop s of
               (False, s) \<Rightarrow> (False, release_pending s)
             | (True, s) \<Rightarrow> (True, s)))"

text \<open>The frames the card holds, oldest first; the result includes those left for the next call.\<close>

definition net_poll :: "nic \<Rightarrow> u64 \<Rightarrow> u8 list list \<Rightarrow> 'r net_state \<Rightarrow> u8 list list \<times> 'r net_state" where
  "net_poll nic now frames s =
     (if \<not> ns_online (nt_status s) then (frames, s)
      else (drop kMaxFramesPerPoll frames,
            advance_timeout now (fold (dispatch_frame nic now) (take kMaxFramesPerPoll frames) s)))"

definition start_ping :: "nic \<Rightarrow> u64 \<Rightarrow> ipv4_address \<Rightarrow> 'r net_state \<Rightarrow> bool \<times> 'r net_state" where
  "start_ping nic now destination s =
     (if \<not> ns_online (nt_status s) \<or> pr_state (nt_ping s) \<noteq> PingIdle then (False, s)
      else let hop = next_hop destination (ns_ip (nt_status s)) (ns_netmask (nt_status s)) (ns_gateway (nt_status s));
               s = s\<lparr>nt_ping := (nt_ping s)\<lparr>pr_address := destination, pr_sequence := nt_next_sequence s, pr_payload_bytes := 0\<rparr>,
                     nt_next_sequence := nt_next_sequence s + 1, nt_next_hop := hop\<rparr>
      in case arp_lookup hop (nt_arp s) of
        Some next_hop_mac \<Rightarrow>
          (case transmit_echo_request nic now next_hop_mac s of
             (True, s) \<Rightarrow> (True, s) | (False, s) \<Rightarrow> (True, set_ping HostUnreachable s))
      | None \<Rightarrow>
          let s = (set_ping ResolvingArp s)\<lparr>nt_deadline := now + kArpTimeoutSeconds\<rparr>
          in case transmit_arp_request nic hop s of
               (True, s) \<Rightarrow> (True, s) | (False, s) \<Rightarrow> (True, set_ping HostUnreachable s))"

definition clear_ping_result :: "'r net_state \<Rightarrow> 'r net_state" where
  "clear_ping_result s = s\<lparr>nt_ping := idle_ping\<rparr>"

subsection \<open>Frames\<close>

definition eth_frame :: "mac_address \<Rightarrow> mac_address \<Rightarrow> ether_type \<Rightarrow> u8 list \<Rightarrow> u8 list" where
  "eth_frame destination source kind data = destination @ source @ be16_bytes (ether_value kind) @ data"

lemma builders_take:
  "build_ethernet f c d s k (Some p) n = build_ethernet f c d s k (Some (take (unat n) p)) n"
  "ipv4_build f c src dst pr i (Some p) n = ipv4_build f c src dst pr i (Some (take (unat n) p)) n"
proof -
  have "payload_bytes (Some (take (unat n) p)) n = payload_bytes (Some p) n" for n p by (simp add: payload_bytes_def)
  then show "build_ethernet f c d s k (Some p) n = build_ethernet f c d s k (Some (take (unat n) p)) n"
    "ipv4_build f c src dst pr i (Some p) n = ipv4_build f c src dst pr i (Some (take (unat n) p)) n"
    unfolding build_ethernet_def ipv4_build_def Let_def by (cases f; simp)+
qed

lemma transmit_ethernet_form:
  assumes "length destination = 6" "length (ns_mac (nt_status s)) = 6" "unat n \<le> length payload" "unat n \<le> 1504"
  shows "transmit_ethernet nic destination kind payload n s =
    nic_transmit nic (eth_frame destination (ns_mac (nt_status s)) kind (take (unat n) payload)) s"
proof -
  have "build_ethernet (Some (replicate 1518 0)) 1518 destination (ns_mac (nt_status s)) kind (Some (take (unat n) payload)) n =
     Some (destination @ ns_mac (nt_status s) @ be16_bytes (ether_value kind) @ take (unat n) payload @ replicate (1504 - unat n) 0,
           ucast ((14 :: u32) + ucast n))"
    using build_ethernet_form [of destination "ns_mac (nt_status s)" "take (unat n) payload" n 1518 "replicate 1518 0" kind] assms
    by simp
  moreover have "unat (ucast ((14 :: u32) + ucast n) :: u16) = 14 + unat n"
    using unat_required_16 [of 14 n] assms(4) by simp
  ultimately show ?thesis
    using assms unfolding transmit_ethernet_def builders_take(1) [where p = payload] by (simp add: eth_frame_def)
qed

lemma parse_eth_frame:
  assumes "length destination = 6" "length source = 6" "length data \<le> 1504"
  shows "parse_ethernet (Some (eth_frame destination source kind data)) (of_nat (length (eth_frame destination source kind data))) =
    Some \<lparr>ev_destination = destination, ev_source = source, ev_type = kind, ev_payload = data\<rparr>"
proof -
  define n :: u16 where "n = of_nat (length data)"
  have n: "unat n = length data" unfolding n_def using assms(3) by (intro unat_of_nat_small) simp
  have "unat (of_nat (length (eth_frame destination source kind data)) :: u16) = 14 + length data"
    using assms by (subst unat_of_nat_small) (simp_all add: eth_frame_def)
  then show ?thesis
    using ethernet_roundtrip [of destination source data n 1518 "replicate 1518 0" kind] assms n
      build_ethernet_form [of destination source data n 1518 "replicate 1518 0" kind]
    by (auto simp: eth_frame_def elim: allE [of _ "[]"])
qed

lemma mac_equals_refl [simp]: "mac_equals m m"
  by (simp add: mac_equals_def list_all_iff)

lemma ipv4_equals_refl [simp]: "ipv4_equals a a"
  by (simp add: ipv4_equals_def list_all_iff)

lemma dispatch_eth_frame:
  assumes "length destination = 6" "length source = 6" "length data \<le> 1504"
    and "destination = ns_mac (nt_status s) \<or> destination = kBroadcastMac"
  shows "dispatch_frame nic now (eth_frame destination source kind data) s =
    (if kind = EtherArp
     then handle_arp nic now \<lparr>ev_destination = destination, ev_source = source, ev_type = kind, ev_payload = data\<rparr> s
     else handle_ipv4 \<lparr>ev_destination = destination, ev_source = source, ev_type = kind, ev_payload = data\<rparr> s)"
  using assms(4) unfolding dispatch_frame_def parse_eth_frame [OF assms(1-3)] by auto

text \<open>The IPv4 packet around a datagram, as bytes.\<close>

definition udp_packet :: "ipv4_address \<Rightarrow> ipv4_address \<Rightarrow> u16 \<Rightarrow> u16 \<Rightarrow> u16 \<Rightarrow> u8 list \<Rightarrow> u8 list" where
  "udp_packet source destination identification sp dp data =
     (let dlen = of_nat (8 + length data); plen = of_nat (28 + length data)
      in ipv4_header plen identification 17 (checksum (Some (ipv4_header plen identification 17 0 source destination)))
           source destination @ udp_header sp dp dlen (udp_check source destination sp dp dlen data) @ data)"

lemma unat_length_16: "length data < 65536 \<Longrightarrow> unat (of_nat (length data) :: u16) = length data"
  by (rule unat_of_nat_small) simp

lemma ucast_required:
  assumes "k + length data < 65536"
  shows "(ucast ((of_nat k :: u32) + ucast (of_nat (length data) :: u16)) :: u16) = of_nat (k + length data)"
proof -
  have "unat (of_nat (length data) :: u16) = length data" using assms by (intro unat_length_16) simp
  moreover have "unat (of_nat (k + length data) :: u16) = k + length data" using assms by (intro unat_of_nat_small) simp
  ultimately show ?thesis
    using unat_required_16 [of k "of_nat (length data)"] assms unfolding unat_eq_iff by simp
qed

lemma build_udp_packet:
  assumes ips: "length source = 4" "length destination = 4" and small: "length data \<le> 1472"
  shows "\<exists>datagram packet.
    udp_build (Some (replicate 1480 0)) 1480 source destination sp dp (Some data) (of_nat (length data)) =
      Some (datagram, of_nat (8 + length data)) \<and>
    ipv4_build (Some (replicate 1500 0)) 1500 source destination 17 identification (Some datagram) (of_nat (8 + length data)) =
      Some (packet, of_nat (28 + length data)) \<and>
    length packet = 1500 \<and> take (28 + length data) packet = udp_packet source destination identification sp dp data"
proof -
  define n :: u16 where "n = of_nat (length data)"
  define dlen :: u16 where "dlen = of_nat (8 + length data)"
  define plen :: u16 where "plen = of_nat (28 + length data)"
  have n: "length data = unat n" unfolding n_def using small by (intro unat_length_16 [symmetric]) simp
  have dlen: "unat dlen = 8 + length data" unfolding dlen_def using small by (intro unat_of_nat_small) simp
  have d: "dlen = ucast ((8 :: u32) + ucast n)"
    using ucast_required [of 8 data] small unfolding n_def dlen_def by simp
  define head where "head = udp_header sp dp dlen (udp_check source destination sp dp dlen data)"
  define dg where "dg = head @ data @ replicate (1472 - length data) 0"
  have head: "length head = 8" by (simp add: head_def)
  have ok: "\<not> (n > kMaxPayloadLength \<or> 8 + unat n > unat (1480 :: u16))"
    using small n by (simp add: kMaxPayloadLength_def not_less word_le_nat_alt)
  have "udp_build (Some (replicate 1480 0)) 1480 source destination sp dp (Some data) n = Some (dg, dlen)"
    using udp_build_form [OF n _ d, where datagram = "replicate 1480 0" and capacity = 1480] ok n
    by (simp add: dg_def head_def)
  moreover have take_dg: "take (unat dlen) dg = head @ data" using dlen head by (simp add: dg_def)
  have len_dg: "length (head @ data) = unat dlen" using dlen head by simp
  have p: "plen = ucast ((20 :: u32) + ucast dlen)"
    using ucast_required [of 20 "head @ data"] small head unfolding plen_def dlen_def by (simp add: algebra_simps)
  define pk where "pk = udp_packet source destination identification sp dp data @ replicate (1472 - length data) 0"
  have "ipv4_build (Some (replicate 1500 0)) 1500 source destination 17 identification (Some dg) dlen = Some (pk, plen)"
    unfolding builders_take(2) [where p = dg] take_dg
    using ipv4_build_form [OF ips len_dg _ p, where packet = "replicate 1500 0" and capacity = 1500] small dlen
    by (simp add: pk_def udp_packet_def Let_def plen_def dlen_def head_def)
  moreover have "length (udp_packet source destination identification sp dp data) = 28 + length data"
    using ips by (simp add: udp_packet_def Let_def)
  ultimately show ?thesis
    using small unfolding dlen_def plen_def n_def by (intro exI [of _ dg] exI [of _ pk]) (simp add: pk_def)
qed

lemma length_udp_packet:
  "length source = 4 \<Longrightarrow> length destination = 4 \<Longrightarrow> length (udp_packet source destination i sp dp data) = 28 + length data"
  by (simp add: udp_packet_def Let_def)

lemma nic_transmit_status [simp]:
  "nt_status (snd (nic_transmit nic f s)) = nt_status s" "nt_pending (snd (nic_transmit nic f s)) = nt_pending s"
  "nt_ping (snd (nic_transmit nic f s)) = nt_ping s" "nt_arp (snd (nic_transmit nic f s)) = nt_arp s"
  "nt_bindings (snd (nic_transmit nic f s)) = nt_bindings s" "nt_next_hop (snd (nic_transmit nic f s)) = nt_next_hop s"
  "nt_calls (snd (nic_transmit nic f s)) = nt_calls s"
  by (simp_all add: nic_transmit_def)

lemma transmit_arp_forms:
  assumes "length (ns_mac (nt_status s)) = 6" "length (ns_ip (nt_status s)) = 4" "length target = 4" "length target_mac = 6"
  shows "transmit_arp_request nic target s = nic_transmit nic (eth_frame kBroadcastMac (ns_mac (nt_status s)) EtherArp
      (arp_bytes 1 (ns_mac (nt_status s)) (ns_ip (nt_status s)) (replicate 6 0) target)) s"
    "transmit_arp_reply nic target_mac target s = nic_transmit nic (eth_frame target_mac (ns_mac (nt_status s)) EtherArp
      (arp_bytes 2 (ns_mac (nt_status s)) (ns_ip (nt_status s)) target_mac target)) s"
  using assms
  by (simp_all add: transmit_arp_request_def transmit_arp_reply_def build_request_def build_reply_def build_packet_form
      transmit_ethernet_form length_arp_bytes kBroadcastMac_def)

lemma handle_udp_packet:
  assumes "length source = 4" "length (ns_ip (nt_status s)) = 4" "length data \<le> 1472"
    and "ev_payload frame = udp_packet source (ns_ip (nt_status s)) i sp dp data"
  shows "handle_ipv4 frame s = udp_dispatch source sp dp data s"
proof -
  let ?ip = "ns_ip (nt_status s)"
  define dlen :: u16 where "dlen = of_nat (8 + length data)"
  define plen :: u16 where "plen = of_nat (28 + length data)"
  have len: "unat dlen = 8 + length data" "unat plen = 28 + length data"
    unfolding dlen_def plen_def using assms(3) by (intro unat_of_nat_small; simp)+
  let ?d = "udp_header sp dp dlen (udp_check source ?ip sp dp dlen data) @ data"
  have "ipv4_parse (Some (ev_payload frame)) (of_nat (length (ev_payload frame))) =
      Some \<lparr>pv_source = source, pv_destination = ?ip, pv_protocol = 17, pv_payload = ?d\<rparr>"
    using ipv4_parse_header [OF assms(1,2), where len = plen and data = ?d and pad = "[]" and received = plen and protocol = 17
        and identification = i] len assms(4) length_udp_packet [OF assms(1,2), of i sp dp data]
    by (simp add: udp_packet_def Let_def dlen_def plen_def)
  moreover have "udp_parse (Some ?d) (of_nat (length ?d)) source ?ip =
      Some \<lparr>dv_source_port = sp, dv_destination_port = dp, dv_payload = data\<rparr>"
    using udp_parse_header [OF len(1), where received = dlen and pad = "[]"] by (simp add: len dlen_def)
  ultimately show ?thesis by (simp add: handle_ipv4_def)
qed

subsection \<open>Sending a datagram\<close>

definition arp_macs_ok :: "arp_cache \<Rightarrow> bool" where
  "arp_macs_ok c \<longleftrightarrow> list_all (\<lambda>e. length (ce_mac e) = 6) (g_cache c)"

lemma arp_lookup_length: "arp_macs_ok c \<Longrightarrow> arp_lookup ip c = Some mac \<Longrightarrow> length mac = 6"
  by (auto simp: arp_lookup_def arp_macs_ok_def list_all_length first_slot_Some split: option.splits)

text \<open>The well-formed states of the service.\<close>

definition status_ok :: "net_status \<Rightarrow> bool" where
  "status_ok st \<longleftrightarrow> length (ns_mac st) = 6 \<and> length (ns_ip st) = 4 \<and> length (ns_netmask st) = 4 \<and> length (ns_gateway st) = 4"

definition pending_ok :: "pending_udp \<Rightarrow> bool" where
  "pending_ok p \<longleftrightarrow> (pu_occupied p \<longrightarrow> length (pu_next_hop p) = 4 \<and> length (pu_packet p) = unat (pu_packet_length p) \<and>
     unat (pu_packet_length p) \<le> 1500)"

definition frame_ok :: "u8 list \<Rightarrow> bool" where
  "frame_ok f \<longleftrightarrow> 14 \<le> length f \<and> length f \<le> 1514"

definition net_ok :: "'r net_state \<Rightarrow> bool" where
  "net_ok s \<longleftrightarrow> status_ok (nt_status s) \<and> arp_inv (nt_arp s) \<and> arp_macs_ok (nt_arp s) \<and> binding_inv (nt_bindings s) \<and>
     length (pr_address (nt_ping s)) = 4 \<and> length (nt_next_hop s) = 4 \<and> pending_ok (nt_pending s) \<and>
     list_all frame_ok (nt_sent s)"

lemma length_next_hop:
  "status_ok st \<Longrightarrow> length destination = 4 \<Longrightarrow> length (next_hop destination (ns_ip st) (ns_netmask st) (ns_gateway st)) = 4"
  by (simp add: next_hop_def status_ok_def Let_def)

definition send_hop :: "'r net_state \<Rightarrow> ipv4_address \<Rightarrow> ipv4_address" where
  "send_hop s destination = next_hop destination (ns_ip (nt_status s)) (ns_netmask (nt_status s)) (ns_gateway (nt_status s))"

lemma send_udp_forms:
  assumes "net_ok s" "ns_online (nt_status s)" "length destination = 4" "sp \<noteq> 0" "dp \<noteq> 0" "length data \<le> 1472"
  defines "pkt \<equiv> udp_packet (ns_ip (nt_status s)) destination (nt_next_identification s) sp dp data"
    and "s1 \<equiv> s\<lparr>nt_next_identification := nt_next_identification s + 1\<rparr>"
  shows "arp_lookup (send_hop s destination) (nt_arp s) = Some mac \<Longrightarrow>
      send_udp nic now destination sp dp (Some data) (of_nat (length data)) s =
        nic_transmit nic (eth_frame mac (ns_mac (nt_status s)) EtherIpv4 pkt) s1"
    "arp_lookup (send_hop s destination) (nt_arp s) = None \<Longrightarrow> \<not> pu_occupied (nt_pending s) \<Longrightarrow>
      send_udp nic now destination sp dp (Some data) (of_nat (length data)) s =
        (case nic_transmit nic (eth_frame kBroadcastMac (ns_mac (nt_status s)) EtherArp
            (arp_bytes 1 (ns_mac (nt_status s)) (ns_ip (nt_status s)) (replicate 6 0) (send_hop s destination)))
            (s1\<lparr>nt_pending := \<lparr>pu_occupied = True, pu_next_hop = send_hop s destination, pu_packet_length = of_nat (length pkt),
               pu_deadline = now + kArpTimeoutSeconds, pu_packet = pkt\<rparr>\<rparr>) of
           (False, s) \<Rightarrow> (False, release_pending s) | (True, s) \<Rightarrow> (True, s))"
proof -
  have st: "length (ns_mac (nt_status s)) = 6" "length (ns_ip (nt_status s)) = 4" "status_ok (nt_status s)"
    using assms(1) by (simp_all add: net_ok_def status_ok_def)
  have small: "\<not> (of_nat (length data) :: u16) > kMaxPayloadLength"
    using assms(6) unat_length_16 [of data] by (simp add: kMaxPayloadLength_def not_less word_le_nat_alt)
  define dl pl :: u16 where "dl = of_nat (8 + length data)" and "pl = of_nat (28 + length data)"
  obtain dg packet where b:
    "udp_build (Some (replicate 1480 0)) 1480 (ns_ip (nt_status s)) destination sp dp (Some data) (of_nat (length data)) =
      Some (dg, dl)"
    "ipv4_build (Some (replicate 1500 0)) 1500 (ns_ip (nt_status s)) destination 17 (nt_next_identification s) (Some dg) dl =
      Some (packet, pl)"
    "length packet = 1500" "take (28 + length data) packet = pkt"
    using build_udp_packet [OF st(2) assms(3,6), of sp dp "nt_next_identification s"]
    unfolding pkt_def dl_def pl_def by blast
  have len: "unat pl = 28 + length data" unfolding pl_def using assms(6) by (intro unat_of_nat_small) simp
  have pkt: "length pkt = 28 + length data" using length_udp_packet [OF st(2) assms(3)] by (simp add: pkt_def)
  then have pl: "of_nat (length pkt) = pl" by (simp add: pl_def)
  note parts = b(1,2) small Let_def send_hop_def
  show "send_udp nic now destination sp dp (Some data) (of_nat (length data)) s =
        nic_transmit nic (eth_frame mac (ns_mac (nt_status s)) EtherIpv4 pkt) s1"
    if "arp_lookup (send_hop s destination) (nt_arp s) = Some mac"
  proof -
    have "length mac = 6" using assms(1) that by (auto simp: net_ok_def intro: arp_lookup_length)
    then have "transmit_ethernet nic mac EtherIpv4 packet pl s1 =
        nic_transmit nic (eth_frame mac (ns_mac (nt_status s)) EtherIpv4 pkt) s1"
      using transmit_ethernet_form [of mac s1 pl packet nic EtherIpv4] st(1) len b(3,4) assms(6)
      by (simp add: s1_def)
    then show ?thesis
      using that assms(2,4,5) unfolding send_udp_def by (simp add: parts s1_def)
  qed
  show "send_udp nic now destination sp dp (Some data) (of_nat (length data)) s =
        (case nic_transmit nic (eth_frame kBroadcastMac (ns_mac (nt_status s)) EtherArp
            (arp_bytes 1 (ns_mac (nt_status s)) (ns_ip (nt_status s)) (replicate 6 0) (send_hop s destination)))
            (s1\<lparr>nt_pending := \<lparr>pu_occupied = True, pu_next_hop = send_hop s destination, pu_packet_length = of_nat (length pkt),
               pu_deadline = now + kArpTimeoutSeconds, pu_packet = pkt\<rparr>\<rparr>) of
           (False, s) \<Rightarrow> (False, release_pending s) | (True, s) \<Rightarrow> (True, s))"
    if "arp_lookup (send_hop s destination) (nt_arp s) = None" "\<not> pu_occupied (nt_pending s)"
  proof -
    have hop: "length (send_hop s destination) = 4" unfolding send_hop_def using st(3) assms(3) by (rule length_next_hop)
    have req: "transmit_arp_request nic (send_hop s destination) (s1\<lparr>nt_pending := p\<rparr>) =
        nic_transmit nic (eth_frame kBroadcastMac (ns_mac (nt_status s)) EtherArp
          (arp_bytes 1 (ns_mac (nt_status s)) (ns_ip (nt_status s)) (replicate 6 0) (send_hop s destination)))
          (s1\<lparr>nt_pending := p\<rparr>)" for p
      using transmit_arp_forms(1) [OF _ _ hop, where s = "s1\<lparr>nt_pending := p\<rparr>" and target_mac = "replicate 6 0"] st
      by (simp add: s1_def)
    show ?thesis
      using that assms(2,4,5) len b(4) req [unfolded s1_def send_hop_def] unfolding send_udp_def by (simp add: parts s1_def pl)
  qed
qed

lemma learn_macs_ok: "length mac = 6 \<Longrightarrow> arp_macs_ok c \<Longrightarrow> arp_macs_ok (learn ip mac c)"
  by (auto simp: arp_macs_ok_def learn_def list_all_iff first_slot_Some split: option.splits dest!: set_update_subset_insert [THEN subsetD])

text \<open>A host that is not resolving anything itself answers a request for its address.\<close>

lemma dispatch_arp_request:
  assumes "net_ok b" "length mac = 6" "length ip = 4" "pr_state (nt_ping b) \<noteq> ResolvingArp" "\<not> pu_occupied (nt_pending b)"
  shows "dispatch_frame nic now (eth_frame kBroadcastMac mac EtherArp
      (arp_bytes 1 mac ip (replicate 6 0) (ns_ip (nt_status b)))) b =
    snd (nic_transmit nic (eth_frame mac (ns_mac (nt_status b)) EtherArp
      (arp_bytes 2 (ns_mac (nt_status b)) (ns_ip (nt_status b)) mac ip)) (b\<lparr>nt_arp := learn ip mac (nt_arp b)\<rparr>))"
proof -
  let ?p = "arp_bytes 1 mac ip (replicate 6 0) (ns_ip (nt_status b))"
  have st: "length (ns_mac (nt_status b)) = 6" "length (ns_ip (nt_status b)) = 4"
    using assms(1) by (simp_all add: net_ok_def status_ok_def)
  have len: "length ?p = 28" using assms st by (intro length_arp_bytes) simp_all
  have parse: "parse_and_learn (Some ?p) (of_nat (length ?p)) (ns_ip (nt_status b)) (nt_arp b) =
      (Some (True, mac, ip), learn ip mac (nt_arp b))"
    using parse_arp_bytes [where operation = 1 and pad = "[]" and len = 28 and ip = "ns_ip (nt_status b)"] assms(2,3) st
    unfolding len by simp
  have "dispatch_frame nic now (eth_frame kBroadcastMac mac EtherArp ?p) b =
      handle_arp nic now \<lparr>ev_destination = kBroadcastMac, ev_source = mac, ev_type = EtherArp, ev_payload = ?p\<rparr> b"
    using dispatch_eth_frame [of kBroadcastMac mac ?p b] assms(2) len by (simp add: kBroadcastMac_def)
  then show ?thesis
    using assms(4,5) transmit_arp_forms(2) [where s = "b\<lparr>nt_arp := learn ip mac (nt_arp b)\<rparr>"] st assms(2,3)
    by (simp add: handle_arp_def parse)
qed

text \<open>The answer to a request releases the packet that waited for it.\<close>

lemma dispatch_arp_reply:
  assumes "net_ok a" "length mac = 6" "length ip = 4" "pr_state (nt_ping a) \<noteq> ResolvingArp"
    and "pu_occupied (nt_pending a)" "pu_next_hop (nt_pending a) = ip" "now < pu_deadline (nt_pending a)"
  shows "dispatch_frame nic now (eth_frame (ns_mac (nt_status a)) mac EtherArp
      (arp_bytes 2 mac ip (ns_mac (nt_status a)) (ns_ip (nt_status a)))) a =
    snd (nic_transmit nic (eth_frame mac (ns_mac (nt_status a)) EtherIpv4 (pu_packet (nt_pending a)))
      (release_pending (a\<lparr>nt_arp := learn ip mac (nt_arp a)\<rparr>)))"
proof -
  let ?p = "arp_bytes 2 mac ip (ns_mac (nt_status a)) (ns_ip (nt_status a))"
  have st: "length (ns_mac (nt_status a)) = 6" "length (ns_ip (nt_status a)) = 4"
    using assms(1) by (simp_all add: net_ok_def status_ok_def)
  have len: "length ?p = 28" using assms st by (intro length_arp_bytes) simp_all
  have parse: "parse_and_learn (Some ?p) (of_nat (length ?p)) (ns_ip (nt_status a)) (nt_arp a) =
      (Some (False, mac, ip), learn ip mac (nt_arp a))"
    using parse_arp_bytes [where operation = 2 and pad = "[]" and len = 28 and ip = "ns_ip (nt_status a)"] assms(2,3) st
    unfolding len by simp
  have pending: "length (pu_packet (nt_pending a)) = unat (pu_packet_length (nt_pending a))"
    "unat (pu_packet_length (nt_pending a)) \<le> 1500"
    using assms(1,5) by (simp_all add: net_ok_def pending_ok_def)
  have "dispatch_frame nic now (eth_frame (ns_mac (nt_status a)) mac EtherArp ?p) a =
      handle_arp nic now \<lparr>ev_destination = ns_mac (nt_status a), ev_source = mac, ev_type = EtherArp, ev_payload = ?p\<rparr> a"
    using dispatch_eth_frame [of "ns_mac (nt_status a)" mac ?p a] assms(2) st len by simp
  then show ?thesis
    using assms(4-7) pending st assms(2)
      transmit_ethernet_form [where s = "release_pending (a\<lparr>nt_arp := learn ip mac (nt_arp a)\<rparr>)" and kind = EtherIpv4
        and payload = "pu_packet (nt_pending a)" and n = "pu_packet_length (nt_pending a)" and destination = mac]
    by (simp add: handle_arp_def parse release_pending_def not_le Let_def)
qed

lemma dispatch_udp_packet:
  assumes "net_ok b" "length mac = 6" "length source = 4" "length data \<le> 1472"
  shows "dispatch_frame nic now (eth_frame (ns_mac (nt_status b)) mac EtherIpv4
      (udp_packet source (ns_ip (nt_status b)) i sp dp data)) b = udp_dispatch source sp dp data b"
proof -
  have st: "length (ns_mac (nt_status b)) = 6" "length (ns_ip (nt_status b)) = 4"
    using assms(1) by (simp_all add: net_ok_def status_ok_def)
  then show ?thesis
    using dispatch_eth_frame [of "ns_mac (nt_status b)" mac "udp_packet source (ns_ip (nt_status b)) i sp dp data" b]
      handle_udp_packet [OF assms(3) st(2) assms(4)] assms(2-4) length_udp_packet [of source "ns_ip (nt_status b)" i sp dp data]
    by simp
qed

subsection \<open>Delivery\<close>

text \<open>The call a datagram causes at the receiving host.\<close>

lemma udp_dispatch_calls:
  "udp_dispatch source sp dp data s = s\<lparr>nt_calls := nt_calls s @
     (case receiver_of (nt_bindings s) dp of None \<Rightarrow> [] | Some r \<Rightarrow> [(r, source, sp, dp, data)])\<rparr>"
  by (simp add: udp_dispatch_def split: option.splits)

text \<open>
  A datagram reaches the bound receiver of another machine byte for byte.  If the sender is online, the
  ports are not zero, the payload fits and the next hop's hardware address is cached and is the receiver's,
  then \<open>send_udp\<close> puts exactly one frame on the card, and the receiver, given that frame, makes exactly one
  call: the callback bound to the port, with the sender's address, both ports and the payload.  All
  lengths and all three checksums of the frame are checked on the way, and nothing else in the receiver
  changes.
\<close>

theorem udp_delivery:
  assumes "net_ok a" "net_ok b" "ns_online (nt_status a)" "sp \<noteq> 0" "dp \<noteq> 0" "length data \<le> 1472"
    and "arp_lookup (send_hop a (ns_ip (nt_status b))) (nt_arp a) = Some (ns_mac (nt_status b))"
    and "\<And>frame. frame_ok frame \<Longrightarrow> nic frame"
  shows "case send_udp nic now (ns_ip (nt_status b)) sp dp (Some data) (of_nat (length data)) a of
    (ok, a') \<Rightarrow> ok \<and> (\<exists>frame. frame_ok frame \<and> nt_sent a' = nt_sent a @ [frame] \<and>
      dispatch_frame nic' now' frame b = b\<lparr>nt_calls := nt_calls b @
        (case receiver_of (nt_bindings b) dp of None \<Rightarrow> [] | Some r \<Rightarrow> [(r, ns_ip (nt_status a), sp, dp, data)])\<rparr>)"
proof -
  have st: "length (ns_mac (nt_status a)) = 6" "length (ns_ip (nt_status a)) = 4"
    "length (ns_mac (nt_status b)) = 6" "length (ns_ip (nt_status b)) = 4"
    using assms(1,2) by (simp_all add: net_ok_def status_ok_def)
  let ?pkt = "udp_packet (ns_ip (nt_status a)) (ns_ip (nt_status b)) (nt_next_identification a) sp dp data"
  let ?f = "eth_frame (ns_mac (nt_status b)) (ns_mac (nt_status a)) EtherIpv4 ?pkt"
  have "frame_ok ?f" using st assms(6) by (simp add: frame_ok_def eth_frame_def length_udp_packet)
  then show ?thesis
    using send_udp_forms(1) [OF assms(1,3) st(4) assms(4-7), of nic now] assms(8) [of ?f]
      dispatch_udp_packet [OF assms(2) st(1,2) assms(6), of nic' now' "nt_next_identification a" sp dp]
    by (simp add: nic_transmit_def udp_dispatch_calls)
qed

text \<open>
  C27: a datagram to a neighbour whose hardware address is not known yet is delivered by address resolution.
  The sender queues the packet and broadcasts a request; the receiver learns the sender's address and
  answers; the answer, arriving within the time limit, makes the sender send the queued packet; and that
  packet makes the receiver call the bound callback with the payload.  In the end both caches know the
  other side, nothing is left queued and the sender has sent two frames.
\<close>

theorem udp_delivery_via_arp:
  assumes "net_ok a" "net_ok b" "ns_online (nt_status a)" "sp \<noteq> 0" "dp \<noteq> 0" "length data \<le> 1472"
    and "send_hop a (ns_ip (nt_status b)) = ns_ip (nt_status b)" "arp_lookup (ns_ip (nt_status b)) (nt_arp a) = None"
    and "pr_state (nt_ping a) \<noteq> ResolvingArp" "pr_state (nt_ping b) \<noteq> ResolvingArp"
    and "\<not> pu_occupied (nt_pending a)" "\<not> pu_occupied (nt_pending b)"
    and "\<And>frame. frame_ok frame \<Longrightarrow> nic frame" "t2 < t0 + kArpTimeoutSeconds"
  shows "let (ok, a1) = send_udp nic t0 (ns_ip (nt_status b)) sp dp (Some data) (of_nat (length data)) a;
       b1 = dispatch_frame nic t1 (last (nt_sent a1)) b;
       a2 = dispatch_frame nic t2 (last (nt_sent b1)) a1;
       b2 = dispatch_frame nic t3 (last (nt_sent a2)) b1
     in ok \<and> nt_calls b2 = nt_calls b @
          (case receiver_of (nt_bindings b) dp of None \<Rightarrow> [] | Some r \<Rightarrow> [(r, ns_ip (nt_status a), sp, dp, data)]) \<and>
        arp_lookup (ns_ip (nt_status b)) (nt_arp a2) = Some (ns_mac (nt_status b)) \<and>
        arp_lookup (ns_ip (nt_status a)) (nt_arp b2) = Some (ns_mac (nt_status a)) \<and>
        \<not> pu_occupied (nt_pending a2) \<and> length (nt_sent a2) = length (nt_sent a) + 2 \<and> length (nt_sent b2) = length (nt_sent b) + 1"
proof -
  let ?ma = "ns_mac (nt_status a)" and ?mb = "ns_mac (nt_status b)" and ?ia = "ns_ip (nt_status a)" and ?ib = "ns_ip (nt_status b)"
  have st: "length ?ma = 6" "length ?ia = 4" "length ?mb = 6" "length ?ib = 4"
    using assms(1,2) by (simp_all add: net_ok_def status_ok_def)
  define pkt where "pkt = udp_packet ?ia ?ib (nt_next_identification a) sp dp data"
  have pkt: "length pkt = 28 + length data" using st by (simp add: pkt_def length_udp_packet)
  have pkt16: "unat (of_nat (length pkt) :: u16) = length pkt" using pkt assms(6) by (intro unat_length_16) simp
  define request where "request = eth_frame kBroadcastMac ?ma EtherArp (arp_bytes 1 ?ma ?ia (replicate 6 0) ?ib)"
  define reply where "reply = eth_frame ?ma ?mb EtherArp (arp_bytes 2 ?mb ?ib ?ma ?ia)"
  define frame where "frame = eth_frame ?mb ?ma EtherIpv4 pkt"
  have frames: "nic request" "nic reply" "nic frame"
    using st pkt assms(6) unfolding request_def reply_def frame_def
    by (auto intro!: assms(13) simp: frame_ok_def eth_frame_def length_arp_bytes kBroadcastMac_def)
  define a1 where "a1 = a\<lparr>nt_next_identification := nt_next_identification a + 1, nt_pending := \<lparr>pu_occupied = True,
    pu_next_hop = ?ib, pu_packet_length = of_nat (length pkt), pu_deadline = t0 + kArpTimeoutSeconds, pu_packet = pkt\<rparr>,
    nt_sent := nt_sent a @ [request]\<rparr>"
  have "send_udp nic t0 ?ib sp dp (Some data) (of_nat (length data)) a = (True, a1)"
    using send_udp_forms(2) [OF assms(1,3) st(4) assms(4-6), of nic t0] assms(7,8,11) frames(1)
    by (simp add: nic_transmit_def a1_def pkt_def request_def)
  moreover define b1 where "b1 = b\<lparr>nt_arp := learn ?ia ?ma (nt_arp b), nt_sent := nt_sent b @ [reply]\<rparr>"
  have "dispatch_frame nic t1 (last (nt_sent a1)) b = b1"
    using dispatch_arp_request [OF assms(2) st(1,2) assms(10,12)] frames(2)
    by (simp add: a1_def b1_def request_def reply_def nic_transmit_def)
  moreover define a2 where "a2 = release_pending (a1\<lparr>nt_arp := learn ?ib ?mb (nt_arp a)\<rparr>)\<lparr>nt_sent := nt_sent a1 @ [frame]\<rparr>"
  have a1_ok: "net_ok a1"
    using assms(1,6) st pkt16 pkt by (simp add: pkt16 net_ok_def a1_def pending_ok_def request_def frame_ok_def eth_frame_def length_arp_bytes kBroadcastMac_def)
  have "dispatch_frame nic t2 (last (nt_sent b1)) a1 = a2"
    using dispatch_arp_reply [OF a1_ok st(3,4), of t2 nic] assms(9,14) frames(3)
    by (simp add: a1_def b1_def a2_def reply_def frame_def nic_transmit_def release_pending_def)
  moreover have b1_ok: "net_ok b1"
    using assms(2) st learn_same(1) [of "nt_arp b" ?ia] learn_macs_ok [of ?ma "nt_arp b" ?ia] unfolding b1_def reply_def
    by (simp add: net_ok_def frame_ok_def eth_frame_def length_arp_bytes)
  have "dispatch_frame nic t3 (last (nt_sent a2)) b1 = udp_dispatch ?ia sp dp data b1"
    using dispatch_udp_packet [OF b1_ok st(1,2) assms(6), of nic t3 "nt_next_identification a" sp dp]
    by (simp add: a2_def b1_def frame_def pkt_def)
  ultimately show ?thesis
    using assms(1,2) st learn_same(2) [of "nt_arp a" ?ib ?mb] learn_same(2) [of "nt_arp b" ?ia ?ma]
    by (simp add: udp_dispatch_calls a2_def b1_def a1_def release_pending_def net_ok_def)
qed

subsection \<open>Well-formed states\<close>

text \<open>One operation of the service, with the arguments its callers give it.\<close>

datatype 'r net_call =
    Initialize bool mac_address
  | BindUdpPort u16 "'r option"
  | UnbindUdpPort u16
  | SendUdp ipv4_address u16 u16 "u8 list option" u16
  | Poll "u8 list list"
  | StartPing ipv4_address
  | ClearPingResult

fun net_step :: "nic \<Rightarrow> u64 \<Rightarrow> 'r net_call \<Rightarrow> 'r net_state \<Rightarrow> 'r net_state" where
  "net_step nic now (Initialize card_ok mac) s = snd (net_initialize card_ok mac s)"
| "net_step nic now (BindUdpPort p r) s = snd (bind_udp_port p r s)"
| "net_step nic now (UnbindUdpPort p) s = snd (unbind_udp_port p s)"
| "net_step nic now (SendUdp ip sp dp data n) s = snd (send_udp nic now ip sp dp data n s)"
| "net_step nic now (Poll frames) s = snd (net_poll nic now frames s)"
| "net_step nic now (StartPing ip) s = snd (start_ping nic now ip s)"
| "net_step nic now ClearPingResult s = clear_ping_result s"

text \<open>The arguments have the sizes of their C++ types; a received frame may be any bytes at all.\<close>

fun typed_call :: "'r net_call \<Rightarrow> bool" where
  "typed_call (Initialize card_ok mac) = (length mac = 6)"
| "typed_call (SendUdp ip sp dp data n) = (length ip = 4)"
| "typed_call (StartPing ip) = (length ip = 4)"
| "typed_call _ = True"

lemma ipv4_build_sizes:
  assumes "ipv4_build (Some p) capacity source destination protocol i payload n = Some (p', len)"
  shows "length p' = length p" "unat len \<le> unat capacity"
proof -
  let ?r = "(20 :: u32) + ucast n"
  have r: "?r \<le> ucast capacity" "p' = p' \<and> len = ucast ?r"
    using assms by (auto simp: ipv4_build_def Let_def split: if_splits)
  show "length p' = length p"
    using assms by (auto simp: ipv4_build_def Let_def write_be16_def split: if_splits simp del: write_bytes.simps)
  have "unat len = unat ?r mod 2 ^ 16" using r(2) by (simp add: unsigned_ucast_eq take_bit_eq_mod)
  also have "\<dots> \<le> unat ?r" by simp
  also have "\<dots> \<le> unat capacity" using r(1) unat_ucast_wider [of capacity, where 'b = 32] by (simp add: word_le_nat_alt)
  finally show "unat len \<le> unat capacity" .
qed

lemma net_ok_transmit:
  assumes "net_ok s" "frame_ok f"
  shows "net_ok (snd (nic_transmit nic f s))"
  using assms by (simp add: nic_transmit_def net_ok_def)

lemma net_ok_transmit_ethernet:
  assumes "net_ok s" "length destination = 6" "unat n \<le> length payload" "unat n \<le> 1500"
  shows "net_ok (snd (transmit_ethernet nic destination kind payload n s))"
proof -
  have "length (ns_mac (nt_status s)) = 6" using assms(1) by (simp add: net_ok_def status_ok_def)
  then show ?thesis
    using assms transmit_ethernet_form [of destination s n payload nic kind] by (simp add: net_ok_transmit frame_ok_def eth_frame_def)
qed

lemma net_ok_transmit_arp:
  assumes "net_ok s" "length target = 4" "length target_mac = 6"
  shows "net_ok (snd (transmit_arp_request nic target s))" "net_ok (snd (transmit_arp_reply nic target_mac target s))"
proof -
  have "length (ns_mac (nt_status s)) = 6" "length (ns_ip (nt_status s)) = 4"
    using assms(1) by (simp_all add: net_ok_def status_ok_def)
  note st = this assms(2,3)
  show "net_ok (snd (transmit_arp_request nic target s))" "net_ok (snd (transmit_arp_reply nic target_mac target s))"
    unfolding transmit_arp_forms [OF st]
    using st assms(1) by (auto intro!: net_ok_transmit simp: frame_ok_def eth_frame_def length_arp_bytes kBroadcastMac_def)
qed

lemma net_ok_updates:
  assumes "net_ok s"
  shows "net_ok (s\<lparr>nt_next_identification := i\<rparr>)" "net_ok (set_ping p s)" "net_ok (release_pending s)"
    "net_ok (s\<lparr>nt_deadline := d\<rparr>)" "net_ok (s\<lparr>nt_next_sequence := q\<rparr>)" "net_ok (s\<lparr>nt_calls := cs\<rparr>)"
    "net_ok (s\<lparr>nt_ping := (nt_ping s)\<lparr>pr_payload_bytes := m, pr_state := p\<rparr>\<rparr>)"
    "length mac = 6 \<Longrightarrow> length ip = 4 \<Longrightarrow> net_ok (s\<lparr>nt_arp := learn ip mac (nt_arp s)\<rparr>)"
    "binding_inv t \<Longrightarrow> net_ok (s\<lparr>nt_bindings := t\<rparr>)" "pending_ok u \<Longrightarrow> net_ok (s\<lparr>nt_pending := u\<rparr>)"
  using assms by (simp_all add: net_ok_def set_ping_def release_pending_def pending_ok_def learn_same learn_macs_ok)

lemma net_ok_echo_request:
  assumes "net_ok s" "length destination_mac = 6"
  shows "net_ok (snd (transmit_echo_request nic now destination_mac s))"
proof -
  define s1 where "s1 = s\<lparr>nt_next_identification := nt_next_identification s + 1\<rparr>"
  have s1: "net_ok s1" unfolding s1_def using assms(1) by (rule net_ok_updates)
  have build: "net_ok (snd (transmit_ethernet nic destination_mac EtherIpv4 p n s1))"
    if "ipv4_build (Some (replicate 1500 0)) 1500 a b pr i d m = Some (p, n)" for a b pr i d m p n
    using ipv4_build_sizes [OF that] s1 assms(2) by (intro net_ok_transmit_ethernet) simp_all
  have finish: "net_ok (s\<lparr>nt_ping := (nt_ping s)\<lparr>pr_state := p\<rparr>, nt_deadline := d\<rparr>)" if "net_ok s" for s :: "'a net_state" and p d
    using that by (simp add: net_ok_def)
  show ?thesis
    unfolding transmit_echo_request_def Let_def s1_def [symmetric]
    using assms(1) s1 by (fastforce split: option.splits prod.splits bool.splits dest: build intro: finish)
qed

lemma net_ok_handle_arp:
  assumes "net_ok s"
  shows "net_ok (handle_arp nic now frame s)"
proof (cases "parse_and_learn (Some (ev_payload frame)) (of_nat (length (ev_payload frame))) (ns_ip (nt_status s)) (nt_arp s)")
  case (Pair res c)
  show ?thesis
  proof (cases res)
    case None
    then have "c = nt_arp s" using Pair by (auto simp: parse_and_learn_def Let_def split: if_splits)
    then show ?thesis using assms Pair None by (simp add: handle_arp_def)
  next
    case (Some r)
    obtain should_reply mac ip where r: "r = (should_reply, mac, ip)" by (rule prod_cases3)
    have c: "c = learn ip mac (nt_arp s)" "length mac = 6" "length ip = 4"
      using Pair Some r by (auto simp: parse_and_learn_def Let_def split: if_splits)
    define s1 where "s1 = s\<lparr>nt_arp := c\<rparr>"
    have s1: "net_ok s1" unfolding s1_def c(1) using assms c(2,3) by (intro net_ok_updates)
    define s2 where "s2 = (if should_reply then snd (transmit_arp_reply nic mac ip s1) else s1)"
    have s2: "net_ok s2" using s1 c by (simp add: s2_def net_ok_transmit_arp)
    define s3 where "s3 = (if pr_state (nt_ping s2) = ResolvingArp
               then case arp_lookup (nt_next_hop s2) (nt_arp s2) of
                      None \<Rightarrow> s2
                    | Some next_hop_mac \<Rightarrow>
                        (case transmit_echo_request nic now next_hop_mac s2 of
                           (True, s) \<Rightarrow> s | (False, s) \<Rightarrow> set_ping HostUnreachable s)
               else s2)"
    have "net_ok (snd (transmit_echo_request nic now m s2))" if "arp_lookup (nt_next_hop s2) (nt_arp s2) = Some m" for m
      using s2 that by (intro net_ok_echo_request) (auto simp: net_ok_def intro: arp_lookup_length)
    then have s3: "net_ok s3"
      using s2 by (fastforce simp: s3_def intro: net_ok_updates split: option.splits prod.splits bool.splits)
    have "handle_arp nic now frame s = (if pu_occupied (nt_pending s3)
         then if now \<ge> pu_deadline (nt_pending s3) then release_pending s3
              else if ipv4_equals ip (pu_next_hop (nt_pending s3))
              then snd (transmit_ethernet nic mac EtherIpv4 (pu_packet (nt_pending s3))
                          (pu_packet_length (nt_pending s3)) (release_pending s3))
              else s3
         else s3)"
      unfolding handle_arp_def Pair Some r prod.case option.case Let_def s1_def [symmetric] s2_def [symmetric] s3_def [symmetric] ..
    moreover have "net_ok (snd (transmit_ethernet nic mac EtherIpv4 (pu_packet (nt_pending s3))
        (pu_packet_length (nt_pending s3)) (release_pending s3)))" if "pu_occupied (nt_pending s3)"
      using s3 c that by (intro net_ok_transmit_ethernet net_ok_updates) (simp_all add: net_ok_def pending_ok_def)
    ultimately show ?thesis using s3 net_ok_updates(3) [OF s3] by simp
  qed
qed

lemma net_ok_dispatch:
  assumes "net_ok s"
  shows "net_ok (dispatch_frame nic now bytes s)"
proof -
  have "net_ok (handle_ipv4 frame s)" for frame
    using assms unfolding handle_ipv4_def udp_dispatch_calls by (auto intro!: net_ok_updates split: option.splits)
  then show ?thesis
    using assms net_ok_handle_arp [OF assms] unfolding dispatch_frame_def by (auto split: option.splits)
qed

lemma net_ok_poll:
  assumes "net_ok s"
  shows "net_ok (snd (net_poll nic now frames s))"
proof -
  have "net_ok (fold (dispatch_frame nic now) fs s)" for fs
    using assms by (induction fs arbitrary: s) (simp_all add: net_ok_dispatch)
  moreover have "net_ok (advance_timeout now s)" if "net_ok s" for s :: "'a net_state"
    using that net_ok_updates(2,3) unfolding advance_timeout_def by (auto simp: Let_def)
  ultimately show ?thesis using assms by (simp add: net_poll_def)
qed

lemma net_ok_send_udp:
  assumes "net_ok s" "length destination = 4"
  shows "net_ok (snd (send_udp nic now destination sp dp payload n s))"
proof -
  define hop where "hop = next_hop destination (ns_ip (nt_status s)) (ns_netmask (nt_status s)) (ns_gateway (nt_status s))"
  have hop: "length hop = 4" using assms by (auto simp: hop_def net_ok_def intro: length_next_hop)
  have mac: "length m = 6" if "arp_lookup hop (nt_arp s) = Some m" for m
    using assms(1) that by (auto simp: net_ok_def intro: arp_lookup_length)
  define s1 where "s1 = (if arp_lookup hop (nt_arp s) = None \<and> pu_occupied (nt_pending s) \<and> now \<ge> pu_deadline (nt_pending s)
    then release_pending s else s)"
  have s1: "net_ok s1" using assms(1) net_ok_updates(3) [OF assms(1)] by (simp add: s1_def)
  define s2 where "s2 = s1\<lparr>nt_next_identification := nt_next_identification s1 + 1\<rparr>"
  have s2: "net_ok s2" unfolding s2_def using s1 by (rule net_ok_updates)
  have cached: "net_ok (snd (transmit_ethernet nic m EtherIpv4 p k s2))"
    if "ipv4_build (Some (replicate 1500 0)) 1500 a b pr i d l = Some (p, k)" "arp_lookup hop (nt_arp s) = Some m" for a b pr i d l p k m
    using ipv4_build_sizes [OF that(1)] s2 mac [OF that(2)] by (intro net_ok_transmit_ethernet) simp_all
  have queued: "net_ok (snd (transmit_arp_request nic hop (s2\<lparr>nt_pending := \<lparr>pu_occupied = True, pu_next_hop = hop,
      pu_packet_length = k, pu_deadline = now + kArpTimeoutSeconds, pu_packet = take (unat k) p\<rparr>\<rparr>)))"
    if "ipv4_build (Some (replicate 1500 0)) 1500 a b pr i d l = Some (p, k)" for a b pr i d l p k
    using ipv4_build_sizes [OF that] s2 hop
    by (intro net_ok_transmit_arp(1) [where target_mac = "replicate 6 0"] net_ok_updates) (simp_all add: pending_ok_def)
  show ?thesis
    unfolding send_udp_def hop_def [symmetric] Let_def s1_def [symmetric] s2_def [symmetric]
    using assms(1) s1 s2
    by (fastforce split: option.splits prod.splits bool.splits if_splits dest: cached queued intro: net_ok_updates)
qed

lemma net_ok_start_ping:
  assumes "net_ok s" "length destination = 4"
  shows "net_ok (snd (start_ping nic now destination s))"
proof -
  define hop where "hop = next_hop destination (ns_ip (nt_status s)) (ns_netmask (nt_status s)) (ns_gateway (nt_status s))"
  have hop: "length hop = 4" using assms by (auto simp: hop_def net_ok_def intro: length_next_hop)
  define s1 where "s1 = s\<lparr>nt_ping := (nt_ping s)\<lparr>pr_address := destination, pr_sequence := nt_next_sequence s, pr_payload_bytes := 0\<rparr>,
                     nt_next_sequence := nt_next_sequence s + 1, nt_next_hop := hop\<rparr>"
  have s1: "net_ok s1" using assms hop by (simp add: s1_def net_ok_def)
  have "net_ok (snd (transmit_echo_request nic now m s1))" if "arp_lookup hop (nt_arp s1) = Some m" for m
    using s1 that by (intro net_ok_echo_request) (auto simp: net_ok_def intro: arp_lookup_length)
  moreover have "net_ok (snd (transmit_arp_request nic hop ((set_ping ResolvingArp s1)\<lparr>nt_deadline := now + kArpTimeoutSeconds\<rparr>)))"
    using s1 hop by (intro net_ok_transmit_arp(1) [where target_mac = "replicate 6 0"] net_ok_updates) simp_all
  ultimately show ?thesis
    using assms(1) unfolding start_ping_def hop_def [symmetric] Let_def s1_def [symmetric]
    by (fastforce split: option.splits prod.splits bool.splits if_splits intro: net_ok_updates)
qed

lemma arp_reset_macs: "arp_macs_ok arp_reset"
  by (simp add: arp_macs_ok_def arp_reset_def list_all_iff)

lemma net_ok_initialize:
  assumes "length mac = 6" "list_all frame_ok (nt_sent s)"
  shows "net_ok (snd (net_initialize card_ok mac s))"
  using assms by (simp add: net_initialize_def Let_def net_ok_def status_ok_def arp_reset_inv arp_reset_macs bindings_empty_inv
      idle_ping_def pending_ok_def kLocalIp_def kNetmask_def kGateway_def)

lemma net_ok_step:
  assumes "net_ok s" "typed_call call"
  shows "net_ok (net_step nic now call s)"
proof (cases call)
  case (BindUdpPort p r)
  then show ?thesis using assms udp_ports.bind_inv [of "nt_bindings s" p r]
    by (auto simp: bind_udp_port_def net_ok_def split: prod.splits)
next
  case (UnbindUdpPort p)
  then show ?thesis using assms udp_ports.unbind_inv [of "nt_bindings s" p]
    by (auto simp: unbind_udp_port_def net_ok_def split: prod.splits)
next
  case ClearPingResult
  then show ?thesis using assms by (simp add: clear_ping_result_def net_ok_def idle_ping_def)
next
  case (Initialize ok m)
  then show ?thesis using assms net_ok_initialize [of m s ok] by (simp add: net_ok_def)
qed (use assms in \<open>simp_all add: net_ok_send_udp net_ok_poll net_ok_start_ping\<close>)

text \<open>
  C28: every state the network service can reach is well formed: the addresses have their sizes, the ARP
  cache and the binding table are consistent maps, a queued packet has its recorded length and at most
  1500 bytes, and every frame handed to the card has between 14 and 1514 bytes.  The first initialisation
  establishes this in any state that has sent nothing, and every operation keeps it, whatever the card
  accepts and whatever bytes are received.
\<close>

theorem net_states_well_formed:
  assumes "length mac = 6" "nt_sent s = []" "list_all (\<lambda>(nic, now, call). typed_call call) calls"
  shows "net_ok (fold (\<lambda>(nic, now, call). net_step nic now call) calls (snd (net_initialize card_ok mac s)))"
proof -
  have "net_ok (fold (\<lambda>(nic, now, call). net_step nic now call) calls s)" if "net_ok s" for s :: "'a net_state"
    using that assms(3) by (induction calls arbitrary: s) (auto simp: net_ok_step)
  then show ?thesis using net_ok_initialize [of mac s] assms(1,2) by simp
qed

subsection \<open>Two machines\<close>

text \<open>Neighbours 10.0.2.15 and 10.0.2.16, of which the second listens on port 53.\<close>

definition host :: "u8 \<Rightarrow> arp_cache \<Rightarrow> nat net_state" where
  "host n c = \<lparr>nt_status = \<lparr>ns_online = True, ns_mac = [2, 0, 0, 0, 0, n], ns_ip = [10, 0, 2, n], ns_netmask = kNetmask,
       ns_gateway = kGateway\<rparr>, nt_ping = idle_ping, nt_next_hop = replicate 4 0, nt_deadline = 0, nt_next_sequence = 1,
     nt_next_identification = 1, nt_bindings = snd (bind_port 53 (Some 7) bindings_empty),
     nt_pending = \<lparr>pu_occupied = False, pu_next_hop = [], pu_packet_length = 0, pu_deadline = 0, pu_packet = []\<rparr>,
     nt_arp = c, nt_sent = [], nt_calls = []\<rparr>"

lemma host_ok: "arp_inv c \<Longrightarrow> arp_macs_ok c \<Longrightarrow> net_ok (host n c)"
  using udp_ports.bind_inv [OF bindings_empty_inv, of 53 "Some (7 :: nat)"]
  by (simp add: host_def net_ok_def status_ok_def pending_ok_def idle_ping_def kNetmask_def kGateway_def)

lemma neighbour_cache:
  "arp_inv arp_reset" "arp_macs_ok arp_reset" "arp_inv (learn [10, 0, 2, 16] [2, 0, 0, 0, 0, 16] arp_reset)"
  "arp_macs_ok (learn [10, 0, 2, 16] [2, 0, 0, 0, 0, 16] arp_reset)"
  using learn_same(1) [OF arp_reset_inv, of "[10, 0, 2, 16]"] by (simp_all add: arp_reset_inv arp_reset_macs learn_macs_ok)

theorem net_states_well_formed_witness:
  "net_ok (fold (\<lambda>(nic, now, call). net_step nic now call) [(\<lambda>_. True, 5, StartPing [10, 0, 2, 2]), (\<lambda>_. True, 6, Poll [[1, 2, 3]])]
     (snd (net_initialize True [2, 0, 0, 0, 0, 15] (host 15 arp_reset))))"
  using net_states_well_formed [of "[2, 0, 0, 0, 0, 15]" "host 15 arp_reset"
      "[(\<lambda>_. True, 5, StartPing [10, 0, 2, 2]), (\<lambda>_. True, 6, Poll [[1, 2, 3]])]" True]
  by (simp add: host_def)

theorem udp_delivery_witness:
  "\<exists>a' frame. send_udp (\<lambda>_. True) 5 [10, 0, 2, 16] 4000 53 (Some [1, 2, 3]) 3
       (host 15 (learn [10, 0, 2, 16] [2, 0, 0, 0, 0, 16] arp_reset)) = (True, a') \<and> nt_sent a' = [frame] \<and>
     nt_calls (dispatch_frame (\<lambda>_. True) 6 frame (host 16 arp_reset)) = [(7, [10, 0, 2, 15], 4000, 53, [1, 2, 3])]"
proof -
  let ?a = "host 15 (learn [10, 0, 2, 16] [2, 0, 0, 0, 0, 16] arp_reset)"
  have hop: "arp_lookup (send_hop ?a [10, 0, 2, 16]) (nt_arp ?a) = Some [2, 0, 0, 0, 0, 16]" by code_simp
  have port: "receiver_of (nt_bindings (host 16 arp_reset)) 53 = Some 7" by code_simp
  show ?thesis
    using udp_delivery [OF host_ok [OF neighbour_cache(3,4)] host_ok [OF neighbour_cache(1,2)], where sp = 4000 and dp = 53
        and data = "[1, 2, 3]" and nic = "\<lambda>_. True" and now = 5 and nic' = "\<lambda>_. True" and now' = 6, of 15 16] hop port
    by (auto simp: host_def split: prod.splits)
qed

theorem udp_delivery_via_arp_witness:
  "\<exists>a1. send_udp (\<lambda>_. True) 5 [10, 0, 2, 16] 4000 53 (Some [1, 2, 3]) 3 (host 15 arp_reset) = (True, a1) \<and>
     (let b1 = dispatch_frame (\<lambda>_. True) 5 (last (nt_sent a1)) (host 16 arp_reset);
          a2 = dispatch_frame (\<lambda>_. True) 5 (last (nt_sent b1)) a1;
          b2 = dispatch_frame (\<lambda>_. True) 6 (last (nt_sent a2)) b1
      in nt_calls b2 = [(7, [10, 0, 2, 15], 4000, 53, [1, 2, 3])])"
proof -
  have hop: "send_hop (host 15 arp_reset) [10, 0, 2, 16] = [10, 0, 2, 16]" "arp_lookup [10, 0, 2, 16] arp_reset = None" by code_simp+
  have port: "receiver_of (nt_bindings (host 16 arp_reset)) 53 = Some 7" by code_simp
  show ?thesis
    using udp_delivery_via_arp [OF host_ok [OF neighbour_cache(1,2)] host_ok [OF neighbour_cache(1,2)], where sp = 4000 and dp = 53
        and data = "[1, 2, 3]" and nic = "\<lambda>_. True" and ?t0.0 = 5 and ?t1.0 = 5 and ?t2.0 = 5 and ?t3.0 = 6, of 15 16] hop port
    by (auto simp: host_def idle_ping_def kArpTimeoutSeconds_def Let_def split: prod.splits)
qed

end
