(* ===== verification/Dns.thy ===== *)
theory Dns
  imports Network
begin

text \<open>
  The DNS resolver (\<^verbatim>\<open>kernel/net/dns.cpp\<close>): host names and wire names, the decoder with compression
  pointers, queries, the response parser with its alias chains, and the resolver that runs on top of the
  network service.  A \<open>Name\<close> is the list of the \<open>length\<close> bytes its \<open>wire\<close> array holds; a C string is the
  list of its characters before the terminator; a message is the list of its bytes, and \<open>None\<close> is the null
  pointer.  Sizes and cursors are natural numbers, reduced where the code stores them in 16 bits.
\<close>

unbundle bit_operations_syntax

datatype dns_status =
    DnsIdle | DnsPending | DnsSuccess | DnsInvalidName | DnsNotFound | DnsServerFailure | DnsMalformedResponse
  | DnsTruncatedResponse | DnsCnameLoopOrLimit | DnsTimedOut | DnsNetworkUnavailable | DnsBusy

datatype parse_disposition = DispIgnored | DispComplete | DispFollowup

type_synonym dns_name = "u8 list"

record parsed_response =
  rs_disposition :: parse_disposition
  rs_status :: dns_status
  rs_followup_name :: dns_name
  rs_addresses :: "ipv4_address list"
  rs_visited_names :: "dns_name list"
  rs_cname_hops :: nat

subsection \<open>Names\<close>

definition ascii_alnum :: "u8 \<Rightarrow> bool" where
  "ascii_alnum v \<longleftrightarrow> (65 \<le> v \<and> v \<le> 90) \<or> (97 \<le> v \<and> v \<le> 122) \<or> (48 \<le> v \<and> v \<le> 57)"

definition ascii_lower :: "u8 \<Rightarrow> u8" where
  "ascii_lower v = (if 65 \<le> v \<and> v \<le> 90 then v + 32 else v)"

text \<open>The label loop, on the bytes from \<open>offset\<close> on.\<close>

function wire_labels :: "u8 list \<Rightarrow> bool" where
  "wire_labels [] = False"
| "wire_labels (label_length # rest) =
     (if label_length = 0 then rest = []
      else if label_length > 63 \<or> unat label_length > length rest then False
      else wire_labels (drop (unat label_length) rest))"
  by pat_completeness auto
termination by (relation "measure length") auto

definition valid_wire_name :: "dns_name \<Rightarrow> bool" where
  "valid_wire_name name = (if length name < 1 \<or> length name > 255 then False else wire_labels name)"

text \<open>The inner loop of \<open>encode_hostname\<close>: the label and the input from the dot or the end on.\<close>

fun encode_label :: "u8 list \<Rightarrow> u8 list \<Rightarrow> nat \<Rightarrow> (u8 list \<times> u8 list) option" where
  "encode_label [] label len = Some (label, [])"
| "encode_label (c # cs) label len =
     (if c = 46 then Some (label, c # cs)
      else if (\<not> ascii_alnum c \<and> c \<noteq> 45) \<or> (length label = 0 \<and> c = 45) \<or> length label = 63 \<or> len \<ge> 255 then None
      else encode_label cs (label @ [c]) (len + 1))"

lemma encode_label_rest: "encode_label cs label len = Some (l, rest) \<Longrightarrow> length rest + length l = length cs + length label"
  by (induction cs label len rule: encode_label.induct) (auto split: if_splits)

lemma encode_label_shorter: "encode_label cs [] len = Some (l, rest) \<Longrightarrow> l \<noteq> [] \<Longrightarrow> length rest < length cs"
  using encode_label_rest [of cs "[]" len l rest] by (cases l) auto

function encode_labels :: "u8 list \<Rightarrow> u8 list \<Rightarrow> u8 list option" where
  "encode_labels input encoded =
     (if input = [] then Some encoded
      else if length encoded \<ge> 255 then None
      else case encode_label input [] (length encoded + 1) of
        None \<Rightarrow> None
      | Some (label, rest) \<Rightarrow>
          if length label = 0 \<or> last label = 45 then None
          else let encoded = encoded @ [of_nat (length label)] @ label
          in if rest \<noteq> [] \<and> rest ! 0 = 46
             then let rest = tl rest
             in if rest \<noteq> [] \<and> rest ! 0 = 46 then None else encode_labels rest encoded
             else encode_labels rest encoded)"
  by pat_completeness auto
termination
  by (relation "measure (length \<circ> fst)") (auto dest!: encode_label_shorter)

declare encode_labels.simps [simp del]

definition encode_hostname :: "u8 list option \<Rightarrow> dns_name option" where
  "encode_hostname hostname =
     (case hostname of None \<Rightarrow> None
      | Some h \<Rightarrow>
          if h = [] then None
          else case encode_labels h [] of
            None \<Rightarrow> None
          | Some encoded \<Rightarrow> if length encoded \<ge> 255 then None else Some (encoded @ [0]))"

definition names_equal :: "dns_name \<Rightarrow> dns_name \<Rightarrow> bool" where
  "names_equal left right =
     (if \<not> valid_wire_name left \<or> \<not> valid_wire_name right \<or> length left \<noteq> length right then False
      else list_all (\<lambda>i. ascii_lower (left ! i) = ascii_lower (right ! i)) [0..<length left])"

text \<open>
  The loop of \<open>decode_name\<close>.  Its state is the position, the cursor to return once a pointer was followed
  (\<open>None\<close> while \<open>jumped\<close> is false), the targets of the pointers followed so far, and the name.
\<close>

function decode_loop :: "u8 list \<Rightarrow> nat \<Rightarrow> nat option \<Rightarrow> nat list \<Rightarrow> dns_name \<Rightarrow> (nat \<times> dns_name) option" where
  "decode_loop message position next_cursor visited decoded =
     (if \<not> position < length message then None
      else let label_length = message ! position
      in if label_length AND 0xC0 = 0xC0
      then if position + 1 \<ge> length message \<or> length visited = 16 then None
           else let target = unat (push_bit 8 (ucast (label_length AND 0x3F)) OR ucast (message ! (position + 1)) :: u16)
           in if target \<ge> length message \<or> target \<in> set visited then None
           else decode_loop message target
                  (case next_cursor of None \<Rightarrow> Some (position + 2) | Some c \<Rightarrow> Some c) (visited @ [target]) decoded
      else if label_length AND 0xC0 \<noteq> 0 then None
      else let position = position + 1
      in if label_length = 0
      then if length decoded \<ge> 255 then None
           else Some (case next_cursor of None \<Rightarrow> position | Some c \<Rightarrow> c, decoded @ [0])
      else if unat label_length > length message - position \<or> length decoded + unat label_length + 2 > 255 then None
      else decode_loop message (position + unat label_length) next_cursor visited
             (decoded @ [label_length] @ take (unat label_length) (drop position message)))"
  by pat_completeness auto
termination
proof (relation "(\<lambda>(m, p, n, v, d). card ({..<length m} - set v)) <*mlex*> measure (\<lambda>(m, p, n, v, d). length m - p)",
    goal_cases)
  case 1
  then show ?case by (simp add: wf_mlex)
next
  case (2 message position next_cursor visited decoded label_length target)
  then have "target \<in> {..<length message} - set visited" by auto
  then have "card ({..<length message} - set (visited @ [target])) < card ({..<length message} - set visited)"
    by (intro psubset_card_mono) auto
  then show ?case by (intro mlex_less) simp
next
  case (3 message position next_cursor visited decoded label_length p)
  then show ?case by (intro mlex_leq) auto
qed

declare decode_loop.simps [simp del]

definition decode_name :: "u8 list option \<Rightarrow> nat \<Rightarrow> (nat \<times> dns_name) option" where
  "decode_name message cursor =
     (case message of None \<Rightarrow> None
      | Some m \<Rightarrow> if cursor \<ge> length m then None else decode_loop m cursor None [] [])"

subsection \<open>Messages\<close>

text \<open>The query is written from the first byte of the output on without gaps.\<close>

definition query_bytes :: "u16 \<Rightarrow> dns_name \<Rightarrow> u8 list" where
  "query_bytes transaction_id question =
     [ucast (drop_bit 8 transaction_id), ucast transaction_id, 0x01, 0, 0, 1] @ replicate 6 0 @ question @ [0, 1, 0, 1]"

definition build_query :: "u16 \<Rightarrow> dns_name \<Rightarrow> u8 list option \<Rightarrow> nat \<Rightarrow> (u8 list \<times> nat) option" where
  "build_query transaction_id question output capacity =
     (case output of None \<Rightarrow> None
      | Some out \<Rightarrow>
          if \<not> valid_wire_name question \<or> capacity < length question + 16 then None
          else Some (write_bytes 0 (query_bytes transaction_id question) out, 12 + length question + 4))"

record response_record =
  rr_owner_offset :: nat
  rr_rdata_offset :: nat
  rr_rdata_length :: nat
  rr_type :: u16
  rr_klass :: u16

definition record_owner :: "u8 list \<Rightarrow> response_record \<Rightarrow> dns_name option" where
  "record_owner message r = map_option snd (decode_name (Some message) (rr_owner_offset r))"

definition cname_target :: "u8 list \<Rightarrow> response_record \<Rightarrow> dns_name option" where
  "cname_target message r =
     (case decode_name (Some message) (rr_rdata_offset r) of
        None \<Rightarrow> None
      | Some (cursor, name) \<Rightarrow> if cursor = rr_rdata_offset r + rr_rdata_length r then Some name else None)"

definition read_record :: "u8 list \<Rightarrow> nat \<Rightarrow> (nat \<times> response_record) option" where
  "read_record message cursor =
     (if cursor > length message \<or> cursor > 512 then None
      else let owner_offset = cursor mod 65536
      in case decode_name (Some message) cursor of
        None \<Rightarrow> None
      | Some (cursor, owner) \<Rightarrow>
          if cursor > length message \<or> length message - cursor < 10 then None
          else let r = \<lparr>rr_owner_offset = owner_offset, rr_rdata_offset = 0, rr_rdata_length = unat (read_be16 message (cursor + 8)),
                        rr_type = read_be16 message cursor, rr_klass = read_be16 message (cursor + 2)\<rparr>;
                   cursor = cursor + 10
          in if rr_rdata_length r > length message - cursor then None
          else let r = r\<lparr>rr_rdata_offset := cursor mod 65536\<rparr>
          in if rr_type r = 1 \<and> rr_rdata_length r \<noteq> 4 then None
          else if rr_type r = 5 \<and> cname_target message r = None then None
          else Some (cursor + rr_rdata_length r, r))"

fun read_records :: "u8 list \<Rightarrow> nat \<Rightarrow> nat \<Rightarrow> (nat \<times> response_record list) option" where
  "read_records message 0 cursor = Some (cursor, [])"
| "read_records message (Suc n) cursor =
     (case read_record message cursor of None \<Rightarrow> None
      | Some (cursor, r) \<Rightarrow>
          (case read_records message n cursor of None \<Rightarrow> None | Some (cursor, rs) \<Rightarrow> Some (cursor, r # rs)))"

text \<open>
  The check for ambiguous answers: an alias may share its owner only with equal aliases.  The result says
  that no pair makes the code return.
\<close>

definition alias_pair_ok :: "u8 list \<Rightarrow> response_record list \<Rightarrow> dns_name \<Rightarrow> dns_name \<Rightarrow> nat \<Rightarrow> nat \<Rightarrow> bool" where
  "alias_pair_ok message answers alias_owner alias_target i j =
     (if j = i \<or> rr_klass (answers ! j) \<noteq> 1 \<or> (rr_type (answers ! j) \<noteq> 1 \<and> rr_type (answers ! j) \<noteq> 5) then True
      else case record_owner message (answers ! j) of
        None \<Rightarrow> False
      | Some other_owner \<Rightarrow>
          if \<not> names_equal alias_owner other_owner then True
          else if rr_type (answers ! j) = 1 then False
          else case cname_target message (answers ! j) of
            None \<Rightarrow> False
          | Some other_target \<Rightarrow> names_equal alias_target other_target)"

definition unambiguous :: "u8 list \<Rightarrow> response_record list \<Rightarrow> bool" where
  "unambiguous message answers =
     list_all (\<lambda>i. let alias = answers ! i
       in if rr_type alias \<noteq> 5 \<or> rr_klass alias \<noteq> 1 then True
       else case record_owner message alias of None \<Rightarrow> False
       | Some alias_owner \<Rightarrow>
       (case cname_target message alias of None \<Rightarrow> False
       | Some alias_target \<Rightarrow> list_all (alias_pair_ok message answers alias_owner alias_target i) [0..<length answers]))
       [0..<length answers]"

text \<open>The first alias of the terminal name: the outer option is the early return on a name that does not decode.\<close>

fun find_alias :: "u8 list \<Rightarrow> dns_name \<Rightarrow> response_record list \<Rightarrow> response_record option option" where
  "find_alias message terminal [] = Some None"
| "find_alias message terminal (r # rs) =
     (if rr_type r \<noteq> 5 \<or> rr_klass r \<noteq> 1 then find_alias message terminal rs
      else case record_owner message r of None \<Rightarrow> None
      | Some owner \<Rightarrow> if names_equal owner terminal then Some (Some r) else find_alias message terminal rs)"

text \<open>
  The alias loop.  It ends with the error status to return and the names visited so far, or with the
  terminal name and the visited names.  The array holds five names and the caller passes at most five.
\<close>

function follow_aliases ::
  "u8 list \<Rightarrow> response_record list \<Rightarrow> dns_name \<Rightarrow> dns_name list \<Rightarrow> (dns_status \<times> dns_name list) + (dns_name \<times> dns_name list)" where
  "follow_aliases message answers terminal visited =
     (case find_alias message terminal answers of
        None \<Rightarrow> Inl (DnsMalformedResponse, visited)
      | Some None \<Rightarrow> Inr (terminal, visited)
      | Some (Some link) \<Rightarrow>
          (case cname_target message link of
             None \<Rightarrow> Inl (DnsMalformedResponse, visited)
           | Some target \<Rightarrow>
               if list_ex (\<lambda>v. names_equal v target) visited then Inl (DnsCnameLoopOrLimit, visited)
               else if length visited \<ge> 5 then Inl (DnsCnameLoopOrLimit, visited)
               else follow_aliases message answers target (visited @ [target])))"
  by pat_completeness auto
termination by (relation "measure (\<lambda>(m, a, t, v). 5 - length v)") auto

declare follow_aliases.simps [simp del]

text \<open>The addresses of the terminal name; the flag is false when a record makes the code return.\<close>

fun collect_addresses :: "u8 list \<Rightarrow> dns_name \<Rightarrow> response_record list \<Rightarrow> ipv4_address list \<Rightarrow> bool \<times> ipv4_address list" where
  "collect_addresses message terminal [] addresses = (True, addresses)"
| "collect_addresses message terminal (r # rs) addresses =
     (if rr_type r \<noteq> 1 \<or> rr_klass r \<noteq> 1 then collect_addresses message terminal rs addresses
      else case record_owner message r of None \<Rightarrow> (False, addresses)
      | Some owner \<Rightarrow>
          if \<not> names_equal owner terminal then collect_addresses message terminal rs addresses
          else let address = map (\<lambda>i. message ! (rr_rdata_offset r + i)) [0..<4];
                   duplicate = list_ex (\<lambda>a. list_all (\<lambda>i. a ! i = address ! i) [0..<4]) addresses
          in collect_addresses message terminal rs
               (if \<not> duplicate \<and> length addresses < 8 then addresses @ [address] else addresses))"

text \<open>\<open>malformed visited\<close> is \<open>result\<close> as it stands on most of the early returns.\<close>

definition malformed :: "dns_name list \<Rightarrow> parsed_response" where
  "malformed visited = \<lparr>rs_disposition = DispComplete, rs_status = DnsMalformedResponse, rs_followup_name = [], rs_addresses = [],
     rs_visited_names = visited, rs_cname_hops = length visited - 1\<rparr>"

text \<open>The part after the sections are read: the alias chain and the addresses.\<close>

definition resolve_answers :: "u8 list \<Rightarrow> response_record list \<Rightarrow> dns_name \<Rightarrow> dns_name list \<Rightarrow> parsed_response" where
  "resolve_answers message answers expected_question visited =
     (if \<not> unambiguous message answers then malformed visited
      else case follow_aliases message answers expected_question visited of
        Inl (status, visited) \<Rightarrow> (malformed visited)\<lparr>rs_status := status\<rparr>
      | Inr (terminal, visited') \<Rightarrow>
          let followed_alias = (length visited' \<noteq> length visited);
              result = malformed visited'
          in case collect_addresses message terminal answers [] of
            (False, addresses) \<Rightarrow> result\<lparr>rs_addresses := addresses\<rparr>
          | (True, addresses) \<Rightarrow>
              if addresses \<noteq> [] then result\<lparr>rs_addresses := addresses, rs_status := DnsSuccess\<rparr>
              else if followed_alias
              then result\<lparr>rs_disposition := DispFollowup, rs_status := DnsPending, rs_followup_name := terminal\<rparr>
              else result\<lparr>rs_status := DnsNotFound\<rparr>)"

text \<open>The sections of the message: the answers, or \<open>None\<close> when the message is malformed.\<close>

definition read_sections :: "u8 list \<Rightarrow> dns_name \<Rightarrow> response_record list option" where
  "read_sections message expected_question =
     (case decode_name (Some message) 12 of
        None \<Rightarrow> None
      | Some (cursor, question) \<Rightarrow>
          if cursor > length message \<or> length message - cursor < 4 \<or> read_be16 message cursor \<noteq> 1 \<or>
             read_be16 message (cursor + 2) \<noteq> 1 \<or> \<not> names_equal question expected_question then None
          else let cursor = cursor + 4;
                   answer_count = read_be16 message 6;
                   authority_count = read_be16 message 8;
                   additional_count = read_be16 message 10
          in if answer_count > 48 then None
          else case read_records message (unat answer_count) cursor of
            None \<Rightarrow> None
          | Some (cursor, answers) \<Rightarrow>
          (case read_records message (unat authority_count) cursor of
            None \<Rightarrow> None
          | Some (cursor, _) \<Rightarrow>
          (case read_records message (unat additional_count) cursor of
            None \<Rightarrow> None
          | Some (cursor, _) \<Rightarrow> if cursor \<noteq> length message then None else Some answers)))"

definition parse_response ::
  "u8 list option \<Rightarrow> u16 \<Rightarrow> dns_name \<Rightarrow> dns_name list option \<Rightarrow> nat \<Rightarrow> parsed_response" where
  "parse_response message expected_id expected_question visited_names visited_count =
     (case message of None \<Rightarrow> malformed []
      | Some m \<Rightarrow>
      if length m < 2 then malformed []
      else if read_be16 m 0 \<noteq> expected_id
      then (malformed [])\<lparr>rs_disposition := DispIgnored, rs_status := DnsIdle\<rparr>
      else if length m < 12 \<or> length m > 512 \<or> \<not> valid_wire_name expected_question \<or> visited_count > 5 \<or>
              (visited_count \<noteq> 0 \<and> visited_names = None) then malformed []
      else let given = (case visited_names of None \<Rightarrow> [] | Some ns \<Rightarrow> take visited_count ns)
      in if visited_count \<noteq> 0 \<and> \<not> list_all valid_wire_name given then malformed []
      else let visited = (if visited_count = 0 then [expected_question] else given)
      in if visited_count \<noteq> 0 \<and> \<not> names_equal (visited ! (visited_count - 1)) expected_question
      then (malformed visited)\<lparr>rs_cname_hops := 0\<rparr>
      else let flags = read_be16 m 2
      in if flags AND 0x8000 = 0 \<or> flags AND 0x7800 \<noteq> 0 then malformed visited
      else if flags AND 0x0200 \<noteq> 0 then (malformed visited)\<lparr>rs_status := DnsTruncatedResponse\<rparr>
      else if read_be16 m 4 \<noteq> 1 then malformed visited
      else case read_sections m expected_question of
        None \<Rightarrow> malformed visited
      | Some answers \<Rightarrow>
          let rcode = flags AND 0x000F
          in if rcode \<noteq> 0
             then (malformed visited)\<lparr>rs_status := (if rcode = 3 then DnsNotFound else DnsServerFailure)\<rparr>
             else resolve_answers m answers expected_question visited)"

subsection \<open>The resolver\<close>

record resolver =
  rv_server :: ipv4_address
  rv_status :: dns_status
  rv_bound :: bool
  rv_awaiting :: bool
  rv_queued_followup :: bool
  rv_question :: dns_name
  rv_visited_names :: "dns_name list"
  rv_addresses :: "ipv4_address list"
  rv_next_id :: u16
  rv_active_id :: u16
  rv_attempts :: u8
  rv_sent_at :: u64
  rv_query_packet :: "u8 list"

definition kClientPort :: u16 where [kernel_const]: "kClientPort = 53000"
definition kServerPort :: u16 where [kernel_const]: "kServerPort = 53"

text \<open>The resolver before its first use, as its member initialisers leave it.\<close>

definition g_resolver :: resolver where
  "g_resolver = \<lparr>rv_server = [10, 0, 2, 3], rv_status = DnsIdle, rv_bound = False, rv_awaiting = False,
     rv_queued_followup = False, rv_question = [], rv_visited_names = [], rv_addresses = [], rv_next_id = 0, rv_active_id = 0,
     rv_attempts = 0, rv_sent_at = 0, rv_query_packet = replicate 512 0\<rparr>"

definition fail_unavailable :: "resolver \<Rightarrow> resolver" where
  "fail_unavailable r = r\<lparr>rv_status := DnsNetworkUnavailable, rv_awaiting := False, rv_queued_followup := False\<rparr>"

text \<open>
  The resolver's callback context is null; the receiver value \<open>on_udp_receiver\<close> names the callback in the
  binding table.  The clock is read as the tick counter, and as seconds by the network service.
\<close>

record clock =
  ck_ticks :: u64
  ck_hz :: u32

definition uptime_seconds :: "clock \<Rightarrow> u64" where
  "uptime_seconds c = ck_ticks c div ucast (ck_hz c)"

definition send_attempt :: "nic \<Rightarrow> clock \<Rightarrow> resolver \<times> 'r net_state \<Rightarrow> resolver \<times> 'r net_state" where
  "send_attempt nic c = (\<lambda>(r, net).
     if \<not> ns_online (nt_status net) then (fail_unavailable r, net)
     else let ident = rv_next_id r + 1
     in case build_query ident (rv_question r) (Some (rv_query_packet r)) 512 of
       None \<Rightarrow> (fail_unavailable r, net)
     | Some (packet, packet_length) \<Rightarrow>
     let r = r\<lparr>rv_query_packet := packet\<rparr>
     in case send_udp nic (uptime_seconds c) (rv_server r) kClientPort kServerPort (Some packet) (of_nat packet_length) net of
       (False, net) \<Rightarrow> (fail_unavailable r, net)
     | (True, net) \<Rightarrow>
         (r\<lparr>rv_next_id := ident, rv_active_id := ident, rv_attempts := rv_attempts r + 1, rv_sent_at := ck_ticks c,
            rv_awaiting := True\<rparr>, net))"

definition on_udp :: "ipv4_address \<Rightarrow> u16 \<Rightarrow> u16 \<Rightarrow> u8 list \<Rightarrow> resolver \<Rightarrow> resolver" where
  "on_udp source source_port destination_port payload r =
     (if rv_status r \<noteq> DnsPending \<or> \<not> rv_awaiting r \<or> \<not> ipv4_equals source (rv_server r) \<or>
         source_port \<noteq> kServerPort \<or> destination_port \<noteq> kClientPort \<or> length payload < 2 then r
      else let parsed = parse_response (Some payload) (rv_active_id r) (rv_question r) (Some (rv_visited_names r))
                          (length (rv_visited_names r))
      in if rs_disposition parsed = DispIgnored then r
      else let r = r\<lparr>rv_awaiting := False\<rparr>
      in if rs_disposition parsed = DispFollowup
      then r\<lparr>rv_question := rs_followup_name parsed, rv_visited_names := rs_visited_names parsed, rv_attempts := 0,
             rv_queued_followup := True\<rparr>
      else r\<lparr>rv_status := rs_status parsed,
             rv_addresses := (if rs_status parsed = DnsSuccess then rs_addresses parsed else [])\<rparr>)"

definition dns_initialize :: "'r \<Rightarrow> resolver \<times> 'r net_state \<Rightarrow> bool \<times> resolver \<times> 'r net_state" where
  "dns_initialize on_udp_receiver = (\<lambda>(r, net).
     if rv_bound r then (True, r, net)
     else case bind_udp_port kClientPort (Some on_udp_receiver) net of
       (ok, net) \<Rightarrow> (ok, r\<lparr>rv_bound := ok\<rparr>, net))"

definition begin_lookup ::
  "nic \<Rightarrow> clock \<Rightarrow> u8 list option \<Rightarrow> resolver \<times> 'r net_state \<Rightarrow> dns_status \<times> resolver \<times> 'r net_state" where
  "begin_lookup nic c hostname = (\<lambda>(r, net).
     if rv_status r = DnsPending then (DnsBusy, r, net)
     else case encode_hostname hostname of
       None \<Rightarrow> (DnsInvalidName, r\<lparr>rv_status := DnsInvalidName\<rparr>, net)
     | Some question \<Rightarrow>
     let r = r\<lparr>rv_addresses := [], rv_awaiting := False, rv_queued_followup := False\<rparr>
     in if \<not> rv_bound r \<or> \<not> ns_online (nt_status net)
     then let r = fail_unavailable r in (rv_status r, r, net)
     else let r = r\<lparr>rv_question := question, rv_visited_names := [question], rv_attempts := 0, rv_status := DnsPending\<rparr>;
              (r, net) = send_attempt nic c (r, net)
     in (rv_status r, r, net))"

definition dns_poll :: "nic \<Rightarrow> clock \<Rightarrow> resolver \<times> 'r net_state \<Rightarrow> resolver \<times> 'r net_state" where
  "dns_poll nic c = (\<lambda>(r, net).
     if rv_status r \<noteq> DnsPending then (r, net)
     else if rv_queued_followup r then send_attempt nic c (r\<lparr>rv_queued_followup := False\<rparr>, net)
     else if \<not> rv_awaiting r \<or> ck_ticks c - rv_sent_at r < ucast (ck_hz c) * 2 then (r, net)
     else let r = r\<lparr>rv_awaiting := False\<rparr>
     in if rv_attempts r = 1 then send_attempt nic c (r, net)
     else (r\<lparr>rv_status := DnsTimedOut\<rparr>, net))"

definition result_address :: "nat \<Rightarrow> resolver \<Rightarrow> ipv4_address option" where
  "result_address index r = (if index \<ge> length (rv_addresses r) then None else Some (rv_addresses r ! index))"

definition set_server :: "ipv4_address \<Rightarrow> resolver \<Rightarrow> dns_status \<times> resolver" where
  "set_server address r = (if rv_status r = DnsPending then (DnsBusy, r) else (DnsSuccess, r\<lparr>rv_server := address\<rparr>))"

subsection \<open>Decoded names\<close>

text \<open>A sequence of complete labels in front does not change what the label loop says of the rest.\<close>

definition label_prefix :: "u8 list \<Rightarrow> bool" where
  "label_prefix d \<longleftrightarrow> (\<forall>rest. wire_labels (d @ rest) = wire_labels rest)"

lemma label_prefix_Nil [simp]: "label_prefix []"
  by (simp add: label_prefix_def)

lemma label_prefix_snoc:
  assumes "label_prefix d" "l \<noteq> 0" "l \<le> 63" "length lab = unat l"
  shows "label_prefix (d @ [l] @ lab)"
proof -
  have "\<not> 63 < l" using assms(3) by simp
  then show ?thesis using assms(1,2,4) by (simp add: label_prefix_def)
qed

lemma valid_wire_nameI: "label_prefix d \<Longrightarrow> length d \<le> 254 \<Longrightarrow> valid_wire_name (d @ [0])"
  by (simp add: valid_wire_name_def label_prefix_def)

lemma plain_label: "l AND 0xC0 = 0 \<Longrightarrow> l \<le> 63" for l :: u8
proof -
  assume a: "l AND 0xC0 = 0"
  have full: "(0xC0 OR 0x3F :: u8) = - 1" by code_simp
  have "l = l AND (0xC0 OR 0x3F)" unfolding full by simp
  also have "\<dots> = l AND 0x3F" unfolding bit.conj_disj_distrib a by simp
  finally show ?thesis using word_and_le1 [of l "0x3F"] by simp
qed

lemma decode_loop_Some:
  assumes "decode_loop m p next_cursor visited d = Some (c, n)"
  obtains (jump) target where "p + 1 < length m" "m ! p AND 0xC0 = 0xC0" "length visited \<noteq> 16" "target < length m" "target \<notin> set visited"
      "target = unat (push_bit 8 (ucast (m ! p AND 0x3F)) OR ucast (m ! (p + 1)) :: u16)"
      "decode_loop m target (case next_cursor of None \<Rightarrow> Some (p + 2) | Some c \<Rightarrow> Some c) (visited @ [target]) d = Some (c, n)"
  | (root) "p < length m" "m ! p = 0" "length d \<le> 254" "n = d @ [0]" "c = (case next_cursor of None \<Rightarrow> p + 1 | Some c \<Rightarrow> c)"
  | (label) "p < length m" "m ! p \<noteq> 0" "m ! p AND 0xC0 = 0" "p + 1 + unat (m ! p) \<le> length m" "length d + unat (m ! p) + 2 \<le> 255"
      "decode_loop m (p + 1 + unat (m ! p)) next_cursor visited (d @ [m ! p] @ take (unat (m ! p)) (drop (p + 1) m)) = Some (c, n)"
proof -
  have body: "p < length m" using assms decode_loop.simps [of m p next_cursor visited d] by (auto split: if_splits)
  note eq = assms [unfolded decode_loop.simps [of m p next_cursor visited d] Let_def]
  consider "m ! p AND 0xC0 = 0xC0" | "m ! p = 0" | "m ! p AND 0xC0 = 0" "m ! p \<noteq> 0"
    using eq body by (auto split: if_splits)
  then show thesis
  proof cases
    case 1
    then show thesis using eq body by (intro jump) (auto split: if_splits)
  next
    case 2
    then show thesis using eq body by (intro root) (auto split: if_splits)
  next
    case 3
    then have "m ! p AND 0xC0 \<noteq> 0xC0" by simp
    then show thesis using 3 eq body by (intro label) (auto split: if_splits)
  qed
qed

lemma decode_loop_valid:
  assumes "decode_loop m p next_cursor visited d = Some (c, n)" "label_prefix d"
  shows "valid_wire_name n \<and> (case next_cursor of None \<Rightarrow> p < c \<and> c \<le> length m | Some c' \<Rightarrow> c = c')"
  using assms
proof (induction m p next_cursor visited d rule: decode_loop.induct)
  case (1 m p next_cursor visited d)
  from "1.prems"(1) show ?case
  proof (cases rule: decode_loop_Some)
    case (jump target)
    then show ?thesis using "1.IH"(1) [OF _ refl _ _ refl] "1.prems"(2) by (auto split: option.splits)
  next
    case root
    then show ?thesis using valid_wire_nameI "1.prems"(2) by (auto split: option.splits)
  next
    case label
    have "label_prefix (d @ [m ! p] @ take (unat (m ! p)) (drop (p + 1) m))"
      using label "1.prems"(2) plain_label by (intro label_prefix_snoc) auto
    then show ?thesis
      using "1.IH"(2) [OF _ refl _ _ refl] label by (cases "length m - (p + 1) < unat (m ! p)") (auto split: option.splits)
  qed
qed

lemma decode_name_valid:
  assumes "decode_name (Some m) p = Some (c, n)"
  shows "valid_wire_name n" "p < c" "c \<le> length m"
  using decode_loop_valid [of m p None "[]" "[]" c n] assms by (auto simp: decode_name_def split: if_splits)

lemma decode_name_range: "decode_name (Some m) p = Some (c, n) \<Longrightarrow> p < c \<and> c \<le> length m"
  by (simp add: decode_name_valid)

lemma cname_target_valid: "cname_target m r = Some n \<Longrightarrow> valid_wire_name n"
  by (auto simp: cname_target_def split: option.splits if_splits dest: decode_name_valid)

subsection \<open>Alias chains\<close>

text \<open>
  \<open>alias_chain\<close>: each name is the target of an alias record of the one before, in the records of the message.
\<close>

fun alias_chain :: "u8 list \<Rightarrow> response_record list \<Rightarrow> dns_name \<Rightarrow> dns_name list \<Rightarrow> bool" where
  "alias_chain m answers n [] = True"
| "alias_chain m answers n (t # ts) =
     (list_ex (\<lambda>r. rr_type r = 5 \<and> rr_klass r = 1 \<and> cname_target m r = Some t \<and>
        (case record_owner m r of None \<Rightarrow> False | Some owner \<Rightarrow> names_equal owner n)) answers \<and>
      alias_chain m answers t ts)"

lemma find_alias_Some:
  assumes "find_alias m n answers = Some (Some r)"
  shows "r \<in> set answers" "rr_type r = 5" "rr_klass r = 1"
    "case record_owner m r of None \<Rightarrow> False | Some owner \<Rightarrow> names_equal owner n"
  using assms by (induction m n answers rule: find_alias.induct) (auto split: if_splits option.splits)

lemma follow_aliases_visited:
  assumes "follow_aliases m answers n visited = Inr (t, visited')" "length visited \<le> 5"
  shows "\<exists>ts. visited' = visited @ ts \<and> length visited' \<le> 5 \<and> t = last (n # ts) \<and> alias_chain m answers n ts \<and>
    list_all valid_wire_name ts \<and> find_alias m t answers = Some None \<and>
    (\<forall>i<length ts. \<forall>v\<in>set (visited @ take i ts). \<not> names_equal v (ts ! i))"
  using assms
proof (induction m answers n visited rule: follow_aliases.induct)
  case (1 m answers n visited)
  note eq = "1.prems"(1) [unfolded follow_aliases.simps [of m answers n visited]]
  obtain found where found: "find_alias m n answers = Some found" using eq by (cases "find_alias m n answers") auto
  show ?case
  proof (cases found)
    case None
    then show ?thesis using eq found "1.prems"(2) by (intro exI [of _ "[]"]) simp
  next
    case (Some link)
    then obtain target where target: "cname_target m link = Some target" "\<not> list_ex (\<lambda>v. names_equal v target) visited"
        "length visited < 5" "follow_aliases m answers target (visited @ [target]) = Inr (t, visited')"
      using eq found by (auto split: option.splits if_splits)
    then obtain ts where ts: "visited' = (visited @ [target]) @ ts" "length visited' \<le> 5" "t = last (target # ts)"
        "alias_chain m answers target ts" "list_all valid_wire_name ts" "find_alias m t answers = Some None"
        "\<forall>i<length ts. \<forall>v\<in>set ((visited @ [target]) @ take i ts). \<not> names_equal v (ts ! i)"
      using "1.IH" [OF found Some target(1)] by auto
    have "\<forall>i<length (target # ts). \<forall>v\<in>set (visited @ take i (target # ts)). \<not> names_equal v ((target # ts) ! i)"
      using ts(7) target(2) by (auto simp: list_ex_iff nth_Cons split: nat.splits)
    moreover have "alias_chain m answers n (target # ts)"
      using find_alias_Some [OF found [unfolded Some]] target(1) ts(4) by (auto simp: list_ex_iff)
    ultimately show ?thesis
      using ts cname_target_valid [OF target(1)] by (intro exI [of _ "target # ts"]) simp
  qed
qed

subsection \<open>Addresses\<close>

definition nub :: "'a list \<Rightarrow> 'a list" where
  "nub xs = rev (remdups (rev xs))"

lemma nub_snoc: "nub (xs @ [x]) = (if x \<in> set xs then nub xs else nub xs @ [x])"
  by (simp add: nub_def)

lemma nub_props [simp]: "set (nub xs) = set xs" "distinct (nub xs)" "nub [] = []"
  by (simp_all add: nub_def)

definition record_address :: "u8 list \<Rightarrow> response_record \<Rightarrow> ipv4_address" where
  "record_address m r = map (\<lambda>i. m ! (rr_rdata_offset r + i)) [0..<4]"

definition owned_by :: "u8 list \<Rightarrow> dns_name \<Rightarrow> response_record \<Rightarrow> bool" where
  "owned_by m n r = (case record_owner m r of None \<Rightarrow> False | Some owner \<Rightarrow> names_equal owner n)"

definition address_records :: "u8 list \<Rightarrow> dns_name \<Rightarrow> response_record list \<Rightarrow> response_record list" where
  "address_records m n answers = filter (\<lambda>r. rr_type r = 1 \<and> rr_klass r = 1 \<and> owned_by m n r) answers"

lemma take_nub_snoc:
  assumes "\<forall>a\<in>set seen. length a = 4" "length x = 4"
  shows "(if \<not> list_ex (\<lambda>a. list_all (\<lambda>i. a ! i = x ! i) [0..<4]) (take 8 (nub seen)) \<and> length (take 8 (nub seen)) < 8
      then take 8 (nub seen) @ [x] else take 8 (nub seen)) = take 8 (nub (seen @ [x]))"
proof -
  have same: "list_all (\<lambda>i. a ! i = x ! i) [0..<4] \<longleftrightarrow> a = x" if "a \<in> set (take 8 (nub seen))" for a
  proof -
    have "length a = 4" using assms(1) in_set_takeD [OF that] by simp
    then show ?thesis using assms(2) by (auto simp: list_all_iff list_eq_iff_nth_eq)
  qed
  then have dup: "list_ex (\<lambda>a. list_all (\<lambda>i. a ! i = x ! i) [0..<4]) (take 8 (nub seen)) \<longleftrightarrow> x \<in> set (take 8 (nub seen))"
    unfolding list_ex_iff by metis
  show ?thesis
  proof (cases "length (nub seen) < 8")
    case True
    then have "take 8 (nub seen) = nub seen" by simp
    moreover have "take 8 (nub seen @ [x]) = nub seen @ [x]" using True by simp
    ultimately show ?thesis unfolding dup nub_snoc using True by simp
  next
    case False
    then show ?thesis by (simp add: nub_snoc)
  qed
qed

lemma collect_addresses_first:
  assumes "collect_addresses m n rs (take 8 (nub seen)) = (True, addresses)" "\<forall>a\<in>set seen. length a = 4"
  shows "addresses = take 8 (nub (seen @ map (record_address m) (address_records m n rs)))"
  using assms
proof (induction rs arbitrary: seen)
  case Nil
  then show ?case by (simp add: address_records_def)
next
  case (Cons r rs)
  show ?case
  proof (cases "rr_type r = 1 \<and> rr_klass r = 1 \<and> owned_by m n r")
    case True
    let ?a = "record_address m r"
    have eq: "collect_addresses m n (r # rs) (take 8 (nub seen)) = collect_addresses m n rs
        (if \<not> list_ex (\<lambda>a. list_all (\<lambda>i. a ! i = ?a ! i) [0..<4]) (take 8 (nub seen)) \<and> length (take 8 (nub seen)) < 8
         then take 8 (nub seen) @ [?a] else take 8 (nub seen))"
      using True by (auto simp: owned_by_def record_address_def [symmetric] Let_def split: option.splits)
    have "collect_addresses m n rs (take 8 (nub (seen @ [?a]))) = (True, addresses)"
      using Cons.prems(1) take_nub_snoc [OF Cons.prems(2), of ?a] unfolding eq by (simp add: record_address_def)
    then have "addresses = take 8 (nub ((seen @ [?a]) @ map (record_address m) (address_records m n rs)))"
      using Cons.prems(2) by (intro Cons.IH) (auto simp: record_address_def)
    then show ?thesis using True by (simp add: address_records_def)
  next
    case False
    then have "collect_addresses m n (r # rs) (take 8 (nub seen)) = collect_addresses m n rs (take 8 (nub seen)) \<or>
        fst (collect_addresses m n (r # rs) (take 8 (nub seen))) = False"
      by (auto simp: owned_by_def split: option.splits)
    then show ?thesis using Cons False by (auto simp: address_records_def)
  qed
qed

text \<open>Every record read lies inside the message.\<close>

lemma read_record_inside:
  assumes "read_record m cursor = Some (next, r)" "length m \<le> 512"
  shows "cursor < next" "next \<le> length m" "rr_rdata_offset r + rr_rdata_length r = next" "rr_owner_offset r = cursor"
    "rr_type r = 1 \<Longrightarrow> rr_rdata_length r = 4"
  using assms by (auto simp: read_record_def Let_def split: if_splits option.splits dest!: decode_name_range)

lemma read_records_inside:
  assumes "read_records m k cursor = Some (next, rs)" "length m \<le> 512"
  shows "length rs = k \<and> list_all (\<lambda>r. rr_rdata_offset r + rr_rdata_length r \<le> length m \<and> (rr_type r = 1 \<longrightarrow> rr_rdata_length r = 4)) rs"
  using assms
proof (induction m k cursor arbitrary: rs rule: read_records.induct)
  case (2 m k cursor)
  obtain c r where r: "read_record m cursor = Some (c, r)" using "2.prems"(1) by (auto split: option.splits)
  then show ?case using 2 read_record_inside [OF r "2.prems"(2)] by (auto split: option.splits)
qed simp

text \<open>What a response says of a lookup: the answer records, the aliases followed and the addresses found.\<close>

definition response_answers :: "u8 list \<Rightarrow> dns_name \<Rightarrow> dns_name list \<Rightarrow> dns_name list \<Rightarrow> ipv4_address list \<Rightarrow> bool" where
  "response_answers m question visited visited' addresses \<longleftrightarrow>
     (\<exists>answers ts. read_sections m question = Some answers \<and>
        list_all (\<lambda>r. rr_rdata_offset r + rr_rdata_length r \<le> length m \<and> (rr_type r = 1 \<longrightarrow> rr_rdata_length r = 4)) answers \<and>
        visited' = visited @ ts \<and> alias_chain m answers question ts \<and> list_all valid_wire_name ts \<and>
        (\<forall>i<length ts. \<forall>v\<in>set (visited @ take i ts). \<not> names_equal v (ts ! i)) \<and>
        addresses = take 8 (nub (map (record_address m) (address_records m (last (question # ts)) answers))))"

lemma resolve_answers_cases:
  assumes "read_sections m q = Some answers" "length m \<le> 512" "length visited \<le> 5" "p = resolve_answers m answers q visited"
  shows "case rs_disposition p of
      DispIgnored \<Rightarrow> False
    | DispComplete \<Rightarrow> rs_status p \<noteq> DnsPending \<and> rs_status p \<noteq> DnsIdle \<and>
        (rs_status p = DnsSuccess \<longrightarrow> rs_addresses p \<noteq> [] \<and> response_answers m q visited (rs_visited_names p) (rs_addresses p)) \<and>
        (rs_status p = DnsNotFound \<longrightarrow> rs_visited_names p = visited \<and> response_answers m q visited visited [])
    | DispFollowup \<Rightarrow> response_answers m q visited (rs_visited_names p) [] \<and> length visited < length (rs_visited_names p) \<and>
        length (rs_visited_names p) \<le> 5 \<and> rs_followup_name p = last (rs_visited_names p)"
proof (cases "unambiguous m answers")
  case False
  then show ?thesis using assms(4) by (simp add: resolve_answers_def malformed_def)
next
  case un: True
  have inside: "list_all (\<lambda>r. rr_rdata_offset r + rr_rdata_length r \<le> length m \<and> (rr_type r = 1 \<longrightarrow> rr_rdata_length r = 4)) answers"
    using assms(1,2) read_records_inside [of m] by (auto simp: read_sections_def Let_def split: option.splits if_splits)
  show ?thesis
  proof (cases "follow_aliases m answers q visited")
    case (Inl e)
    then have "fst e = DnsMalformedResponse \<or> fst e = DnsCnameLoopOrLimit"
      by (induction m answers q visited rule: follow_aliases.induct)
        (subst (asm) (2) follow_aliases.simps, auto split: option.splits if_splits)
    then show ?thesis using un Inl assms(4) by (cases e) (auto simp: resolve_answers_def malformed_def)
  next
    case (Inr tv)
    obtain t visited' where tv: "tv = (t, visited')" by (rule prod.exhaust)
    obtain ts where ts: "visited' = visited @ ts" "length visited' \<le> 5" "t = last (q # ts)" "alias_chain m answers q ts"
        "list_all valid_wire_name ts" "\<forall>i<length ts. \<forall>v\<in>set (visited @ take i ts). \<not> names_equal v (ts ! i)"
      using follow_aliases_visited [OF Inr [unfolded tv] assms(3)] by auto
    obtain ok addresses where col: "collect_addresses m t answers [] = (ok, addresses)" by (rule prod.exhaust)
    have "response_answers m q visited visited' addresses" if "ok"
      unfolding response_answers_def
      using collect_addresses_first [of m t answers "[]" addresses] col that assms(1) inside ts
      by (intro exI [of _ answers] exI [of _ ts]) simp
    then show ?thesis
      using un Inr tv ts col assms(4)
      by (cases ok; cases "addresses = []"; cases "ts = []") (simp_all add: resolve_answers_def malformed_def Let_def)
  qed
qed

definition started_visits :: "dns_name \<Rightarrow> dns_name list \<Rightarrow> dns_name list" where
  "started_visits question visited = (if visited = [] then [question] else visited)"

text \<open>The acceptance tests of a response: header, question and visited names.\<close>

definition accepted_header :: "u8 list \<Rightarrow> u16 \<Rightarrow> dns_name \<Rightarrow> dns_name list \<Rightarrow> bool" where
  "accepted_header m ident question visited \<longleftrightarrow>
     12 \<le> length m \<and> length m \<le> 512 \<and> read_be16 m 0 = ident \<and> read_be16 m 2 AND 0xFA0F = 0x8000 \<and>
     read_be16 m 4 = 1 \<and> valid_wire_name question \<and> length visited \<le> 5 \<and> list_all valid_wire_name visited"

lemma flags_accepted:
  fixes f :: u16
  assumes "f AND 0x8000 \<noteq> 0" "f AND 0x7800 = 0" "f AND 0x0200 = 0" "f AND 0x000F = 0"
  shows "f AND 0xFA0F = 0x8000"
proof -
  have split: "(0xFA0F :: u16) = 0x8000 OR (0x7800 OR (0x0200 OR 0x000F))" by code_simp
  have exp: "(0x8000 :: u16) = 2 ^ 15" by simp
  have "bit f 15" using assms(1) unfolding exp and_exp_eq_0_iff_not_bit by simp
  then have "f AND 0x8000 = 0x8000" unfolding exp by (intro bit_word_eqI, unfold bit_and_iff bit_exp_iff, auto)
  then show ?thesis unfolding split bit.conj_disj_distrib assms by simp
qed

lemma parse_response_cases:
  fixes m ident q vs
  defines "p \<equiv> parse_response (Some m) ident q (Some vs) (length vs)"
  shows "(rs_disposition p = DispIgnored \<and> rs_status p = DnsIdle \<and> read_be16 m 0 \<noteq> ident) \<or>
    (rs_disposition p = DispComplete \<and> rs_addresses p = [] \<and>
       rs_status p \<in> {DnsMalformedResponse, DnsTruncatedResponse, DnsNotFound, DnsServerFailure}) \<or>
    (\<exists>answers. read_sections m q = Some answers \<and> accepted_header m ident q (started_visits q vs) \<and>
       p = resolve_answers m answers q (started_visits q vs))"
proof -
  consider "length m < 2" | "2 \<le> length m" "read_be16 m 0 \<noteq> ident"
    | "2 \<le> length m" "read_be16 m 0 = ident" "length m < 12 \<or> length m > 512 \<or> \<not> valid_wire_name q \<or> length vs > 5 \<or>
        \<not> list_all valid_wire_name vs \<or> (vs \<noteq> [] \<and> \<not> names_equal (vs ! (length vs - 1)) q)"
    | "read_be16 m 0 = ident" "12 \<le> length m" "length m \<le> 512" "valid_wire_name q" "length vs \<le> 5" "list_all valid_wire_name vs"
        "vs = [] \<or> names_equal (vs ! (length vs - 1)) q" by fastforce
  then show ?thesis
  proof cases
    case 4
    let ?v = "started_visits q vs" and ?f = "read_be16 m 2"
    have v: "length ?v \<le> 5" "list_all valid_wire_name ?v" using 4 by (simp_all add: started_visits_def)
    have p: "p = (if ?f AND 0x8000 = 0 \<or> ?f AND 0x7800 \<noteq> 0 then malformed ?v
        else if ?f AND 0x0200 \<noteq> 0 then (malformed ?v)\<lparr>rs_status := DnsTruncatedResponse\<rparr>
        else if read_be16 m 4 \<noteq> 1 then malformed ?v
        else case read_sections m q of None \<Rightarrow> malformed ?v
        | Some answers \<Rightarrow> if ?f AND 0x000F \<noteq> 0
            then (malformed ?v)\<lparr>rs_status := (if ?f AND 0x000F = 3 then DnsNotFound else DnsServerFailure)\<rparr>
            else resolve_answers m answers q ?v)"
      using 4 unfolding p_def parse_response_def Let_def started_visits_def option.case take_all [OF order.refl] by auto
    show ?thesis
      unfolding p using 4 v flags_accepted [of ?f]
      by (cases "read_sections m q") (auto simp: malformed_def accepted_header_def)
  qed (auto simp: p_def parse_response_def malformed_def Let_def)
qed

text \<open>
  C30: what the resolver takes from a response, whatever bytes the network delivers.  A response counts only
  with the expected identifier.  Success means: the header is that of an untruncated answer to one
  question, every section parses to exactly the end of the message, and the result is the first eight
  distinct addresses of the records of the name at the end of the alias chain, in message order, each read
  inside the message.  A follow-up names the end of a non-empty chain of new, pairwise different valid
  names, at most five with those already visited, for which the message has no address.
\<close>

theorem parse_response_sound:
  "let p = parse_response (Some m) ident q (Some vs) (length vs); visited = started_visits q vs
   in case rs_disposition p of
        DispIgnored \<Rightarrow> rs_status p = DnsIdle \<and> read_be16 m 0 \<noteq> ident
      | DispComplete \<Rightarrow> rs_status p \<noteq> DnsPending \<and> rs_status p \<noteq> DnsIdle \<and>
          (if rs_status p = DnsSuccess
           then rs_addresses p \<noteq> [] \<and> accepted_header m ident q visited \<and>
             response_answers m q visited (rs_visited_names p) (rs_addresses p)
           else True)
      | DispFollowup \<Rightarrow> accepted_header m ident q visited \<and> response_answers m q visited (rs_visited_names p) [] \<and>
          length visited < length (rs_visited_names p) \<and> length (rs_visited_names p) \<le> 5 \<and>
          rs_followup_name p = last (rs_visited_names p)"
proof -
  define p where "p = parse_response (Some m) ident q (Some vs) (length vs)"
  from parse_response_cases [of m ident q vs, folded p_def] show ?thesis
  proof (elim disjE exE conjE)
    fix answers
    assume a: "read_sections m q = Some answers" "accepted_header m ident q (started_visits q vs)"
      "p = resolve_answers m answers q (started_visits q vs)"
    have "length m \<le> 512" "length (started_visits q vs) \<le> 5" using a(2) by (simp_all add: accepted_header_def)
    from resolve_answers_cases [OF a(1) this a(3)] a(2) show ?thesis
      unfolding p_def [symmetric] Let_def by (cases "rs_disposition p") auto
  qed (auto simp: p_def [symmetric] Let_def)
qed

subsection \<open>Every lookup ends\<close>

text \<open>
  One round of the kernel's main loop as the resolver sees it: any datagrams arrive, then the resolver is
  polled, with the network service in any state and the card behaving in any way.
\<close>

type_synonym datagram = "ipv4_address \<times> u16 \<times> u16 \<times> u8 list"

definition receive_all :: "datagram list \<Rightarrow> resolver \<Rightarrow> resolver" where
  "receive_all = fold (\<lambda>(source, sp, dp, payload). on_udp source sp dp payload)"

definition dns_round :: "datagram list \<times> nic \<times> 'r net_state \<times> clock \<Rightarrow> resolver \<Rightarrow> resolver" where
  "dns_round = (\<lambda>(datagrams, nic, net, c) r. fst (dns_poll nic c (receive_all datagrams r, net)))"

text \<open>The rounds are two seconds apart or more, the first counted from \<open>t\<close>, and the tick counter does not wrap.\<close>

fun spaced :: "u32 \<Rightarrow> u64 \<Rightarrow> (datagram list \<times> nic \<times> 'r net_state \<times> clock) list \<Rightarrow> bool" where
  "spaced hz t [] = True"
| "spaced hz t ((_, _, _, c) # rounds) =
     (ck_hz c = hz \<and> unat t + 2 * unat hz \<le> unat (ck_ticks c) \<and> spaced hz (ck_ticks c) rounds)"

definition lookup_ok :: "resolver \<Rightarrow> bool" where
  "lookup_ok r \<longleftrightarrow> (rv_status r = DnsPending \<longrightarrow>
     1 \<le> length (rv_visited_names r) \<and> length (rv_visited_names r) \<le> 5 \<and>
     (if rv_queued_followup r then rv_attempts r = 0 \<and> \<not> rv_awaiting r
      else rv_awaiting r \<and> (rv_attempts r = 1 \<or> rv_attempts r = 2)))"

definition lookup_rank :: "resolver \<Rightarrow> nat" where
  "lookup_rank r = (if rv_status r \<noteq> DnsPending then 0
     else 3 * (5 - length (rv_visited_names r)) +
       (if rv_queued_followup r then 3 else if rv_attempts r = 1 then 2 else 1))"

lemma on_udp_rank:
  assumes "lookup_ok r"
  shows "lookup_ok (on_udp source sp dp payload r) \<and> lookup_rank (on_udp source sp dp payload r) \<le> lookup_rank r \<and>
    rv_sent_at (on_udp source sp dp payload r) = rv_sent_at r"
proof (cases "on_udp source sp dp payload r = r")
  case False
  define p where "p = parse_response (Some payload) (rv_active_id r) (rv_question r) (Some (rv_visited_names r)) (length (rv_visited_names r))"
  have pending: "rv_status r = DnsPending" "rv_awaiting r" and p: "rs_disposition p \<noteq> DispIgnored"
    and eq: "on_udp source sp dp payload r = (if rs_disposition p = DispFollowup
      then r\<lparr>rv_awaiting := False, rv_question := rs_followup_name p, rv_visited_names := rs_visited_names p, rv_attempts := 0,
             rv_queued_followup := True\<rparr>
      else r\<lparr>rv_awaiting := False, rv_status := rs_status p, rv_addresses := (if rs_status p = DnsSuccess then rs_addresses p else [])\<rparr>)"
    using False unfolding on_udp_def p_def [symmetric] Let_def by (auto split: if_splits)
  have names: "1 \<le> length (rv_visited_names r)" using assms pending by (simp add: lookup_ok_def)
  then have visits: "started_visits (rv_question r) (rv_visited_names r) = rv_visited_names r" by (auto simp: started_visits_def)
  show ?thesis
  proof (cases "rs_disposition p = DispFollowup")
    case True
    have "\<exists>answers. read_sections payload (rv_question r) = Some answers \<and>
        accepted_header payload (rv_active_id r) (rv_question r) (rv_visited_names r) \<and>
        p = resolve_answers payload answers (rv_question r) (rv_visited_names r)"
      using parse_response_cases [of payload "rv_active_id r" "rv_question r" "rv_visited_names r", folded p_def] True
      by (auto simp: visits)
    then have "length (rv_visited_names r) < length (rs_visited_names p) \<and> length (rs_visited_names p) \<le> 5"
      using resolve_answers_cases [of payload "rv_question r" _ "rv_visited_names r" p] True by (auto simp: accepted_header_def)
    then show ?thesis using True pending names assms unfolding eq by (auto simp: lookup_ok_def lookup_rank_def)
  next
    case False
    have "rs_status p \<noteq> DnsPending"
      using parse_response_cases [of payload "rv_active_id r" "rv_question r" "rv_visited_names r", folded p_def] False p
        resolve_answers_cases [of payload "rv_question r" _ "rv_visited_names r" p] unfolding visits
      by (cases "rs_disposition p") (auto simp: accepted_header_def)
    then show ?thesis using False unfolding eq by (simp add: lookup_ok_def lookup_rank_def)
  qed
qed (use assms in simp)

lemma receive_all_rank:
  assumes "lookup_ok r"
  shows "lookup_ok (receive_all ds r) \<and> lookup_rank (receive_all ds r) \<le> lookup_rank r \<and> rv_sent_at (receive_all ds r) = rv_sent_at r"
  using assms
proof (induction ds arbitrary: r)
  case (Cons d ds)
  obtain source sp dp payload where d: "d = (source, sp, dp, payload)" by (rule prod_cases4)
  have "receive_all (d # ds) r = receive_all ds (on_udp source sp dp payload r)" by (simp add: receive_all_def d)
  then show ?case
    using Cons.IH [of "on_udp source sp dp payload r"] on_udp_rank [OF Cons.prems, of source sp dp payload] by auto
qed (simp add: receive_all_def)

lemma send_attempt_result:
  assumes "send_attempt nic c (r, net) = (r', net')"
  shows "rv_status r' = DnsNetworkUnavailable \<or> (rv_status r' = rv_status r \<and> rv_awaiting r' \<and> rv_attempts r' = rv_attempts r + 1 \<and>
    rv_sent_at r' = ck_ticks c \<and> rv_queued_followup r' = rv_queued_followup r \<and> rv_visited_names r' = rv_visited_names r)"
  using assms by (auto simp: send_attempt_def fail_unavailable_def Let_def split: if_splits option.splits prod.splits bool.splits)

lemma send_attempt_sent:
  assumes "send_attempt nic c (r, net) = (r', net')"
  shows "rv_sent_at r' = rv_sent_at r \<or> rv_sent_at r' = ck_ticks c"
  using assms by (auto simp: send_attempt_def fail_unavailable_def Let_def split: if_splits option.splits prod.splits bool.splits)

lemma dns_round_idle:
  assumes "rv_status r \<noteq> DnsPending"
  shows "dns_round round r = r"
proof -
  have "receive_all ds r = r" for ds
    using assms by (induction ds) (auto simp: receive_all_def on_udp_def)
  then show ?thesis using assms by (cases round) (simp add: dns_round_def dns_poll_def)
qed

lemma elapsed:
  assumes "unat (t :: u64) + 2 * unat (hz :: u32) \<le> unat now"
  shows "\<not> now - t < ucast hz * 2"
proof -
  have hz: "unat hz < 4294967296" using unsigned_less [of hz] by simp
  then have "unat (ucast hz * 2 :: u64) = 2 * unat hz"
    using unat_ucast_wider [of hz, where 'b = 64] by (simp add: unat_word_ariths)
  moreover have "unat (now - t) = unat now - unat t" using assms by (intro unat_sub) (simp add: word_le_nat_alt)
  ultimately show ?thesis using assms by (simp add: word_less_nat_alt)
qed

lemma dns_poll_rank:
  fixes net :: "'r net_state"
  assumes "lookup_ok r" "unat (rv_sent_at r) + 2 * unat (ck_hz c) \<le> unat (ck_ticks c)"
    and r'_def: "r' = fst (dns_poll nic c (r, net))"
  shows "lookup_ok r' \<and> lookup_rank r' \<le> lookup_rank r - 1 \<and> unat (rv_sent_at r') \<le> unat (ck_ticks c)"
proof -
  have late: "\<not> ck_ticks c - rv_sent_at r < ucast (ck_hz c) * 2" using assms(2) by (rule elapsed)
  have sent: "unat (rv_sent_at r) \<le> unat (ck_ticks c)" using assms(2) by simp
  consider "rv_status r \<noteq> DnsPending" | "rv_status r = DnsPending" "rv_queued_followup r"
    | "rv_status r = DnsPending" "\<not> rv_queued_followup r" "rv_attempts r = 1"
    | "rv_status r = DnsPending" "\<not> rv_queued_followup r" "rv_attempts r = 2"
    using assms(1) by (auto simp: lookup_ok_def split: if_splits)
  then show ?thesis
  proof cases
    case 1
    then show ?thesis using sent by (simp add: r'_def dns_poll_def lookup_ok_def lookup_rank_def)
  next
    case 2
    obtain r2 net2 where sa: "send_attempt nic c (r\<lparr>rv_queued_followup := False\<rparr>, net) = (r2, net2)" by (rule prod.exhaust)
    show ?thesis
      using sa send_attempt_result [OF sa] 2 assms(1) sent send_attempt_sent [OF sa]
      by (auto simp: r'_def dns_poll_def lookup_ok_def lookup_rank_def)
  next
    case 3
    obtain r2 net2 where sa: "send_attempt nic c (r\<lparr>rv_awaiting := False\<rparr>, net) = (r2, net2)" by (rule prod.exhaust)
    show ?thesis
      using sa send_attempt_result [OF sa] 3 assms(1) late sent send_attempt_sent [OF sa]
      by (auto simp: r'_def dns_poll_def lookup_ok_def lookup_rank_def Let_def)
  next
    case 4
    then show ?thesis
      using assms(1) late sent by (simp add: r'_def dns_poll_def lookup_ok_def lookup_rank_def Let_def)
  qed
qed

lemma dns_rounds_rank:
  assumes "lookup_ok r" "unat (rv_sent_at r) \<le> unat t" "spaced hz t rounds"
  shows "lookup_rank (fold dns_round rounds r) \<le> lookup_rank r - length rounds"
  using assms
proof (induction rounds arbitrary: r t)
  case (Cons round rounds)
  obtain ds nic net c where round: "round = (ds, nic, net, c)" by (rule prod_cases4)
  let ?r1 = "receive_all ds r"
  have r1: "lookup_ok ?r1" "lookup_rank ?r1 \<le> lookup_rank r" "unat (rv_sent_at ?r1) + 2 * unat (ck_hz c) \<le> unat (ck_ticks c)"
    using receive_all_rank [OF Cons.prems(1), of ds] Cons.prems(2,3) by (auto simp: round)
  have r2: "lookup_ok (dns_round round r)" "lookup_rank (dns_round round r) \<le> lookup_rank r - 1"
    "unat (rv_sent_at (dns_round round r)) \<le> unat (ck_ticks c)"
    using dns_poll_rank [OF r1(1,3) refl, of nic net] r1(2) by (auto simp: round dns_round_def)
  have "lookup_rank (fold dns_round rounds (dns_round round r)) \<le> lookup_rank (dns_round round r) - length rounds"
    using Cons.IH [OF r2(1,3)] Cons.prems(3) by (simp add: round)
  then show ?case using r2(2) by simp
qed simp

text \<open>
  C29: every lookup ends.  Whatever the server or anyone else sends, whatever the network service and the card
  do, fourteen polls that are two seconds apart after the start of a lookup leave the resolver in a final
  status: every question is sent at most twice, and every follow-up extends the chain of at most five
  names.
\<close>

theorem dns_lookup_terminates:
  assumes "begin_lookup nic c hostname (r, net) = (status, r', net')" "status \<noteq> DnsBusy"
    and "spaced (ck_hz c) (ck_ticks c) rounds" "14 \<le> length rounds"
  shows "rv_status (fold dns_round rounds r') \<noteq> DnsPending"
proof -
  have start: "lookup_ok r' \<and> lookup_rank r' \<le> 14 \<and> (rv_status r' = DnsPending \<longrightarrow> rv_sent_at r' = ck_ticks c)"
  proof (cases "rv_status r' = DnsPending")
    case True
    then obtain q r1 where r1: "send_attempt nic c (r1, net) = (r', net')" "rv_visited_names r1 = [q]" "rv_attempts r1 = 0"
        "\<not> rv_queued_followup r1"
      using assms(1,2) by (auto simp: begin_lookup_def fail_unavailable_def Let_def split: if_splits option.splits prod.splits)
    then show ?thesis using send_attempt_result [OF r1(1)] True by (auto simp: lookup_ok_def lookup_rank_def)
  next
    case False
    then show ?thesis by (simp add: lookup_ok_def lookup_rank_def)
  qed
  show ?thesis
  proof (cases "rv_status r' = DnsPending")
    case True
    then have "lookup_rank (fold dns_round rounds r') \<le> 0"
      using dns_rounds_rank [OF _ _ assms(3)] start assms(4) by fastforce
    then show ?thesis by (auto simp: lookup_rank_def split: if_splits)
  next
    case False
    have "rv_status (fold dns_round rounds r') = rv_status r'"
      using False
    proof (induction rounds arbitrary: r')
      case (Cons round rounds)
      then show ?case by (simp add: dns_round_idle)
    qed simp
    then show ?thesis using False by simp
  qed
qed

text \<open>A lookup of \<^verbatim>\<open>a.b\<close> that nobody answers.\<close>

definition silent_rounds :: "(datagram list \<times> nic \<times> nat net_state \<times> clock) list" where
  "silent_rounds = map (\<lambda>i. ([], \<lambda>_. True, host 15 arp_reset, \<lparr>ck_ticks = of_nat (500 + 200 * i), ck_hz = 100\<rparr>)) [0..<14]"

theorem dns_lookup_terminates_witness:
  "\<exists>r' net'. begin_lookup (\<lambda>_. True) \<lparr>ck_ticks = 300, ck_hz = 100\<rparr> (Some [97, 46, 98])
       (g_resolver\<lparr>rv_bound := True\<rparr>, host 15 arp_reset) = (DnsPending, r', net') \<and>
     rv_status (fold dns_round silent_rounds r') \<noteq> DnsPending"
proof -
  obtain status r' net' where start: "begin_lookup (\<lambda>_. True) \<lparr>ck_ticks = 300, ck_hz = 100\<rparr> (Some [97, 46, 98])
       (g_resolver\<lparr>rv_bound := True\<rparr>, host 15 arp_reset) = (status, r', net')" by (rule prod_cases3)
  have "fst (begin_lookup (\<lambda>_. True) \<lparr>ck_ticks = 300, ck_hz = 100\<rparr> (Some [97, 46, 98])
       (g_resolver\<lparr>rv_bound := True\<rparr>, host 15 arp_reset)) = DnsPending" by code_simp
  then have status: "status = DnsPending" using start by simp
  have "spaced 100 300 silent_rounds" "14 \<le> length silent_rounds" by code_simp+
  then have "rv_status (fold dns_round silent_rounds r') \<noteq> DnsPending"
    using dns_lookup_terminates [OF start, of silent_rounds] status by simp
  then show ?thesis using start status by blast
qed

end
