(* ===== verification/Dns_Names.thy ===== *)
theory Dns_Names
  imports Dns
begin

text \<open>
  Host names: \<open>encode_hostname\<close> of \<^verbatim>\<open>kernel/net/dns.cpp\<close> against the grammar of host names, and the decoder
  against the encoder.  A host name is a list of labels of letters, digits and inner hyphens, joined by
  dots, with an optional final dot.
\<close>

unbundle bit_operations_syntax

definition ldh_char :: "u8 \<Rightarrow> bool" where
  "ldh_char c \<longleftrightarrow> ascii_alnum c \<or> c = 45"

definition ldh_label :: "u8 list \<Rightarrow> bool" where
  "ldh_label l \<longleftrightarrow> l \<noteq> [] \<and> length l \<le> 63 \<and> list_all ldh_char l \<and> hd l \<noteq> 45 \<and> last l \<noteq> 45"

fun dotted :: "u8 list list \<Rightarrow> u8 list" where
  "dotted [] = []"
| "dotted [l] = l"
| "dotted (l # ls) = l @ 46 # dotted ls"

definition wire_part :: "u8 list list \<Rightarrow> u8 list" where
  "wire_part ls = concat (map (\<lambda>l. of_nat (length l) # l) ls)"

definition hostname_of :: "u8 list list \<Rightarrow> u8 list \<Rightarrow> bool" where
  "hostname_of ls h \<longleftrightarrow> list_all ldh_label ls \<and> (h = dotted ls \<or> (ls \<noteq> [] \<and> h = dotted ls @ [46]))"

lemma ldh_char_dot [simp]: "\<not> ldh_char 46"
  by (simp add: ldh_char_def ascii_alnum_def)

lemma dotted_Cons: "dotted (l # ls) = (if ls = [] then l else l @ 46 # dotted ls)"
  by (cases ls) simp_all

lemma wire_part_simps [simp]: "wire_part [] = []" "wire_part (l # ls) = of_nat (length l) # l @ wire_part ls"
  by (simp_all add: wire_part_def)

lemma encode_label_eq:
  assumes "length lab \<le> 63" "len \<le> 255"
  shows "encode_label cs lab len =
    (let l = takeWhile (\<lambda>c. c \<noteq> 46) cs
     in if list_all ldh_char l \<and> (lab = [] \<longrightarrow> l = [] \<or> hd l \<noteq> 45) \<and> length lab + length l \<le> 63 \<and> len + length l \<le> 255
        then Some (lab @ l, dropWhile (\<lambda>c. c \<noteq> 46) cs) else None)"
  using assms
proof (induction cs lab len rule: encode_label.induct)
  case (2 c cs lab len)
  show ?case
  proof (cases "c = 46 \<or> (\<not> ascii_alnum c \<and> c \<noteq> 45) \<or> (length lab = 0 \<and> c = 45) \<or> length lab = 63 \<or> len \<ge> 255")
    case True
    then show ?thesis using "2.prems" by (auto simp: Let_def ldh_char_def)
  next
    case False
    then show ?thesis using 2 by (auto simp: Let_def ldh_char_def)
  qed
qed (simp add: Let_def)

lemma hostname_Cons_iff:
  "hostname_of (l # ls) h \<longleftrightarrow> ldh_label l \<and> (ls = [] \<and> h = l \<or> (\<exists>h'. h = l @ 46 # h' \<and> hostname_of ls h'))"
  by (cases ls) (auto simp: hostname_of_def)

lemma label_chars:
  assumes "ldh_label l"
  shows "takeWhile (\<lambda>c. c \<noteq> 46) l = l" "takeWhile (\<lambda>c. c \<noteq> 46) (l @ 46 # h) = l" "dropWhile (\<lambda>c. c \<noteq> 46) l = []"
    "dropWhile (\<lambda>c. c \<noteq> 46) (l @ 46 # h) = 46 # h"
proof -
  have "\<forall>c\<in>set l. c \<noteq> 46" using assms by (auto simp: ldh_label_def list_all_iff)
  then show "takeWhile (\<lambda>c. c \<noteq> 46) l = l" "takeWhile (\<lambda>c. c \<noteq> 46) (l @ 46 # h) = l" "dropWhile (\<lambda>c. c \<noteq> 46) l = []"
    "dropWhile (\<lambda>c. c \<noteq> 46) (l @ 46 # h) = 46 # h" by (simp_all add: dropWhile_append takeWhile_append)
qed

lemma encode_labels_complete:
  assumes "hostname_of ls h" "length encoded + length (wire_part ls) \<le> 255"
  shows "encode_labels h encoded = Some (encoded @ wire_part ls)"
  using assms
proof (induction ls arbitrary: h encoded)
  case Nil
  then show ?case by (simp add: hostname_of_def encode_labels.simps)
next
  case (Cons l ls)
  then have l: "ldh_label l" "l \<noteq> []" "length l \<le> 63" "hd l \<noteq> 45" "last l \<noteq> 45" "list_all ldh_char l"
    by (simp_all add: hostname_Cons_iff ldh_label_def)
  have len: "length encoded < 255" "length encoded + 1 + length l \<le> 255" using Cons.prems(2) by simp_all
  from Cons.prems(1) consider "ls = []" "h = l" | h' where "h = l @ 46 # h'" "hostname_of ls h'" by (auto simp: hostname_Cons_iff)
  then show ?case
  proof cases
    case 1
    have "encode_label h [] (length encoded + 1) = Some (l, [])"
      using l len by (subst encode_label_eq) (simp_all add: 1 Let_def label_chars)
    then show ?thesis using 1 l len by (subst encode_labels.simps) (simp add: Let_def encode_labels.simps [of "[]"])
  next
    case 2
    have lab: "encode_label h [] (length encoded + 1) = Some (l, 46 # h')"
      using l len by (subst encode_label_eq) (simp_all add: 2 Let_def label_chars)
    have "h' = [] \<or> h' ! 0 \<noteq> 46"
      using 2(2) by (cases ls) (auto simp: hostname_of_def dotted_Cons ldh_label_def list_all_iff neq_Nil_conv nth_append split: if_splits)
    then show ?thesis
      using 2 l len lab Cons.IH [OF 2(2), of "encoded @ of_nat (length l) # l"] Cons.prems(2)
      by (subst encode_labels.simps) (simp add: Let_def)
  qed
qed

lemma encode_labels_sound:
  assumes "encode_labels h encoded = Some out" "length encoded \<le> 255"
  shows "\<exists>ls. hostname_of ls h \<and> out = encoded @ wire_part ls \<and> length out \<le> 255"
  using assms
proof (induction h encoded rule: encode_labels.induct)
  case (1 h encoded)
  show ?case
  proof (cases "h = []")
    case True
    then show ?thesis using "1.prems" by (intro exI [of _ "[]"]) (simp add: encode_labels.simps hostname_of_def)
  next
    case False
    note eq = "1.prems"(1) [unfolded encode_labels.simps [of h encoded] Let_def]
    have small: "length encoded < 255" using eq False by (auto split: if_splits)
    obtain l rest where lab: "encode_label h [] (length encoded + 1) = Some (l, rest)" using eq False small by (auto split: option.splits)
    then have l: "l = takeWhile (\<lambda>c. c \<noteq> 46) h" "rest = dropWhile (\<lambda>c. c \<noteq> 46) h" "list_all ldh_char l" "l = [] \<or> hd l \<noteq> 45"
        "length l \<le> 63" "length encoded + 1 + length l \<le> 255"
      using encode_label_eq [of "[]" "length encoded + 1" h] small by (auto simp: Let_def split: if_splits)
    have ldh: "ldh_label l" using eq False small lab l by (auto simp: ldh_label_def split: if_splits)
    have h: "h = l @ rest" using l by simp
    show ?thesis
    proof (cases "rest = []")
      case True
      then have "out = encoded @ wire_part [l]"
        using eq False small lab ldh by (simp add: encode_labels.simps [of "[]"] ldh_label_def split: if_splits)
      then show ?thesis using True ldh h l(6) by (intro exI [of _ "[l]"]) (simp add: hostname_of_def)
    next
      case nonempty: False
      then have dot: "rest ! 0 = 46" using hd_dropWhile [of "\<lambda>c. c \<noteq> 46" h] l(2) by (simp add: hd_conv_nth)
      then have rest: "rest = 46 # tl rest" using nonempty by (cases rest) auto
      have no: "\<not> (tl rest \<noteq> [] \<and> tl rest ! 0 = 46)" and rec: "encode_labels (tl rest) (encoded @ [of_nat (length l)] @ l) = Some out"
        using eq False small lab ldh nonempty dot by (simp_all add: ldh_label_def split: if_splits)
      have "\<exists>ls. hostname_of ls (tl rest) \<and> out = (encoded @ [of_nat (length l)] @ l) @ wire_part ls \<and> length out \<le> 255"
        using ldh nonempty dot no l(6)
        by (intro "1.IH"(1) [OF False _ lab refl _ refl _ refl _ rec]) (use small in \<open>auto simp: ldh_label_def\<close>)
      then obtain ls where ls: "hostname_of ls (tl rest)" "out = encoded @ wire_part (l # ls)" "length out \<le> 255" by auto
      have "hostname_of (l # ls) h" using ls(1) ldh h rest by (metis hostname_Cons_iff)
      then show ?thesis using ls by blast
    qed
  qed
qed

lemma small_label: "b \<le> 63 \<Longrightarrow> b AND 0xC0 = 0" for b :: u8
proof -
  assume "b \<le> 63"
  then have "b < 2 ^ 6" by (simp add: word_le_nat_alt word_less_nat_alt)
  moreover have "mask 6 = (0x3F :: u8)" by (simp add: mask_eq_exp_minus_1)
  ultimately have "b = b AND 0x3F" using less_mask_eq [of b 6] by simp
  then have "b AND 0xC0 = b AND (0x3F AND 0xC0)" by (metis and.assoc)
  then show ?thesis by simp
qed

lemma decode_labels:
  assumes "list_all ldh_label ls" "drop p m = wire_part ls @ 0 # suffix" "length d + length (wire_part ls) \<le> 254"
  shows "decode_loop m p None [] d = Some (p + length (wire_part ls) + 1, d @ wire_part ls @ [0])"
  using assms
proof (induction ls arbitrary: p d)
  case Nil
  then have d: "drop p m = 0 # suffix" by simp
  then have p: "p < length m" by (metis drop_eq_Nil2 list.distinct(1) not_le)
  then have "m ! p = 0" using d by (metis hd_drop_conv_nth list.sel(1))
  then show ?case using Nil p by (subst decode_loop.simps) simp
next
  case (Cons l ls)
  let ?b = "of_nat (length l) :: u8"
  have l: "l \<noteq> []" "length l \<le> 63" using Cons.prems(1) by (simp_all add: ldh_label_def)
  have b: "unat ?b = length l" using l(2) by (intro unat_of_nat_small) simp
  then have b63: "?b \<noteq> 0" "?b \<le> 63" using l by (simp_all add: unat_eq_iff word_le_nat_alt)
  have d: "drop p m = ?b # l @ wire_part ls @ 0 # suffix" using Cons.prems(2) by simp
  then have p: "p < length m" by (metis drop_eq_Nil2 list.distinct(1) not_le)
  then have mp: "m ! p = ?b" using d by (metis hd_drop_conv_nth list.sel(1))
  have d1: "drop (p + 1) m = l @ wire_part ls @ 0 # suffix" using d by (metis Suc_eq_plus1 drop_Suc tl_drop list.sel(3))
  have room: "length l \<le> length m - (p + 1)" using arg_cong [OF d1, of length] by simp
  have "drop (p + 1 + length l) m = wire_part ls @ 0 # suffix"
    using d1 by (metis add.commute append_eq_conv_conj drop_drop)
  then have IH: "decode_loop m (p + 1 + length l) None [] (d @ [?b] @ l) =
      Some (p + 1 + length l + length (wire_part ls) + 1, (d @ [?b] @ l) @ wire_part ls @ [0])"
    using Cons.prems(1,3) by (intro Cons.IH) simp_all
  have "?b AND 0xC0 = 0" using b63(2) by (rule small_label)
  then show ?case
    using p mp b b63 room IH Cons.prems(3) d1 by (subst decode_loop.simps) (simp add: Let_def)
qed

text \<open>
  \<open>encode_hostname\<close> accepts exactly the host names of at most 255 wire bytes: one or more labels of one to
  63 letters, digits and inner hyphens, joined by dots, with an optional final dot.  Its result is the
  wire form of the labels, which is a valid name, and wherever it stands in a message \<open>decode_name\<close> reads
  it back and moves the cursor to its end.
\<close>

theorem hostname_roundtrip:
  "case encode_hostname (Some h) of
     None \<Rightarrow> \<not> (\<exists>ls. ls \<noteq> [] \<and> hostname_of ls h \<and> length (wire_part ls) \<le> 254)
   | Some n \<Rightarrow> (\<exists>ls. ls \<noteq> [] \<and> hostname_of ls h \<and> n = wire_part ls @ [0] \<and> length n \<le> 255) \<and> valid_wire_name n \<and>
       (\<forall>prefix suffix. decode_name (Some (prefix @ n @ suffix)) (length prefix) = Some (length prefix + length n, n))"
proof (cases "encode_hostname (Some h)")
  case None
  have "encode_hostname (Some h) = Some (wire_part ls @ [0])" if "ls \<noteq> []" "hostname_of ls h" "length (wire_part ls) \<le> 254" for ls
  proof -
    have "h \<noteq> []" using that(1,2) by (cases ls) (auto simp: hostname_Cons_iff ldh_label_def)
    then show ?thesis using encode_labels_complete [OF that(2), of "[]"] that(3) by (simp add: encode_hostname_def)
  qed
  then show ?thesis using None by auto
next
  case (Some n)
  then obtain out where out: "encode_labels h [] = Some out" "length out \<le> 254" "n = out @ [0]" "h \<noteq> []"
    by (auto simp: encode_hostname_def split: if_splits option.splits)
  then obtain ls where ls: "hostname_of ls h" "out = wire_part ls" using encode_labels_sound [of h "[]" out] by auto
  have ne: "ls \<noteq> []" using ls(1) out(4) by (auto simp: hostname_of_def)
  have dec: "decode_name (Some (prefix @ n @ suffix)) (length prefix) = Some (length prefix + length n, n)" for prefix suffix
    using decode_labels [of ls "length prefix" "prefix @ n @ suffix" suffix "[]"] ls out
    by (simp add: decode_name_def hostname_of_def)
  then have "valid_wire_name n" using decode_name_valid(1) by blast
  then show ?thesis using Some ls out ne dec by auto
qed

end
