(* ===== verification/Input.thy ===== *)
theory Input
  imports Prelude
begin

text \<open>
  Keyboard and mouse input (\<^verbatim>\<open>kernel/arch/keyboard_helpers.hpp\<close>, \<^verbatim>\<open>keyboard.cpp\<close>, \<^verbatim>\<open>mouse_helpers.hpp\<close>,
  \<^verbatim>\<open>mouse.cpp\<close>, \<^verbatim>\<open>ps2.cpp\<close>): the scan-code and packet decoders, the two event queues an interrupt handler
  fills and the main loop empties, and the start-up dialogue with the mouse.  The keyboard queue is modelled twice, call
  by call and as the interleaving of the atomic accesses of a push and a pop; the locale
  \<open>event_fifo\<close> is what the main loop relies on, and both queues are instances of it.
\<close>

subsection \<open>Keyboard events\<close>

datatype key_code = KeyUnknown | KeyCharacter | KeyEnter | KeyBackspace | KeyArrowLeft | KeyArrowRight | KeyArrowUp | KeyArrowDown |
  KeyEscape | KeyDelete

record key_event =
  ke_key :: key_code
  ke_character :: u8
  ke_ctrl :: bool
  ke_shift :: bool
  ke_pressed :: bool

definition no_key :: key_event where
  "no_key = \<lparr>ke_key = KeyUnknown, ke_character = 0, ke_ctrl = False, ke_shift = False, ke_pressed = False\<rparr>"

subsection \<open>Scan codes\<close>

record set1_decoder =
  sd_extended :: bool
  sd_left_shift :: bool
  sd_right_shift :: bool
  sd_left_ctrl :: bool
  sd_right_ctrl :: bool

definition decoder_reset :: set1_decoder where
  "decoder_reset = \<lparr>sd_extended = False, sd_left_shift = False, sd_right_shift = False, sd_left_ctrl = False, sd_right_ctrl = False\<rparr>"

definition unshifted :: "u8 list" where
  "unshifted =
     [0, 0, 0x31, 0x32, 0x33, 0x34, 0x35, 0x36, 0x37, 0x38,
      0x39, 0x30, 0x2D, 0x3D, 0, 0, 0x71, 0x77, 0x65, 0x72,
      0x74, 0x79, 0x75, 0x69, 0x6F, 0x70, 0x5B, 0x5D, 0, 0,
      0x61, 0x73, 0x64, 0x66, 0x67, 0x68, 0x6A, 0x6B, 0x6C, 0x3B,
      0x27, 0x60, 0, 0x5C, 0x7A, 0x78, 0x63, 0x76, 0x62, 0x6E,
      0x6D, 0x2C, 0x2E, 0x2F, 0, 0, 0, 0x20]"

definition shifted :: "u8 list" where
  "shifted =
     [0, 0, 0x21, 0x40, 0x23, 0x24, 0x25, 0x5E, 0x26, 0x2A,
      0x28, 0x29, 0x5F, 0x2B, 0, 0, 0x51, 0x57, 0x45, 0x52,
      0x54, 0x59, 0x55, 0x49, 0x4F, 0x50, 0x7B, 0x7D, 0, 0,
      0x41, 0x53, 0x44, 0x46, 0x47, 0x48, 0x4A, 0x4B, 0x4C, 0x3A,
      0x22, 0x7E, 0, 0x7C, 0x5A, 0x58, 0x43, 0x56, 0x42, 0x4E,
      0x4D, 0x3C, 0x3E, 0x3F, 0, 0, 0, 0x20]"

text \<open>The arrays are declared with \<^verbatim>\<open>0x3A\<close> elements, which is the number of initialisers.\<close>

definition translate_code :: "u8 \<Rightarrow> bool \<Rightarrow> u8" where
  "translate_code code shift =
     (if unat code \<ge> 0x3A then 0
      else let v = unshifted ! unat code
           in if \<not> shift \<or> v = 0 then v
              else if shifted ! unat code \<noteq> 0 then shifted ! unat code else v)"

definition extended_key :: "u8 \<Rightarrow> key_code" where
  "extended_key code =
     (if code = 0x53 then KeyDelete else if code = 0x4B then KeyArrowLeft else if code = 0x4D then KeyArrowRight
      else if code = 0x48 then KeyArrowUp else if code = 0x50 then KeyArrowDown else KeyUnknown)"

definition feed_scancode :: "u8 \<Rightarrow> set1_decoder \<Rightarrow> key_event option \<times> set1_decoder" where
  "feed_scancode scancode d =
     (if scancode = 0xE0 then (None, d\<lparr>sd_extended := True\<rparr>)
      else let extended = sd_extended d;
               d = d\<lparr>sd_extended := False\<rparr>;
               pressed = (scancode AND 0x80 = 0);
               code = scancode AND 0x7F;
               shift = (sd_left_shift d \<or> sd_right_shift d)
           in if \<not> extended \<and> (code = 0x2A \<or> code = 0x36)
              then (None, if code = 0x2A then d\<lparr>sd_left_shift := pressed\<rparr> else d\<lparr>sd_right_shift := pressed\<rparr>)
              else if code = 0x1D
              then (None, if extended then d\<lparr>sd_right_ctrl := pressed\<rparr> else d\<lparr>sd_left_ctrl := pressed\<rparr>)
              else let (key, character) =
                       (if extended then (extended_key code, 0)
                        else if code = 0x01 then (KeyEscape, 0)
                        else if code = 0x1C then (KeyEnter, 0)
                        else if code = 0x0E then (KeyBackspace, 0)
                        else let c = translate_code code shift in (if c \<noteq> 0 then KeyCharacter else KeyUnknown, c))
                   in (Some \<lparr>ke_key = key, ke_character = character, ke_ctrl = (sd_left_ctrl d \<or> sd_right_ctrl d),
                        ke_shift = shift, ke_pressed = pressed\<rparr>, d))"

subsection \<open>The keyboard queue\<close>

record event_queue =
  eq_events :: "key_event list"
  eq_head :: u32
  eq_tail :: u32

definition kCapacity :: nat where "kCapacity = 128"

definition eq_new :: event_queue where
  "eq_new = \<lparr>eq_events = replicate kCapacity no_key, eq_head = 0, eq_tail = 0\<rparr>"

definition eq_slot :: "u32 \<Rightarrow> nat" where "eq_slot index = unat index mod kCapacity"

definition eq_push :: "key_event \<Rightarrow> event_queue \<Rightarrow> bool \<times> event_queue" where
  "eq_push event q =
     (let head = eq_head q; tail = eq_tail q
      in if unat (head - tail) = kCapacity then (False, q)
         else (True, q\<lparr>eq_events := (eq_events q)[eq_slot head := event], eq_head := head + 1\<rparr>))"

definition eq_empty :: "event_queue \<Rightarrow> bool" where "eq_empty q \<longleftrightarrow> eq_head q = eq_tail q"

definition eq_reset :: "event_queue \<Rightarrow> event_queue" where "eq_reset q = q\<lparr>eq_tail := 0, eq_head := 0\<rparr>"

definition eq_pop :: "event_queue \<Rightarrow> key_event \<times> event_queue" where
  "eq_pop q =
     (let tail = eq_tail q; head = eq_head q
      in if head = tail then (no_key, q)
         else (eq_events q ! eq_slot tail, q\<lparr>eq_tail := tail + 1\<rparr>))"

text \<open>The interrupt handler: decode the byte the controller holds and queue what it completes.\<close>

definition keyboard_on_irq :: "u8 \<Rightarrow> set1_decoder \<times> event_queue \<Rightarrow> set1_decoder \<times> event_queue" where
  "keyboard_on_irq scancode s =
     (case feed_scancode scancode (fst s) of
        (None, d) \<Rightarrow> (d, snd s)
      | (Some event, d) \<Rightarrow> (d, snd (eq_push event (snd s))))"

text \<open>What the terminal makes of a key.\<close>

definition shell_character_for_key :: "key_event \<Rightarrow> u8 option" where
  "shell_character_for_key event =
     (if \<not> ke_pressed event \<or> ke_ctrl event then None
      else case ke_key event of
        KeyCharacter \<Rightarrow> Some (ke_character event)
      | KeyEnter \<Rightarrow> Some 0x0A
      | KeyBackspace \<Rightarrow> Some 0x08
      | _ \<Rightarrow> None)"

subsection \<open>Mouse packets\<close>

record mouse_event =
  me_dx :: u16
  me_dy :: u16
  me_left :: bool
  me_right :: bool
  me_middle :: bool

definition no_motion :: mouse_event where
  "no_motion = \<lparr>me_dx = 0, me_dy = 0, me_left = False, me_right = False, me_middle = False\<rparr>"

record packet_decoder =
  pd_packet :: "u8 list"
  pd_index :: u8

definition packet_reset :: packet_decoder where "packet_reset = \<lparr>pd_packet = [0, 0, 0], pd_index = 0\<rparr>"

text \<open>The signed 16-bit value is kept as the word that represents it.\<close>

definition decode_axis :: "u8 \<Rightarrow> bool \<Rightarrow> u16" where
  "decode_axis raw negative = (if negative then ucast raw OR 0xFF00 else ucast raw)"

definition feed_packet :: "u8 \<Rightarrow> packet_decoder \<Rightarrow> mouse_event option \<times> packet_decoder" where
  "feed_packet b d =
     (if pd_index d = 0
      then if b = 0xFA then (None, d)
           else if b AND 0x08 = 0 then (None, d)
           else (None, d\<lparr>pd_packet := (pd_packet d)[0 := b], pd_index := 1\<rparr>)
      else if pd_index d = 1 then (None, d\<lparr>pd_packet := (pd_packet d)[1 := b], pd_index := 2\<rparr>)
      else let d = d\<lparr>pd_packet := (pd_packet d)[2 := b]\<rparr>;
               flags = pd_packet d ! 0; raw_x = pd_packet d ! 1; raw_y = pd_packet d ! 2;
               d = d\<lparr>pd_index := 0\<rparr>
           in if flags AND 0xC0 \<noteq> 0 then (None, d)
              else (Some \<lparr>me_dx = decode_axis raw_x (flags AND 0x10 \<noteq> 0), me_dy = decode_axis raw_y (flags AND 0x20 \<noteq> 0),
                     me_left = (flags AND 0x01 \<noteq> 0), me_right = (flags AND 0x02 \<noteq> 0), me_middle = (flags AND 0x04 \<noteq> 0)\<rparr>, d))"

subsection \<open>The mouse queue\<close>

record mouse_queue =
  mq_events :: "mouse_event list"
  mq_head :: u8
  mq_tail :: u8
  mq_count :: u8

definition kEventCapacity :: nat where "kEventCapacity = 64"

definition mq_new :: mouse_queue where
  "mq_new = \<lparr>mq_events = replicate kEventCapacity no_motion, mq_head = 0, mq_tail = 0, mq_count = 0\<rparr>"

definition reset_queue :: "mouse_queue \<Rightarrow> mouse_queue" where "reset_queue q = q\<lparr>mq_head := 0, mq_tail := 0, mq_count := 0\<rparr>"

definition mq_next :: "u8 \<Rightarrow> u8" where "mq_next index = of_nat ((unat index + 1) mod kEventCapacity)"

definition push_event :: "mouse_event \<Rightarrow> mouse_queue \<Rightarrow> mouse_queue" where
  "push_event event q =
     (if unat (mq_count q) = kEventCapacity then q
      else q\<lparr>mq_events := (mq_events q)[unat (mq_head q) := event], mq_head := mq_next (mq_head q), mq_count := mq_count q + 1\<rparr>)"

definition mouse_has_event :: "mouse_queue \<Rightarrow> bool" where "mouse_has_event q \<longleftrightarrow> mq_count q \<noteq> 0"

definition mouse_read_event :: "mouse_queue \<Rightarrow> mouse_event \<times> mouse_queue" where
  "mouse_read_event q =
     (if mq_count q = 0 then (no_motion, q)
      else (mq_events q ! unat (mq_tail q), q\<lparr>mq_tail := mq_next (mq_tail q), mq_count := mq_count q - 1\<rparr>))"

definition mouse_on_irq :: "u8 \<Rightarrow> packet_decoder \<times> mouse_queue \<Rightarrow> packet_decoder \<times> mouse_queue" where
  "mouse_on_irq b s =
     (case feed_packet b (fst s) of
        (None, d) \<Rightarrow> (d, snd s)
      | (Some event, d) \<Rightarrow> (d, push_event event (snd s)))"

subsection \<open>The controller\<close>

text \<open>
  Port access: the device is any function from what it has seen so far, the number of reads and the bytes written, to the
  byte a read of a port returns.
\<close>

record port_io =
  io_reads :: nat
  io_writes :: "(u16 \<times> u8) list"

type_synonym port_device = "port_io \<Rightarrow> u16 \<Rightarrow> u8"

definition inb :: "port_device \<Rightarrow> u16 \<Rightarrow> port_io \<Rightarrow> u8 \<times> port_io" where
  "inb dev port io = (dev io port, io\<lparr>io_reads := Suc (io_reads io)\<rparr>)"

definition outb :: "u16 \<Rightarrow> u8 \<Rightarrow> port_io \<Rightarrow> port_io" where
  "outb port v io = io\<lparr>io_writes := io_writes io @ [(port, v)]\<rparr>"

fun wait_input_clear :: "port_device \<Rightarrow> nat \<Rightarrow> port_io \<Rightarrow> bool \<times> port_io" where
  "wait_input_clear dev 0 io = (False, io)"
| "wait_input_clear dev (Suc limit) io =
     (let (status, io) = inb dev 0x64 io
      in if status AND 0x02 = 0 then (True, io) else wait_input_clear dev limit io)"

fun wait_output_full :: "port_device \<Rightarrow> nat \<Rightarrow> port_io \<Rightarrow> bool \<times> port_io" where
  "wait_output_full dev 0 io = (False, io)"
| "wait_output_full dev (Suc limit) io =
     (let (status, io) = inb dev 0x64 io
      in if status AND 0x01 \<noteq> 0 then (True, io) else wait_output_full dev limit io)"

definition kWaitLimit :: nat where "kWaitLimit = 1000000"

definition write_port :: "port_device \<Rightarrow> u16 \<Rightarrow> u8 \<Rightarrow> port_io \<Rightarrow> bool \<times> port_io" where
  "write_port dev port v io =
     (case wait_input_clear dev kWaitLimit io of (ready, io) \<Rightarrow> if ready then (True, outb port v io) else (False, io))"

definition write_controller_command :: "port_device \<Rightarrow> u8 \<Rightarrow> port_io \<Rightarrow> bool \<times> port_io" where
  "write_controller_command dev command io = write_port dev 0x64 command io"

definition write_data :: "port_device \<Rightarrow> u8 \<Rightarrow> port_io \<Rightarrow> bool \<times> port_io" where
  "write_data dev v io = write_port dev 0x60 v io"

definition read_data :: "port_device \<Rightarrow> port_io \<Rightarrow> u8 option \<times> port_io" where
  "read_data dev io =
     (case wait_output_full dev kWaitLimit io of (ready, io) \<Rightarrow>
        if ready then (case inb dev 0x60 io of (v, io) \<Rightarrow> (Some v, io)) else (None, io))"

text \<open>Steps that stop at the first failure.\<close>

definition and_then :: "bool \<times> port_io \<Rightarrow> (port_io \<Rightarrow> bool \<times> port_io) \<Rightarrow> bool \<times> port_io" where
  "and_then step rest = (if fst step then rest (snd step) else step)"

definition send_mouse_command :: "port_device \<Rightarrow> u8 \<Rightarrow> port_io \<Rightarrow> bool \<times> port_io" where
  "send_mouse_command dev command io =
     and_then (write_controller_command dev 0xD4 io) (\<lambda>io.
     and_then (write_data dev command io) (\<lambda>io.
     case read_data dev io of (response, io) \<Rightarrow> (response = Some 0xFA, io)))"

definition mouse_config :: "u8 \<Rightarrow> u8" where "mouse_config config = (config OR 0x02) AND NOT 0x20"

definition mouse_initialize :: "port_device \<Rightarrow> mouse_queue \<Rightarrow> port_io \<Rightarrow> bool \<times> packet_decoder \<times> mouse_queue \<times> port_io" where
  "mouse_initialize dev q io =
     (let (success, io) =
        and_then (write_controller_command dev 0xA8 io) (\<lambda>io.
        and_then (write_controller_command dev 0x20 io) (\<lambda>io.
        case read_data dev io of (None, io) \<Rightarrow> (False, io)
        | (Some config, io) \<Rightarrow>
        and_then (write_controller_command dev 0x60 io) (\<lambda>io.
        and_then (write_data dev (mouse_config config) io) (\<lambda>io.
        and_then (send_mouse_command dev 0xF6 io) (\<lambda>io.
        send_mouse_command dev 0xF4 io)))))
      in (success, packet_reset, reset_queue q, io))"

fun drain_controller :: "port_device \<Rightarrow> nat \<Rightarrow> port_io \<Rightarrow> port_io" where
  "drain_controller dev 0 io = io"
| "drain_controller dev (Suc left) io =
     (let (status, io) = inb dev 0x64 io
      in if status AND 0x01 = 0 then io else drain_controller dev left (snd (inb dev 0x60 io)))"

definition keyboard_initialize :: "port_device \<Rightarrow> event_queue \<Rightarrow> port_io \<Rightarrow> set1_decoder \<times> event_queue \<times> port_io" where
  "keyboard_initialize dev q io = (decoder_reset, eq_reset q, drain_controller dev 64 io)"

subsection \<open>Ring buffers\<close>

definition ring :: "'e list \<Rightarrow> nat \<Rightarrow> nat \<Rightarrow> 'e list" where
  "ring ev start n = map (\<lambda>k. ev ! ((start + k) mod length ev)) [0..<n]"

lemma length_ring [simp]: "length (ring ev start n) = n" by (simp add: ring_def)

lemma ring_Nil [simp]: "ring ev start 0 = []" by (simp add: ring_def)

lemma ring_start: "ring ev (start mod length ev) n = ring ev start n"
  by (simp add: ring_def mod_add_left_eq)

lemma mod_shift_neq: "k < n \<Longrightarrow> n < c \<Longrightarrow> (s + k) mod c \<noteq> (s + n) mod (c :: nat)"
proof
  assume a: "k < n" "n < c" "(s + k) mod c = (s + n) mod c"
  then have "c dvd (s + n) - (s + k)" by (metis add_le_cancel_left less_imp_le mod_eq_dvd_iff_nat)
  then show False using a(1,2) by (auto dest: dvd_imp_le)
qed

lemma ring_push: "n < length ev \<Longrightarrow> ring (ev[(start + n) mod length ev := e]) start (Suc n) = ring ev start n @ [e]"
proof -
  assume n: "n < length ev"
  then have "0 < length ev" by linarith
  then have "(start + n) mod length ev < length ev" by (rule mod_less_divisor)
  moreover have "(start + n) mod length ev \<noteq> (start + x) mod length ev" if "x < n" for x using mod_shift_neq [OF that n] by metis
  ultimately show ?thesis by (simp add: ring_def)
qed

lemma ring_pop: "ring ev start (Suc n) = ev ! (start mod length ev) # ring ev (Suc start) n"
  by (rule nth_equalityI) (auto simp: ring_def nth_Cons simp del: upt_Suc split: nat.splits)

subsection \<open>The contract of an event queue\<close>

datatype 'e queue_op = Push 'e | Pop

fun queue_run :: "('e \<Rightarrow> 'q \<Rightarrow> 'q) \<Rightarrow> ('q \<Rightarrow> 'e \<times> 'q) \<Rightarrow> 'e queue_op list \<Rightarrow> 'q \<Rightarrow> 'e list \<times> 'q" where
  "queue_run push pop [] q = ([], q)"
| "queue_run push pop (Push e # ops) q = queue_run push pop ops (push e q)"
| "queue_run push pop (Pop # ops) q =
     (case pop q of (e, q) \<Rightarrow> case queue_run push pop ops q of (es, q) \<Rightarrow> (e # es, q))"

definition list_push :: "nat \<Rightarrow> 'e \<Rightarrow> 'e list \<Rightarrow> 'e list" where
  "list_push capacity e xs = (if length xs < capacity then xs @ [e] else xs)"

definition list_pop :: "'e \<Rightarrow> 'e list \<Rightarrow> 'e \<times> 'e list" where
  "list_pop idle xs = (case xs of [] \<Rightarrow> (idle, []) | x # xs \<Rightarrow> (x, xs))"

locale event_fifo =
  fixes inv :: "'q \<Rightarrow> bool" and contents :: "'q \<Rightarrow> 'e list" and capacity :: nat
    and push :: "'e \<Rightarrow> 'q \<Rightarrow> 'q" and pop :: "'q \<Rightarrow> 'e \<times> 'q" and idle :: 'e
  assumes push_inv: "inv q \<Longrightarrow> inv (push e q)"
    and pop_inv: "inv q \<Longrightarrow> inv (snd (pop q))"
    and push_contents: "inv q \<Longrightarrow> contents (push e q) = list_push capacity e (contents q)"
    and pop_contents: "inv q \<Longrightarrow> (fst (pop q), contents (snd (pop q))) = list_pop idle (contents q)"
begin

lemma run_refines:
  "inv q \<Longrightarrow> queue_run (list_push capacity) (list_pop idle) ops (contents q) =
     (fst (queue_run push pop ops q), contents (snd (queue_run push pop ops q)))"
proof (induction ops arbitrary: q)
  case (Cons op ops)
  show ?case
  proof (cases op)
    case (Push e)
    then show ?thesis using Cons.IH [OF push_inv [OF Cons.prems]] push_contents [OF Cons.prems] by simp
  next
    case Pop
    then show ?thesis
      using Cons.IH [OF pop_inv [OF Cons.prems]] pop_contents [OF Cons.prems, symmetric] by (auto split: prod.splits)
  qed
qed simp

end

subsection \<open>Both queues keep it\<close>

definition eq_ok :: "event_queue \<Rightarrow> bool" where
  "eq_ok q \<longleftrightarrow> length (eq_events q) = kCapacity \<and> unat (eq_head q - eq_tail q) \<le> kCapacity"

definition eq_contents :: "event_queue \<Rightarrow> key_event list" where
  "eq_contents q = ring (eq_events q) (unat (eq_tail q)) (unat (eq_head q - eq_tail q))"

lemma eq_slot_add: "eq_slot (t + of_nat k) = (unat t + k) mod kCapacity"
proof -
  have "unat (t + of_nat k) = (unat t + k) mod 2 ^ 32" by (simp add: unat_word_ariths unsigned_of_nat take_bit_eq_mod mod_add_right_eq)
  then show ?thesis by (simp add: eq_slot_def kCapacity_def mod_mod_cancel)
qed

lemma unat_Suc_small: "unat (w :: u32) < 2 ^ 32 - 1 \<Longrightarrow> unat (w + 1) = Suc (unat w)"
  by (simp add: unat_word_ariths)

lemma eq_head_slot: "eq_slot (eq_head q) = (unat (eq_tail q) + unat (eq_head q - eq_tail q)) mod kCapacity"
  using eq_slot_add [of "eq_tail q" "unat (eq_head q - eq_tail q)"] by simp

interpretation keyboard_fifo: event_fifo eq_ok eq_contents kCapacity "\<lambda>e q. snd (eq_push e q)" eq_pop no_key
proof
  fix q :: event_queue and e
  assume ok: "eq_ok q"
  let ?n = "unat (eq_head q - eq_tail q)"
  have len: "length (eq_events q) = 128" "?n \<le> 128" using ok by (simp_all add: eq_ok_def kCapacity_def)
  have up: "unat (eq_head q + 1 - eq_tail q) = Suc ?n"
    using unat_Suc_small [of "eq_head q - eq_tail q"] len(2) by (simp add: algebra_simps)
  show "eq_ok (snd (eq_push e q))"
    using ok up by (auto simp: eq_ok_def eq_push_def Let_def)
  show "eq_contents (snd (eq_push e q)) = list_push kCapacity e (eq_contents q)"
  proof (cases "?n = kCapacity")
    case True
    then show ?thesis by (simp add: eq_push_def list_push_def eq_contents_def)
  next
    case False
    then show ?thesis
      using len up ring_push [of ?n "eq_events q" "unat (eq_tail q)" e]
      by (simp add: eq_push_def list_push_def eq_contents_def eq_head_slot kCapacity_def Let_def)
  qed
  have down: "unat (eq_head q - (eq_tail q + 1)) = ?n - 1" if "eq_head q \<noteq> eq_tail q"
  proof -
    have "eq_head q - eq_tail q \<noteq> 0" using that by simp
    then have "unat (eq_head q - eq_tail q - 1) = ?n - 1" by (rule unat_minus_one)
    then show ?thesis by (simp add: algebra_simps)
  qed
  show "eq_ok (snd (eq_pop q))" using ok down by (auto simp: eq_ok_def eq_pop_def Let_def)
  show "(fst (eq_pop q), eq_contents (snd (eq_pop q))) = list_pop no_key (eq_contents q)"
  proof (cases "eq_head q = eq_tail q")
    case True
    then show ?thesis by (simp add: eq_pop_def list_pop_def eq_contents_def)
  next
    case False
    then obtain n where n: "?n = Suc n" by (metis diff_eq_diff_eq diff_self not0_implies_Suc unat_eq_zero eq_iff_diff_eq_0)
    have "ring (eq_events q) (unat (eq_tail q + 1)) n = ring (eq_events q) (Suc (unat (eq_tail q))) n"
      using eq_slot_add [of "eq_tail q" 1] ring_start [of "eq_events q"] len(1) by (metis One_nat_def add_Suc_right eq_slot_def kCapacity_def of_nat_1 plus_1_eq_Suc add.right_neutral)
    then show ?thesis
      using False n down [OF False] len ring_pop [of "eq_events q" "unat (eq_tail q)" n]
      by (simp add: eq_pop_def list_pop_def eq_contents_def Let_def eq_slot_def kCapacity_def)
  qed
qed

definition mq_ok :: "mouse_queue \<Rightarrow> bool" where
  "mq_ok q \<longleftrightarrow> length (mq_events q) = kEventCapacity \<and> unat (mq_tail q) < kEventCapacity \<and> unat (mq_count q) \<le> kEventCapacity \<and>
     unat (mq_head q) = (unat (mq_tail q) + unat (mq_count q)) mod kEventCapacity"

definition mq_contents :: "mouse_queue \<Rightarrow> mouse_event list" where
  "mq_contents q = ring (mq_events q) (unat (mq_tail q)) (unat (mq_count q))"

lemma unat_mq_next: "unat (mq_next i) = (unat i + 1) mod kEventCapacity"
  unfolding mq_next_def by (rule unat_of_nat_small) (simp add: kEventCapacity_def less_trans [OF mod_less_divisor])

interpretation mouse_fifo: event_fifo mq_ok mq_contents kEventCapacity push_event mouse_read_event no_motion
proof
  fix q :: mouse_queue and e
  assume ok: "mq_ok q"
  let ?n = "unat (mq_count q)"
  have len: "length (mq_events q) = 64" "?n \<le> 64" "unat (mq_tail q) < 64" "unat (mq_head q) = (unat (mq_tail q) + ?n) mod 64"
    using ok by (simp_all add: mq_ok_def kEventCapacity_def)
  have up: "unat (mq_count q + 1) = Suc ?n" using len(2) by (simp add: unat_word_ariths)
  show "mq_ok (push_event e q)"
    using ok up len(2) by (auto simp: mq_ok_def push_event_def unat_mq_next kEventCapacity_def mod_Suc_eq)
  show "mq_contents (push_event e q) = list_push kEventCapacity e (mq_contents q)"
    using len up ring_push [of ?n "mq_events q" "unat (mq_tail q)" e]
    by (auto simp: push_event_def list_push_def mq_contents_def kEventCapacity_def)
  have down: "unat (mq_count q - 1) = ?n - 1" if "mq_count q \<noteq> 0" using that by (rule unat_minus_one)
  have pos: "0 < ?n" if "mq_count q \<noteq> 0" using that by (simp add: unat_gt_0)
  show "mq_ok (snd (mouse_read_event q))"
    using ok down pos by (auto simp: mq_ok_def mouse_read_event_def unat_mq_next kEventCapacity_def mod_simps)
  show "(fst (mouse_read_event q), mq_contents (snd (mouse_read_event q))) = list_pop no_motion (mq_contents q)"
  proof (cases "mq_count q = 0")
    case True
    then show ?thesis by (simp add: mouse_read_event_def list_pop_def mq_contents_def)
  next
    case False
    then obtain n where n: "?n = Suc n" using pos gr0_implies_Suc by blast
    have "ring (mq_events q) (Suc (unat (mq_tail q)) mod 64) n = ring (mq_events q) (Suc (unat (mq_tail q))) n"
      using ring_start [of "mq_events q" "Suc (unat (mq_tail q))" n] len(1) by simp
    then show ?thesis
      using False n down [OF False] len ring_pop [of "mq_events q" "unat (mq_tail q)" n]
      by (simp add: mouse_read_event_def list_pop_def mq_contents_def unat_mq_next kEventCapacity_def)
  qed
qed

text \<open>
  C34: both event queues are bounded first-in first-out queues.  Any sequence of pushes and reads on the empty queues returns what
  the same sequence returns on a list that drops what comes in beyond 128 key events or 64 mouse events, although the
  counters of the keyboard queue wrap around at \<open>2\<^sup>3\<^sup>2\<close>.
\<close>

theorem input_queues_fifo:
  "fst (queue_run (\<lambda>e q. snd (eq_push e q)) eq_pop key_ops eq_new) = fst (queue_run (list_push 128) (list_pop no_key) key_ops []) \<and>
   fst (queue_run push_event mouse_read_event mouse_ops mq_new) = fst (queue_run (list_push 64) (list_pop no_motion) mouse_ops [])"
proof
  have "eq_ok eq_new" "eq_contents eq_new = []" by (simp_all add: eq_ok_def eq_new_def eq_contents_def)
  then show "fst (queue_run (\<lambda>e q. snd (eq_push e q)) eq_pop key_ops eq_new) = fst (queue_run (list_push 128) (list_pop no_key) key_ops [])"
    using keyboard_fifo.run_refines [of eq_new key_ops] by (simp add: kCapacity_def)
  have "mq_ok mq_new" "mq_contents mq_new = []" by (simp_all add: mq_ok_def mq_new_def mq_contents_def kEventCapacity_def)
  then show "fst (queue_run push_event mouse_read_event mouse_ops mq_new) = fst (queue_run (list_push 64) (list_pop no_motion) mouse_ops [])"
    using mouse_fifo.run_refines [of mq_new mouse_ops] by (simp add: kEventCapacity_def)
qed

subsection \<open>The keyboard queue between the interrupt handler and the main loop\<close>

text \<open>
  A push and a pop, taken apart into their accesses to the shared queue and interleaved in any way.  The acquire and release
  accesses of the source order the memory operations as written.  The event is several bytes long, so while it is
  being stored the slot may hold anything (\<open>push_tear\<close>).  Two lists record the history: the events whose push
  succeeded and the events that pops returned.
\<close>

datatype push_pc = PushIdle | PushHead key_event u32 | PushTail key_event u32 u32 | PushWriting key_event u32 | PushStored key_event u32
datatype pop_pc = PopIdle | PopTail u32 | PopHead u32 u32 | PopRead u32 key_event

record spsc =
  sp_queue :: event_queue
  sp_push :: push_pc
  sp_pop :: pop_pc
  sp_sent :: "key_event list"
  sp_received :: "key_event list"

definition spsc_start :: spsc where
  "spsc_start = \<lparr>sp_queue = eq_new, sp_push = PushIdle, sp_pop = PopIdle, sp_sent = [], sp_received = []\<rparr>"

definition store_slot :: "u32 \<Rightarrow> key_event \<Rightarrow> spsc \<Rightarrow> spsc" where
  "store_slot index e s = s\<lparr>sp_queue := (sp_queue s)\<lparr>eq_events := (eq_events (sp_queue s))[eq_slot index := e]\<rparr>\<rparr>"

inductive spsc_step :: "spsc \<Rightarrow> spsc \<Rightarrow> bool" where
  push_load_head: "sp_push s = PushIdle \<Longrightarrow> spsc_step s (s\<lparr>sp_push := PushHead e (eq_head (sp_queue s))\<rparr>)"
| push_load_tail: "sp_push s = PushHead e h \<Longrightarrow> spsc_step s (s\<lparr>sp_push := PushTail e h (eq_tail (sp_queue s))\<rparr>)"
| push_refused: "sp_push s = PushTail e h t \<Longrightarrow> unat (h - t) = kCapacity \<Longrightarrow> spsc_step s (s\<lparr>sp_push := PushIdle\<rparr>)"
| push_tear: "sp_push s = PushTail e h t \<Longrightarrow> unat (h - t) \<noteq> kCapacity \<Longrightarrow> spsc_step s (store_slot h any (s\<lparr>sp_push := PushWriting e h\<rparr>))"
| push_store: "sp_push s = PushWriting e h \<Longrightarrow> spsc_step s (store_slot h e (s\<lparr>sp_push := PushStored e h\<rparr>))"
| push_publish: "sp_push s = PushStored e h \<Longrightarrow>
    spsc_step s (s\<lparr>sp_queue := (sp_queue s)\<lparr>eq_head := h + 1\<rparr>, sp_push := PushIdle, sp_sent := sp_sent s @ [e]\<rparr>)"
| pop_load_tail: "sp_pop s = PopIdle \<Longrightarrow> spsc_step s (s\<lparr>sp_pop := PopTail (eq_tail (sp_queue s))\<rparr>)"
| pop_load_head: "sp_pop s = PopTail t \<Longrightarrow> spsc_step s (s\<lparr>sp_pop := PopHead t (eq_head (sp_queue s))\<rparr>)"
| pop_nothing: "sp_pop s = PopHead t h \<Longrightarrow> h = t \<Longrightarrow> spsc_step s (s\<lparr>sp_pop := PopIdle\<rparr>)"
| pop_read: "sp_pop s = PopHead t h \<Longrightarrow> h \<noteq> t \<Longrightarrow> spsc_step s (s\<lparr>sp_pop := PopRead t (eq_events (sp_queue s) ! eq_slot t)\<rparr>)"
| pop_release: "sp_pop s = PopRead t e \<Longrightarrow>
    spsc_step s (s\<lparr>sp_queue := (sp_queue s)\<lparr>eq_tail := t + 1\<rparr>, sp_pop := PopIdle, sp_received := sp_received s @ [e]\<rparr>)"

inductive spsc_reachable :: "spsc \<Rightarrow> bool" where
  start: "spsc_reachable spsc_start"
| step: "spsc_reachable s \<Longrightarrow> spsc_step s s' \<Longrightarrow> spsc_reachable s'"

definition push_ok :: "nat \<Rightarrow> nat \<Rightarrow> key_event list \<Rightarrow> push_pc \<Rightarrow> bool" where
  "push_ok sent received ev pc \<longleftrightarrow> (case pc of
       PushIdle \<Rightarrow> True
     | PushHead e h \<Rightarrow> h = of_nat sent
     | PushTail e h t \<Rightarrow> h = of_nat sent \<and> (\<exists>j. t = of_nat j \<and> j \<le> received \<and> sent \<le> j + 128)
     | PushWriting e h \<Rightarrow> h = of_nat sent \<and> sent < received + 128
     | PushStored e h \<Rightarrow> h = of_nat sent \<and> sent < received + 128 \<and> ev ! (sent mod 128) = e)"

definition pop_ok :: "nat \<Rightarrow> nat \<Rightarrow> key_event list \<Rightarrow> pop_pc \<Rightarrow> bool" where
  "pop_ok sent received history pc \<longleftrightarrow> (case pc of
       PopIdle \<Rightarrow> True
     | PopTail t \<Rightarrow> t = of_nat received
     | PopHead t h \<Rightarrow> t = of_nat received \<and> (\<exists>j. h = of_nat j \<and> received \<le> j \<and> j \<le> sent)
     | PopRead t e \<Rightarrow> t = of_nat received \<and> received < sent \<and> e = history ! received)"

definition history_ok :: "event_queue \<Rightarrow> key_event list \<Rightarrow> key_event list \<Rightarrow> bool" where
  "history_ok q sent received \<longleftrightarrow>
     length (eq_events q) = 128 \<and> eq_head q = of_nat (length sent) \<and> eq_tail q = of_nat (length received) \<and>
     length received \<le> length sent \<and> length sent \<le> length received + 128 \<and> received = take (length received) sent \<and>
     (\<forall>k. length received \<le> k \<longrightarrow> k < length sent \<longrightarrow> eq_events q ! (k mod 128) = sent ! k)"

definition spsc_ok :: "spsc \<Rightarrow> bool" where
  "spsc_ok s \<longleftrightarrow> history_ok (sp_queue s) (sp_sent s) (sp_received s) \<and>
     push_ok (length (sp_sent s)) (length (sp_received s)) (eq_events (sp_queue s)) (sp_push s) \<and>
     pop_ok (length (sp_sent s)) (length (sp_received s)) (sp_sent s) (sp_pop s)"

lemma eq_slot_of_nat: "eq_slot (of_nat k) = k mod 128"
  using eq_slot_add [of 0 k] by (simp add: kCapacity_def)

lemma of_nat_gap: "j \<le> k \<Longrightarrow> k \<le> j + 128 \<Longrightarrow> unat (of_nat k - of_nat j :: u32) = k - j"
proof -
  assume "j \<le> k" "k \<le> j + 128"
  then have "(of_nat k - of_nat j :: u32) = of_nat (k - j)" "k - j < 2 ^ 32" by (simp_all add: of_nat_diff)
  then show ?thesis by (simp add: unat_of_nat_small)
qed

text \<open>Storing into the slot behind the last event leaves the queued events alone.\<close>

lemma history_store:
  assumes "history_ok q sent received" "length sent < length received + 128"
  shows "history_ok (q\<lparr>eq_events := (eq_events q)[length sent mod 128 := e]\<rparr>) sent received"
    "(eq_events q)[length sent mod 128 := e] ! (length sent mod 128) = e"
proof -
  have "length (eq_events q) = 128" using assms(1) by (simp add: history_ok_def)
  then show "(eq_events q)[length sent mod 128 := e] ! (length sent mod 128) = e" by simp
  have "(eq_events q)[length sent mod 128 := e] ! (k mod 128) = eq_events q ! (k mod 128)" if "length received \<le> k" "k < length sent" for k
  proof -
    have "length sent - k < 128" using that assms(2) by linarith
    then have "length sent mod 128 \<noteq> k mod 128" using mod_shift_neq [of 0 "length sent - k" 128 k] that by auto
    then show ?thesis by simp
  qed
  then show "history_ok (q\<lparr>eq_events := (eq_events q)[length sent mod 128 := e]\<rparr>) sent received" using assms(1) by (simp add: history_ok_def)
qed

lemma history_publish:
  "history_ok q sent received \<Longrightarrow> length sent < length received + 128 \<Longrightarrow> eq_events q ! (length sent mod 128) = e \<Longrightarrow>
   history_ok (q\<lparr>eq_head := of_nat (length sent) + 1\<rparr>) (sent @ [e]) received"
  by (auto simp: history_ok_def nth_append less_Suc_eq add.commute)

lemma history_release:
  "history_ok q sent received \<Longrightarrow> length received < length sent \<Longrightarrow>
   history_ok (q\<lparr>eq_tail := of_nat (length received) + 1\<rparr>) sent (received @ [sent ! length received])"
  by (auto simp: history_ok_def add.commute take_Suc_conv_app_nth)

lemma pop_ok_publish: "pop_ok (length sent) received sent pc \<Longrightarrow> pop_ok (Suc (length sent)) received (sent @ [e]) pc"
  by (auto simp: pop_ok_def nth_append less_Suc_eq split: pop_pc.splits intro: le_SucI)

lemma push_ok_release: "push_ok sent received ev pc \<Longrightarrow> push_ok sent (Suc received) ev pc"
  by (auto simp: push_ok_def split: push_pc.splits intro: le_SucI)

lemma spsc_step_ok: "spsc_step s s' \<Longrightarrow> spsc_ok s \<Longrightarrow> spsc_ok s'"
proof (induction rule: spsc_step.induct)
  case (push_load_head s e)
  then show ?case by (simp add: spsc_ok_def push_ok_def history_ok_def)
next
  case (push_load_tail s e h)
  then have "push_ok (length (sp_sent s)) (length (sp_received s)) (eq_events (sp_queue s)) (PushTail e h (eq_tail (sp_queue s)))"
    unfolding spsc_ok_def push_ok_def history_ok_def by auto
  then show ?case using push_load_tail by (simp add: spsc_ok_def)
next
  case (push_refused s e h t)
  then show ?case by (simp add: spsc_ok_def push_ok_def)
next
  case (push_tear s e h t any)
  then obtain j where j: "h = of_nat (length (sp_sent s))" "t = of_nat j" "j \<le> length (sp_received s)" "length (sp_sent s) \<le> j + 128"
    "length (sp_received s) \<le> length (sp_sent s)" by (auto simp: spsc_ok_def push_ok_def history_ok_def)
  then have "length (sp_sent s) - j \<noteq> 128" using push_tear(2) of_nat_gap [of j "length (sp_sent s)"] by (simp add: kCapacity_def)
  then have lt: "length (sp_sent s) < length (sp_received s) + 128" using j by linarith
  show ?case using history_store(1) [OF _ lt] lt push_tear(3) j(1) by (simp add: spsc_ok_def store_slot_def eq_slot_of_nat push_ok_def)
next
  case (push_store s e h)
  then have h: "h = of_nat (length (sp_sent s))" and lt: "length (sp_sent s) < length (sp_received s) + 128" by (auto simp: spsc_ok_def push_ok_def)
  show ?case using history_store [OF _ lt] lt push_store(2) h by (simp add: spsc_ok_def store_slot_def eq_slot_of_nat push_ok_def)
next
  case (push_publish s e h)
  then have h: "h = of_nat (length (sp_sent s))" and lt: "length (sp_sent s) < length (sp_received s) + 128"
    and e: "eq_events (sp_queue s) ! (length (sp_sent s) mod 128) = e" by (auto simp: spsc_ok_def push_ok_def)
  show ?case using history_publish [OF _ lt e] pop_ok_publish push_publish(2) h by (simp add: spsc_ok_def) (simp add: push_ok_def)
next
  case (pop_load_tail s)
  then show ?case by (simp add: spsc_ok_def pop_ok_def history_ok_def)
next
  case (pop_load_head s t)
  then have "pop_ok (length (sp_sent s)) (length (sp_received s)) (sp_sent s) (PopHead t (eq_head (sp_queue s)))"
    unfolding spsc_ok_def pop_ok_def history_ok_def by auto
  then show ?case using pop_load_head by (simp add: spsc_ok_def)
next
  case (pop_nothing s t h)
  then show ?case by (simp add: spsc_ok_def pop_ok_def)
next
  case (pop_read s t h)
  then obtain j where j: "t = of_nat (length (sp_received s))" "h = of_nat j" "length (sp_received s) \<le> j" "j \<le> length (sp_sent s)"
    by (auto simp: spsc_ok_def pop_ok_def)
  then have lt: "length (sp_received s) < length (sp_sent s)" using pop_read(2) by (cases "j = length (sp_received s)") auto
  then have "eq_events (sp_queue s) ! eq_slot t = sp_sent s ! length (sp_received s)"
    using pop_read(3) j(1) by (simp add: spsc_ok_def history_ok_def eq_slot_of_nat)
  then show ?case using pop_read j(1) lt by (simp add: spsc_ok_def) (simp add: pop_ok_def)
next
  case (pop_release s t e)
  then have t: "t = of_nat (length (sp_received s))" and lt: "length (sp_received s) < length (sp_sent s)"
    and e: "e = sp_sent s ! length (sp_received s)" by (auto simp: spsc_ok_def pop_ok_def)
  show ?case using history_release [OF _ lt] push_ok_release pop_release(2) t e by (simp add: spsc_ok_def) (simp add: pop_ok_def)
qed

lemma spsc_reachable_ok: "spsc_reachable s \<Longrightarrow> spsc_ok s"
proof (induction rule: spsc_reachable.induct)
  case start
  then show ?case by (simp add: spsc_ok_def history_ok_def push_ok_def pop_ok_def spsc_start_def eq_new_def kCapacity_def)
next
  case (step s s')
  then show ?case using spsc_step_ok by blast
qed

text \<open>
  C15: no key is lost, duplicated or torn.  However the accesses of the interrupt handler and of the main loop interleave, at every
  moment the events whose push succeeded are, in order, the events the main loop has received followed by the
  contents of the queue, which are at most 128.
\<close>

theorem keyboard_queue_interleaved:
  assumes "spsc_reachable s"
  shows "sp_sent s = sp_received s @ eq_contents (sp_queue s) \<and> length (eq_contents (sp_queue s)) \<le> 128"
proof -
  let ?P = "length (sp_sent s)" let ?C = "length (sp_received s)" let ?q = "sp_queue s"
  have h: "history_ok ?q (sp_sent s) (sp_received s)" using spsc_reachable_ok [OF assms] by (simp add: spsc_ok_def)
  then have n: "unat (eq_head ?q - eq_tail ?q) = ?P - ?C" by (simp add: history_ok_def of_nat_gap)
  have tail: "unat (eq_tail ?q) mod 128 = ?C mod 128" using h eq_slot_of_nat [of ?C] by (simp add: history_ok_def eq_slot_def kCapacity_def)
  have "eq_contents ?q = drop ?C (sp_sent s)"
  proof (rule nth_equalityI)
    show "length (eq_contents ?q) = length (drop ?C (sp_sent s))" by (simp add: eq_contents_def n)
    fix k assume "k < length (eq_contents ?q)"
    then have k: "k < ?P - ?C" by (simp add: eq_contents_def n)
    have "(unat (eq_tail ?q) + k) mod 128 = (?C + k) mod 128" using tail by (metis mod_add_left_eq)
    moreover have "length (eq_events ?q) = 128" "eq_events ?q ! ((?C + k) mod 128) = sp_sent s ! (?C + k)"
      using h k by (simp_all add: history_ok_def)
    ultimately show "eq_contents ?q ! k = drop ?C (sp_sent s) ! k" using k by (simp add: eq_contents_def n ring_def)
  qed
  moreover have "sp_received s = take ?C (sp_sent s)" "?P \<le> ?C + 128" using h by (simp_all add: history_ok_def)
  ultimately show ?thesis by (metis append_take_drop_id eq_contents_def length_ring n le_diff_conv add.commute)
qed

subsection \<open>The mouse queue under interrupts\<close>

text \<open>
  The mouse queue counts its events in one volatile byte, which the handler increments and the main loop decrements by reading it
  and writing it back.  This is \<^verbatim>\<open>read_event\<close> with the interrupt that queues \<open>event\<close> between the two.
\<close>

definition read_event_interrupted :: "mouse_event \<Rightarrow> mouse_queue \<Rightarrow> mouse_event \<times> mouse_queue" where
  "read_event_interrupted event q =
     (if mq_count q = 0 then (no_motion, q)
      else let result = mq_events q ! unat (mq_tail q);
               q = q\<lparr>mq_tail := mq_next (mq_tail q)\<rparr>;
               count = mq_count q;
               q = push_event event q
           in (result, q\<lparr>mq_count := count - 1\<rparr>))"

text \<open>
  C37: an interrupt while the main loop takes a mouse event loses an event.  If the queue holds events and is not full, and
  the handler queues another while the count is being decremented, the count ends up one short of the events
  that should be queued, and head, tail and count no longer agree; reading then stops one event early.
\<close>

theorem mouse_count_race:
  assumes "mq_ok q" "0 < mq_count q" "unat (mq_count q) < 64"
  shows "fst (read_event_interrupted e q) = fst (mouse_read_event q) \<and>
    length (mq_contents (push_event e (snd (mouse_read_event q)))) = unat (mq_count q) \<and>
    unat (mq_count (snd (read_event_interrupted e q))) = unat (mq_count q) - 1 \<and>
    mq_head (snd (read_event_interrupted e q)) = mq_head (push_event e (snd (mouse_read_event q))) \<and>
    \<not> mq_ok (snd (read_event_interrupted e q))"
proof -
  have ne: "mq_count q \<noteq> 0" "0 < unat (mq_count q)" using assms(2) by (auto simp: unat_less_iff)
  have down: "unat (mq_count q - 1) = unat (mq_count q) - 1" by (rule unat_minus_one [OF ne(1)])
  have ok: "unat (mq_head q) = (unat (mq_tail q) + unat (mq_count q)) mod 64" using assms(1) by (simp add: mq_ok_def kEventCapacity_def)
  have room: "unat (mq_count q) \<noteq> 64" "unat (mq_count q - 1) \<noteq> 64" using assms(3) down by auto
  let ?q = "snd (read_event_interrupted e q)"
  have q: "mq_count ?q = mq_count q - 1" "mq_head ?q = mq_next (mq_head q)" "mq_tail ?q = mq_next (mq_tail q)"
    using ne(1) room by (simp_all add: read_event_interrupted_def push_event_def kEventCapacity_def Let_def)
  have "Suc (unat (mq_head q)) mod 64 \<noteq> (Suc (unat (mq_tail q)) mod 64 + (unat (mq_count q) - 1)) mod 64"
  proof -
    have "Suc (unat (mq_head q)) mod 64 = (unat (mq_tail q) + 1 + unat (mq_count q)) mod 64" by (simp add: ok mod_Suc_eq)
    moreover have "(Suc (unat (mq_tail q)) mod 64 + (unat (mq_count q) - 1)) mod 64 = (unat (mq_tail q) + 1 + (unat (mq_count q) - 1)) mod 64"
      by (simp add: mod_add_left_eq)
    ultimately show ?thesis
      using mod_shift_neq [of "unat (mq_count q) - 1" "unat (mq_count q)" 64 "unat (mq_tail q) + 1"] ne(2) assms(3) by simp
  qed
  then have "\<not> mq_ok ?q" using q down by (simp add: mq_ok_def unat_mq_next kEventCapacity_def)
  moreover have "length (mq_contents (push_event e (snd (mouse_read_event q)))) = unat (mq_count q)"
    using ne room by (simp add: mq_contents_def push_event_def mouse_read_event_def kEventCapacity_def)
  moreover have "fst (read_event_interrupted e q) = fst (mouse_read_event q)"
    using ne(1) by (simp add: read_event_interrupted_def mouse_read_event_def Let_def)
  ultimately show ?thesis using q down ne(1) room by (simp add: push_event_def mouse_read_event_def kEventCapacity_def)
qed

subsection \<open>Packets\<close>

text \<open>The packet a mouse sends for a motion within nine signed bits.\<close>

definition encode_packet :: "int \<Rightarrow> int \<Rightarrow> bool \<Rightarrow> bool \<Rightarrow> bool \<Rightarrow> u8 list" where
  "encode_packet dx dy left right middle =
     [0x08 OR (if left then 0x01 else 0) OR (if right then 0x02 else 0) OR (if middle then 0x04 else 0) OR
        (if dx < 0 then 0x10 else 0) OR (if dy < 0 then 0x20 else 0),
      word_of_int dx, word_of_int dy]"

fun feed_packets :: "u8 list \<Rightarrow> packet_decoder \<Rightarrow> mouse_event list \<times> packet_decoder" where
  "feed_packets [] d = ([], d)"
| "feed_packets (b # bs) d =
     (case feed_packet b d of (None, d) \<Rightarrow> feed_packets bs d
      | (Some e, d) \<Rightarrow> (case feed_packets bs d of (es, d) \<Rightarrow> (e # es, d)))"

lemma sint_16: "sint (w :: u16) = (if uint w < 2 ^ 15 then uint w else uint w - 2 ^ 16)"
proof -
  have "0 \<le> uint w" "uint w < 65536" using uint_lt2p [of w] by simp_all
  moreover have "sint w = (uint w + 32768) mod 65536 - 32768"
    by (simp add: sint_uint signed_take_bit_eq_take_bit_shift take_bit_eq_mod)
  moreover have "(uint w + 32768) mod 65536 = (uint w - 32768) mod 65536" using mod_add_self2 [of "uint w - 32768" 65536] by (simp add: add.commute)
  ultimately show ?thesis by (cases "uint w < 32768") simp_all
qed

lemma decode_axis_uint: "uint (decode_axis raw negative) = uint raw + (if negative then 0xFF00 else 0)"
proof -
  have lt: "uint raw < 256" using uint_lt2p [of raw] by simp
  have hi: "(0xFF00 :: u16) = push_bit 8 0xFF" by simp
  have "(ucast raw :: u16) AND 0xFF00 = 0"
    unfolding hi by (rule bit_word_eqI) (auto simp: bit_simps dest: bit_imp_le_length simp del: push_bit_numeral)
  then have "(ucast raw :: u16) OR 0xFF00 = ucast raw + 0xFF00" by (simp add: disjunctive_add_eq_or)
  then show ?thesis using lt by (simp add: decode_axis_def uint_word_ariths unsigned_ucast_eq take_bit_int_eq_self)
qed

lemma decode_axis_sint:
  assumes "- 256 \<le> dx" "dx < 256"
  shows "sint (decode_axis (word_of_int dx) (dx < 0)) = dx"
proof -
  have "uint (word_of_int dx :: u8) = dx mod 256" by (simp add: uint_word_of_int)
  moreover have "dx mod 256 = (if dx < 0 then dx + 256 else dx)" using assms by presburger
  ultimately show ?thesis using assms by (simp add: sint_16 decode_axis_uint)
qed

definition motion_of :: "mouse_event \<Rightarrow> int \<times> int \<times> bool \<times> bool \<times> bool" where
  "motion_of e = (sint (me_dx e), sint (me_dy e), me_left e, me_right e, me_middle e)"

definition packet_for :: "int \<times> int \<times> bool \<times> bool \<times> bool \<Rightarrow> u8 list" where
  "packet_for = (\<lambda>(dx, dy, left, right, middle). encode_packet dx dy left right middle)"

lemma encode_header:
  fixes h :: u8
  assumes "h = 0x08 OR (if left then 0x01 else 0) OR (if right then 0x02 else 0) OR (if middle then 0x04 else 0) OR
        (if xneg then 0x10 else 0) OR (if yneg then 0x20 else 0)"
  shows "h \<noteq> 0xFA" "h AND 0x08 \<noteq> 0" "h AND 0xC0 = 0" "(h AND 0x01 \<noteq> 0) = left" "(h AND 0x02 \<noteq> 0) = right" "(h AND 0x04 \<noteq> 0) = middle"
    "(h AND 0x10 \<noteq> 0) = xneg" "(h AND 0x20 \<noteq> 0) = yneg"
  unfolding assms by (cases left; cases right; cases middle; cases xneg; cases yneg; simp)+

lemma feed_one_packet:
  assumes "pd_index d = 0" "length (pd_packet d) = 3" "- 256 \<le> dx" "dx < 256" "- 256 \<le> dy" "dy < 256"
  obtains e d' where "feed_packets (encode_packet dx dy left right middle @ bs) d = (e # fst (feed_packets bs d'), snd (feed_packets bs d'))"
    "motion_of e = (dx, dy, left, right, middle)" "pd_index d' = 0" "length (pd_packet d') = 3"
proof -
  define h where "h = (0x08 OR (if left then 0x01 else 0) OR (if right then 0x02 else 0) OR (if middle then 0x04 else 0) OR
        (if dx < 0 then 0x10 else 0) OR (if dy < 0 then 0x20 else 0) :: u8)"
  note hs = encode_header [OF h_def]
  obtain a b c where abc: "pd_packet d = [a, b, c]" using assms(2) by (auto simp: length_Suc_conv numeral_3_eq_3)
  define e where "e = \<lparr>me_dx = decode_axis (word_of_int dx) (dx < 0), me_dy = decode_axis (word_of_int dy) (dy < 0),
    me_left = left, me_right = right, me_middle = middle\<rparr>"
  define d' where "d' = d\<lparr>pd_packet := [h, word_of_int dx, word_of_int dy], pd_index := 0\<rparr>"
  have enc: "encode_packet dx dy left right middle = [h, word_of_int dx, word_of_int dy]" by (simp add: encode_packet_def h_def)
  have "feed_packets (encode_packet dx dy left right middle @ bs) d = (e # fst (feed_packets bs d'), snd (feed_packets bs d'))"
    unfolding enc using assms(1) hs
    by (simp add: feed_packet_def abc e_def d'_def Let_def split_beta)
  moreover have "motion_of e = (dx, dy, left, right, middle)" using assms by (simp add: motion_of_def e_def decode_axis_sint)
  ultimately show thesis by (rule that) (simp_all add: d'_def)
qed

text \<open>
  C36: the mouse decoder recovers every motion.  A stream of packets, each for a motion within the nine signed bits of the
  protocol and any state of the three buttons, decodes to exactly these motions and button states, in order.
\<close>

theorem mouse_packets_roundtrip:
  assumes "\<forall>(dx, dy, b)\<in>set ms. - 256 \<le> dx \<and> dx < 256 \<and> - 256 \<le> dy \<and> dy < 256"
  shows "map motion_of (fst (feed_packets (concat (map packet_for ms)) packet_reset)) = ms"
proof -
  have "map motion_of (fst (feed_packets (concat (map packet_for ms)) d)) = ms" if "pd_index d = 0" "length (pd_packet d) = 3" for d
    using assms that
  proof (induction ms arbitrary: d)
    case (Cons m ms)
    obtain dx dy l r mi where m: "m = (dx, dy, l, r, mi)" by (cases m)
    have b: "- 256 \<le> dx" "dx < 256" "- 256 \<le> dy" "dy < 256" using Cons.prems(1) by (auto simp: m)
    obtain e d' where "feed_packets (encode_packet dx dy l r mi @ concat (map packet_for ms)) d =
        (e # fst (feed_packets (concat (map packet_for ms)) d'), snd (feed_packets (concat (map packet_for ms)) d'))"
      "motion_of e = (dx, dy, l, r, mi)" "pd_index d' = 0" "length (pd_packet d') = 3"
      by (rule feed_one_packet [OF Cons.prems(2,3) b])
    then show ?case using Cons.IH [of d'] Cons.prems(1) by (simp add: m packet_for_def)
  qed simp
  then show ?thesis by (simp add: packet_reset_def)
qed

subsection \<open>Starting the mouse\<close>

lemma wait_writes [simp]:
  "io_writes (snd (wait_input_clear dev n io)) = io_writes io" "io_writes (snd (wait_output_full dev n io)) = io_writes io"
  by (induction n arbitrary: io) (simp_all add: inb_def)

lemma write_port_writes: "io_writes (snd (write_port dev port v io)) = (if fst (write_port dev port v io) then io_writes io @ [(port, v)] else io_writes io)"
  by (simp add: write_port_def outb_def split_beta)

lemma read_data_writes [simp]: "io_writes (snd (read_data dev io)) = io_writes io"
  by (simp add: read_data_def inb_def split_beta)

text \<open>The whole dialogue: enable the device, rewrite the configuration byte, restore defaults, start streaming.\<close>

definition mouse_dialogue :: "u8 \<Rightarrow> (u16 \<times> u8) list" where
  "mouse_dialogue config =
     [(0x64, 0xA8), (0x64, 0x20), (0x64, 0x60), (0x60, mouse_config config), (0x64, 0xD4), (0x60, 0xF6), (0x64, 0xD4), (0x60, 0xF4)]"

text \<open>A step writes the bytes it means to, or fails after some of them.\<close>

definition writes_up_to :: "(u16 \<times> u8) list \<Rightarrow> port_io \<Rightarrow> bool \<times> port_io \<Rightarrow> bool" where
  "writes_up_to bs io r \<longleftrightarrow> (\<exists>k. io_writes (snd r) = io_writes io @ take k bs \<and> (fst r \<longrightarrow> length bs \<le> k))"

lemma writes_up_to_then:
  assumes "writes_up_to as io r" "writes_up_to bs (snd r) (rest (snd r))"
  shows "writes_up_to (as @ bs) io (and_then r rest)"
proof (cases "fst r")
  case True
  then have io: "io_writes (snd r) = io_writes io @ as" using assms(1) by (auto simp: writes_up_to_def)
  from assms(2) obtain k where "io_writes (snd (rest (snd r))) = io_writes io @ as @ take k bs" "fst (rest (snd r)) \<longrightarrow> length bs \<le> k"
    by (auto simp: writes_up_to_def io)
  then show ?thesis using True by (auto simp: writes_up_to_def and_then_def intro!: exI [of _ "length as + k"])
next
  case False
  then obtain k where k: "io_writes (snd r) = io_writes io @ take k as" using assms(1) by (auto simp: writes_up_to_def)
  have "take k as = take (min k (length as)) (as @ bs)" by (cases "k \<le> length as") simp_all
  then show ?thesis using False k by (auto simp: writes_up_to_def and_then_def intro!: exI [of _ "min k (length as)"])
qed

lemma write_port_up_to: "writes_up_to [(port, v)] io (write_port dev port v io)"
  using write_port_writes [of dev port v io]
  by (cases "fst (write_port dev port v io)") (auto simp: writes_up_to_def intro: exI [of _ 1] exI [of _ 0])

lemma send_mouse_command_up_to: "writes_up_to [(0x64, 0xD4), (0x60, c)] io (send_mouse_command dev c io)"
proof -
  have "writes_up_to ([(0x64, 0xD4)] @ [(0x60, c)] @ []) io (send_mouse_command dev c io)"
    unfolding send_mouse_command_def write_controller_command_def write_data_def
    by (intro writes_up_to_then write_port_up_to) (auto simp: writes_up_to_def split_beta)
  then show ?thesis by simp
qed

theorem mouse_initialize_dialogue:
  assumes "mouse_initialize dev q io = (success, d, q', io')"
  shows "d = packet_reset \<and> mq_count q' = 0 \<and>
    (\<exists>config k. io_writes io' = io_writes io @ take k (mouse_dialogue config) \<and> (success \<longrightarrow> 8 \<le> k))"
proof -
  have rest: "writes_up_to ([(0x64, 0x60)] @ [(0x60, mouse_config config)] @ [(0x64, 0xD4), (0x60, 0xF6)] @ [(0x64, 0xD4), (0x60, 0xF4)]) io
      (and_then (write_controller_command dev 0x60 io) (\<lambda>io. and_then (write_data dev (mouse_config config) io) (\<lambda>io.
        and_then (send_mouse_command dev 0xF6 io) (\<lambda>io. send_mouse_command dev 0xF4 io))))" for config io
    unfolding write_controller_command_def write_data_def by (intro writes_up_to_then write_port_up_to send_mouse_command_up_to)
  define io1 where "io1 = snd (write_controller_command dev 0xA8 io)"
  define io2 where "io2 = snd (write_controller_command dev 0x20 io1)"
  define config where "config = (case fst (read_data dev io2) of None \<Rightarrow> 0 | Some c \<Rightarrow> c)"
  let ?cont = "\<lambda>io. case read_data dev io of (None, io) \<Rightarrow> (False, io) | (Some config, io) \<Rightarrow>
      and_then (write_controller_command dev 0x60 io) (\<lambda>io. and_then (write_data dev (mouse_config config) io) (\<lambda>io.
        and_then (send_mouse_command dev 0xF6 io) (\<lambda>io. send_mouse_command dev 0xF4 io)))"
  have "writes_up_to ([(0x64, 0x60)] @ [(0x60, mouse_config config)] @ [(0x64, 0xD4), (0x60, 0xF6)] @ [(0x64, 0xD4), (0x60, 0xF4)]) io2 (?cont io2)"
  proof (cases "read_data dev io2")
    case (Pair c io3)
    then have w: "io_writes io3 = io_writes io2" using read_data_writes [of dev io2] by simp
    show ?thesis
    proof (cases c)
      case None
      then show ?thesis using Pair w by (auto simp: writes_up_to_def intro: exI [of _ 0])
    next
      case (Some b)
      then have "config = b" using Pair by (simp add: config_def)
      then show ?thesis using rest [of b io3] Pair Some w by (simp add: writes_up_to_def)
    qed
  qed
  then have w: "writes_up_to ([(0x64, 0xA8)] @ [(0x64, 0x20)] @ [(0x64, 0x60)] @ [(0x60, mouse_config config)] @ [(0x64, 0xD4), (0x60, 0xF6)] @ [(0x64, 0xD4), (0x60, 0xF4)]) io
      (and_then (write_controller_command dev 0xA8 io) (\<lambda>io. and_then (write_controller_command dev 0x20 io) ?cont))"
    unfolding io2_def io1_def write_controller_command_def by (intro writes_up_to_then write_port_up_to)
  have c: "and_then (write_controller_command dev 0xA8 io) (\<lambda>io. and_then (write_controller_command dev 0x20 io) ?cont) = (success, io')"
    and rq: "d = packet_reset" "mq_count q' = 0"
    using assms by (auto simp: mouse_initialize_def reset_queue_def split: prod.splits)
  have dlg: "[(0x64, 0xA8)] @ [(0x64, 0x20)] @ [(0x64, 0x60)] @ [(0x60, mouse_config config)] @ [(0x64, 0xD4), (0x60, 0xF6)] @
      [(0x64, 0xD4), (0x60, 0xF4)] = mouse_dialogue config" "length (mouse_dialogue config) = 8"
    by (simp_all add: mouse_dialogue_def)
  show ?thesis using w rq unfolding c dlg writes_up_to_def by auto
qed

subsection \<open>Printable characters\<close>

definition printable :: "u8 \<Rightarrow> bool" where "printable c \<longleftrightarrow> 0x20 \<le> c \<and> c \<le> 0x7E"

definition typed :: "u8 list" where
  "typed = concat (map (\<lambda>code. [translate_code (of_nat code) False, translate_code (of_nat code) True]) [0..<0x3A])"

lemma typed_printable: "list_all (\<lambda>c. c = 0 \<or> printable c) typed" by code_simp

lemma typed_all: "list_all (\<lambda>n. of_nat n \<in> set typed) [0x20..<0x7F]" by code_simp

lemma translate_typed: "translate_code code shift = 0 \<or> translate_code code shift \<in> set typed"
proof (cases "unat code < 0x3A")
  case True
  then have "translate_code (of_nat (unat code)) shift \<in> set typed" unfolding typed_def by (cases shift) force+
  then show ?thesis by simp
qed (simp add: translate_code_def)

lemma translate_printable: "translate_code code shift \<noteq> 0 \<Longrightarrow> printable (translate_code code shift)"
  using translate_typed [of code shift] typed_printable by (auto simp: list_all_iff)

lemma typed_from_keys: "printable c \<Longrightarrow> \<exists>code shift. translate_code code shift = c"
proof -
  assume "printable c"
  then have "0x20 \<le> unat c \<and> unat c < 0x7F" by (simp add: printable_def unat_le_iff)
  then have "unat c \<in> set [0x20..<0x7F]" unfolding set_upt atLeastLessThan_iff .
  then have "of_nat (unat c) \<in> set typed" using typed_all by (simp only: list_all_iff)
  then show ?thesis by (auto simp: typed_def)
qed

lemma feed_character: "feed_scancode b d = (Some e, d') \<Longrightarrow> ke_key e = KeyCharacter \<Longrightarrow> printable (ke_character e)"
  using translate_printable by (auto simp: feed_scancode_def Let_def extended_key_def split: if_splits)

subsection \<open>Samples\<close>

definition demo_key :: key_event where
  "demo_key = \<lparr>ke_key = KeyCharacter, ke_character = 0x41, ke_ctrl = False, ke_shift = True, ke_pressed = True\<rparr>"

definition demo_spsc :: spsc where
  "demo_spsc = \<lparr>sp_queue = \<lparr>eq_events = demo_key # replicate 127 no_key, eq_head = 1, eq_tail = 0\<rparr>, sp_push = PushIdle, sp_pop = PopTail 0,
     sp_sent = [demo_key], sp_received = []\<rparr>"

lemma demo_spsc_reachable: "spsc_reachable demo_spsc"
proof -
  let ?s1 = "spsc_start\<lparr>sp_pop := PopTail 0\<rparr>"
  let ?s2 = "?s1\<lparr>sp_push := PushHead demo_key 0\<rparr>"
  let ?s3 = "?s2\<lparr>sp_push := PushTail demo_key 0 0\<rparr>"
  let ?s4 = "store_slot 0 no_key (?s3\<lparr>sp_push := PushWriting demo_key 0\<rparr>)"
  let ?s5 = "store_slot 0 demo_key (?s4\<lparr>sp_push := PushStored demo_key 0\<rparr>)"
  have room: "replicate 128 no_key = no_key # replicate 127 no_key" by (simp add: replicate_Suc [symmetric] del: replicate_Suc)
  have "spsc_reachable ?s1"
    using spsc_reachable.step [OF spsc_reachable.start pop_load_tail] by (simp add: spsc_start_def eq_new_def)
  then have "spsc_reachable ?s2" using spsc_reachable.step [OF _ push_load_head [of ?s1 demo_key]] by (simp add: spsc_start_def eq_new_def)
  then have "spsc_reachable ?s3" using spsc_reachable.step [OF _ push_load_tail [of ?s2 demo_key 0]] by (simp add: spsc_start_def eq_new_def)
  then have "spsc_reachable ?s4" by (rule spsc_reachable.step) (rule push_tear [of _ _ _ 0], simp_all add: kCapacity_def)
  then have "spsc_reachable ?s5" by (rule spsc_reachable.step) (rule push_store, simp add: store_slot_def)
  then have "spsc_reachable (?s5\<lparr>sp_queue := (sp_queue ?s5)\<lparr>eq_head := 0 + 1\<rparr>, sp_push := PushIdle, sp_sent := sp_sent ?s5 @ [demo_key]\<rparr>)"
    by (rule spsc_reachable.step) (rule push_publish, simp add: store_slot_def)
  moreover have "?s5\<lparr>sp_queue := (sp_queue ?s5)\<lparr>eq_head := 0 + 1\<rparr>, sp_push := PushIdle, sp_sent := sp_sent ?s5 @ [demo_key]\<rparr> = demo_spsc"
    using room by (simp add: store_slot_def spsc_start_def eq_new_def demo_spsc_def eq_slot_def kCapacity_def)
  ultimately show ?thesis by simp
qed

theorem keyboard_queue_interleaved_witness: "eq_contents (sp_queue demo_spsc) = [demo_key] \<and> sp_pop demo_spsc = PopTail 0"
  using keyboard_queue_interleaved [OF demo_spsc_reachable] by (simp add: demo_spsc_def)

theorem mouse_count_race_witness:
  "mq_count (snd (read_event_interrupted no_motion (push_event no_motion mq_new))) = 0 \<and>
   \<not> mq_ok (snd (read_event_interrupted no_motion (push_event no_motion mq_new)))"
proof -
  let ?q = "push_event no_motion mq_new"
  have ok: "mq_ok ?q" by (rule mouse_fifo.push_inv) (simp add: mq_ok_def mq_new_def kEventCapacity_def)
  have c: "mq_count ?q = 1" by (simp add: push_event_def mq_new_def kEventCapacity_def)
  show ?thesis using mouse_count_race [OF ok, of no_motion] by (simp add: c unat_eq_zero)
qed

theorem mouse_packets_roundtrip_witness:
  "map motion_of (fst (feed_packets [0x2C, 0x00, 0xFF, 0x19, 0x00, 0x07] packet_reset)) = [(0, -1, False, False, True), (-256, 7, True, False, False)]"
proof -
  have "concat (map packet_for [(0, -1, False, False, True), (-256, 7, True, False, False)]) = [0x2C, 0x00, 0xFF, 0x19, 0x00, 0x07]"
    by (simp add: packet_for_def encode_packet_def)
  then show ?thesis using mouse_packets_roundtrip [of "[(0, -1, False, False, True), (-256, 7, True, False, False)]"] by simp
qed

end
