(* ===== verification/Window_Manager.thy ===== *)
theory Window_Manager
  imports Prelude
begin

text \<open>
  The window manager of \<^verbatim>\<open>kernel/gui/window_manager.cpp\<close>: eight window slots with a stacking
  number each, the focused window, and the drag or resize in progress.  The invariant \<open>wm_ok\<close> says that the
  stacking numbers of the windows are \<open>0, 1, \<dots>\<close> without gaps, that every window lies on the screen below
  the panel, and that the focus is on the topmost open window.  The abstract view \<open>stacking\<close> is the list of
  window numbers from bottom to top; the operations refine the list operations one expects.
\<close>

subsection \<open>Geometry\<close>

text \<open>
  Coordinates are 32-bit signed integers, written as \<^typ>\<open>int\<close> with the two's-complement wrap-around of the
  target made explicit in every sum whose operands come from outside.
\<close>

definition wrap32 :: "int \<Rightarrow> int" where "wrap32 v = (v + 2 ^ 31) mod 2 ^ 32 - 2 ^ 31"

record point =
  pt_x :: int
  pt_y :: int

record rect =
  rc_x :: int
  rc_y :: int
  rc_width :: int
  rc_height :: int

definition contains :: "rect \<Rightarrow> point \<Rightarrow> bool" where
  "contains rect p \<longleftrightarrow> rc_x rect \<le> pt_x p \<and> rc_y rect \<le> pt_y p \<and>
     pt_x p < wrap32 (rc_x rect + rc_width rect) \<and> pt_y p < wrap32 (rc_y rect + rc_height rect)"

definition clamp_value :: "int \<Rightarrow> int \<Rightarrow> int \<Rightarrow> int" where
  "clamp_value v minimum maximum = (if v < minimum then minimum else if v > maximum then maximum else v)"

definition kScreenWidth :: int where "kScreenWidth = 1280"
definition kScreenHeight :: int where "kScreenHeight = 720"
definition kPanelHeight :: int where "kPanelHeight = 28"
definition kMinWidth :: int where "kMinWidth = 160"
definition kMinHeight :: int where "kMinHeight = 100"
definition kMaxWindows :: nat where "kMaxWindows = 8"

lemmas screen_const = kScreenWidth_def kScreenHeight_def kPanelHeight_def kMinWidth_def kMinHeight_def

definition clamp_bounds :: "rect \<Rightarrow> rect" where
  "clamp_bounds b =
     (let b = b\<lparr>rc_width := clamp_value (rc_width b) kMinWidth kScreenWidth\<rparr>;
          b = b\<lparr>rc_height := clamp_value (rc_height b) kMinHeight (kScreenHeight - kPanelHeight)\<rparr>;
          max_x = kScreenWidth - rc_width b;
          max_y = kScreenHeight - rc_height b;
          b = b\<lparr>rc_x := clamp_value (rc_x b) 0 max_x\<rparr>
      in b\<lparr>rc_y := clamp_value (rc_y b) kPanelHeight max_y\<rparr>)"

subsection \<open>State\<close>

datatype window_state = Open | Minimized | Closed
datatype pointer_action = NoAction | Drag | Resize

record window =
  win_id :: u32
  win_bounds :: rect
  win_restore_bounds :: rect
  win_state :: window_state
  win_z :: u8
  win_resizable :: bool
  win_closable :: bool

record window_manager =
  wm_windows :: "window list"
  wm_focused :: u32
  wm_action :: pointer_action
  wm_pointer_window :: u32
  wm_start :: point
  wm_start_bounds :: rect

text \<open>The constructor leaves the slots as it finds them in memory, except for their state.\<close>

definition wm_new :: "window list \<Rightarrow> window_manager" where
  "wm_new memory =
     \<lparr>wm_windows = map (\<lambda>w. w\<lparr>win_state := Closed\<rparr>) memory, wm_focused = 0, wm_action = NoAction, wm_pointer_window = 0,
      wm_start = \<lparr>pt_x = 0, pt_y = 0\<rparr>, wm_start_bounds = \<lparr>rc_x = 0, rc_y = 0, rc_width = 0, rc_height = 0\<rparr>\<rparr>"

abbreviation live :: "window \<Rightarrow> bool" where "live w \<equiv> win_state w \<noteq> Closed"

subsection \<open>Searching the slots\<close>

definition find_window :: "u32 \<Rightarrow> window list \<Rightarrow> nat option" where
  "find_window wid ws = (if wid = 0 then None else List.find (\<lambda>i. live (ws ! i) \<and> win_id (ws ! i) = wid) [0..<length ws])"

text \<open>The loops that keep the best candidate seen so far, replaced only by a strictly better one.\<close>

definition pick :: "(window \<Rightarrow> bool) \<Rightarrow> (window \<Rightarrow> window \<Rightarrow> bool) \<Rightarrow> window list \<Rightarrow> nat option" where
  "pick candidate better ws =
     fold (\<lambda>i best. if \<not> candidate (ws ! i) then best
            else case best of None \<Rightarrow> Some i | Some b \<Rightarrow> if better (ws ! i) (ws ! b) then Some i else best)
       [0..<length ws] None"

definition picked_id :: "window list \<Rightarrow> nat option \<Rightarrow> u32" where
  "picked_id ws best = (case best of None \<Rightarrow> 0 | Some i \<Rightarrow> win_id (ws ! i))"

definition hit_test :: "point \<Rightarrow> window_manager \<Rightarrow> u32" where
  "hit_test p m = picked_id (wm_windows m)
     (pick (\<lambda>w. win_state w = Open \<and> contains (win_bounds w) p) (\<lambda>a b. win_z a > win_z b) (wm_windows m))"

definition highest_open_window :: "window list \<Rightarrow> u32" where
  "highest_open_window ws = picked_id ws (pick (\<lambda>w. win_state w = Open) (\<lambda>a b. win_z a > win_z b) ws)"

text \<open>
  The insertion loop of \<^verbatim>\<open>open_windows_in_z_order\<close>: behind the entries that are not above the candidate,
  dropping what no longer fits.
\<close>

definition insert_by_z :: "nat \<Rightarrow> window \<Rightarrow> window list \<Rightarrow> window list" where
  "insert_by_z capacity candidate out =
     (let position = length (takeWhile (\<lambda>w. win_z w \<le> win_z candidate) out)
      in if position \<ge> capacity then out
         else take capacity (take position out @ candidate # drop position out))"

definition open_windows_in_z_order :: "window_manager \<Rightarrow> nat \<Rightarrow> window list" where
  "open_windows_in_z_order m capacity =
     fold (\<lambda>w out. if win_state w \<noteq> Open then out else insert_by_z capacity w out) (wm_windows m) []"

subsection \<open>Stacking\<close>

text \<open>
  The compaction loop numbers the windows from the bottom.  A step numbers one of at most eight windows for good, so the
  counter stays far below the 256 at which its 8-bit variable would wrap.
\<close>

lemma pick_fold_Some:
  "fold (\<lambda>i best. if \<not> c (ws ! i) then best
            else case best of None \<Rightarrow> Some i | Some b \<Rightarrow> if better (ws ! i) (ws ! b) then Some i else best) is b0 = Some r \<Longrightarrow>
     b0 = Some r \<or> (r \<in> set is \<and> c (ws ! r))"
  by (induction "is" arbitrary: b0) (auto split: if_splits option.splits)

lemma pick_Some: "pick c better ws = Some r \<Longrightarrow> r < length ws \<and> c (ws ! r)"
  unfolding pick_def by (drule pick_fold_Some) auto

lemma filter_update_less:
  assumes "i < length xs" "P (xs ! i)" "\<not> Q v" "\<And>x. Q x \<Longrightarrow> P x"
  shows "length (filter Q (xs[i := v])) < length (filter P xs)"
proof -
  have le: "length (filter Q ys) \<le> length (filter P ys)" for ys using assms(4) by (induction ys) auto
  have "xs = take i xs @ xs ! i # drop (Suc i) xs" using assms(1) by (rule id_take_nth_drop)
  then have "length (filter P xs) = length (filter P (take i xs)) + Suc (length (filter P (drop (Suc i) xs)))"
    using assms(2) by (metis (no_types, lifting) filter.simps(2) filter_append length_Cons length_append)
  moreover have "length (filter Q (xs[i := v])) = length (filter Q (take i xs)) + length (filter Q (drop (Suc i) xs))"
    using assms(1,3) by (simp add: upd_conv_take_nth_drop)
  ultimately show ?thesis using le [of "take i xs"] le [of "drop (Suc i) xs"] by linarith
qed

function compact_loop :: "nat \<Rightarrow> window list \<Rightarrow> window list" where
  "compact_loop next_z ws =
     (case pick (\<lambda>w. live w \<and> \<not> unat (win_z w) < next_z) (\<lambda>a b. win_z a < win_z b) ws of
        None \<Rightarrow> ws
      | Some lowest \<Rightarrow> compact_loop (Suc next_z) (ws[lowest := (ws ! lowest)\<lparr>win_z := of_nat next_z\<rparr>]))"
  by pat_completeness auto

termination
proof (relation "measure (\<lambda>(k, ws). length (filter (\<lambda>w. live w \<and> \<not> unat (win_z w) < k) ws))")
  fix k ws i
  assume "pick (\<lambda>w. live w \<and> \<not> unat (win_z w) < k) (\<lambda>a b. win_z a < win_z b) ws = Some i"
  then have i: "i < length ws" "live (ws ! i)" "k \<le> unat (win_z (ws ! i))" by (auto dest: pick_Some)
  moreover have "unat (win_z (ws ! i)) < 2 ^ 8" using unsigned_less [of "win_z (ws ! i)"] by simp
  ultimately have "k < 2 ^ 8" by linarith
  then have "unat (of_nat k :: u8) = k" by (intro unat_of_nat_small) simp
  then show "((Suc k, ws[i := (ws ! i)\<lparr>win_z := of_nat k\<rparr>]), (k, ws)) \<in>
      measure (\<lambda>(k, ws). length (filter (\<lambda>w. live w \<and> \<not> unat (win_z w) < k) ws))"
    using i by (auto intro!: filter_update_less)
qed simp

declare compact_loop.simps [simp del]

definition compact_z :: "window list \<Rightarrow> window list" where "compact_z ws = compact_loop 0 ws"

definition other :: "u32 \<Rightarrow> window \<Rightarrow> bool" where "other wid w \<longleftrightarrow> live w \<and> win_id w \<noteq> wid"

definition top_of_others :: "u32 \<Rightarrow> window list \<Rightarrow> u8 \<times> bool" where
  "top_of_others wid ws =
     fold (\<lambda>w (top_z, found). if \<not> other wid w then (top_z, found)
            else if \<not> found \<or> win_z w > top_z then (win_z w, True) else (top_z, found)) ws (0, False)"

definition above_others :: "u32 \<Rightarrow> window list \<Rightarrow> u8" where
  "above_others wid ws = fold (\<lambda>w highest. if other wid w \<and> win_z w \<ge> highest then win_z w + 1 else highest) ws 0"

definition raise_window :: "u32 \<Rightarrow> window list \<Rightarrow> window list" where
  "raise_window wid ws =
     (case find_window wid ws of None \<Rightarrow> ws
      | Some t \<Rightarrow>
          let ws = compact_z ws;
              (top_z, found_other) = top_of_others wid ws;
              old_z = win_z (ws ! t);
              ws = map (\<lambda>w. if other wid w \<and> win_z w > old_z then w\<lparr>win_z := win_z w - 1\<rparr> else w) ws;
              ws = ws[t := (ws ! t)\<lparr>win_z := if found_other then top_z else 0\<rparr>];
              ws = compact_z ws
          in ws[t := (ws ! t)\<lparr>win_z := above_others wid ws\<rparr>])"

subsection \<open>Operations\<close>

definition put_window :: "nat \<Rightarrow> (window \<Rightarrow> window) \<Rightarrow> window_manager \<Rightarrow> window_manager" where
  "put_window i f m = m\<lparr>wm_windows := (wm_windows m)[i := f (wm_windows m ! i)]\<rparr>"

definition add_window :: "u32 \<Rightarrow> rect \<Rightarrow> bool \<Rightarrow> bool \<Rightarrow> window_manager \<Rightarrow> bool \<times> window_manager" where
  "add_window wid bounds resizable closable m =
     (if wid = 0 \<or> find_window wid (wm_windows m) \<noteq> None then (False, m)
      else let active_count = length (filter live (wm_windows m)) in
      case List.find (\<lambda>i. \<not> live (wm_windows m ! i)) [0..<length (wm_windows m)] of
        None \<Rightarrow> (False, m)
      | Some slot \<Rightarrow>
          if active_count \<ge> kMaxWindows then (False, m)
          else let bounds = clamp_bounds bounds;
                   m = put_window slot (\<lambda>_. \<lparr>win_id = wid, win_bounds = bounds, win_restore_bounds = bounds, win_state = Open,
                         win_z = of_nat active_count, win_resizable = resizable, win_closable = closable\<rparr>) m;
                   m = m\<lparr>wm_focused := wid\<rparr>
               in (True, m\<lparr>wm_windows := raise_window wid (wm_windows m)\<rparr>))"

definition focus :: "u32 \<Rightarrow> window_manager \<Rightarrow> bool \<times> window_manager" where
  "focus wid m =
     (case find_window wid (wm_windows m) of None \<Rightarrow> (False, m)
      | Some i \<Rightarrow> if win_state (wm_windows m ! i) \<noteq> Open then (False, m)
          else (True, m\<lparr>wm_focused := wid, wm_windows := raise_window wid (wm_windows m)\<rparr>))"

definition begin_action :: "pointer_action \<Rightarrow> u32 \<Rightarrow> point \<Rightarrow> nat \<Rightarrow> window_manager \<Rightarrow> window_manager" where
  "begin_action action wid p i m =
     (let m = snd (focus wid m)
      in m\<lparr>wm_action := action, wm_pointer_window := wid, wm_start := p, wm_start_bounds := win_bounds (wm_windows m ! i)\<rparr>)"

definition begin_drag :: "u32 \<Rightarrow> point \<Rightarrow> window_manager \<Rightarrow> bool \<times> window_manager" where
  "begin_drag wid p m =
     (case find_window wid (wm_windows m) of None \<Rightarrow> (False, m)
      | Some i \<Rightarrow> if win_state (wm_windows m ! i) \<noteq> Open then (False, m) else (True, begin_action Drag wid p i m))"

definition begin_resize :: "u32 \<Rightarrow> point \<Rightarrow> window_manager \<Rightarrow> bool \<times> window_manager" where
  "begin_resize wid p m =
     (case find_window wid (wm_windows m) of None \<Rightarrow> (False, m)
      | Some i \<Rightarrow> if win_state (wm_windows m ! i) \<noteq> Open \<or> \<not> win_resizable (wm_windows m ! i) then (False, m)
          else (True, begin_action Resize wid p i m))"

definition end_pointer_action :: "window_manager \<Rightarrow> window_manager" where
  "end_pointer_action m = m\<lparr>wm_action := NoAction, wm_pointer_window := 0\<rparr>"

definition drag_bounds :: "rect \<Rightarrow> int \<Rightarrow> int \<Rightarrow> rect" where
  "drag_bounds start dx dy =
     (let max_x = kScreenWidth - rc_width start; max_y = kScreenHeight - rc_height start
      in start\<lparr>rc_x := clamp_value (wrap32 (rc_x start + dx)) 0 max_x,
               rc_y := clamp_value (wrap32 (rc_y start + dy)) kPanelHeight max_y\<rparr>)"

definition resize_bounds :: "rect \<Rightarrow> int \<Rightarrow> int \<Rightarrow> rect \<Rightarrow> rect" where
  "resize_bounds start dx dy b =
     (let max_width = kScreenWidth - rc_x start; max_height = kScreenHeight - rc_y start
      in b\<lparr>rc_width := clamp_value (wrap32 (rc_width start + dx)) kMinWidth max_width,
           rc_height := clamp_value (wrap32 (rc_height start + dy)) kMinHeight max_height\<rparr>)"

definition pointer_move :: "point \<Rightarrow> window_manager \<Rightarrow> window_manager" where
  "pointer_move p m =
     (case find_window (wm_pointer_window m) (wm_windows m) of None \<Rightarrow> end_pointer_action m
      | Some i \<Rightarrow>
          if win_state (wm_windows m ! i) \<noteq> Open then end_pointer_action m
          else let dx = wrap32 (pt_x p - pt_x (wm_start m)); dy = wrap32 (pt_y p - pt_y (wm_start m)) in
          case wm_action m of
            Drag \<Rightarrow> put_window i (\<lambda>w. w\<lparr>win_bounds := drag_bounds (wm_start_bounds m) dx dy\<rparr>) m
          | Resize \<Rightarrow> put_window i (\<lambda>w. w\<lparr>win_bounds := resize_bounds (wm_start_bounds m) dx dy (win_bounds w)\<rparr>) m
          | NoAction \<Rightarrow> m)"

definition minimize :: "u32 \<Rightarrow> window_manager \<Rightarrow> bool \<times> window_manager" where
  "minimize wid m =
     (case find_window wid (wm_windows m) of None \<Rightarrow> (False, m)
      | Some i \<Rightarrow>
          if win_state (wm_windows m ! i) \<noteq> Open then (False, m)
          else let m = put_window i (\<lambda>w. w\<lparr>win_restore_bounds := win_bounds w, win_state := Minimized\<rparr>) m;
                   m = (if wm_pointer_window m = wid then end_pointer_action m else m)
               in (True, if wm_focused m = wid then m\<lparr>wm_focused := highest_open_window (wm_windows m)\<rparr> else m))"

definition restore :: "u32 \<Rightarrow> window_manager \<Rightarrow> bool \<times> window_manager" where
  "restore wid m =
     (case find_window wid (wm_windows m) of None \<Rightarrow> (False, m)
      | Some i \<Rightarrow>
          if win_state (wm_windows m ! i) \<noteq> Minimized then (False, m)
          else focus wid (put_window i (\<lambda>w. w\<lparr>win_bounds := win_restore_bounds w, win_state := Open\<rparr>) m))"

definition close :: "u32 \<Rightarrow> window_manager \<Rightarrow> bool \<times> window_manager" where
  "close wid m =
     (case find_window wid (wm_windows m) of None \<Rightarrow> (False, m)
      | Some i \<Rightarrow>
          if \<not> win_closable (wm_windows m ! i) then (False, m)
          else let was_focused = (wm_focused m = wid);
                   m = put_window i (\<lambda>w. w\<lparr>win_state := Closed, win_id := 0\<rparr>) m;
                   m = (if wm_pointer_window m = wid then end_pointer_action m else m);
                   m = m\<lparr>wm_windows := compact_z (wm_windows m)\<rparr>
               in (True, if was_focused then m\<lparr>wm_focused := highest_open_window (wm_windows m)\<rparr> else m))"

subsection \<open>Best candidates\<close>

text \<open>A strict preference between windows: what the searching loops need of the comparison they use.\<close>

locale preference =
  fixes better :: "window \<Rightarrow> window \<Rightarrow> bool"
  assumes irrefl: "\<not> better w w"
    and trans: "better u v \<Longrightarrow> better v w \<Longrightarrow> better u w"
begin

lemma pick_prefix:
  "case fold (\<lambda>i best. if \<not> c (ws ! i) then best
       else case best of None \<Rightarrow> Some i | Some b \<Rightarrow> if better (ws ! i) (ws ! b) then Some i else best) [0..<n] None of
     None \<Rightarrow> \<forall>j<n. \<not> c (ws ! j)
   | Some r \<Rightarrow> \<forall>j<n. c (ws ! j) \<longrightarrow> \<not> better (ws ! j) (ws ! r)"
proof (induction n)
  case (Suc n)
  then show ?case using irrefl trans by (auto simp: less_Suc_eq split: option.splits; blast)
qed simp

lemma pick_none: "pick c better ws = None \<Longrightarrow> i < length ws \<Longrightarrow> \<not> c (ws ! i)"
  using pick_prefix [where c = c and ws = ws and n = "length ws"] by (simp add: pick_def)

lemma pick_best: "pick c better ws = Some r \<Longrightarrow> i < length ws \<Longrightarrow> c (ws ! i) \<Longrightarrow> \<not> better (ws ! i) (ws ! r)"
  using pick_prefix [where c = c and ws = ws and n = "length ws"] by (simp add: pick_def)

end

interpretation lowest: preference "\<lambda>a b. win_z a < win_z b" by unfold_locales auto
interpretation highest: preference "\<lambda>a b. win_z a > win_z b" by unfold_locales auto

subsection \<open>Slots that hold windows\<close>

definition live_at :: "window list \<Rightarrow> nat \<Rightarrow> bool" where "live_at ws i \<longleftrightarrow> i < length ws \<and> live (ws ! i)"

definition ids_ok :: "window list \<Rightarrow> bool" where
  "ids_ok ws \<longleftrightarrow> (\<forall>i. live_at ws i \<longrightarrow> win_id (ws ! i) \<noteq> 0) \<and>
     (\<forall>i j. live_at ws i \<longrightarrow> live_at ws j \<longrightarrow> win_id (ws ! i) = win_id (ws ! j) \<longrightarrow> i = j)"

definition z_distinct :: "window list \<Rightarrow> bool" where
  "z_distinct ws \<longleftrightarrow> (\<forall>i j. live_at ws i \<longrightarrow> live_at ws j \<longrightarrow> win_z (ws ! i) = win_z (ws ! j) \<longrightarrow> i = j)"

definition z_compact :: "window list \<Rightarrow> bool" where
  "z_compact ws \<longleftrightarrow> (\<forall>i. live_at ws i \<longrightarrow> unat (win_z (ws ! i)) < card (Collect (live_at ws)))"

lemma finite_live [simp]: "finite (Collect (live_at ws))"
  by (rule finite_subset [of _ "{..<length ws}"]) (auto simp: live_at_def)

lemma card_live: "card (Collect (live_at ws)) = length (filter live ws)"
  by (simp add: length_filter_conv_card live_at_def [abs_def])

lemma find_window_Some:
  "find_window wid ws = Some i \<Longrightarrow> live_at ws i \<and> win_id (ws ! i) = wid \<and> wid \<noteq> 0"
  by (auto simp: find_window_def find_Some_iff live_at_def split: if_splits)

lemma find_window_None: "find_window wid ws = None \<longleftrightarrow> wid = 0 \<or> (\<forall>i. live_at ws i \<longrightarrow> win_id (ws ! i) \<noteq> wid)"
  by (auto simp: find_window_def find_None_iff live_at_def)

lemma find_window_live:
  assumes "ids_ok ws" "live_at ws i"
  shows "find_window (win_id (ws ! i)) ws = Some i"
proof -
  have "win_id (ws ! i) \<noteq> 0" using assms unfolding ids_ok_def by blast
  then obtain k where k: "find_window (win_id (ws ! i)) ws = Some k" using assms(2) find_window_None by blast
  then have "k = i" using find_window_Some [OF k] assms unfolding ids_ok_def by blast
  then show ?thesis using k by simp
qed

text \<open>Two states of the slots that differ in stacking numbers only.\<close>

definition same_but_z :: "window list \<Rightarrow> window list \<Rightarrow> bool" where
  "same_but_z ws ws' \<longleftrightarrow> length ws' = length ws \<and> (\<forall>i<length ws. ws' ! i = (ws ! i)\<lparr>win_z := win_z (ws' ! i)\<rparr>)"

lemma same_but_z_refl [simp]: "same_but_z ws ws" by (simp add: same_but_z_def)

lemma same_but_z_trans: "same_but_z ws ws' \<Longrightarrow> same_but_z ws' ws'' \<Longrightarrow> same_but_z ws ws''"
  unfolding same_but_z_def by (metis (no_types, lifting) window.surjective window.update_convs(5))

lemma same_but_z_update: "same_but_z ws (ws[i := (ws ! i)\<lparr>win_z := z\<rparr>])"
  unfolding same_but_z_def
proof (intro conjI allI impI)
  fix j assume "j < length ws"
  then show "ws[i := (ws ! i)\<lparr>win_z := z\<rparr>] ! j = (ws ! j)\<lparr>win_z := win_z (ws[i := (ws ! i)\<lparr>win_z := z\<rparr>] ! j)\<rparr>"
    by (cases "j = i") simp_all
qed simp

lemma same_but_z_map: "(\<And>w. f w = w\<lparr>win_z := g w\<rparr>) \<Longrightarrow> same_but_z ws (map f ws)"
  by (simp add: same_but_z_def)

lemma same_but_z_fields:
  assumes "same_but_z ws ws'" "i < length ws"
  shows "win_id (ws' ! i) = win_id (ws ! i)" "win_bounds (ws' ! i) = win_bounds (ws ! i)"
    "win_restore_bounds (ws' ! i) = win_restore_bounds (ws ! i)" "win_state (ws' ! i) = win_state (ws ! i)"
    "win_resizable (ws' ! i) = win_resizable (ws ! i)" "win_closable (ws' ! i) = win_closable (ws ! i)"
  using assms unfolding same_but_z_def by (metis window.select_convs window.surjective window.update_convs(5))+

lemma same_but_z_live: "same_but_z ws ws' \<Longrightarrow> live_at ws' i = live_at ws i"
  using same_but_z_fields(4) [of ws ws' i] by (auto simp: live_at_def same_but_z_def)

lemma same_but_z_ids: "same_but_z ws ws' \<Longrightarrow> ids_ok ws' = ids_ok ws"
  using same_but_z_live [of ws ws'] same_but_z_fields(1) [of ws ws'] by (auto simp: ids_ok_def live_at_def)

lemma same_but_z_find:
  assumes "same_but_z ws ws'" "ids_ok ws"
  shows "find_window wid ws' = find_window wid ws"
proof (cases "find_window wid ws")
  case None
  then have "find_window wid ws' = None"
    using same_but_z_live [OF assms(1)] same_but_z_fields(1) [OF assms(1)] unfolding find_window_None live_at_def by metis
  then show ?thesis using None by simp
next
  case (Some i)
  then have "live_at ws' i" "win_id (ws' ! i) = wid" "ids_ok ws'"
    using find_window_Some [OF Some] same_but_z_live [OF assms(1)] same_but_z_fields(1) [OF assms(1)] same_but_z_ids [OF assms(1)] assms(2)
    by (auto simp: live_at_def)
  then show ?thesis using Some find_window_live by metis
qed

subsection \<open>Compaction\<close>

text \<open>Restacking keeps who is above whom.\<close>

definition same_order :: "window list \<Rightarrow> window list \<Rightarrow> bool" where
  "same_order ws ws' \<longleftrightarrow> (\<forall>i j. live_at ws i \<longrightarrow> live_at ws j \<longrightarrow> (win_z (ws' ! i) < win_z (ws' ! j)) = (win_z (ws ! i) < win_z (ws ! j)))"

lemma same_order_distinct: "same_but_z ws ws' \<Longrightarrow> same_order ws ws' \<Longrightarrow> z_distinct ws \<Longrightarrow> z_distinct ws'"
  using same_but_z_live [of ws ws'] unfolding z_distinct_def same_order_def by (metis less_irrefl linorder_less_linear)

lemma same_order_trans: "same_but_z ws ws' \<Longrightarrow> same_order ws ws' \<Longrightarrow> same_order ws' ws'' \<Longrightarrow> same_order ws ws''"
  using same_but_z_live [of ws ws'] unfolding same_order_def by simp

definition numbered :: "nat \<Rightarrow> window list \<Rightarrow> bool" where
  "numbered k ws \<longleftrightarrow> card {i. live_at ws i \<and> unat (win_z (ws ! i)) < k} = k"

lemma compact_step:
  assumes "z_distinct ws" "numbered k ws"
    and i: "pick (\<lambda>w. live w \<and> \<not> unat (win_z w) < k) (\<lambda>a b. win_z a < win_z b) ws = Some i"
  defines "ws' \<equiv> ws[i := (ws ! i)\<lparr>win_z := of_nat k\<rparr>]"
  shows "same_but_z ws ws'" "same_order ws ws'" "numbered (Suc k) ws'"
proof -
  show same: "same_but_z ws ws'" unfolding ws'_def by (rule same_but_z_update)
  have li: "live_at ws i" "k \<le> unat (win_z (ws ! i))" using pick_Some [OF i] by (auto simp: live_at_def)
  have "unat (win_z (ws ! i)) < 2 ^ 8" using unsigned_less [of "win_z (ws ! i)"] by simp
  then have k: "unat (of_nat k :: u8) = k" using li(2) by (intro unat_of_nat_small) simp
  have zi: "unat (win_z (ws' ! i)) = k" and zj: "j \<noteq> i \<Longrightarrow> win_z (ws' ! j) = win_z (ws ! j)" for j
    using li(1) k by (simp_all add: ws'_def live_at_def)
  have gap: "unat (win_z (ws ! j)) < k \<or> unat (win_z (ws ! i)) < unat (win_z (ws ! j))" if "live_at ws j" "j \<noteq> i" for j
    using lowest.pick_best [OF i, of j] that li(1) assms(1) unfolding z_distinct_def live_at_def
    by (metis (mono_tags, lifting) not_less_iff_gr_or_eq unat_less_iff)
  have lt: "unat (win_z (ws' ! a)) < unat (win_z (ws' ! b)) \<longleftrightarrow> unat (win_z (ws ! a)) < unat (win_z (ws ! b))"
    if "live_at ws a" "live_at ws b" for a b
    using gap [OF that(1)] gap [OF that(2)] li(2) zi zj by (cases "a = i"; cases "b = i"; force)
  show "same_order ws ws'" unfolding same_order_def using lt by (simp add: unat_less_iff)
  have "{j. live_at ws' j \<and> unat (win_z (ws' ! j)) < Suc k} = insert i {j. live_at ws j \<and> unat (win_z (ws ! j)) < k}"
    using same_but_z_live [OF same] zi zj li gap by (auto simp: less_Suc_eq) (metis less_not_refl2 linorder_not_less)+
  moreover have "finite {j. live_at ws j \<and> unat (win_z (ws ! j)) < k}" by (rule finite_subset [OF _ finite_live [of ws]]) auto
  ultimately show "numbered (Suc k) ws'" using assms(2) li(2) by (simp add: numbered_def card_insert_if)
qed

lemma compact_loop_spec:
  "z_distinct ws \<Longrightarrow> numbered k ws \<Longrightarrow>
   same_but_z ws (compact_loop k ws) \<and> same_order ws (compact_loop k ws) \<and> z_compact (compact_loop k ws)"
proof (induction k ws rule: compact_loop.induct)
  case (1 k ws)
  show ?case
  proof (cases "pick (\<lambda>w. live w \<and> \<not> unat (win_z w) < k) (\<lambda>a b. win_z a < win_z b) ws")
    case None
    have all: "unat (win_z (ws ! i)) < k" if "live_at ws i" for i using lowest.pick_none [OF None] that by (auto simp: live_at_def)
    then have "Collect (live_at ws) = {i. live_at ws i \<and> unat (win_z (ws ! i)) < k}" by auto
    then have "z_compact ws" using all 1(3) by (auto simp: z_compact_def numbered_def)
    then show ?thesis using None by (subst (1 2 3) compact_loop.simps) (simp add: same_order_def)
  next
    case (Some i)
    note step = compact_step [OF 1(2,3) Some]
    have "z_distinct (ws[i := (ws ! i)\<lparr>win_z := of_nat k\<rparr>])" by (rule same_order_distinct [OF step(1,2) 1(2)])
    then have "same_but_z ws (compact_loop (Suc k) (ws[i := (ws ! i)\<lparr>win_z := of_nat k\<rparr>])) \<and>
        same_order ws (compact_loop (Suc k) (ws[i := (ws ! i)\<lparr>win_z := of_nat k\<rparr>])) \<and>
        z_compact (compact_loop (Suc k) (ws[i := (ws ! i)\<lparr>win_z := of_nat k\<rparr>]))"
      using 1(1) [OF Some _ step(3)] step(1,2) same_but_z_trans same_order_trans by blast
    then show ?thesis using Some by (subst (1 2 3) compact_loop.simps) simp
  qed
qed

lemma compact_z_spec:
  "z_distinct ws \<Longrightarrow> same_but_z ws (compact_z ws) \<and> same_order ws (compact_z ws) \<and> z_compact (compact_z ws)"
  unfolding compact_z_def by (rule compact_loop_spec) (simp_all add: numbered_def)

text \<open>Windows that leave no number out, even with a number used twice, stay as they are.\<close>

definition no_gap :: "window list \<Rightarrow> bool" where
  "no_gap ws \<longleftrightarrow> (\<forall>i v. live_at ws i \<longrightarrow> v < unat (win_z (ws ! i)) \<longrightarrow> (\<exists>j. live_at ws j \<and> unat (win_z (ws ! j)) = v))"

lemma compact_loop_no_gap: "no_gap ws \<Longrightarrow> compact_loop k ws = ws"
proof (induction k ws rule: compact_loop.induct)
  case (1 k ws)
  show ?case
  proof (cases "pick (\<lambda>w. live w \<and> \<not> unat (win_z w) < k) (\<lambda>a b. win_z a < win_z b) ws")
    case None
    then show ?thesis by (subst compact_loop.simps) simp
  next
    case (Some i)
    then have i: "live_at ws i" "k \<le> unat (win_z (ws ! i))" using pick_Some [OF Some] by (auto simp: live_at_def)
    have "\<not> k < unat (win_z (ws ! i))"
    proof
      assume "k < unat (win_z (ws ! i))"
      then obtain j where j: "live_at ws j" "unat (win_z (ws ! j)) = k" using 1(2) i(1) unfolding no_gap_def by blast
      then have "\<not> win_z (ws ! j) < win_z (ws ! i)" using lowest.pick_best [OF Some, of j] by (simp add: live_at_def)
      then show False using j(2) \<open>k < unat (win_z (ws ! i))\<close> by (simp add: unat_less_iff)
    qed
    then have "k = unat (win_z (ws ! i))" using i(2) by simp
    then have "ws[i := (ws ! i)\<lparr>win_z := of_nat k\<rparr>] = ws" by simp
    then show ?thesis using Some 1 by (subst compact_loop.simps) simp
  qed
qed

lemma compact_no_gap: "no_gap ws \<Longrightarrow> compact_z ws = ws"
  by (simp add: compact_z_def compact_loop_no_gap)

subsection \<open>Raising a window\<close>

abbreviation level :: "window list \<Rightarrow> nat \<Rightarrow> nat" where "level ws i \<equiv> unat (win_z (ws ! i))"

lemma levels_onto:
  assumes "z_distinct ws" "z_compact ws" "v < card (Collect (live_at ws))"
  shows "\<exists>i. live_at ws i \<and> level ws i = v"
proof -
  have inj: "inj_on (level ws) (Collect (live_at ws))" using assms(1) by (auto simp: inj_on_def z_distinct_def unat_eq_iff)
  have "level ws ` Collect (live_at ws) \<subseteq> {..<card (Collect (live_at ws))}" using assms(2) by (auto simp: z_compact_def)
  then have "level ws ` Collect (live_at ws) = {..<card (Collect (live_at ws))}"
    by (rule card_subset_eq [OF finite_lessThan]) (simp add: card_image [OF inj])
  then show ?thesis using assms(3) by (metis (no_types, lifting) imageE lessThan_iff mem_Collect_eq)
qed

lemma compact_no_gaps: "z_distinct ws \<Longrightarrow> z_compact ws \<Longrightarrow> no_gap ws"
  unfolding no_gap_def using levels_onto [of ws] by (meson order.strict_trans z_compact_def)

lemma top_of_others_bound:
  assumes "\<forall>w\<in>set ws. other wid w \<longrightarrow> win_z w \<le> b"
  shows "(if snd (top_of_others wid ws) then fst (top_of_others wid ws) else 0) \<le> b"
proof -
  have "fst a \<le> b \<Longrightarrow> \<forall>w\<in>set vs. other wid w \<longrightarrow> win_z w \<le> b \<Longrightarrow>
    fst (fold (\<lambda>w (top_z, found). if \<not> other wid w then (top_z, found)
            else if \<not> found \<or> win_z w > top_z then (win_z w, True) else (top_z, found)) vs a) \<le> b" for vs a
    by (induction vs arbitrary: a) (auto split: prod.splits)
  from this [of "(0, False)" ws] assms show ?thesis by (simp add: top_of_others_def)
qed

lemma above_others_fold:
  fixes h :: u8
  assumes "\<forall>w\<in>set ws. other wid w \<longrightarrow> unat (win_z w) < 255"
  defines "r \<equiv> fold (\<lambda>w highest. if other wid w \<and> win_z w \<ge> highest then win_z w + 1 else highest) ws h"
  shows "unat h \<le> unat r \<and> (\<forall>w\<in>set ws. other wid w \<longrightarrow> unat (win_z w) < unat r) \<and>
    (r = h \<or> (\<exists>w\<in>set ws. other wid w \<and> unat r = Suc (unat (win_z w))))"
  using assms(1) unfolding r_def
proof (induction ws arbitrary: h)
  case (Cons w ws)
  have s: "unat (win_z w + 1) = Suc (unat (win_z w))" if "other wid w"
    using Cons.prems that by (simp add: unat_word_ariths)
  show ?case
  proof (cases "other wid w \<and> win_z w \<ge> h")
    case True
    then show ?thesis using Cons.IH [of "win_z w + 1"] Cons.prems s by (auto simp: unat_le_iff)
  next
    case False
    then have "other wid w \<longrightarrow> unat (win_z w) < unat h" by (auto simp: unat_le_iff)
    then show ?thesis using Cons.IH [of h] Cons.prems False by auto
  qed
qed simp

lemma above_others_spec:
  assumes "\<And>i. i < length ws \<Longrightarrow> other wid (ws ! i) \<Longrightarrow> level ws i < m" "m < 256"
    and "\<And>v. v < m \<Longrightarrow> \<exists>i<length ws. other wid (ws ! i) \<and> level ws i = v"
  shows "unat (above_others wid ws) = m"
proof -
  have "\<forall>w\<in>set ws. other wid w \<longrightarrow> unat (win_z w) < 255" using assms(1,2) by (auto simp: in_set_conv_nth) force
  note r = above_others_fold [OF this, of 0, folded above_others_def]
  have up: "unat (above_others wid ws) \<le> m" using r assms(1) by (fastforce simp: in_set_conv_nth)
  have "m \<le> unat (above_others wid ws)"
  proof (cases m)
    case (Suc k)
    then obtain i where "i < length ws" "other wid (ws ! i)" "level ws i = k" using assms(3) [of k] by auto
    then show ?thesis using r Suc by (metis Suc_leI nth_mem)
  qed simp
  then show ?thesis using up by simp
qed

text \<open>The new level of the window in another slot when the window of slot \<open>t\<close> goes to the top.\<close>

definition lowered :: "window list \<Rightarrow> nat \<Rightarrow> nat \<Rightarrow> nat" where
  "lowered ws t i = (if level ws i > level ws t then level ws i - 1 else level ws i)"

lemma lowered_facts:
  assumes "z_distinct ws" "z_compact ws" "live_at ws t"
  shows "live_at ws i \<Longrightarrow> i \<noteq> t \<Longrightarrow> lowered ws t i < card (Collect (live_at ws)) - 1"
    and "v < card (Collect (live_at ws)) - 1 \<Longrightarrow> \<exists>i. live_at ws i \<and> i \<noteq> t \<and> lowered ws t i = v"
    and "live_at ws i \<Longrightarrow> live_at ws j \<Longrightarrow> i \<noteq> t \<Longrightarrow> j \<noteq> t \<Longrightarrow> (lowered ws t i < lowered ws t j) = (level ws i < level ws j)"
proof -
  let ?n = "card (Collect (live_at ws))"
  have lt: "level ws i < ?n" if "live_at ws i" for i using assms(2) that by (simp add: z_compact_def)
  have ne: "level ws i \<noteq> level ws t" if "live_at ws i" "i \<noteq> t" for i using assms(1,3) that unfolding z_distinct_def by (metis unat_eq_iff)
  show "lowered ws t i < ?n - 1" if "live_at ws i" "i \<noteq> t" for i
    using lt [OF that(1)] lt [OF assms(3)] ne [OF that] by (auto simp: lowered_def)
  show "\<exists>i. live_at ws i \<and> i \<noteq> t \<and> lowered ws t i = v" if "v < ?n - 1" for v
  proof -
    have "(if v < level ws t then v else Suc v) < ?n" using that by auto
    from levels_onto [OF assms(1,2) this] obtain i where i: "live_at ws i" "level ws i = (if v < level ws t then v else Suc v)" by blast
    then have "i \<noteq> t" "lowered ws t i = v" by (auto simp: lowered_def split: if_splits)
    then show ?thesis using i(1) by blast
  qed
  show "(lowered ws t i < lowered ws t j) = (level ws i < level ws j)" if "live_at ws i" "live_at ws j" "i \<noteq> t" "j \<noteq> t" for i j
    using ne [OF that(1,3)] ne [OF that(2,4)] by (auto simp: lowered_def)
qed

lemma raise_window_spec:
  assumes "ids_ok ws" "z_distinct ws" "z_compact ws" "length ws \<le> 8" and t: "find_window wid ws = Some t"
  defines "ws' \<equiv> raise_window wid ws"
  shows "same_but_z ws ws'" "level ws' t = card (Collect (live_at ws)) - 1"
    "live_at ws i \<Longrightarrow> i \<noteq> t \<Longrightarrow> level ws' i = lowered ws t i"
proof -
  let ?n = "card (Collect (live_at ws))"
  have lt: "live_at ws t" "win_id (ws ! t) = wid" using find_window_Some [OF t] by auto
  have oth: "i < length ws \<Longrightarrow> other wid (ws ! i) \<longleftrightarrow> live_at ws i \<and> i \<noteq> t" for i
    using lt assms(1) by (auto simp: other_def live_at_def ids_ok_def)
  have "?n \<le> length ws" unfolding card_live by (rule length_filter_le)
  then have n: "0 < ?n" "?n \<le> 8" using lt(1) assms(4) card_gt_0_iff [of "Collect (live_at ws)"] by auto
  have n1: "unat (of_nat (?n - 1) :: u8) = ?n - 1" by (rule unat_of_nat_small) (use n in simp)
  define top where "top = (if snd (top_of_others wid ws) then fst (top_of_others wid ws) else 0)"
  define lower where "lower = (\<lambda>w. if other wid w \<and> win_z w > win_z (ws ! t) then w\<lparr>win_z := win_z w - 1\<rparr> else w)"
  define ws1 where "ws1 = (map lower ws)[t := (map lower ws ! t)\<lparr>win_z := top\<rparr>]"
  have "same_but_z ws (map lower ws)"
    by (rule same_but_z_map [where g = "\<lambda>w. if other wid w \<and> win_z w > win_z (ws ! t) then win_z w - 1 else win_z w"]) (simp add: lower_def)
  then have same1: "same_but_z ws ws1" unfolding ws1_def using same_but_z_update same_but_z_trans by blast
  have low: "level ws1 i = lowered ws t i" if i: "live_at ws i" "i \<noteq> t" for i
  proof -
    have "win_z (ws1 ! i) = (if win_z (ws ! i) > win_z (ws ! t) then win_z (ws ! i) - 1 else win_z (ws ! i))"
      using i oth [of i] by (simp add: ws1_def lower_def live_at_def)
    moreover have "unat (win_z (ws ! i) - 1) = level ws i - 1" if "win_z (ws ! i) > win_z (ws ! t)"
      using that by (subst unat_sub) (auto simp: unat_le_iff unat_less_iff)
    ultimately show ?thesis by (simp add: lowered_def unat_less_iff)
  qed
  have "top \<le> of_nat (?n - 1)"
    unfolding top_def
  proof (rule top_of_others_bound, intro ballI impI)
    fix w assume w: "w \<in> set ws" "other wid w"
    then obtain i where "i < length ws" "w = ws ! i" by (metis in_set_conv_nth)
    then have "unat (win_z w) < ?n" using w assms(3) by (auto simp: other_def z_compact_def live_at_def)
    then show "win_z w \<le> of_nat (?n - 1)" unfolding unat_le_iff n1 by simp
  qed
  then have "unat top \<le> ?n - 1" unfolding unat_le_iff n1 .
  then have "level ws1 t \<le> ?n - 1" using lt(1) by (simp add: ws1_def live_at_def)
  then have small: "level ws1 i \<le> ?n - 1" if "live_at ws i" for i
    using low [OF that] lowered_facts(1) [OF assms(2,3) lt(1) that] by (cases "i = t") auto
  have gap: "no_gap ws1" unfolding no_gap_def same_but_z_live [OF same1]
  proof (intro allI impI)
    fix i v assume "live_at ws i" "v < level ws1 i"
    then have "v < ?n - 1" using small [of i] by simp
    then show "\<exists>j. live_at ws j \<and> level ws1 j = v" using lowered_facts(2) [OF assms(2,3) lt(1)] low by metis
  qed
  have raised: "ws' = ws1[t := (ws1 ! t)\<lparr>win_z := above_others wid ws1\<rparr>]"
    using t compact_no_gap [OF compact_no_gaps [OF assms(2,3)]] compact_no_gap [OF gap]
    by (simp add: ws'_def raise_window_def ws1_def lower_def top_def Let_def split_beta)
  have len: "length ws1 = length ws" using same1 by (simp add: same_but_z_def)
  have oth1: "i < length ws \<Longrightarrow> other wid (ws1 ! i) \<longleftrightarrow> live_at ws i \<and> i \<noteq> t" for i
    using oth [of i] same_but_z_fields(1,4) [OF same1, of i] by (simp add: other_def)
  have above: "unat (above_others wid ws1) = ?n - 1"
  proof (rule above_others_spec)
    show "level ws1 i < ?n - 1" if "i < length ws1" "other wid (ws1 ! i)" for i
      using that oth1 [of i] low lowered_facts(1) [OF assms(2,3) lt(1)] len by simp
    show "\<exists>i<length ws1. other wid (ws1 ! i) \<and> level ws1 i = v" if "v < ?n - 1" for v
      using lowered_facts(2) [OF assms(2,3) lt(1) that] low oth1 unfolding len by (auto simp: live_at_def)
  qed (use n in simp)
  show "same_but_z ws ws'" unfolding raised using same1 same_but_z_update same_but_z_trans by blast
  show "level ws' t = ?n - 1" using above lt(1) len by (simp add: raised live_at_def)
  show "level ws' i = lowered ws t i" if "live_at ws i" "i \<noteq> t" for i using low [OF that] that(2) by (simp add: raised)
qed

lemma raise_window_levels:
  assumes "ids_ok ws" "z_distinct ws" "z_compact ws" "length ws \<le> 8" and t: "find_window wid ws = Some t"
  shows "z_distinct (raise_window wid ws)" "z_compact (raise_window wid ws)"
    "live_at ws i \<Longrightarrow> i \<noteq> t \<Longrightarrow> level (raise_window wid ws) i < level (raise_window wid ws) t"
    "live_at ws i \<Longrightarrow> live_at ws j \<Longrightarrow> i \<noteq> t \<Longrightarrow> j \<noteq> t \<Longrightarrow>
       (level (raise_window wid ws) i < level (raise_window wid ws) j) = (level ws i < level ws j)"
proof -
  note r = raise_window_spec [OF assms]
  have lt: "live_at ws t" using find_window_Some [OF t] by simp
  note l = lowered_facts [OF assms(2,3) lt]
  have pos: "0 < card (Collect (live_at ws))" using lt card_gt_0_iff [of "Collect (live_at ws)"] by auto
  have live: "live_at (raise_window wid ws) = live_at ws" using same_but_z_live [OF r(1)] by blast
  show below: "level (raise_window wid ws) i < level (raise_window wid ws) t" if "live_at ws i" "i \<noteq> t" for i
    using r(2) r(3) [OF that] l(1) [OF that] by simp
  show iso: "(level (raise_window wid ws) i < level (raise_window wid ws) j) = (level ws i < level ws j)"
    if "live_at ws i" "live_at ws j" "i \<noteq> t" "j \<noteq> t" for i j
    using r(3) [OF that(1,3)] r(3) [OF that(2,4)] l(3) [OF that] by simp
  show "z_distinct (raise_window wid ws)"
    unfolding z_distinct_def live
    using below iso assms(2) unfolding z_distinct_def by (metis less_irrefl linorder_less_linear unat_less_iff)
  show "z_compact (raise_window wid ws)"
    unfolding z_compact_def live using r(2,3) l(1) pos by (metis One_nat_def Suc_pred lessI less_imp_diff_less order.strict_trans)
qed

subsection \<open>The invariant\<close>

definition on_screen :: "rect \<Rightarrow> bool" where
  "on_screen b \<longleftrightarrow> kMinWidth \<le> rc_width b \<and> kMinHeight \<le> rc_height b \<and> 0 \<le> rc_x b \<and> kPanelHeight \<le> rc_y b \<and>
     rc_x b + rc_width b \<le> kScreenWidth \<and> rc_y b + rc_height b \<le> kScreenHeight"

definition windows_ok :: "window list \<Rightarrow> bool" where
  "windows_ok ws \<longleftrightarrow> length ws = kMaxWindows \<and> ids_ok ws \<and> z_distinct ws \<and> z_compact ws \<and>
     (\<forall>i. live_at ws i \<longrightarrow> on_screen (win_bounds (ws ! i)) \<and> on_screen (win_restore_bounds (ws ! i)))"

definition open_slot :: "window list \<Rightarrow> nat \<Rightarrow> bool" where "open_slot ws i \<longleftrightarrow> i < length ws \<and> win_state (ws ! i) = Open"

text \<open>The topmost open window, or 0 if no window is open.\<close>

definition on_top :: "window list \<Rightarrow> u32 \<Rightarrow> bool" where
  "on_top ws wid \<longleftrightarrow>
     (if \<exists>i. open_slot ws i then \<exists>i. open_slot ws i \<and> win_id (ws ! i) = wid \<and> (\<forall>j. open_slot ws j \<longrightarrow> win_z (ws ! j) \<le> win_z (ws ! i)) else wid = 0)"

text \<open>The window being dragged keeps its size and the window being resized its corner.\<close>

definition pointer_ok :: "window_manager \<Rightarrow> bool" where
  "pointer_ok m \<longleftrightarrow>
     (if wm_action m = NoAction then wm_pointer_window m = 0
      else on_screen (wm_start_bounds m) \<and>
        (\<exists>i. open_slot (wm_windows m) i \<and> win_id (wm_windows m ! i) = wm_pointer_window m \<and>
           (let b = win_bounds (wm_windows m ! i); s = wm_start_bounds m in
            wm_action m = Resize \<longrightarrow> rc_x b = rc_x s \<and> rc_y b = rc_y s)))"

definition wm_ok :: "window_manager \<Rightarrow> bool" where
  "wm_ok m \<longleftrightarrow> windows_ok (wm_windows m) \<and> on_top (wm_windows m) (wm_focused m) \<and> pointer_ok m"

lemma open_live: "open_slot ws i \<Longrightarrow> live_at ws i" by (simp add: open_slot_def live_at_def)

lemma clamp_on_screen [simp]: "on_screen (clamp_bounds b)"
  by (simp add: on_screen_def clamp_bounds_def clamp_value_def screen_const Let_def)

lemma drag_on_screen: "on_screen start \<Longrightarrow> on_screen (drag_bounds start dx dy)"
  by (auto simp: on_screen_def drag_bounds_def clamp_value_def screen_const Let_def)

lemma resize_on_screen:
  "on_screen start \<Longrightarrow> rc_x b = rc_x start \<Longrightarrow> rc_y b = rc_y start \<Longrightarrow> on_screen b \<Longrightarrow> on_screen (resize_bounds start dx dy b)"
  by (auto simp: on_screen_def resize_bounds_def clamp_value_def screen_const Let_def)

lemma highest_on_top: "on_top ws (highest_open_window ws)"
proof (cases "pick (\<lambda>w. win_state w = Open) (\<lambda>a b. win_z a > win_z b) ws")
  case None
  then show ?thesis
    using highest.pick_none [OF None] by (auto simp: on_top_def highest_open_window_def picked_id_def open_slot_def)
next
  case (Some i)
  have "win_z (ws ! j) \<le> win_z (ws ! i)" if "open_slot ws j" for j
    using highest.pick_best [OF Some, of j] that by (simp add: open_slot_def not_less)
  moreover have "open_slot ws i" using pick_Some [OF Some] by (simp add: open_slot_def)
  ultimately show ?thesis using Some by (auto simp: on_top_def highest_open_window_def picked_id_def)
qed

lemma on_top_unique: "ids_ok ws \<Longrightarrow> z_distinct ws \<Longrightarrow> on_top ws a \<Longrightarrow> on_top ws b \<Longrightarrow> a = b"
  unfolding on_top_def z_distinct_def by (metis antisym open_live)

lemma on_top_cong:
  assumes "\<And>i. open_slot ws' i = open_slot ws i" "\<And>i. open_slot ws i \<Longrightarrow> win_id (ws' ! i) = win_id (ws ! i)"
    and "\<And>i j. open_slot ws i \<Longrightarrow> open_slot ws j \<Longrightarrow> (win_z (ws' ! i) \<le> win_z (ws' ! j)) = (win_z (ws ! i) \<le> win_z (ws ! j))"
  shows "on_top ws' wid = on_top ws wid"
  unfolding on_top_def assms(1) using assms(2,3) by (metis (full_types))

text \<open>Taking away a window that is not on top.\<close>

lemma on_top_without:
  assumes "on_top ws f" "\<And>j. open_slot ws' j \<longleftrightarrow> open_slot ws j \<and> j \<noteq> i" "\<And>j. j \<noteq> i \<Longrightarrow> ws' ! j = ws ! j" "win_id (ws ! i) \<noteq> f"
  shows "on_top ws' f"
proof (cases "\<exists>k. open_slot ws k")
  case True
  then obtain k where k: "open_slot ws k" "win_id (ws ! k) = f" "\<And>j. open_slot ws j \<Longrightarrow> win_z (ws ! j) \<le> win_z (ws ! k)"
    using assms(1) unfolding on_top_def by auto
  then have "k \<noteq> i" using assms(4) by auto
  then show ?thesis using k assms(2,3) unfolding on_top_def by auto
next
  case False
  then show ?thesis using assms(1,2) unfolding on_top_def by simp
qed

lemma same_but_z_open: "same_but_z ws ws' \<Longrightarrow> open_slot ws' i = open_slot ws i"
  using same_but_z_fields(4) [of ws ws' i] by (auto simp: open_slot_def same_but_z_def)

lemma windows_ok_restacked:
  assumes "same_but_z ws ws'" "z_distinct ws'" "z_compact ws'" "length ws = kMaxWindows" "ids_ok ws"
    and "\<And>i. live_at ws i \<Longrightarrow> on_screen (win_bounds (ws ! i)) \<and> on_screen (win_restore_bounds (ws ! i))"
  shows "windows_ok ws'"
  unfolding windows_ok_def same_but_z_live [OF assms(1)]
  using assms same_but_z_ids [OF assms(1)] same_but_z_fields(2,3) [OF assms(1)] by (simp add: same_but_z_def live_at_def)

lemma pointer_ok_cong:
  assumes "wm_action m' = wm_action m" "wm_pointer_window m' = wm_pointer_window m" "wm_start_bounds m' = wm_start_bounds m"
    and "\<And>i. open_slot (wm_windows m) i \<Longrightarrow> win_id (wm_windows m ! i) = wm_pointer_window m \<Longrightarrow>
        open_slot (wm_windows m') i \<and> win_id (wm_windows m' ! i) = wm_pointer_window m \<and>
        win_bounds (wm_windows m' ! i) = win_bounds (wm_windows m ! i)"
  shows "pointer_ok m \<Longrightarrow> pointer_ok m'"
  using assms(4) unfolding pointer_ok_def assms(1-3) by (auto simp: Let_def split: if_splits) metis+

lemma pointer_ok_same:
  assumes "same_but_z (wm_windows m) ws'"
  shows "pointer_ok m \<Longrightarrow> pointer_ok (m\<lparr>wm_windows := ws', wm_focused := f\<rparr>)"
proof (rule pointer_ok_cong)
  fix i assume "open_slot (wm_windows m) i" "win_id (wm_windows m ! i) = wm_pointer_window m"
  then show "open_slot (wm_windows (m\<lparr>wm_windows := ws', wm_focused := f\<rparr>)) i \<and>
      win_id (wm_windows (m\<lparr>wm_windows := ws', wm_focused := f\<rparr>) ! i) = wm_pointer_window m \<and>
      win_bounds (wm_windows (m\<lparr>wm_windows := ws', wm_focused := f\<rparr>) ! i) = win_bounds (wm_windows m ! i)"
    using same_but_z_open [OF assms] same_but_z_fields(1,2) [OF assms, of i] by (simp add: open_slot_def)
qed simp_all

lemma pointer_ok_elsewhere:
  assumes "pointer_ok m" "wm_windows m' = (wm_windows m)[i := v]" "\<not> (open_slot (wm_windows m) i \<and> win_id (wm_windows m ! i) = wm_pointer_window m)"
    and "wm_action m' = wm_action m" "wm_pointer_window m' = wm_pointer_window m" "wm_start_bounds m' = wm_start_bounds m"
  shows "pointer_ok m'"
proof (rule pointer_ok_cong [OF assms(4-6) _ assms(1)])
  fix j assume j: "open_slot (wm_windows m) j" "win_id (wm_windows m ! j) = wm_pointer_window m"
  then have "j \<noteq> i" using assms(3) by auto
  then show "open_slot (wm_windows m') j \<and> win_id (wm_windows m' ! j) = wm_pointer_window m \<and>
      win_bounds (wm_windows m' ! j) = win_bounds (wm_windows m ! j)" using j by (simp add: assms(2) open_slot_def)
qed

lemma raise_ok:
  assumes "windows_ok ws" "find_window wid ws = Some t"
  shows "windows_ok (raise_window wid ws)" "win_state (ws ! t) = Open \<Longrightarrow> on_top (raise_window wid ws) wid"
    "same_but_z ws (raise_window wid ws)"
proof -
  have ok: "ids_ok ws" "z_distinct ws" "z_compact ws" "length ws \<le> 8" "length ws = kMaxWindows"
    using assms(1) by (simp_all add: windows_ok_def kMaxWindows_def)
  note r = raise_window_spec(1) [OF ok(1-4) assms(2)] raise_window_levels [OF ok(1-4) assms(2)]
  show "same_but_z ws (raise_window wid ws)" by (rule r(1))
  show "windows_ok (raise_window wid ws)"
    by (rule windows_ok_restacked [OF r(1,2,3) ok(5,1)]) (use assms(1) in \<open>simp add: windows_ok_def\<close>)
  assume "win_state (ws ! t) = Open"
  then have t: "open_slot ws t" "win_id (raise_window wid ws ! t) = wid"
    using find_window_Some [OF assms(2)] same_but_z_fields(1) [OF r(1)] by (auto simp: open_slot_def live_at_def)
  have "win_z (raise_window wid ws ! j) \<le> win_z (raise_window wid ws ! t)" if "open_slot ws j" for j
    using r(4) [OF open_live [OF that]] by (cases "j = t") (auto simp: unat_le_iff)
  then show "on_top (raise_window wid ws) wid" unfolding on_top_def same_but_z_open [OF r(1)] using t by auto
qed

lemma focus_ok:
  assumes "windows_ok (wm_windows m)" "pointer_ok m" "find_window wid (wm_windows m) = Some i" "win_state (wm_windows m ! i) = Open"
  shows "focus wid m = (True, m\<lparr>wm_windows := raise_window wid (wm_windows m), wm_focused := wid\<rparr>)" "wm_ok (snd (focus wid m))"
proof -
  show f: "focus wid m = (True, m\<lparr>wm_windows := raise_window wid (wm_windows m), wm_focused := wid\<rparr>)"
    using assms(3,4) by (simp add: focus_def)
  show "wm_ok (snd (focus wid m))"
    using raise_ok [OF assms(1,3)] assms(4) pointer_ok_same [OF raise_ok(3) [OF assms(1,3)] assms(2)] by (simp add: f wm_ok_def)
qed

lemma begin_action_ok:
  assumes "wm_ok m" "find_window wid (wm_windows m) = Some i" "win_state (wm_windows m ! i) = Open" "a \<noteq> NoAction"
  shows "wm_ok (begin_action a wid p i m)" "wm_windows (begin_action a wid p i m) = raise_window wid (wm_windows m)"
proof -
  have ok: "windows_ok (wm_windows m)" "pointer_ok m" using assms(1) by (simp_all add: wm_ok_def)
  note f = focus_ok [OF ok assms(2,3)]
  show w: "wm_windows (begin_action a wid p i m) = raise_window wid (wm_windows m)" by (simp add: begin_action_def f(1))
  have i: "open_slot (wm_windows m) i" "win_id (wm_windows m ! i) = wid" "wid \<noteq> 0"
    using find_window_Some [OF assms(2)] assms(3) by (auto simp: open_slot_def live_at_def)
  note same = raise_ok(3) [OF ok(1) assms(2)]
  have i': "open_slot (raise_window wid (wm_windows m)) i" "win_id (raise_window wid (wm_windows m) ! i) = wid"
    "on_screen (win_bounds (raise_window wid (wm_windows m) ! i))"
    using i same_but_z_open [OF same] same_but_z_fields(1) [OF same] raise_ok(1) [OF ok(1) assms(2)]
    by (auto simp: windows_ok_def open_live) (simp add: open_slot_def)
  have "pointer_ok (begin_action a wid p i m)"
    using i' assms(4) unfolding pointer_ok_def w by (auto simp: begin_action_def f(1) Let_def)
  then show "wm_ok (begin_action a wid p i m)" using f by (simp add: wm_ok_def begin_action_def Let_def)
qed

lemma update_same:
  assumes "live_at ws i" "win_id v = win_id (ws ! i)" "win_z v = win_z (ws ! i)" "live v"
  shows "live_at (ws[i := v]) j = live_at ws j" "ids_ok (ws[i := v]) = ids_ok ws" "z_distinct (ws[i := v]) = z_distinct ws"
    "z_compact (ws[i := v]) = z_compact ws" "win_id (ws[i := v] ! j) = win_id (ws ! j)" "win_z (ws[i := v] ! j) = win_z (ws ! j)"
proof -
  show l: "live_at (ws[i := v]) j = live_at ws j" for j using assms(1,4) by (auto simp: live_at_def nth_list_update)
  show d: "win_id (ws[i := v] ! j) = win_id (ws ! j)" "win_z (ws[i := v] ! j) = win_z (ws ! j)" for j
    using assms(1-3) by (auto simp: live_at_def nth_list_update)
  show "ids_ok (ws[i := v]) = ids_ok ws" "z_distinct (ws[i := v]) = z_distinct ws" "z_compact (ws[i := v]) = z_compact ws"
    using ext [of "live_at (ws[i := v])" "live_at ws", OF l] by (simp_all add: ids_ok_def z_distinct_def z_compact_def d)
qed

lemma windows_ok_update:
  assumes "windows_ok ws" "live_at ws i" "win_id v = win_id (ws ! i)" "win_z v = win_z (ws ! i)" "live v"
    and "on_screen (win_bounds v)" "on_screen (win_restore_bounds v)"
  shows "windows_ok (ws[i := v])"
  using assms(1,2,6,7) unfolding windows_ok_def update_same [OF assms(2-5)] by (auto simp: nth_list_update live_at_def)

lemma pointer_window_at:
  assumes "wm_ok m" "wm_action m \<noteq> NoAction"
  obtains i where "find_window (wm_pointer_window m) (wm_windows m) = Some i" "open_slot (wm_windows m) i" "on_screen (wm_start_bounds m)"
    "wm_action m = Resize \<Longrightarrow> rc_x (win_bounds (wm_windows m ! i)) = rc_x (wm_start_bounds m) \<and> rc_y (win_bounds (wm_windows m ! i)) = rc_y (wm_start_bounds m)"
proof -
  obtain i where i: "open_slot (wm_windows m) i" "win_id (wm_windows m ! i) = wm_pointer_window m" "on_screen (wm_start_bounds m)"
    "wm_action m = Resize \<longrightarrow> rc_x (win_bounds (wm_windows m ! i)) = rc_x (wm_start_bounds m) \<and> rc_y (win_bounds (wm_windows m ! i)) = rc_y (wm_start_bounds m)"
    using assms unfolding wm_ok_def pointer_ok_def by (auto simp: Let_def)
  moreover have "ids_ok (wm_windows m)" using assms(1) by (simp add: wm_ok_def windows_ok_def)
  ultimately show thesis using that find_window_live [OF _ open_live [OF i(1)]] by metis
qed

text \<open>Moving the pointer never stacks windows anew and keeps them on the screen.\<close>

lemma put_bounds_ok:
  assumes "wm_ok m" "open_slot (wm_windows m) i" "win_id (wm_windows m ! i) = wm_pointer_window m" "on_screen b"
    and "wm_action m = Resize \<Longrightarrow> rc_x b = rc_x (wm_start_bounds m) \<and> rc_y b = rc_y (wm_start_bounds m)"
  shows "wm_ok (put_window i (\<lambda>w. w\<lparr>win_bounds := b\<rparr>) m)"
proof -
  let ?ws = "wm_windows m" let ?v = "(?ws ! i)\<lparr>win_bounds := b\<rparr>"
  have i: "live_at ?ws i" "i < length ?ws" "win_state (?ws ! i) = Open" using assms(2) by (auto simp: open_live open_slot_def)
  have ok: "windows_ok ?ws" "on_top ?ws (wm_focused m)" "pointer_ok m" using assms(1) by (simp_all add: wm_ok_def)
  have "windows_ok (?ws[i := ?v])" by (rule windows_ok_update [OF ok(1) i(1)]) (use ok(1) i(1,3) assms(4) in \<open>simp_all add: windows_ok_def\<close>)
  moreover have "on_top (?ws[i := ?v]) (wm_focused m)"
    using ok(2) by (subst on_top_cong) (use i in \<open>auto simp: open_slot_def nth_list_update\<close>)
  moreover have "pointer_ok (put_window i (\<lambda>w. w\<lparr>win_bounds := b\<rparr>) m)"
    using ok(3) i assms(3,5) unfolding pointer_ok_def put_window_def
    by (auto simp: Let_def open_slot_def nth_list_update intro!: exI [of _ i])
  ultimately show ?thesis by (simp add: wm_ok_def put_window_def)
qed

lemma pointer_move_ok:
  assumes "wm_ok m"
  shows "wm_ok (pointer_move p m)"
proof (cases "wm_action m = NoAction")
  case True
  then have "wm_pointer_window m = 0" using assms by (simp add: wm_ok_def pointer_ok_def)
  then show ?thesis using assms True by (simp add: pointer_move_def find_window_def end_pointer_action_def wm_ok_def pointer_ok_def)
next
  case False
  from pointer_window_at [OF assms False] obtain i where i: "find_window (wm_pointer_window m) (wm_windows m) = Some i"
    "open_slot (wm_windows m) i" "on_screen (wm_start_bounds m)"
    "wm_action m = Resize \<Longrightarrow> rc_x (win_bounds (wm_windows m ! i)) = rc_x (wm_start_bounds m) \<and> rc_y (win_bounds (wm_windows m ! i)) = rc_y (wm_start_bounds m)"
    by blast
  have b: "on_screen (win_bounds (wm_windows m ! i))" using assms open_live [OF i(2)] by (simp add: wm_ok_def windows_ok_def)
  have moved: "wm_ok (put_window i (\<lambda>w. w\<lparr>win_bounds := b\<rparr>) m)"
    if "on_screen b" "wm_action m = Resize \<Longrightarrow> rc_x b = rc_x (wm_start_bounds m) \<and> rc_y b = rc_y (wm_start_bounds m)" for b
    by (rule put_bounds_ok [OF assms i(2) _ that]) (use find_window_Some [OF i(1)] in auto)
  have put: "put_window i (\<lambda>w. w\<lparr>win_bounds := resize_bounds s dx dy (win_bounds w)\<rparr>) m =
      put_window i (\<lambda>w. w\<lparr>win_bounds := resize_bounds s dx dy (win_bounds (wm_windows m ! i))\<rparr>) m" for s dx dy
    by (simp add: put_window_def)
  have op: "win_state (wm_windows m ! i) = Open" using i(2) by (simp add: open_slot_def)
  show ?thesis
  proof (cases "wm_action m")
    case Drag
    then show ?thesis using i(1,3) op moved [OF drag_on_screen] by (simp add: pointer_move_def Let_def)
  next
    case Resize
    have "wm_ok (put_window i (\<lambda>w. w\<lparr>win_bounds := resize_bounds (wm_start_bounds m) dx dy (win_bounds (wm_windows m ! i))\<rparr>) m)" for dx dy
      by (rule moved) (use resize_on_screen [OF i(3) _ _ b] i(4) [OF Resize] in \<open>auto simp: resize_bounds_def Let_def\<close>)
    then show ?thesis using i(1) op Resize by (simp add: pointer_move_def Let_def put)
  qed (use False in simp)
qed

lemma minimize_ok:
  assumes "wm_ok m"
  shows "wm_ok (snd (minimize wid m))"
proof (cases "fst (minimize wid m)")
  case True
  then obtain i where i: "find_window wid (wm_windows m) = Some i" "win_state (wm_windows m ! i) = Open"
    by (auto simp: minimize_def split: option.splits if_splits)
  let ?ws = "wm_windows m" let ?v = "(?ws ! i)\<lparr>win_restore_bounds := win_bounds (?ws ! i), win_state := Minimized\<rparr>" let ?ws' = "?ws[i := ?v]"
  define m' where "m' = snd (minimize wid m)"
  have m': "wm_windows m' = ?ws'" "wm_focused m' = (if wm_focused m = wid then highest_open_window ?ws' else wm_focused m)"
    "wm_action m' = (if wm_pointer_window m = wid then NoAction else wm_action m)"
    "wm_pointer_window m' = (if wm_pointer_window m = wid then 0 else wm_pointer_window m)" "wm_start_bounds m' = wm_start_bounds m"
    using i by (auto simp: m'_def minimize_def put_window_def end_pointer_action_def Let_def)
  have li: "live_at ?ws i" "win_id (?ws ! i) = wid" using find_window_Some [OF i(1)] by auto
  have ok: "windows_ok ?ws" "on_top ?ws (wm_focused m)" "pointer_ok m" using assms by (simp_all add: wm_ok_def)
  have op: "open_slot ?ws' j \<longleftrightarrow> open_slot ?ws j \<and> j \<noteq> i" for j using li(1) by (auto simp: open_slot_def live_at_def nth_list_update)
  have "windows_ok ?ws'" by (rule windows_ok_update [OF ok(1) li(1)]) (use ok(1) li(1) in \<open>simp_all add: windows_ok_def\<close>)
  moreover have "on_top ?ws' (wm_focused m')"
  proof (cases "wm_focused m = wid")
    case True
    then show ?thesis by (simp add: m' highest_on_top)
  next
    case False
    have "on_top ?ws' (wm_focused m)" by (rule on_top_without [OF ok(2) op]) (use False li in auto)
    then show ?thesis using False m'(2) by simp
  qed
  moreover have "pointer_ok m'"
  proof (cases "wm_pointer_window m = wid")
    case True
    then show ?thesis by (simp add: pointer_ok_def m')
  next
    case False
    show ?thesis by (rule pointer_ok_elsewhere [OF ok(3), of _ i ?v]) (use False m' li in simp_all)
  qed
  ultimately show ?thesis unfolding m'_def [symmetric] by (simp add: wm_ok_def m'(1))
next
  case False
  then have "snd (minimize wid m) = m" by (auto simp: minimize_def Let_def split: option.splits if_splits)
  then show ?thesis using assms by simp
qed

lemma restore_steps:
  assumes "wm_ok m" "find_window wid (wm_windows m) = Some i" "win_state (wm_windows m ! i) = Minimized"
  defines "m1 \<equiv> put_window i (\<lambda>w. w\<lparr>win_bounds := win_restore_bounds w, win_state := Open\<rparr>) m"
  shows "restore wid m = focus wid m1" "windows_ok (wm_windows m1)" "pointer_ok m1"
    "find_window wid (wm_windows m1) = Some i" "win_state (wm_windows m1 ! i) = Open"
proof -
  let ?ws = "wm_windows m" let ?v = "(?ws ! i)\<lparr>win_bounds := win_restore_bounds (?ws ! i), win_state := Open\<rparr>"
  have li: "live_at ?ws i" "win_id (?ws ! i) = wid" using find_window_Some [OF assms(2)] by auto
  have ws1: "wm_windows m1 = ?ws[i := ?v]" by (simp add: m1_def put_window_def)
  have ok: "windows_ok ?ws" "pointer_ok m" using assms(1) by (simp_all add: wm_ok_def)
  show "restore wid m = focus wid m1" using assms(2,3) by (simp add: restore_def m1_def)
  show s: "windows_ok (wm_windows m1)" unfolding ws1
    by (rule windows_ok_update [OF ok(1) li(1)]) (use ok(1) li(1) in \<open>simp_all add: windows_ok_def\<close>)
  show "pointer_ok m1"
    by (rule pointer_ok_elsewhere [OF ok(2), of _ i ?v]) (use assms(3) in \<open>simp_all add: m1_def put_window_def open_slot_def\<close>)
  show "win_state (wm_windows m1 ! i) = Open" using li(1) by (simp add: ws1 live_at_def)
  have "live_at (wm_windows m1) i" "win_id (wm_windows m1 ! i) = wid" using li by (auto simp: ws1 live_at_def)
  then show "find_window wid (wm_windows m1) = Some i" using find_window_live s by (metis windows_ok_def)
qed

lemma close_steps:
  assumes "wm_ok m" "find_window wid (wm_windows m) = Some i"
  defines "ws1 \<equiv> (wm_windows m)[i := (wm_windows m ! i)\<lparr>win_state := Closed, win_id := 0\<rparr>]"
  shows "live_at ws1 j \<longleftrightarrow> live_at (wm_windows m) j \<and> j \<noteq> i" "open_slot ws1 j \<longleftrightarrow> open_slot (wm_windows m) j \<and> j \<noteq> i"
    "j \<noteq> i \<Longrightarrow> ws1 ! j = wm_windows m ! j" "ids_ok ws1" "z_distinct ws1" "windows_ok (compact_z ws1)"
    "same_but_z ws1 (compact_z ws1)" "same_order ws1 (compact_z ws1)"
proof -
  let ?ws = "wm_windows m"
  have li: "live_at ?ws i" "win_id (?ws ! i) = wid" using find_window_Some [OF assms(2)] by auto
  have ok: "windows_ok ?ws" using assms(1) by (simp add: wm_ok_def)
  show l: "live_at ws1 j \<longleftrightarrow> live_at ?ws j \<and> j \<noteq> i" for j using li(1) by (auto simp: ws1_def live_at_def nth_list_update)
  show "open_slot ws1 j \<longleftrightarrow> open_slot ?ws j \<and> j \<noteq> i" using li(1) by (auto simp: ws1_def live_at_def open_slot_def nth_list_update)
  show n: "j \<noteq> i \<Longrightarrow> ws1 ! j = ?ws ! j" for j by (simp add: ws1_def)
  show ids: "ids_ok ws1" using ok l n unfolding windows_ok_def ids_ok_def by metis
  show z: "z_distinct ws1" using ok l n unfolding windows_ok_def z_distinct_def by metis
  note c = compact_z_spec [OF z]
  show same: "same_but_z ws1 (compact_z ws1)" "same_order ws1 (compact_z ws1)" using c by auto
  show "windows_ok (compact_z ws1)"
  proof (rule windows_ok_restacked [OF same(1)])
    show "z_distinct (compact_z ws1)" by (rule same_order_distinct [OF same z])
    show "length ws1 = kMaxWindows" using ok by (simp add: ws1_def windows_ok_def)
    show "on_screen (win_bounds (ws1 ! j)) \<and> on_screen (win_restore_bounds (ws1 ! j))" if "live_at ws1 j" for j
      using that ok l n by (simp add: windows_ok_def)
  qed (use c ids in auto)
qed

lemma close_ok:
  assumes "wm_ok m"
  shows "wm_ok (snd (close wid m))"
proof (cases "find_window wid (wm_windows m)")
  case (Some i)
  let ?ws = "wm_windows m" let ?ws1 = "?ws[i := (?ws ! i)\<lparr>win_state := Closed, win_id := 0\<rparr>]" let ?ws2 = "compact_z ?ws1"
  note c = close_steps [OF assms Some]
  show ?thesis
  proof (cases "win_closable (?ws ! i)")
    case True
    define m' where "m' = snd (close wid m)"
    have m': "wm_windows m' = ?ws2" "wm_focused m' = (if wm_focused m = wid then highest_open_window ?ws2 else wm_focused m)"
      "wm_action m' = (if wm_pointer_window m = wid then NoAction else wm_action m)"
      "wm_pointer_window m' = (if wm_pointer_window m = wid then 0 else wm_pointer_window m)" "wm_start_bounds m' = wm_start_bounds m"
      using Some True by (auto simp: m'_def close_def put_window_def end_pointer_action_def Let_def)
    have li: "live_at ?ws i" "win_id (?ws ! i) = wid" using find_window_Some [OF Some] by auto
    have ok: "on_top ?ws (wm_focused m)" "pointer_ok m" using assms by (simp_all add: wm_ok_def)
    have "on_top ?ws2 (wm_focused m')"
    proof (cases "wm_focused m = wid")
      case True
      then show ?thesis by (simp add: m' highest_on_top)
    next
      case False
      have "on_top ?ws2 (wm_focused m) = on_top ?ws1 (wm_focused m)"
      proof (rule on_top_cong)
        show "open_slot ?ws2 j = open_slot ?ws1 j" for j by (rule same_but_z_open [OF c(7)])
        show "win_id (?ws2 ! j) = win_id (?ws1 ! j)" if "open_slot ?ws1 j" for j
          using same_but_z_fields(1) [OF c(7), of j] that by (simp add: open_slot_def)
        show "(win_z (?ws2 ! a) \<le> win_z (?ws2 ! b)) = (win_z (?ws1 ! a) \<le> win_z (?ws1 ! b))" if "open_slot ?ws1 a" "open_slot ?ws1 b" for a b
          using c(8) open_live [OF that(1)] open_live [OF that(2)] unfolding same_order_def by (meson not_less)
      qed
      moreover have "on_top ?ws1 (wm_focused m)" by (rule on_top_without [OF ok(1) c(2,3)]) (use False li in auto)
      ultimately show ?thesis using False m'(2) by simp
    qed
    moreover have "pointer_ok m'"
    proof (cases "wm_pointer_window m = wid")
      case True
      then show ?thesis by (simp add: pointer_ok_def m')
    next
      case False
      have "pointer_ok (m\<lparr>wm_windows := ?ws1\<rparr>)" by (rule pointer_ok_elsewhere [OF ok(2), of _ i]) (use False li in simp_all)
      from pointer_ok_same [OF _ this, of ?ws2] have "pointer_ok (m\<lparr>wm_windows := ?ws2, wm_focused := wm_focused m'\<rparr>)" using c(7) by simp
      then show ?thesis by (rule pointer_ok_cong [rotated 4]) (use False m' in simp_all)
    qed
    ultimately show ?thesis unfolding m'_def [symmetric] using c(6) by (simp add: wm_ok_def m'(1))
  qed (use assms Some in \<open>simp add: close_def\<close>)
qed (use assms in \<open>simp add: close_def\<close>)

lemma add_steps:
  assumes "windows_ok ws" "find_window wid ws = None" "wid \<noteq> 0" "s < length ws" "\<not> live (ws ! s)"
    and v: "win_id v = wid" "win_state v = Open" "win_z v = of_nat (length (filter live ws))"
      "on_screen (win_bounds v)" "on_screen (win_restore_bounds v)"
  shows "windows_ok (ws[s := v])" "find_window wid (ws[s := v]) = Some s" "live_at (ws[s := v]) j \<longleftrightarrow> live_at ws j \<or> j = s"
    "live_at ws j \<Longrightarrow> level (ws[s := v]) j < level (ws[s := v]) s"
proof -
  let ?ws = "ws[s := v]" let ?n = "length (filter live ws)"
  show l: "live_at ?ws j \<longleftrightarrow> live_at ws j \<or> j = s" for j using assms(4) v(2) by (auto simp: live_at_def nth_list_update)
  have s: "\<not> live_at ws s" using assms(5) by (simp add: live_at_def)
  have n: "j \<noteq> s \<Longrightarrow> ?ws ! j = ws ! j" "?ws ! s = v" for j using assms(4) by simp_all
  have "?n \<le> 8" using assms(1) length_filter_le [of live ws] by (simp add: windows_ok_def kMaxWindows_def)
  then have zs: "level ?ws s = ?n" using assms(4) v(3) by (simp add: unat_of_nat_small)
  have zl: "level ws j < ?n" if "live_at ws j" for j using assms(1) that by (simp add: windows_ok_def z_compact_def card_live)
  show below: "level ?ws j < level ?ws s" if "live_at ws j" for j using zl [OF that] zs n(1) [of j] s that by (cases "j = s") auto
  have ids: "ids_ok ?ws" using assms(1,2,3) l n v(1) s unfolding windows_ok_def ids_ok_def find_window_None by metis
  have "z_distinct ws" using assms(1) by (simp add: windows_ok_def)
  then have z: "z_distinct ?ws" using below l n s unfolding z_distinct_def by (metis less_irrefl)
  have "Collect (live_at ?ws) = insert s (Collect (live_at ws))" using l by auto
  then have "card (Collect (live_at ?ws)) = Suc ?n" using s card_live [of ws] by simp
  then have c: "z_compact ?ws" using zl zs l n unfolding z_compact_def by (metis less_Suc_eq)
  show "windows_ok ?ws" using assms(1) ids z c l n v(4,5) unfolding windows_ok_def by (metis length_list_update)
  show "find_window wid ?ws = Some s" using find_window_live [OF ids, of s] l n(2) v(1) by simp
qed

lemma add_window_facts:
  assumes "wm_ok m" "fst (add_window wid b rz cl m)"
  obtains s v where "s < length (wm_windows m)" "\<not> live (wm_windows m ! s)" "wid \<noteq> 0" "find_window wid (wm_windows m) = None"
    "win_id v = wid" "win_state v = Open" "win_z v = of_nat (length (filter live (wm_windows m)))"
    "on_screen (win_bounds v)" "on_screen (win_restore_bounds v)"
    "snd (add_window wid b rz cl m) = m\<lparr>wm_windows := raise_window wid ((wm_windows m)[s := v]), wm_focused := wid\<rparr>"
proof -
  obtain s where "List.find (\<lambda>i. \<not> live (wm_windows m ! i)) [0..<length (wm_windows m)] = Some s"
    using assms(2) by (auto simp: add_window_def Let_def split: if_splits option.splits)
  moreover from this have "s < length (wm_windows m)" "\<not> live (wm_windows m ! s)" by (auto simp: find_Some_iff)
  ultimately show thesis
    using assms(2)
    by (intro that [of s "\<lparr>win_id = wid, win_bounds = clamp_bounds b, win_restore_bounds = clamp_bounds b, win_state = Open,
          win_z = of_nat (length (filter live (wm_windows m))), win_resizable = rz, win_closable = cl\<rparr>"])
      (auto simp: add_window_def Let_def put_window_def split: if_splits)
qed

lemma add_window_ok:
  assumes "wm_ok m"
  shows "wm_ok (snd (add_window wid b rz cl m))"
proof (cases "fst (add_window wid b rz cl m)")
  case True
  from add_window_facts [OF assms this] obtain s v where sv: "s < length (wm_windows m)" "\<not> live (wm_windows m ! s)"
    "wid \<noteq> 0" "find_window wid (wm_windows m) = None"
    "win_id v = wid" "win_state v = Open" "win_z v = of_nat (length (filter live (wm_windows m)))"
    "on_screen (win_bounds v)" "on_screen (win_restore_bounds v)"
    "snd (add_window wid b rz cl m) = m\<lparr>wm_windows := raise_window wid ((wm_windows m)[s := v]), wm_focused := wid\<rparr>" .
  have ok: "windows_ok (wm_windows m)" "pointer_ok m" using assms by (simp_all add: wm_ok_def)
  note a = add_steps [OF ok(1) sv(4,3,1,2,5-9)]
  note r = raise_ok [OF a(1,2)]
  have "pointer_ok (m\<lparr>wm_windows := (wm_windows m)[s := v]\<rparr>)"
    by (rule pointer_ok_elsewhere [OF ok(2), of _ s v]) (use sv(2) in \<open>auto simp: open_slot_def\<close>)
  then have "pointer_ok (snd (add_window wid b rz cl m))" using pointer_ok_same [of "m\<lparr>wm_windows := (wm_windows m)[s := v]\<rparr>"] r(3) sv(10) by simp
  then show ?thesis using r sv(1,6,10) by (simp add: wm_ok_def)
next
  case False
  then have "snd (add_window wid b rz cl m) = m" by (auto simp: add_window_def Let_def split: if_splits option.splits)
  then show ?thesis using assms by simp
qed

subsection \<open>Runs\<close>

datatype wm_call =
    AddWindow u32 rect bool bool | Focus u32 | BeginDrag u32 point | BeginResize u32 point
  | PointerMove point | EndPointerAction | Minimize u32 | Restore u32 | CloseWindow u32

fun wm_step :: "wm_call \<Rightarrow> window_manager \<Rightarrow> bool \<times> window_manager" where
  "wm_step (AddWindow wid b rz cl) m = add_window wid b rz cl m"
| "wm_step (Focus wid) m = focus wid m"
| "wm_step (BeginDrag wid p) m = begin_drag wid p m"
| "wm_step (BeginResize wid p) m = begin_resize wid p m"
| "wm_step (PointerMove p) m = (True, pointer_move p m)"
| "wm_step EndPointerAction m = (True, end_pointer_action m)"
| "wm_step (Minimize wid) m = minimize wid m"
| "wm_step (Restore wid) m = restore wid m"
| "wm_step (CloseWindow wid) m = close wid m"

lemma end_pointer_ok: "wm_ok m \<Longrightarrow> wm_ok (end_pointer_action m)"
  by (simp add: end_pointer_action_def wm_ok_def pointer_ok_def)

lemma wm_step_ok: "wm_ok m \<Longrightarrow> wm_ok (snd (wm_step c m))"
proof (cases c)
  case (Focus wid)
  assume ok: "wm_ok m"
  then have "windows_ok (wm_windows m)" "pointer_ok m" by (simp_all add: wm_ok_def)
  then show ?thesis using focus_ok(2) [of m wid] ok Focus
    by (cases "find_window wid (wm_windows m)") (auto simp: focus_def)
next
  case (BeginDrag wid p)
  assume "wm_ok m"
  then show ?thesis using begin_action_ok(1) [of m wid _ Drag] BeginDrag by (auto simp: begin_drag_def split: option.splits)
next
  case (BeginResize wid p)
  assume "wm_ok m"
  then show ?thesis using begin_action_ok(1) [of m wid _ Resize] BeginResize by (auto simp: begin_resize_def split: option.splits)
next
  case (Restore wid)
  assume ok: "wm_ok m"
  show ?thesis
  proof (cases "find_window wid (wm_windows m)")
    case (Some i)
    then show ?thesis using restore_steps [OF ok Some] focus_ok(2) ok Restore
      by (cases "win_state (wm_windows m ! i) = Minimized") (auto simp: restore_def)
  qed (use ok Restore in \<open>simp add: restore_def\<close>)
qed (simp_all add: add_window_ok pointer_move_ok minimize_ok close_ok end_pointer_ok)

definition wm_run :: "wm_call list \<Rightarrow> window_manager \<Rightarrow> window_manager" where
  "wm_run cs m = fold (\<lambda>c m. snd (wm_step c m)) cs m"

lemma wm_run_ok: "wm_ok m \<Longrightarrow> wm_ok (wm_run cs m)"
  unfolding wm_run_def by (induction cs arbitrary: m) (simp_all add: wm_step_ok)

lemma wm_new_ok: "length memory = kMaxWindows \<Longrightarrow> wm_ok (wm_new memory)"
proof -
  assume len: "length memory = kMaxWindows"
  have "\<not> live_at (wm_windows (wm_new memory)) i" "\<not> open_slot (wm_windows (wm_new memory)) i" for i
    by (auto simp: wm_new_def live_at_def open_slot_def)
  then show ?thesis using len
    by (simp add: wm_ok_def windows_ok_def ids_ok_def z_distinct_def z_compact_def on_top_def pointer_ok_def) (simp add: wm_new_def)
qed

subsection \<open>The stack of windows\<close>

text \<open>The window numbers from bottom to top, and what each call does to that list.\<close>

definition stacking :: "window_manager \<Rightarrow> u32 list" where
  "stacking m = map win_id (sort_key win_z (filter live (wm_windows m)))"

fun stack_call :: "wm_call \<Rightarrow> bool \<Rightarrow> u32 list \<Rightarrow> u32 list" where
  "stack_call (AddWindow wid b rz cl) success xs = (if success then xs @ [wid] else xs)"
| "stack_call (Focus wid) success xs = (if success then remove1 wid xs @ [wid] else xs)"
| "stack_call (BeginDrag wid p) success xs = (if success then remove1 wid xs @ [wid] else xs)"
| "stack_call (BeginResize wid p) success xs = (if success then remove1 wid xs @ [wid] else xs)"
| "stack_call (Restore wid) success xs = (if success then remove1 wid xs @ [wid] else xs)"
| "stack_call (CloseWindow wid) success xs = (if success then remove1 wid xs else xs)"
| "stack_call (Minimize wid) success xs = xs"
| "stack_call (PointerMove p) success xs = xs"
| "stack_call EndPointerAction success xs = xs"

definition live_slots :: "window list \<Rightarrow> nat list" where "live_slots ws = filter (\<lambda>i. live (ws ! i)) [0..<length ws]"

definition slot_order :: "window list \<Rightarrow> nat list" where "slot_order ws = sort_key (\<lambda>i. win_z (ws ! i)) (live_slots ws)"

lemma insort_key_map: "insort_key f (g x) (map g xs) = map g (insort_key (\<lambda>x. f (g x)) x xs)"
  by (induction xs) auto

lemma sort_key_map: "sort_key f (map g xs) = map g (sort_key (\<lambda>x. f (g x)) xs)"
  by (induction xs) (simp_all add: insort_key_map)

lemma insort_key_iso: "(\<And>y. y \<in> set ys \<Longrightarrow> (f x \<le> f y) = (g x \<le> g y)) \<Longrightarrow> insort_key f x ys = insort_key g x ys"
  by (induction ys) auto

lemma sort_key_iso: "(\<And>x y. x \<in> set xs \<Longrightarrow> y \<in> set xs \<Longrightarrow> (f x \<le> f y) = (g x \<le> g y)) \<Longrightarrow> sort_key f xs = sort_key g xs"
proof (induction xs)
  case (Cons x xs)
  then have "sort_key f xs = sort_key g xs" by simp
  moreover have "insort_key f x (sort_key g xs) = insort_key g x (sort_key g xs)" by (rule insort_key_iso) (use Cons.prems in simp)
  ultimately show ?case by simp
qed simp

lemma set_live_slots [simp]: "set (live_slots ws) = Collect (live_at ws)"
  by (auto simp: live_slots_def live_at_def)

lemma filter_live_slots: "filter live ws = map ((!) ws) (live_slots ws)"
  unfolding live_slots_def by (metis (no_types, lifting) comp_apply filter_cong filter_map map_nth)

lemma stacking_slots: "stacking m = map (\<lambda>i. win_id (wm_windows m ! i)) (slot_order (wm_windows m))"
  by (simp add: stacking_def slot_order_def filter_live_slots sort_key_map)

lemma slot_order_same:
  assumes "length ws' = length ws" "\<And>i. live_at ws' i = live_at ws i"
    and "\<And>i j. live_at ws i \<Longrightarrow> live_at ws j \<Longrightarrow> (win_z (ws' ! i) \<le> win_z (ws' ! j)) = (win_z (ws ! i) \<le> win_z (ws ! j))"
  shows "slot_order ws' = slot_order ws"
proof -
  have "live_slots ws' = live_slots ws" unfolding live_slots_def assms(1) by (rule filter_cong) (use assms(1,2) in \<open>auto simp: live_at_def\<close>)
  moreover have "sort_key (\<lambda>i. win_z (ws' ! i)) (live_slots ws) = sort_key (\<lambda>i. win_z (ws ! i)) (live_slots ws)"
    by (rule sort_key_iso) (simp add: assms(3))
  ultimately show ?thesis by (simp add: slot_order_def)
qed

text \<open>A list of slots in ascending order of their numbers is the order of the slots.\<close>

lemma slot_order_unique:
  assumes "z_distinct ws" "set xs = Collect (live_at ws)" "distinct xs" "sorted (map (\<lambda>i. win_z (ws ! i)) xs)"
  shows "slot_order ws = xs"
proof (rule map_sorted_distinct_set_unique [where f = "\<lambda>i. win_z (ws ! i)"])
  have inj: "inj_on (\<lambda>i. win_z (ws ! i)) (Collect (live_at ws))" using assms(1) by (auto simp: inj_on_def z_distinct_def)
  then show "inj_on (\<lambda>i. win_z (ws ! i)) (set (slot_order ws) \<union> set xs)" by (simp add: slot_order_def assms(2))
  show "sorted (map (\<lambda>i. win_z (ws ! i)) (slot_order ws))" by (simp add: slot_order_def)
  have "distinct (slot_order ws)" by (simp add: slot_order_def live_slots_def)
  then show "distinct (map (\<lambda>i. win_z (ws ! i)) (slot_order ws))" using inj by (simp add: distinct_map slot_order_def)
  show "distinct (map (\<lambda>i. win_z (ws ! i)) xs)" using assms(2,3) inj by (simp add: distinct_map)
qed (use assms in \<open>simp_all add: slot_order_def\<close>)

lemma slot_order_facts: "set (slot_order ws) = Collect (live_at ws)" "distinct (slot_order ws)"
  "sorted (map (\<lambda>i. win_z (ws ! i)) (slot_order ws))"
  by (simp_all add: slot_order_def) (simp add: live_slots_def)

text \<open>A slot above all others comes last.\<close>

lemma slot_order_top:
  assumes "z_distinct ws'" "\<And>j. live_at ws' j \<longleftrightarrow> j = t \<or> live_at ws j"
    and "\<And>j. live_at ws j \<Longrightarrow> j \<noteq> t \<Longrightarrow> level ws' j < level ws' t"
    and "\<And>i j. live_at ws i \<Longrightarrow> live_at ws j \<Longrightarrow> i \<noteq> t \<Longrightarrow> j \<noteq> t \<Longrightarrow> (level ws' i < level ws' j) = (level ws i < level ws j)"
  shows "slot_order ws' = filter (\<lambda>j. j \<noteq> t) (slot_order ws) @ [t]"
proof (rule slot_order_unique [OF assms(1)])
  let ?xs = "filter (\<lambda>j. j \<noteq> t) (slot_order ws)"
  have xs: "set ?xs = {j. live_at ws j \<and> j \<noteq> t}" by (auto simp: slot_order_facts(1))
  show "set (?xs @ [t]) = Collect (live_at ws')" using xs assms(2) by auto
  show "distinct (?xs @ [t])" using slot_order_facts(2) [of ws] by simp
  have "sorted_wrt (\<lambda>i j. win_z (ws ! i) \<le> win_z (ws ! j)) ?xs"
    using slot_order_facts(3) [of ws] by (simp add: sorted_map sorted_wrt_filter)
  then have "sorted_wrt (\<lambda>i j. win_z (ws' ! i) \<le> win_z (ws' ! j)) ?xs"
    by (rule sorted_wrt_mono_rel [rotated]) (use assms(4) xs in \<open>auto simp: unat_le_iff not_less [symmetric]\<close>)
  then show "sorted (map (\<lambda>i. win_z (ws' ! i)) (?xs @ [t]))"
    using assms(3) xs by (auto simp: sorted_map sorted_wrt_append unat_le_iff less_imp_le)
qed

lemma stacking_cong:
  assumes "slot_order (wm_windows m') = slot_order (wm_windows m)"
    "\<And>i. live_at (wm_windows m) i \<Longrightarrow> win_id (wm_windows m' ! i) = win_id (wm_windows m ! i)"
  shows "stacking m' = stacking m"
  unfolding stacking_slots assms(1) using assms(2) slot_order_facts(1) [of "wm_windows m"] by simp

lemma filter_slots_ids:
  assumes "ids_ok ws" "live_at ws t"
  shows "map (\<lambda>i. win_id (ws ! i)) (filter (\<lambda>j. j \<noteq> t) (slot_order ws)) = remove1 (win_id (ws ! t)) (map (\<lambda>i. win_id (ws ! i)) (slot_order ws))"
proof -
  have inj: "inj_on (\<lambda>i. win_id (ws ! i)) (set (slot_order ws))" using assms(1) by (auto simp: inj_on_def ids_ok_def slot_order_facts(1))
  then have "distinct (map (\<lambda>i. win_id (ws ! i)) (slot_order ws))" using slot_order_facts(2) by (simp add: distinct_map)
  then have "remove1 (win_id (ws ! t)) (map (\<lambda>i. win_id (ws ! i)) (slot_order ws)) =
      filter (\<lambda>y. y \<noteq> win_id (ws ! t)) (map (\<lambda>i. win_id (ws ! i)) (slot_order ws))"
    by (rule distinct_remove1_removeAll [THEN trans]) (simp add: removeAll_filter_not_eq eq_commute)
  also have "\<dots> = map (\<lambda>i. win_id (ws ! i)) (filter (\<lambda>j. j \<noteq> t) (slot_order ws))"
    unfolding filter_map comp_def
    by (rule arg_cong [of _ _ "map _"], rule filter_cong) (use inj assms(2) slot_order_facts(1) in \<open>auto simp: inj_on_def\<close>)
  finally show ?thesis by simp
qed

lemma raise_stacking:
  assumes "windows_ok (wm_windows m)" "find_window wid (wm_windows m) = Some t" "wm_windows m' = raise_window wid (wm_windows m)"
  shows "stacking m' = remove1 wid (stacking m) @ [wid]"
proof -
  let ?ws = "wm_windows m"
  have ok: "ids_ok ?ws" "z_distinct ?ws" "z_compact ?ws" "length ?ws \<le> 8" using assms(1) by (simp_all add: windows_ok_def kMaxWindows_def)
  have lt: "live_at ?ws t" "win_id (?ws ! t) = wid" using find_window_Some [OF assms(2)] by auto
  note same = raise_window_spec(1) [OF ok assms(2)] and r = raise_window_levels [OF ok assms(2)]
  have "slot_order (wm_windows m') = filter (\<lambda>j. j \<noteq> t) (slot_order ?ws) @ [t]"
    unfolding assms(3) by (rule slot_order_top [OF r(1)]) (use lt same_but_z_live [OF same] r in auto)
  moreover have "win_id (wm_windows m' ! i) = win_id (?ws ! i)" if "live_at ?ws i" for i
    using same_but_z_fields(1) [OF same, of i] that by (simp add: assms(3) live_at_def)
  then have "map (\<lambda>i. win_id (wm_windows m' ! i)) (filter (\<lambda>j. j \<noteq> t) (slot_order ?ws) @ [t]) =
      map (\<lambda>i. win_id (?ws ! i)) (filter (\<lambda>j. j \<noteq> t) (slot_order ?ws)) @ [wid]"
    using slot_order_facts(1) [of ?ws] lt by simp
  ultimately show ?thesis unfolding stacking_slots using filter_slots_ids [OF ok(1) lt(1)] lt(2) by simp
qed

lemma focus_stacking:
  assumes "windows_ok (wm_windows m)" "fst (focus wid m)"
  shows "stacking (snd (focus wid m)) = remove1 wid (stacking m) @ [wid]"
proof -
  obtain t where "find_window wid (wm_windows m) = Some t" "wm_windows (snd (focus wid m)) = raise_window wid (wm_windows m)"
    using assms(2) by (auto simp: focus_def split: option.splits if_splits)
  then show ?thesis by (rule raise_stacking [OF assms(1)])
qed

lemma put_stacking:
  assumes "find_window wid (wm_windows m) = Some i" "wm_windows m' = wm_windows (put_window i f m)"
    and "win_id (f (wm_windows m ! i)) = win_id (wm_windows m ! i)" "win_z (f (wm_windows m ! i)) = win_z (wm_windows m ! i)"
    and "live (f (wm_windows m ! i))"
  shows "stacking m' = stacking m"
proof -
  have "live_at (wm_windows m) i" using find_window_Some [OF assms(1)] by simp
  note u = update_same [OF this assms(3-5)]
  show ?thesis
    by (rule stacking_cong, rule slot_order_same) (use u in \<open>simp_all add: assms(2) put_window_def\<close>)
qed

lemma add_stacking:
  assumes "wm_ok m" "fst (add_window wid b rz cl m)"
  shows "stacking (snd (add_window wid b rz cl m)) = stacking m @ [wid]"
proof -
  from add_window_facts [OF assms] obtain s v where sv: "s < length (wm_windows m)" "\<not> live (wm_windows m ! s)"
    "wid \<noteq> 0" "find_window wid (wm_windows m) = None"
    "win_id v = wid" "win_state v = Open" "win_z v = of_nat (length (filter live (wm_windows m)))"
    "on_screen (win_bounds v)" "on_screen (win_restore_bounds v)"
    "snd (add_window wid b rz cl m) = m\<lparr>wm_windows := raise_window wid ((wm_windows m)[s := v]), wm_focused := wid\<rparr>" .
  let ?ws = "wm_windows m" let ?m1 = "m\<lparr>wm_windows := ?ws[s := v]\<rparr>"
  have ok: "windows_ok ?ws" using assms(1) by (simp add: wm_ok_def)
  note a = add_steps [OF ok sv(4,3,1,2,5-9)]
  have s: "\<not> live_at ?ws s" using sv(2) by (simp add: live_at_def)
  have "slot_order (?ws[s := v]) = filter (\<lambda>j. j \<noteq> s) (slot_order ?ws) @ [s]"
  proof (rule slot_order_top)
    show "z_distinct (?ws[s := v])" using a(1) by (simp add: windows_ok_def)
    show "live_at (?ws[s := v]) j \<longleftrightarrow> j = s \<or> live_at ?ws j" for j using a(3) by auto
    show "level (?ws[s := v]) j < level (?ws[s := v]) s" if "live_at ?ws j" for j by (rule a(4) [OF that])
  qed simp
  also have "filter (\<lambda>j. j \<noteq> s) (slot_order ?ws) = slot_order ?ws"
    by (rule filter_True) (use s slot_order_facts(1) [of ?ws] in auto)
  finally have "stacking ?m1 = map (\<lambda>i. win_id (?ws[s := v] ! i)) (slot_order ?ws) @ [wid]"
    using sv(1,5) by (simp add: stacking_slots)
  also have "map (\<lambda>i. win_id (?ws[s := v] ! i)) (slot_order ?ws) = stacking m"
    unfolding stacking_slots
  proof (rule map_cong)
    fix x assume "x \<in> set (slot_order ?ws)"
    then have "x \<noteq> s" using s slot_order_facts(1) [of ?ws] by auto
    then show "win_id (?ws[s := v] ! x) = win_id (?ws ! x)" by simp
  qed simp
  finally have m1: "stacking ?m1 = stacking m @ [wid]" .
  have "wid \<notin> set (stacking m)" using sv(3,4) slot_order_facts(1) [of ?ws] by (auto simp: stacking_slots find_window_None)
  moreover have "stacking (snd (add_window wid b rz cl m)) = remove1 wid (stacking ?m1) @ [wid]"
    by (rule raise_stacking) (use a sv(10) in simp_all)
  ultimately show ?thesis by (simp add: m1 remove1_append)
qed

lemma close_stacking:
  assumes "wm_ok m" "fst (close wid m)"
  shows "stacking (snd (close wid m)) = remove1 wid (stacking m)"
proof -
  obtain i where i: "find_window wid (wm_windows m) = Some i" using assms(2) by (auto simp: close_def split: option.splits)
  let ?ws = "wm_windows m" let ?ws1 = "?ws[i := (?ws ! i)\<lparr>win_state := Closed, win_id := 0\<rparr>]" let ?ws2 = "compact_z ?ws1"
  note c = close_steps [OF assms(1) i]
  have w: "wm_windows (snd (close wid m)) = ?ws2"
    using assms(2) i by (auto simp: close_def put_window_def end_pointer_action_def Let_def split: if_splits)
  have ok: "ids_ok ?ws" using assms(1) by (simp add: wm_ok_def windows_ok_def)
  have li: "live_at ?ws i" "win_id (?ws ! i) = wid" using find_window_Some [OF i] by auto
  have "slot_order ?ws2 = slot_order ?ws1"
    by (rule slot_order_same) (use c(7,8) same_but_z_live [OF c(7)] in \<open>auto simp: same_but_z_def same_order_def not_less [symmetric]\<close>)
  also have "slot_order ?ws1 = filter (\<lambda>j. j \<noteq> i) (slot_order ?ws)"
  proof (rule slot_order_unique [OF c(5)])
    show "set (filter (\<lambda>j. j \<noteq> i) (slot_order ?ws)) = Collect (live_at ?ws1)" by (auto simp: slot_order_facts(1) c(1))
    show "distinct (filter (\<lambda>j. j \<noteq> i) (slot_order ?ws))" by (simp add: slot_order_facts(2))
    have "map (\<lambda>j. win_z (?ws1 ! j)) (filter (\<lambda>j. j \<noteq> i) (slot_order ?ws)) = map (\<lambda>j. win_z (?ws ! j)) (filter (\<lambda>j. j \<noteq> i) (slot_order ?ws))"
      by (rule map_cong) (auto simp: c(3))
    moreover have "sorted (map (\<lambda>j. win_z (?ws ! j)) (filter (\<lambda>j. j \<noteq> i) (slot_order ?ws)))"
      using slot_order_facts(3) [of ?ws] by (simp add: sorted_map sorted_wrt_filter)
    ultimately show "sorted (map (\<lambda>j. win_z (?ws1 ! j)) (filter (\<lambda>j. j \<noteq> i) (slot_order ?ws)))" by (simp only:)
  qed
  finally have o: "slot_order ?ws2 = filter (\<lambda>j. j \<noteq> i) (slot_order ?ws)" .
  have "map (\<lambda>j. win_id (?ws2 ! j)) (filter (\<lambda>j. j \<noteq> i) (slot_order ?ws)) = map (\<lambda>j. win_id (?ws ! j)) (filter (\<lambda>j. j \<noteq> i) (slot_order ?ws))"
  proof (rule map_cong)
    fix j assume "j \<in> set (filter (\<lambda>j. j \<noteq> i) (slot_order ?ws))"
    then have j: "live_at ?ws j" "j \<noteq> i" by (auto simp: slot_order_facts(1))
    then show "win_id (?ws2 ! j) = win_id (?ws ! j)" using same_but_z_fields(1) [OF c(7), of j] c(3) [of j] by (simp add: live_at_def)
  qed simp
  then show ?thesis unfolding stacking_slots w o using filter_slots_ids [OF ok li(1)] li(2) by simp
qed

subsection \<open>What the window manager promises\<close>

text \<open>
  C16: the window manager's state stays consistent.  Whatever sequence of calls follows construction, with any arguments and
  any contents of the uninitialised slots: at most eight windows, with distinct nonzero numbers and the
  stacking numbers \<open>0, 1, \<dots>\<close> each used once; every window lies on the screen, below the panel and at least of the minimum size;
  the focus is on the topmost open window, or on none if none is open.
\<close>

theorem window_manager_invariant:
  assumes "length memory = kMaxWindows" "m = wm_run cs (wm_new memory)"
  shows "wm_ok m \<and> wm_focused m = highest_open_window (wm_windows m) \<and>
    (\<lambda>i. unat (win_z (wm_windows m ! i))) ` Collect (live_at (wm_windows m)) = {..<length (filter live (wm_windows m))} \<and>
    (\<forall>i. live_at (wm_windows m) i \<longrightarrow> on_screen (win_bounds (wm_windows m ! i)))"
proof (intro conjI)
  show ok: "wm_ok m" unfolding assms(2) by (rule wm_run_ok [OF wm_new_ok [OF assms(1)]])
  then have w: "ids_ok (wm_windows m)" "z_distinct (wm_windows m)" "z_compact (wm_windows m)" "on_top (wm_windows m) (wm_focused m)"
    by (simp_all add: wm_ok_def windows_ok_def)
  show "wm_focused m = highest_open_window (wm_windows m)" by (rule on_top_unique [OF w(1,2,4) highest_on_top])
  show "(\<lambda>i. unat (win_z (wm_windows m ! i))) ` Collect (live_at (wm_windows m)) = {..<length (filter live (wm_windows m))}"
    using levels_onto [OF w(2,3)] w(3) by (auto simp: z_compact_def card_live image_iff)
  show "\<forall>i. live_at (wm_windows m) i \<longrightarrow> on_screen (win_bounds (wm_windows m ! i))"
    using ok by (simp add: wm_ok_def windows_ok_def)
qed

lemma restore_call_stacking:
  assumes ok: "wm_ok m"
  shows "stacking (snd (restore wid m)) = (if fst (restore wid m) then remove1 wid (stacking m) @ [wid] else stacking m)"
proof (cases "fst (restore wid m)")
  case True
  then obtain i where i: "find_window wid (wm_windows m) = Some i" "win_state (wm_windows m ! i) = Minimized"
    by (auto simp: restore_def split: option.splits if_splits)
  note r = restore_steps [OF ok i]
  have "stacking (snd (restore wid m))
      = remove1 wid (stacking (put_window i (\<lambda>w. w\<lparr>win_bounds := win_restore_bounds w, win_state := Open\<rparr>) m)) @ [wid]"
    using focus_stacking [OF r(2), of wid] focus_ok(1) [OF r(2-5)] r(1) by simp
  then show ?thesis using True put_stacking [OF i(1)] by simp
qed (use restore_steps [OF ok] focus_ok(1) in \<open>auto simp: restore_def split: option.splits if_splits\<close>)

lemma minimize_call_stacking: "stacking (snd (minimize wid m)) = stacking m"
proof (cases "fst (minimize wid m)")
  case True
  let ?f = "\<lambda>w. w\<lparr>win_restore_bounds := win_bounds w, win_state := Minimized\<rparr>"
  obtain i where i: "find_window wid (wm_windows m) = Some i" "wm_windows (snd (minimize wid m)) = wm_windows (put_window i ?f m)"
    using True by (auto simp: minimize_def Let_def end_pointer_action_def put_window_def split: option.splits if_splits)
  show ?thesis using put_stacking [OF i] by simp
qed (auto simp: minimize_def Let_def split: option.splits if_splits)

lemma pointer_move_stacking: "stacking (pointer_move p m) = stacking m"
proof (cases "find_window (wm_pointer_window m) (wm_windows m)")
  case None
  then show ?thesis by (simp add: pointer_move_def end_pointer_action_def stacking_def)
next
  case (Some i)
  have put: "stacking (put_window i (\<lambda>w. w\<lparr>win_bounds := g w\<rparr>) m) = stacking m" for g
    by (rule put_stacking [OF Some refl]) (use find_window_Some [OF Some] in \<open>simp_all add: live_at_def\<close>)
  show ?thesis using Some put
    by (auto simp: pointer_move_def Let_def end_pointer_action_def stacking_def split: pointer_action.splits)
qed

text \<open>
  C17: the stacking numbers implement a list.  In a consistent state, every call acts on the list of window numbers, from
  bottom to top, as its name says: a new window goes on top, focusing, dragging, resizing and restoring
  move the window to the top and leave the order of the others alone, closing takes it out, and nothing else
  (a failing call included) changes the list.
\<close>

theorem window_stack_refines:
  assumes "wm_ok m" "wm_step c m = (success, m')"
  shows "wm_ok m' \<and> stacking m' = stack_call c success (stacking m)"
proof
  have m': "m' = snd (wm_step c m)" "success = fst (wm_step c m)" using assms(2) by simp_all
  show "wm_ok m'" using wm_step_ok [OF assms(1)] m'(1) by simp
  have w: "windows_ok (wm_windows m)" "pointer_ok m" using assms(1) by (simp_all add: wm_ok_def)
  have act: "stacking (begin_action a wid p i m) = remove1 wid (stacking m) @ [wid]"
    if "find_window wid (wm_windows m) = Some i" "win_state (wm_windows m ! i) = Open" "a \<noteq> NoAction" for a wid p i
    by (rule raise_stacking [OF w(1) that(1) begin_action_ok(2) [OF assms(1) that]])
  show "stacking m' = stack_call c success (stacking m)"
  proof (cases c)
    case (AddWindow wid b rz cl)
    then show ?thesis using add_stacking [OF assms(1), of wid b rz cl]
      by (cases success) (auto simp: m' add_window_def Let_def split: if_splits option.splits)
  next
    case (Focus wid)
    then show ?thesis using focus_stacking [OF w(1), of wid] by (cases success) (auto simp: m' focus_def split: if_splits option.splits)
  next
    case (BeginDrag wid p)
    then show ?thesis using act [of wid _ Drag] by (auto simp: m' begin_drag_def split: option.splits)
  next
    case (BeginResize wid p)
    then show ?thesis using act [of wid _ Resize] by (auto simp: m' begin_resize_def split: option.splits)
  next
    case (Restore wid)
    then show ?thesis using restore_call_stacking [OF assms(1), of wid] by (simp add: m')
  next
    case (CloseWindow wid)
    then show ?thesis using close_stacking [OF assms(1), of wid]
      by (cases success) (auto simp: m' close_def Let_def split: option.splits if_splits)
  next
    case (Minimize wid)
    then show ?thesis using minimize_call_stacking [of wid m] by (simp add: m')
  next
    case (PointerMove p)
    then show ?thesis using pointer_move_stacking [of p m] by (simp add: m')
  qed (simp add: m' end_pointer_action_def stacking_def)
qed

subsection \<open>Painting order and hit testing\<close>

definition insort_last :: "('a \<Rightarrow> 'b::linorder) \<Rightarrow> 'a \<Rightarrow> 'a list \<Rightarrow> 'a list" where
  "insort_last f x ys = takeWhile (\<lambda>y. f y \<le> f x) ys @ x # dropWhile (\<lambda>y. f y \<le> f x) ys"

lemma insort_key_insort_last: "insort_key f x (insort_last f w ys) = insort_last f w (insort_key f x ys)"
  by (induction ys) (auto simp: insort_last_def)

lemma sort_key_snoc: "sort_key f (xs @ [w]) = insort_last f w (sort_key f xs)"
  by (induction xs) (simp_all add: insort_key_insort_last, simp add: insort_last_def)

lemma takeWhile_take: "takeWhile P (take n xs) = take n (takeWhile P xs)"
  by (induction xs arbitrary: n) (auto simp: take_Cons split: nat.splits)

lemma insert_by_z_take: "insert_by_z n w (take n ys) = take n (insort_last win_z w ys)"
proof -
  let ?P = "\<lambda>v. win_z v \<le> win_z w" let ?p = "length (takeWhile ?P ys)"
  have pos: "length (takeWhile ?P (take n ys)) = min n ?p" by (simp add: takeWhile_take)
  show ?thesis
  proof (cases "n \<le> ?p")
    case True
    have "take n ys = take n (takeWhile ?P ys)" using True by (metis min.absorb1 take_take takeWhile_eq_take)
    then show ?thesis using True unfolding insert_by_z_def Let_def pos by (simp add: insort_last_def)
  next
    case False
    have "take n ys = takeWhile ?P ys @ take (n - ?p) (dropWhile ?P ys)"
      using False takeWhile_dropWhile_id [of ?P ys] by (metis less_imp_le not_le take_all take_append)
    then have "take n (take ?p (take n ys) @ w # drop ?p (take n ys)) = take n (insort_last win_z w ys)"
      using False by (simp add: insort_last_def take_Cons' min_def)
    then show ?thesis using False unfolding insert_by_z_def Let_def pos by (simp add: min_def)
  qed
qed

lemma z_order_fold:
  "fold (\<lambda>w out. if win_state w \<noteq> Open then out else insert_by_z n w out) ws [] =
   take n (sort_key win_z (filter (\<lambda>w. win_state w = Open) ws))"
  by (induction ws rule: rev_induct) (auto simp: sort_key_snoc insert_by_z_take)

lemma contains_on_screen:
  assumes "on_screen b"
  shows "contains b p \<longleftrightarrow> rc_x b \<le> pt_x p \<and> pt_x p < rc_x b + rc_width b \<and> rc_y b \<le> pt_y p \<and> pt_y p < rc_y b + rc_height b"
proof -
  have "wrap32 (rc_x b + rc_width b) = rc_x b + rc_width b" "wrap32 (rc_y b + rc_height b) = rc_y b + rc_height b"
    using assms by (simp_all add: wrap32_def on_screen_def screen_const)
  then show ?thesis by (auto simp: contains_def)
qed

lemma last_of_sorted:
  assumes "filter P (sort_key win_z xs) \<noteq> []" "w \<in> set xs" "P w" "\<And>v. v \<in> set xs \<Longrightarrow> P v \<Longrightarrow> win_z v \<le> win_z w"
  shows "win_z (last (filter P (sort_key win_z xs))) = win_z w" "last (filter P (sort_key win_z xs)) \<in> set xs"
proof -
  let ?ys = "filter P (sort_key win_z xs)"
  have m: "last ?ys \<in> set ?ys" using assms(1) by (rule last_in_set)
  then show "last ?ys \<in> set xs" by simp
  have sorted: "sorted (map win_z ?ys)" by (rule sorted_filter) simp
  obtain zs z where e: "?ys = zs @ [z]" using assms(1) by (cases ?ys rule: rev_cases) auto
  have "w \<in> set ?ys" using assms(2,3) by simp
  then have "win_z w \<le> win_z (last ?ys)" using sorted unfolding e by (auto simp: sorted_append)
  then show "win_z (last ?ys) = win_z w" using assms(4) [of "last ?ys"] m by auto
qed

text \<open>
  C35: what is painted last is what the pointer hits.  The windows handed to the painter are the open windows sorted by stacking
  number, cut to the capacity of the output; and in a consistent state the hit test returns the number of the last window in
  that order whose rectangle holds the point, or 0 if there is none.
\<close>

theorem hit_test_last_painted:
  assumes "wm_ok m"
  shows "open_windows_in_z_order m n = take n (sort_key win_z (filter (\<lambda>w. win_state w = Open) (wm_windows m))) \<and>
    hit_test p m =
      (let hits = filter (\<lambda>w. let b = win_bounds w in rc_x b \<le> pt_x p \<and> pt_x p < rc_x b + rc_width b \<and> rc_y b \<le> pt_y p \<and> pt_y p < rc_y b + rc_height b)
                    (open_windows_in_z_order m kMaxWindows)
       in if hits = [] then 0 else win_id (last hits))"
proof
  let ?ws = "wm_windows m" let ?open = "filter (\<lambda>w. win_state w = Open) ?ws"
  have zo: "open_windows_in_z_order m n = take n (sort_key win_z ?open)" for n unfolding open_windows_in_z_order_def by (rule z_order_fold)
  then show "open_windows_in_z_order m n = take n (sort_key win_z ?open)" .
  have ok: "windows_ok ?ws" using assms by (simp add: wm_ok_def)
  have "length ?open \<le> kMaxWindows" using ok length_filter_le [of "\<lambda>w. win_state w = Open" ?ws] by (simp add: windows_ok_def)
  then have all: "open_windows_in_z_order m kMaxWindows = sort_key win_z ?open" using zo by simp
  have "on_screen (win_bounds w)" if "w \<in> set ?open" for w using that ok by (auto simp: windows_ok_def live_at_def in_set_conv_nth)
  then have hits: "filter (\<lambda>w. let b = win_bounds w in rc_x b \<le> pt_x p \<and> pt_x p < rc_x b + rc_width b \<and> rc_y b \<le> pt_y p \<and> pt_y p < rc_y b + rc_height b)
      (open_windows_in_z_order m kMaxWindows) = filter (\<lambda>w. contains (win_bounds w) p) (sort_key win_z ?open)"
    unfolding all by (intro filter_cong) (simp_all add: contains_on_screen Let_def)
  show "hit_test p m = (let hits = filter (\<lambda>w. let b = win_bounds w in rc_x b \<le> pt_x p \<and> pt_x p < rc_x b + rc_width b \<and> rc_y b \<le> pt_y p \<and> pt_y p < rc_y b + rc_height b)
                    (open_windows_in_z_order m kMaxWindows) in if hits = [] then 0 else win_id (last hits))"
    unfolding hits
  proof (cases "pick (\<lambda>w. win_state w = Open \<and> contains (win_bounds w) p) (\<lambda>a b. win_z a > win_z b) ?ws")
    case None
    then show "hit_test p m = (let hits = filter (\<lambda>w. contains (win_bounds w) p) (sort_key win_z ?open) in if hits = [] then 0 else win_id (last hits))"
      using highest.pick_none [OF None] by (auto simp: hit_test_def picked_id_def in_set_conv_nth filter_empty_conv)
  next
    case (Some i)
    have i: "i < length ?ws" "win_state (?ws ! i) = Open" "contains (win_bounds (?ws ! i)) p" using pick_Some [OF Some] by auto
    then have "?ws ! i \<in> set (filter (\<lambda>w. contains (win_bounds w) p) (sort_key win_z ?open))" by simp
    then have ne: "filter (\<lambda>w. contains (win_bounds w) p) (sort_key win_z ?open) \<noteq> []" by (metis empty_iff list.set(1))
    have best: "win_z v \<le> win_z (?ws ! i)" if "v \<in> set ?open" "contains (win_bounds v) p" for v
      using that highest.pick_best [OF Some] by (auto simp: in_set_conv_nth not_less)
    note l = last_of_sorted [OF ne _ i(3) best]
    have in_open: "?ws ! i \<in> set ?open" using i by simp
    obtain k where k: "k < length ?ws" "last (filter (\<lambda>w. contains (win_bounds w) p) (sort_key win_z ?open)) = ?ws ! k" "win_state (?ws ! k) = Open"
      using l(2) [OF in_open] by (auto simp: in_set_conv_nth)
    have "k = i" using l(1) [OF in_open] k i ok unfolding windows_ok_def z_distinct_def live_at_def by auto
    then show "hit_test p m = (let hits = filter (\<lambda>w. contains (win_bounds w) p) (sort_key win_z ?open) in if hits = [] then 0 else win_id (last hits))"
      using Some ne k(2) by (simp add: hit_test_def picked_id_def)
  qed
qed

subsection \<open>A sample desktop\<close>

definition blank_window :: window where
  "blank_window = \<lparr>win_id = 9, win_bounds = \<lparr>rc_x = 5, rc_y = 5, rc_width = 5, rc_height = 5\<rparr>,
     win_restore_bounds = \<lparr>rc_x = 5, rc_y = 5, rc_width = 5, rc_height = 5\<rparr>, win_state = Minimized, win_z = 77, win_resizable = True, win_closable = True\<rparr>"

definition demo_calls :: "wm_call list" where
  "demo_calls = [AddWindow 1 \<lparr>rc_x = 10, rc_y = 40, rc_width = 300, rc_height = 200\<rparr> True True,
     AddWindow 2 \<lparr>rc_x = 50, rc_y = 0, rc_width = 20, rc_height = 200\<rparr> True True, Focus 1, BeginDrag 2 \<lparr>pt_x = 60, pt_y = 30\<rparr>,
     PointerMove \<lparr>pt_x = 5000, pt_y = 100\<rparr>, Focus 1]"

definition demo_desktop :: window_manager where "demo_desktop = wm_run demo_calls (wm_new (replicate 8 blank_window))"

lemma demo_desktop_ok: "wm_ok demo_desktop"
  unfolding demo_desktop_def by (rule wm_run_ok [OF wm_new_ok]) (simp add: kMaxWindows_def)

theorem window_manager_invariant_witness:
  "wm_focused demo_desktop = highest_open_window (wm_windows demo_desktop) \<and> highest_open_window (wm_windows demo_desktop) = 1"
proof -
  have "highest_open_window (wm_windows demo_desktop) = 1" by code_simp
  then show ?thesis using window_manager_invariant [OF _ demo_desktop_def] by (simp add: kMaxWindows_def)
qed

theorem window_stack_refines_witness: "stacking (snd (wm_step (Focus 2) demo_desktop)) = [1, 2]"
proof -
  have "stacking demo_desktop = [2, 1]" "fst (wm_step (Focus 2) demo_desktop) = True" by code_simp+
  then show ?thesis using window_stack_refines [OF demo_desktop_ok, of "Focus 2"] by (metis prod.collapse stack_call.simps(2) append_Cons append_Nil remove1.simps)
qed

theorem hit_test_last_painted_witness:
  "hit_test \<lparr>pt_x = 1130, pt_y = 150\<rparr> demo_desktop = 2 \<and> map win_id (open_windows_in_z_order demo_desktop 1) = [2]"
proof -
  let ?p = "\<lparr>pt_x = 1130, pt_y = 150\<rparr>"
  let ?hits = "filter (\<lambda>w. let b = win_bounds w in rc_x b \<le> pt_x ?p \<and> pt_x ?p < rc_x b + rc_width b \<and> rc_y b \<le> pt_y ?p \<and> pt_y ?p < rc_y b + rc_height b)
    (open_windows_in_z_order demo_desktop kMaxWindows)"
  have "map win_id ?hits = [2]" by code_simp
  then have "?hits \<noteq> []" "win_id (last ?hits) = 2" by (auto simp: last_map [symmetric])
  then have "hit_test ?p demo_desktop = 2" using hit_test_last_painted [OF demo_desktop_ok, of 1 ?p] unfolding Let_def by simp
  moreover have "map win_id (open_windows_in_z_order demo_desktop 1) = [2]" by code_simp
  ultimately show ?thesis by blast
qed

end
