(* ===== verification/Editor.thy ===== *)
theory Editor
  imports Input Vfs
begin

text \<open>
  The text editor (\<^verbatim>\<open>kernel/gui/editor_model.cpp\<close>): a fixed byte buffer, a cursor, a viewport, and the
  protocol for saving and quitting.  The abstract view is a text and a position in it; the theorems say
  that the buffer operations implement insertion and deletion there, that the cursor keys move as the lines of the
  text suggest, that the viewport follows the cursor, and that quitting with unsaved changes takes two requests.
\<close>

definition kTextCapacity :: nat where "kTextCapacity = 65536"
definition kStatusCapacity :: nat where "kStatusCapacity = 96"

text \<open>A message of the source as bytes.\<close>

definition bytes_of :: "string \<Rightarrow> u8 list" where "bytes_of s = map (\<lambda>c. of_nat (of_char c)) s"

datatype editor_action = NoEditorAction | Save | Quit

text \<open>
  The storage is the buffer the constructor was given, or \<open>None\<close> for a null pointer; path and status are the bytes before
  the terminator of their arrays.
\<close>

record editor =
  ed_storage :: "u8 list option"
  ed_capacity :: nat
  ed_path :: "u8 list"
  ed_status :: "u8 list"
  ed_length :: nat
  ed_cursor :: nat
  ed_desired_column :: nat
  ed_top_line :: nat
  ed_left_column :: nat
  ed_file_exists :: bool
  ed_modified :: bool
  ed_initialized :: bool
  ed_forced_quit_pending :: bool

definition editor_new :: "u8 list option \<Rightarrow> nat \<Rightarrow> editor" where
  "editor_new storage capacity =
     \<lparr>ed_storage = storage, ed_capacity = capacity, ed_path = [], ed_status = [], ed_length = 0, ed_cursor = 0, ed_desired_column = 0,
      ed_top_line = 0, ed_left_column = 0, ed_file_exists = False, ed_modified = False, ed_initialized = False, ed_forced_quit_pending = False\<rparr>"

abbreviation buffer :: "editor \<Rightarrow> u8 list" where "buffer e \<equiv> the (ed_storage e)"

definition supported_text_byte :: "u8 \<Rightarrow> bool" where "supported_text_byte b \<longleftrightarrow> b = 0x0A \<or> (b \<ge> 0x20 \<and> b \<le> 0x7E)"

definition bounded_length :: "u8 list \<Rightarrow> nat \<Rightarrow> nat" where
  "bounded_length t limit = length (takeWhile (\<lambda>c. c \<noteq> 0) (take limit t))"

subsection \<open>Lines and columns\<close>

definition cursor_step :: "u8 \<Rightarrow> nat \<times> nat \<Rightarrow> nat \<times> nat" where
  "cursor_step b = (\<lambda>(line, column). if b = 0x0A then (Suc line, 0) else (line, Suc column))"

definition cursor_location :: "editor \<Rightarrow> nat \<times> nat" where
  "cursor_location e = fold (\<lambda>i. cursor_step (buffer e ! i)) [0..<ed_cursor e] (0, 0)"

definition reset_desired_column :: "editor \<Rightarrow> editor" where
  "reset_desired_column e = e\<lparr>ed_desired_column := snd (cursor_location e)\<rparr>"

definition line_count :: "editor \<Rightarrow> nat" where
  "line_count e = fold (\<lambda>i lines. if buffer e ! i = 0x0A then Suc lines else lines) [0..<ed_length e] 1"

fun scan_lines :: "u8 list \<Rightarrow> nat \<Rightarrow> nat \<Rightarrow> nat list \<Rightarrow> nat \<Rightarrow> nat \<Rightarrow> (nat \<times> nat) option" where
  "scan_lines st n wanted [] line start = (if line = wanted then Some (start, n) else None)"
| "scan_lines st n wanted (i # is) line start =
     (if st ! i \<noteq> 0x0A then scan_lines st n wanted is line start
      else if line = wanted then Some (start, i)
      else scan_lines st n wanted is (Suc line) (Suc i))"

definition line_bounds :: "nat \<Rightarrow> editor \<Rightarrow> (nat \<times> nat) option" where
  "line_bounds wanted e =
     (if \<not> ed_initialized e \<or> wanted \<ge> line_count e then None
      else scan_lines (buffer e) (ed_length e) wanted [0..<ed_length e] 0 0)"

definition line_number :: "editor \<Rightarrow> nat" where "line_number e = fst (cursor_location e) + 1"
definition column_number :: "editor \<Rightarrow> nat" where "column_number e = snd (cursor_location e) + 1"

subsection \<open>Opening\<close>

definition editor_initialize :: "u8 list option \<Rightarrow> u8 list option \<Rightarrow> nat \<Rightarrow> bool \<Rightarrow> editor \<Rightarrow> bool \<times> editor" where
  "editor_initialize path data len file_exists e =
     (case (ed_storage e, path) of
        (Some st, Some p) \<Rightarrow>
          if ed_capacity e < kTextCapacity \<or> len > kTextCapacity \<or> (len \<noteq> 0 \<and> data = None) then (False, e)
          else let path_length = bounded_length p kPathCapacity
          in if path_length = 0 \<or> path_length \<ge> kPathCapacity then (False, e)
          else if \<not> list_all supported_text_byte (take len (the data)) \<and> len \<noteq> 0 then (False, e)
          else let st = (if len \<noteq> 0 then take len (the data) @ drop len st else st)
          in (True, reset_desired_column
               (e\<lparr>ed_storage := Some st, ed_path := take path_length p, ed_status := [], ed_length := len, ed_cursor := len,
                  ed_desired_column := 0, ed_top_line := 0, ed_left_column := 0, ed_file_exists := file_exists,
                  ed_modified := False, ed_initialized := True, ed_forced_quit_pending := False\<rparr>))
      | _ \<Rightarrow> (False, e))"

text \<open>Loading from the buffer itself leaves its bytes where they are.\<close>

definition initialize_from_storage :: "u8 list option \<Rightarrow> nat \<Rightarrow> bool \<Rightarrow> editor \<Rightarrow> bool \<times> editor" where
  "initialize_from_storage path len file_exists e = editor_initialize path (ed_storage e) len file_exists e"

definition load_buffer :: "editor \<Rightarrow> u8 list option" where
  "load_buffer e = (if ed_storage e \<noteq> None \<and> ed_capacity e \<ge> kTextCapacity then ed_storage e else None)"

subsection \<open>Editing\<close>

text \<open>The loop that makes room moves the bytes behind the cursor from the end; the one that closes a gap from the front.\<close>

definition shift_right :: "nat \<Rightarrow> nat \<Rightarrow> u8 list \<Rightarrow> u8 list" where
  "shift_right cursor len st = fold (\<lambda>i st. st[i := st ! (i - 1)]) (rev [Suc cursor..<Suc len]) st"

definition shift_left :: "nat \<Rightarrow> nat \<Rightarrow> u8 list \<Rightarrow> u8 list" where
  "shift_left removed len st = fold (\<lambda>i st. st[i := st ! (i + 1)]) [removed..<len - 1] st"

definition put_byte :: "u8 \<Rightarrow> editor \<Rightarrow> editor" where
  "put_byte b e =
     reset_desired_column (e\<lparr>ed_storage := Some ((shift_right (ed_cursor e) (ed_length e) (buffer e))[ed_cursor e := b]),
       ed_cursor := Suc (ed_cursor e), ed_length := Suc (ed_length e), ed_modified := True\<rparr>)"

definition insert_byte :: "u8 \<Rightarrow> editor \<Rightarrow> bool \<times> editor" where
  "insert_byte b e =
     (if \<not> ed_initialized e \<or> b < 0x20 \<or> b > 0x7E \<or> ed_length e \<ge> kTextCapacity then (False, e) else (True, put_byte b e))"

definition insert_newline :: "editor \<Rightarrow> bool \<times> editor" where
  "insert_newline e = (if \<not> ed_initialized e \<or> ed_length e \<ge> kTextCapacity then (False, e) else (True, put_byte 0x0A e))"

definition backspace :: "editor \<Rightarrow> bool \<times> editor" where
  "backspace e =
     (if \<not> ed_initialized e \<or> ed_cursor e = 0 then (False, e)
      else let removed = ed_cursor e - 1
           in (True, reset_desired_column (e\<lparr>ed_storage := Some (shift_left removed (ed_length e) (buffer e)),
                ed_cursor := ed_cursor e - 1, ed_length := ed_length e - 1, ed_modified := True\<rparr>)))"

definition move_left :: "editor \<Rightarrow> editor" where
  "move_left e = reset_desired_column (if ed_initialized e \<and> ed_cursor e \<noteq> 0 then e\<lparr>ed_cursor := ed_cursor e - 1\<rparr> else e)"

definition move_right :: "editor \<Rightarrow> editor" where
  "move_right e = reset_desired_column (if ed_initialized e \<and> ed_cursor e < ed_length e then e\<lparr>ed_cursor := ed_cursor e + 1\<rparr> else e)"

text \<open>The cursor goes to the remembered column of a line, or to the end of a shorter one.\<close>

definition go_to_line :: "nat \<Rightarrow> editor \<Rightarrow> editor" where
  "go_to_line line e =
     (case line_bounds line e of None \<Rightarrow> e
      | Some (begin, end) \<Rightarrow>
          let target_column = (if ed_desired_column e < end - begin then ed_desired_column e else end - begin)
          in e\<lparr>ed_cursor := begin + target_column\<rparr>)"

definition move_up :: "editor \<Rightarrow> editor" where
  "move_up e =
     (if \<not> ed_initialized e then e
      else let line = fst (cursor_location e) in if line = 0 then e else go_to_line (line - 1) e)"

definition move_down :: "editor \<Rightarrow> editor" where
  "move_down e =
     (if \<not> ed_initialized e then e
      else let line = fst (cursor_location e) in if line + 1 \<ge> line_count e then e else go_to_line (line + 1) e)"

definition update_viewport :: "nat \<Rightarrow> nat \<Rightarrow> editor \<Rightarrow> editor" where
  "update_viewport visible_rows visible_columns e =
     (if \<not> ed_initialized e \<or> visible_rows = 0 \<or> visible_columns = 0 then e
      else let (line, column) = cursor_location e;
               top = (if line < ed_top_line e then line
                      else if line - ed_top_line e \<ge> visible_rows then line - visible_rows + 1 else ed_top_line e);
               lines = line_count e;
               max_top = (if lines > visible_rows then lines - visible_rows else 0);
               top = (if top > max_top then max_top else top);
               left = (if column < ed_left_column e then column
                       else if column - ed_left_column e \<ge> visible_columns then column - visible_columns + 1 else ed_left_column e)
           in e\<lparr>ed_top_line := top, ed_left_column := left\<rparr>)"

subsection \<open>Status line, saving and quitting\<close>

definition set_status_message :: "u8 list option \<Rightarrow> editor \<Rightarrow> editor" where
  "set_status_message message e =
     e\<lparr>ed_status := (case message of None \<Rightarrow> [] | Some m \<Rightarrow> take (kStatusCapacity - 1) (takeWhile (\<lambda>c. c \<noteq> 0) m))\<rparr>"

definition save_succeeded :: "editor \<Rightarrow> editor" where
  "save_succeeded e =
     (let e = e\<lparr>ed_file_exists := True, ed_modified := False, ed_forced_quit_pending := False\<rparr>
      in set_status_message (Some (take (kStatusCapacity - 1) (bytes_of ''Saved '' @ ed_path e))) e)"

definition save_reason :: "status \<Rightarrow> string" where
  "save_reason status = (case status of
       NotMounted \<Rightarrow> ''filesystem not mounted'' | IoError \<Rightarrow> ''I/O error'' | InvalidFilesystem \<Rightarrow> ''invalid filesystem''
     | NotFound \<Rightarrow> ''not found'' | NotDirectory \<Rightarrow> ''not a directory'' | IsDirectory \<Rightarrow> ''is a directory''
     | Corrupt \<Rightarrow> ''filesystem corrupt'' | Unsupported \<Rightarrow> ''unsupported operation'' | InvalidDescriptor \<Rightarrow> ''invalid file descriptor''
     | InvalidHandle \<Rightarrow> ''invalid handle'' | TooManyOpenFiles \<Rightarrow> ''too many open files''
     | TooManyOpenDirectories \<Rightarrow> ''too many open directories'' | AlreadyExists \<Rightarrow> ''already exists''
     | InvalidName \<Rightarrow> ''invalid 8.3 name or path'' | NoSpace \<Rightarrow> ''disk full'' | DirectoryNotEmpty \<Rightarrow> ''directory not empty''
     | ReadOnly \<Rightarrow> ''read-only volume'' | Ok \<Rightarrow> ''unknown error'')"

definition save_failed :: "status \<Rightarrow> editor \<Rightarrow> editor" where
  "save_failed status e =
     set_status_message (Some (take (kStatusCapacity - 1) (bytes_of (''Save failed: '' @ save_reason status))))
       (e\<lparr>ed_modified := True, ed_forced_quit_pending := False\<rparr>)"

definition edit_key :: "key_event \<Rightarrow> editor \<Rightarrow> editor" where
  "edit_key event e =
     (case ke_key event of
        KeyCharacter \<Rightarrow>
          if ke_ctrl event then e
          else (case insert_byte (ke_character event) e of
                  (True, e) \<Rightarrow> e
                | (False, e) \<Rightarrow> set_status_message (Some (bytes_of ''Buffer full or unsupported character'')) e)
      | KeyEnter \<Rightarrow> (case insert_newline e of (True, e) \<Rightarrow> e | (False, e) \<Rightarrow> set_status_message (Some (bytes_of ''Buffer full'')) e)
      | KeyBackspace \<Rightarrow> snd (backspace e)
      | KeyArrowLeft \<Rightarrow> move_left e
      | KeyArrowRight \<Rightarrow> move_right e
      | KeyArrowUp \<Rightarrow> move_up e
      | KeyArrowDown \<Rightarrow> move_down e
      | _ \<Rightarrow> e)"

definition handle_key :: "key_event \<Rightarrow> editor \<Rightarrow> editor_action \<times> editor" where
  "handle_key event e =
     (if \<not> ed_initialized e \<or> \<not> ke_pressed event then (NoEditorAction, e)
      else if ke_key event = KeyCharacter \<and> ke_ctrl event \<and> (ke_character event = 0x73 \<or> ke_character event = 0x53)
      then (Save, set_status_message (Some []) (e\<lparr>ed_forced_quit_pending := False\<rparr>))
      else if ke_key event = KeyCharacter \<and> ke_ctrl event \<and> (ke_character event = 0x71 \<or> ke_character event = 0x51)
      then if \<not> ed_modified e then (Quit, set_status_message (Some []) (e\<lparr>ed_forced_quit_pending := False\<rparr>))
           else if ed_forced_quit_pending e then (Quit, e\<lparr>ed_forced_quit_pending := False\<rparr>)
           else (NoEditorAction, set_status_message (Some (bytes_of ''Unsaved changes! Press Ctrl+Q again to quit without saving.''))
                  (e\<lparr>ed_forced_quit_pending := True\<rparr>))
      else (NoEditorAction, edit_key event (set_status_message (Some []) (e\<lparr>ed_forced_quit_pending := False\<rparr>))))"

subsection \<open>The text\<close>

definition text_of :: "editor \<Rightarrow> u8 list" where "text_of e = take (ed_length e) (buffer e)"

definition ed_ok :: "editor \<Rightarrow> bool" where
  "ed_ok e \<longleftrightarrow> ed_initialized e \<longrightarrow>
     ed_storage e \<noteq> None \<and> kTextCapacity \<le> length (buffer e) \<and> ed_cursor e \<le> ed_length e \<and> ed_length e \<le> kTextCapacity \<and>
     list_all supported_text_byte (text_of e)"

definition locate :: "u8 list \<Rightarrow> nat \<times> nat" where "locate xs = fold cursor_step xs (0, 0)"

fun text_lines :: "u8 list \<Rightarrow> u8 list list" where
  "text_lines [] = [[]]"
| "text_lines (b # bs) = (if b = 0x0A then [] # text_lines bs else (b # hd (text_lines bs)) # tl (text_lines bs))"

definition line_begin :: "u8 list list \<Rightarrow> nat \<Rightarrow> nat" where
  "line_begin ls r = sum_list (map (\<lambda>l. Suc (length l)) (take r ls))"

lemma text_lines_ne [simp]: "text_lines t \<noteq> []" by (cases t) auto

lemma text_lines_Cons: "b \<noteq> 0x0A \<Longrightarrow> text_lines bs = l # ls \<Longrightarrow> text_lines (b # bs) = (b # l) # ls" by simp

lemma fold_nth_take: "n \<le> length xs \<Longrightarrow> fold (\<lambda>i. f (xs ! i)) [0..<n] a = fold f (take n xs) a"
  by (induction n) (simp_all add: take_Suc_conv_app_nth)

lemma fold_cursor_step:
  "fold cursor_step xs (l, c) = (l + fst (locate xs), if fst (locate xs) = 0 then c + snd (locate xs) else snd (locate xs))"
proof (induction xs rule: rev_induct)
  case (snoc x xs)
  then show ?case by (auto simp: locate_def cursor_step_def split: prod.splits)
qed (simp add: locate_def)

lemma locate_Cons: "locate (b # bs) = (if b = 0x0A then (Suc (fst (locate bs)), snd (locate bs))
    else (fst (locate bs), if fst (locate bs) = 0 then Suc (snd (locate bs)) else snd (locate bs)))"
  using fold_cursor_step [of bs 1 0] fold_cursor_step [of bs 0 1] by (auto simp: locate_def cursor_step_def)

lemma locate_bound: "fst (locate (take n t)) < length (text_lines t)"
proof (induction t arbitrary: n)
  case (Cons b t)
  obtain l ls where ls: "text_lines t = l # ls" using text_lines_ne by (metis list.exhaust)
  show ?case
  proof (cases n)
    case (Suc m)
    then show ?thesis using Cons.IH [of m] ls by (simp add: locate_Cons)
  qed (simp add: locate_def)
qed (simp add: locate_def)

lemma line_count_text: "ed_length e \<le> length (buffer e) \<Longrightarrow> line_count e = length (text_lines (text_of e))"
proof -
  assume len: "ed_length e \<le> length (buffer e)"
  have "fold (\<lambda>b lines. if b = 0x0A then Suc lines else lines) t n = n + length (text_lines t) - 1" for t :: "u8 list" and n
    by (induction t arbitrary: n) (simp_all add: Suc_diff_le)
  then show ?thesis using fold_nth_take [OF len, of "\<lambda>b lines. if b = 0x0A then Suc lines else lines" 1] by (simp add: line_count_def text_of_def)
qed

lemma locate_line:
  "r < length (text_lines t) \<Longrightarrow> k \<le> length (text_lines t ! r) \<Longrightarrow>
     line_begin (text_lines t) r + k \<le> length t \<and> locate (take (line_begin (text_lines t) r + k) t) = (r, k)"
proof (induction t arbitrary: r k)
  case (Cons b t)
  obtain l ls where ls: "text_lines t = l # ls" using text_lines_ne by (metis list.exhaust)
  show ?case
  proof (cases "b = 0x0A")
    case True
    then show ?thesis using Cons.prems Cons.IH [of "r - 1" k]
      by (cases r) (auto simp: line_begin_def locate_Cons locate_def [of "[]"])
  next
    case False
    note tl = text_lines_Cons [OF False ls]
    show ?thesis
    proof (cases r)
      case 0
      then show ?thesis using Cons.prems Cons.IH [of 0 "k - 1"] False
        by (cases k) (auto simp: tl ls line_begin_def locate_Cons locate_def [of "[]"])
    next
      case (Suc r')
      then show ?thesis using Cons.prems Cons.IH [of r k] False
        by (auto simp: tl ls line_begin_def locate_Cons)
    qed
  qed
qed (simp add: line_begin_def locate_def)

lemma scan_lines_text:
  assumes "line \<le> wanted" "k \<le> n" "n \<le> length st" "start \<le> k"
  shows "scan_lines st n wanted [k..<n] line start =
    (let ls = text_lines (drop k (take n st)); r = wanted - line in
     if r < length ls then Some (if r = 0 then (start, k + length (ls ! 0)) else (k + line_begin ls r, k + line_begin ls r + length (ls ! r))) else None)"
  using assms
proof (induction "n - k" arbitrary: k line start)
  case 0
  then show ?case by auto
next
  case (Suc m)
  then have k: "k < n" by simp
  have up: "[k..<n] = k # [Suc k..<n]" using k by (simp add: upt_conv_Cons)
  have dr: "drop k (take n st) = st ! k # drop (Suc k) (take n st)" using k Suc.prems(3) by (subst Cons_nth_drop_Suc [symmetric]) simp_all
  obtain l ls where ls: "text_lines (drop (Suc k) (take n st)) = l # ls" using text_lines_ne by (metis list.exhaust)
  show ?case
  proof (cases "st ! k = 0x0A")
    case False
    have "scan_lines st n wanted [Suc k..<n] line start =
        (let ls = text_lines (drop (Suc k) (take n st)); r = wanted - line in
         if r < length ls then Some (if r = 0 then (start, Suc k + length (ls ! 0)) else (Suc k + line_begin ls r, Suc k + line_begin ls r + length (ls ! r))) else None)"
      by (rule Suc.hyps(1)) (use Suc.hyps(2) Suc.prems k in auto)
    then show ?thesis using False
      by (cases "wanted - line") (auto simp: up dr text_lines_Cons [OF False ls] ls Let_def line_begin_def)
  next
    case True
    show ?thesis
    proof (cases "line = wanted")
      case False
      then obtain r where r: "wanted - line = Suc r" "wanted - Suc line = r" using Suc.prems(1) by (metis Suc_diff_Suc le_neq_implies_less)
      have "scan_lines st n wanted [Suc k..<n] (Suc line) (Suc k) =
          (let ls = text_lines (drop (Suc k) (take n st)); r = wanted - Suc line in
           if r < length ls then Some (if r = 0 then (Suc k, Suc k + length (ls ! 0)) else (Suc k + line_begin ls r, Suc k + line_begin ls r + length (ls ! r))) else None)"
        by (rule Suc.hyps(1)) (use Suc.hyps(2) Suc.prems False k in auto)
      then show ?thesis using True False r by (auto simp: up dr Let_def line_begin_def)
    qed (use True in \<open>simp add: up dr Let_def\<close>)
  qed
qed

lemma line_bounds_text:
  assumes "ed_initialized e" "ed_length e \<le> length (buffer e)"
  defines "ls \<equiv> text_lines (text_of e)"
  shows "line_bounds r e = (if r < length ls then Some (line_begin ls r, line_begin ls r + length (ls ! r)) else None)"
  using scan_lines_text [of 0 r 0 "ed_length e" "buffer e" 0] assms(1,2) line_count_text [OF assms(2)]
  by (auto simp: line_bounds_def ls_def text_of_def Let_def line_begin_def)

subsection \<open>The buffer operations\<close>

lemma shift_right_nth:
  "length (shift_right c (c + n) st) = length st \<and>
   (c + n < length st \<longrightarrow> (\<forall>j. shift_right c (c + n) st ! j = (if c < j \<and> j \<le> c + n then st ! (j - 1) else st ! j)))"
proof (induction n arbitrary: st)
  case (Suc n)
  have step: "shift_right c (c + Suc n) st = shift_right c (c + n) (st[c + Suc n := st ! (c + n)])" by (simp add: shift_right_def)
  show ?case unfolding step using Suc.IH [of "st[c + Suc n := st ! (c + n)]"] by (auto simp: nth_list_update)
qed (auto simp: shift_right_def)

lemma shift_left_nth:
  "m \<le> length st - 1 \<Longrightarrow> length (fold (\<lambda>i st. st[i := st ! (i + 1)]) [r..<m] st) = length st \<and>
   (\<forall>j. fold (\<lambda>i st. st[i := st ! (i + 1)]) [r..<m] st ! j = (if r \<le> j \<and> j < m then st ! (j + 1) else st ! j))"
proof (induction m)
  case (Suc m)
  then show ?case by (cases "r \<le> m") (auto simp: nth_list_update less_Suc_eq)
qed simp

lemma put_byte_text:
  assumes "ed_cursor e \<le> ed_length e" "ed_length e < length (buffer e)"
  shows "text_of (put_byte b e) = take (ed_cursor e) (text_of e) @ b # drop (ed_cursor e) (text_of e)"
    "length (buffer (put_byte b e)) = length (buffer e)"
proof -
  let ?c = "ed_cursor e" let ?n = "ed_length e" let ?st = "buffer e" let ?sr = "shift_right ?c ?n ?st"
  obtain k where k: "?n = ?c + k" using assms(1) by (metis le_add_diff_inverse)
  have sr: "length ?sr = length ?st" "\<And>j. ?sr ! j = (if ?c < j \<and> j \<le> ?n then ?st ! (j - 1) else ?st ! j)"
    using shift_right_nth [of ?c k ?st] assms(2) by (auto simp: k)
  show "length (buffer (put_byte b e)) = length (buffer e)" by (simp add: put_byte_def reset_desired_column_def sr(1))
  have "take (Suc ?n) (?sr[?c := b]) = take ?c (take ?n ?st) @ b # drop ?c (take ?n ?st)"
    by (rule nth_equalityI) (use assms sr in \<open>auto simp: nth_append nth_Cons nth_list_update split: nat.splits
      intro: arg_cong [where f = "(!) (buffer e)"]\<close>)
  then show "text_of (put_byte b e) = take ?c (text_of e) @ b # drop ?c (text_of e)"
    by (simp add: text_of_def put_byte_def reset_desired_column_def)
qed

lemma backspace_text:
  assumes "ed_initialized e" "0 < ed_cursor e" "ed_cursor e \<le> ed_length e" "ed_length e \<le> length (buffer e)"
  shows "text_of (snd (backspace e)) = take (ed_cursor e - 1) (text_of e) @ drop (ed_cursor e) (text_of e)"
    "length (buffer (snd (backspace e))) = length (buffer e)"
proof -
  let ?c = "ed_cursor e" let ?n = "ed_length e" let ?st = "buffer e" let ?sl = "shift_left (?c - 1) ?n ?st"
  have sl: "length ?sl = length ?st" "\<And>j. ?sl ! j = (if ?c - 1 \<le> j \<and> j < ?n - 1 then ?st ! (j + 1) else ?st ! j)"
    using shift_left_nth [of "?n - 1" ?st "?c - 1"] assms(4) by (auto simp: shift_left_def)
  show "length (buffer (snd (backspace e))) = length (buffer e)" using assms(1,2) sl(1) by (simp add: backspace_def reset_desired_column_def Let_def)
  have "take (?n - 1) ?sl = take (?c - 1) (take ?n ?st) @ drop ?c (take ?n ?st)"
  proof (rule nth_equalityI)
    show "length (take (?n - 1) ?sl) = length (take (?c - 1) (take ?n ?st) @ drop ?c (take ?n ?st))"
      using assms(2-4) sl(1) by simp
    fix i assume "i < length (take (?n - 1) ?sl)"
    then have "i < ?n - 1" by simp
    then show "take (?n - 1) ?sl ! i = (take (?c - 1) (take ?n ?st) @ drop ?c (take ?n ?st)) ! i"
      using assms(2-4) sl(2) [of i] by (simp add: nth_append)
  qed
  then show "text_of (snd (backspace e)) = take (?c - 1) (text_of e) @ drop ?c (text_of e)"
    using assms(1,2) by (simp add: text_of_def backspace_def reset_desired_column_def Let_def)
qed

subsection \<open>Editing as text and position\<close>

definition edit_spec :: "key_event \<Rightarrow> u8 list \<times> nat \<Rightarrow> u8 list \<times> nat" where
  "edit_spec event = (\<lambda>(t, c).
     let typed = (\<lambda>b. if length t < kTextCapacity then (take c t @ b # drop c t, c + 1) else (t, c)) in
     case ke_key event of
       KeyCharacter \<Rightarrow> if \<not> ke_ctrl event \<and> printable (ke_character event) then typed (ke_character event) else (t, c)
     | KeyEnter \<Rightarrow> typed 0x0A
     | KeyBackspace \<Rightarrow> if c = 0 then (t, c) else (take (c - 1) t @ drop c t, c - 1)
     | KeyArrowLeft \<Rightarrow> (t, c - 1)
     | KeyArrowRight \<Rightarrow> (t, min (c + 1) (length t))
     | _ \<Rightarrow> (t, c))"

lemma status_only [simp]:
  "ed_storage (set_status_message m e) = ed_storage e" "ed_length (set_status_message m e) = ed_length e"
  "ed_cursor (set_status_message m e) = ed_cursor e" "ed_initialized (set_status_message m e) = ed_initialized e"
  "ed_desired_column (set_status_message m e) = ed_desired_column e" "ed_modified (set_status_message m e) = ed_modified e"
  "ed_forced_quit_pending (set_status_message m e) = ed_forced_quit_pending e" "text_of (set_status_message m e) = text_of e"
  "cursor_location (set_status_message m e) = cursor_location e" "line_count (set_status_message m e) = line_count e"
  "ed_ok (set_status_message m e) = ed_ok e"
  by (simp_all add: set_status_message_def text_of_def cursor_location_def line_count_def ed_ok_def)

lemma column_only [simp]:
  "ed_storage (reset_desired_column e) = ed_storage e" "ed_length (reset_desired_column e) = ed_length e"
  "ed_cursor (reset_desired_column e) = ed_cursor e" "ed_initialized (reset_desired_column e) = ed_initialized e"
  "ed_modified (reset_desired_column e) = ed_modified e" "ed_forced_quit_pending (reset_desired_column e) = ed_forced_quit_pending e"
  "text_of (reset_desired_column e) = text_of e" "ed_ok (reset_desired_column e) = ed_ok e"
  by (simp_all add: reset_desired_column_def text_of_def ed_ok_def)

lemma ed_ok_facts:
  assumes "ed_ok e" "ed_initialized e"
  shows "ed_cursor e \<le> ed_length e" "ed_length e \<le> length (buffer e)" "ed_length e \<le> kTextCapacity" "kTextCapacity \<le> length (buffer e)"
    "length (text_of e) = ed_length e" "ed_storage e \<noteq> None" "list_all supported_text_byte (text_of e)"
  using assms by (auto simp: ed_ok_def text_of_def)

lemma ed_okI:
  assumes "ed_storage e \<noteq> None" "kTextCapacity \<le> length (buffer e)" "ed_cursor e \<le> ed_length e" "ed_length e \<le> kTextCapacity"
    "list_all supported_text_byte (text_of e)"
  shows "ed_ok e"
  using assms by (simp add: ed_ok_def)

lemma put_byte_ok:
  assumes "ed_ok e" "ed_initialized e" "ed_length e < kTextCapacity" "supported_text_byte b"
  shows "ed_ok (put_byte b e)" "text_of (put_byte b e) = take (ed_cursor e) (text_of e) @ b # drop (ed_cursor e) (text_of e)"
    "ed_cursor (put_byte b e) = Suc (ed_cursor e)"
proof -
  note f = ed_ok_facts [OF assms(1,2)]
  have lt: "ed_length e < length (buffer e)" using f(4) assms(3) by simp
  note p = put_byte_text [OF f(1) lt, of b]
  show "text_of (put_byte b e) = take (ed_cursor e) (text_of e) @ b # drop (ed_cursor e) (text_of e)" by (rule p(1))
  show "ed_cursor (put_byte b e) = Suc (ed_cursor e)" by (simp add: put_byte_def)
  show "ed_ok (put_byte b e)"
  proof (rule ed_okI)
    show "list_all supported_text_byte (text_of (put_byte b e))"
      using f(7) assms(4) unfolding p(1) by (auto simp: list_all_iff dest: in_set_takeD in_set_dropD)
  qed (use f p(2) assms(3) in \<open>simp_all add: put_byte_def\<close>)
qed

lemma backspace_ok:
  assumes "ed_ok e" "ed_initialized e"
  shows "ed_ok (snd (backspace e))" "(text_of (snd (backspace e)), ed_cursor (snd (backspace e))) =
     (if ed_cursor e = 0 then (text_of e, ed_cursor e) else (take (ed_cursor e - 1) (text_of e) @ drop (ed_cursor e) (text_of e), ed_cursor e - 1))"
proof -
  note f = ed_ok_facts [OF assms]
  have "ed_ok (snd (backspace e)) \<and> (text_of (snd (backspace e)), ed_cursor (snd (backspace e))) =
     (if ed_cursor e = 0 then (text_of e, ed_cursor e) else (take (ed_cursor e - 1) (text_of e) @ drop (ed_cursor e) (text_of e), ed_cursor e - 1))"
  proof (cases "ed_cursor e = 0")
    case True
    then show ?thesis using assms by (simp add: backspace_def)
  next
    case False
    note b = backspace_text [OF assms(2) _ f(1,2)]
    have "ed_ok (snd (backspace e))"
    proof (rule ed_okI)
      show "list_all supported_text_byte (text_of (snd (backspace e)))"
        using f(7) False b(1) by (auto simp: list_all_iff dest: in_set_takeD in_set_dropD)
    qed (use f b(2) False assms(2) in \<open>simp_all add: backspace_def Let_def\<close>)
    then show ?thesis using b(1) False assms(2) by (simp add: backspace_def Let_def)
  qed
  then show "ed_ok (snd (backspace e))" "(text_of (snd (backspace e)), ed_cursor (snd (backspace e))) =
     (if ed_cursor e = 0 then (text_of e, ed_cursor e) else (take (ed_cursor e - 1) (text_of e) @ drop (ed_cursor e) (text_of e), ed_cursor e - 1))"
    by blast+
qed

lemma cursor_location_text: "ed_ok e \<Longrightarrow> ed_initialized e \<Longrightarrow> cursor_location e = locate (take (ed_cursor e) (text_of e))"
  using fold_nth_take [of "ed_cursor e" "buffer e" cursor_step "(0, 0)"] ed_ok_facts [of e]
  by (simp add: cursor_location_def locate_def text_of_def min_absorb1)

text \<open>Moving the cursor within the text.\<close>

lemma move_cursor_ok:
  assumes "ed_ok e" "ed_initialized e" "c \<le> ed_length e"
  shows "ed_ok (e\<lparr>ed_cursor := c\<rparr>)" "text_of (e\<lparr>ed_cursor := c\<rparr>) = text_of e"
    "cursor_location (e\<lparr>ed_cursor := c\<rparr>) = locate (take c (text_of e))"
proof -
  show ok: "ed_ok (e\<lparr>ed_cursor := c\<rparr>)" "text_of (e\<lparr>ed_cursor := c\<rparr>) = text_of e" using assms by (simp_all add: ed_ok_def text_of_def)
  show "cursor_location (e\<lparr>ed_cursor := c\<rparr>) = locate (take c (text_of e))" using cursor_location_text [OF ok(1)] assms(2) ok(2) by simp
qed

lemma go_to_line_ok:
  assumes "ed_ok e" "ed_initialized e" "r < length (text_lines (text_of e))"
  shows "ed_ok (go_to_line r e)" "text_of (go_to_line r e) = text_of e"
    "cursor_location (go_to_line r e) = (r, min (ed_desired_column e) (length (text_lines (text_of e) ! r)))"
proof -
  let ?ls = "text_lines (text_of e)" let ?k = "min (ed_desired_column e) (length (?ls ! r))"
  note f = ed_ok_facts [OF assms(1,2)]
  have g: "go_to_line r e = e\<lparr>ed_cursor := line_begin ?ls r + ?k\<rparr>"
    using line_bounds_text [OF assms(2) f(2)] assms(3) by (simp add: go_to_line_def Let_def min_def)
  have l: "line_begin ?ls r + ?k \<le> ed_length e" "locate (take (line_begin ?ls r + ?k) (text_of e)) = (r, ?k)"
    using locate_line [OF assms(3), of ?k] f(5) by simp_all
  show "ed_ok (go_to_line r e)" "text_of (go_to_line r e) = text_of e" "cursor_location (go_to_line r e) = (r, ?k)"
    unfolding g using move_cursor_ok [OF assms(1,2) l(1)] l(2) by simp_all
qed

text \<open>A key that is neither a save nor a quit request edits the text with the pending quit and the status cleared.\<close>

lemma handle_key_edits:
  assumes "ed_ok e" "ed_initialized e" "ke_pressed ev"
  obtains e1 where "ed_ok e1" "ed_initialized e1" "text_of e1 = text_of e" "ed_cursor e1 = ed_cursor e" "ed_desired_column e1 = ed_desired_column e"
    "cursor_location e1 = cursor_location e" "line_count e1 = line_count e"
    "snd (handle_key ev e) = edit_key ev e1 \<or> (ke_key ev = KeyCharacter \<and> ke_ctrl ev \<and> ed_ok (snd (handle_key ev e)) \<and>
       text_of (snd (handle_key ev e)) = text_of e \<and> ed_cursor (snd (handle_key ev e)) = ed_cursor e)"
proof -
  have flag: "ed_ok (e\<lparr>ed_forced_quit_pending := b\<rparr>) = ed_ok e" "text_of (e\<lparr>ed_forced_quit_pending := b\<rparr>) = text_of e"
    "cursor_location (e\<lparr>ed_forced_quit_pending := b\<rparr>) = cursor_location e" "line_count (e\<lparr>ed_forced_quit_pending := b\<rparr>) = line_count e" for b
    by (simp_all add: ed_ok_def text_of_def cursor_location_def line_count_def)
  show thesis
    by (rule that [of "set_status_message (Some []) (e\<lparr>ed_forced_quit_pending := False\<rparr>)"])
      (use assms flag in \<open>auto simp: handle_key_def\<close>)
qed

lemma edit_key_horizontal:
  assumes "ed_ok e" "ed_initialized e" "ke_key ev \<noteq> KeyArrowUp" "ke_key ev \<noteq> KeyArrowDown"
  shows "ed_ok (edit_key ev e) \<and> (text_of (edit_key ev e), ed_cursor (edit_key ev e)) = edit_spec ev (text_of e, ed_cursor e)"
proof -
  note f = ed_ok_facts [OF assms(1,2)]
  have typed: "ed_ok (put_byte b e) \<and> (text_of (put_byte b e), ed_cursor (put_byte b e)) = (take (ed_cursor e) (text_of e) @ b # drop (ed_cursor e) (text_of e), ed_cursor e + 1)"
    if "ed_length e < kTextCapacity" "supported_text_byte b" for b using put_byte_ok [OF assms(1,2) that] by simp
  show ?thesis
  proof (cases "ke_key ev")
    case KeyCharacter
    then show ?thesis using typed [of "ke_character ev"] assms(1,2) f(5)
      by (auto simp: edit_key_def insert_byte_def edit_spec_def printable_def supported_text_byte_def not_less Let_def split: prod.splits if_splits)
  next
    case KeyEnter
    then show ?thesis using typed [of "0x0A"] assms(1,2) f(5)
      by (auto simp: edit_key_def insert_newline_def edit_spec_def supported_text_byte_def not_less Let_def split: prod.splits if_splits)
  next
    case KeyBackspace
    then show ?thesis using backspace_ok [OF assms(1,2)] by (simp add: edit_key_def edit_spec_def)
  next
    case KeyArrowLeft
    then show ?thesis using assms(1,2) f(1) move_cursor_ok [OF assms(1,2), of "ed_cursor e - 1"]
      by (simp add: edit_key_def edit_spec_def move_left_def)
  next
    case KeyArrowRight
    then show ?thesis using assms(1,2) f(1,5) move_cursor_ok [OF assms(1,2), of "ed_cursor e + 1"]
      by (simp add: edit_key_def edit_spec_def move_right_def)
  qed (use assms in \<open>simp_all add: edit_key_def edit_spec_def\<close>)
qed

lemma edit_key_vertical:
  assumes "ed_ok e" "ed_initialized e" "cursor_location e = (line, column)"
  shows "ke_key ev = KeyArrowUp \<Longrightarrow> ed_ok (edit_key ev e) \<and> text_of (edit_key ev e) = text_of e \<and> cursor_location (edit_key ev e) =
      (if line = 0 then (line, column) else (line - 1, min (ed_desired_column e) (length (text_lines (text_of e) ! (line - 1)))))"
    "ke_key ev = KeyArrowDown \<Longrightarrow> ed_ok (edit_key ev e) \<and> text_of (edit_key ev e) = text_of e \<and> cursor_location (edit_key ev e) =
      (if line + 1 \<ge> length (text_lines (text_of e)) then (line, column) else (line + 1, min (ed_desired_column e) (length (text_lines (text_of e) ! (line + 1)))))"
proof -
  note f = ed_ok_facts [OF assms(1,2)]
  have "line < length (text_lines (text_of e))"
    using locate_bound [of "ed_cursor e" "text_of e"] cursor_location_text [OF assms(1,2)] assms(3) by (metis fst_conv)
  then show "ke_key ev = KeyArrowUp \<Longrightarrow> ed_ok (edit_key ev e) \<and> text_of (edit_key ev e) = text_of e \<and> cursor_location (edit_key ev e) =
      (if line = 0 then (line, column) else (line - 1, min (ed_desired_column e) (length (text_lines (text_of e) ! (line - 1)))))"
    using go_to_line_ok [OF assms(1,2), of "line - 1"] assms by (simp add: edit_key_def move_up_def)
  show "ke_key ev = KeyArrowDown \<Longrightarrow> ed_ok (edit_key ev e) \<and> text_of (edit_key ev e) = text_of e \<and> cursor_location (edit_key ev e) =
      (if line + 1 \<ge> length (text_lines (text_of e)) then (line, column) else (line + 1, min (ed_desired_column e) (length (text_lines (text_of e) ! (line + 1)))))"
    using go_to_line_ok [OF assms(1,2), of "line + 1"] assms line_count_text [OF f(2)] by (simp add: edit_key_def move_down_def)
qed

text \<open>
  C18: the editor edits the text at the cursor.  In a consistent open editor a pressed key keeps it consistent, the cursor within
  at most 65536 supported bytes, and acts on the text and the position as specified: a printable character or a line break is inserted
  if there is room, backspace removes the byte before the cursor, left and right move by one, keys with Ctrl change neither.
  Up and down leave the text alone and go to the neighbouring line, if there is one, at the remembered column or
  at the end of a shorter line.
\<close>

theorem editor_key_refines:
  assumes "ed_ok e" "ed_initialized e" "ke_pressed ev" "e' = snd (handle_key ev e)" "cursor_location e = (line, column)"
  shows "ed_ok e' \<and>
    (case ke_key ev of
       KeyArrowUp \<Rightarrow> text_of e' = text_of e \<and> cursor_location e' =
         (if line = 0 then (line, column) else (line - 1, min (ed_desired_column e) (length (text_lines (text_of e) ! (line - 1)))))
     | KeyArrowDown \<Rightarrow> text_of e' = text_of e \<and> cursor_location e' =
         (if line + 1 \<ge> length (text_lines (text_of e)) then (line, column)
          else (line + 1, min (ed_desired_column e) (length (text_lines (text_of e) ! (line + 1)))))
     | _ \<Rightarrow> (text_of e', ed_cursor e') = edit_spec ev (text_of e, ed_cursor e))"
proof -
  obtain e1 where e1: "ed_ok e1" "ed_initialized e1" "text_of e1 = text_of e" "ed_cursor e1 = ed_cursor e" "ed_desired_column e1 = ed_desired_column e"
    "cursor_location e1 = cursor_location e"
    "e' = edit_key ev e1 \<or> (ke_key ev = KeyCharacter \<and> ke_ctrl ev \<and> ed_ok e' \<and> text_of e' = text_of e \<and> ed_cursor e' = ed_cursor e)"
    using handle_key_edits [OF assms(1-3)] unfolding assms(4) by metis
  show ?thesis
  proof (cases "e' = edit_key ev e1")
    case True
    then show ?thesis
      using edit_key_horizontal [OF e1(1,2), of ev] edit_key_vertical [OF e1(1,2), of line column ev] e1(3-6) assms(5)
      by (cases "ke_key ev") simp_all
  next
    case False
    then show ?thesis using e1(7) by (simp add: edit_spec_def)
  qed
qed

text \<open>
  C38: the viewport follows the cursor.  After an update with a nonempty window, the line and the column of the cursor are inside
  the window, and the window does not reach beyond the last line unless all lines fit.
\<close>

theorem viewport_shows_cursor:
  assumes "ed_ok e" "ed_initialized e" "0 < rows" "0 < columns" "e' = update_viewport rows columns e"
  shows "cursor_location e' = cursor_location e \<and>
    ed_top_line e' \<le> fst (cursor_location e) \<and> fst (cursor_location e) < ed_top_line e' + rows \<and>
    ed_left_column e' \<le> snd (cursor_location e) \<and> snd (cursor_location e) < ed_left_column e' + columns \<and>
    (ed_top_line e' = 0 \<or> ed_top_line e' + rows \<le> line_count e)"
proof -
  obtain line column where lc: "cursor_location e = (line, column)" by fastforce
  have "line < line_count e"
    using locate_bound [of "ed_cursor e" "text_of e"] cursor_location_text [OF assms(1,2)] line_count_text [OF ed_ok_facts(2) [OF assms(1,2)]] lc
    by (metis fst_conv)
  moreover have "cursor_location (e\<lparr>ed_top_line := a, ed_left_column := b\<rparr>) = cursor_location e" for a b by (simp add: cursor_location_def)
  ultimately show ?thesis using assms(2-4) lc unfolding assms(5) update_viewport_def by (auto simp: Let_def)
qed

subsection \<open>Quitting\<close>

fun handle_keys :: "key_event list \<Rightarrow> editor \<Rightarrow> editor_action list \<times> editor" where
  "handle_keys [] e = ([], e)"
| "handle_keys (ev # evs) e = (case handle_key ev e of (a, e) \<Rightarrow> case handle_keys evs e of (as, e) \<Rightarrow> (a # as, e))"

definition quit_request :: "key_event \<Rightarrow> bool" where
  "quit_request ev \<longleftrightarrow> ke_pressed ev \<and> ke_key ev = KeyCharacter \<and> ke_ctrl ev \<and> (ke_character ev = 0x71 \<or> ke_character ev = 0x51)"

lemma go_to_line_flags:
  "ed_forced_quit_pending (go_to_line r e) = ed_forced_quit_pending e" "ed_initialized (go_to_line r e) = ed_initialized e"
  by (simp_all add: go_to_line_def Let_def split: option.split)

lemma byte_flags:
  "ed_forced_quit_pending (snd (insert_byte b e)) = ed_forced_quit_pending e" "ed_initialized (snd (insert_byte b e)) = ed_initialized e"
  "ed_forced_quit_pending (snd (insert_newline e)) = ed_forced_quit_pending e" "ed_initialized (snd (insert_newline e)) = ed_initialized e"
  "ed_forced_quit_pending (snd (backspace e)) = ed_forced_quit_pending e" "ed_initialized (snd (backspace e)) = ed_initialized e"
  by (simp_all add: insert_byte_def insert_newline_def put_byte_def backspace_def Let_def)

lemma move_flags:
  "ed_forced_quit_pending (move_left e) = ed_forced_quit_pending e" "ed_initialized (move_left e) = ed_initialized e"
  "ed_forced_quit_pending (move_right e) = ed_forced_quit_pending e" "ed_initialized (move_right e) = ed_initialized e"
  "ed_forced_quit_pending (move_up e) = ed_forced_quit_pending e" "ed_initialized (move_up e) = ed_initialized e"
  "ed_forced_quit_pending (move_down e) = ed_forced_quit_pending e" "ed_initialized (move_down e) = ed_initialized e"
  by (simp_all add: move_left_def move_right_def move_up_def move_down_def go_to_line_flags Let_def)

lemma or_status:
  "(case p of (True, e) \<Rightarrow> e | (False, e) \<Rightarrow> set_status_message m e) = (if fst p then snd p else set_status_message m (snd p))"
  by (cases p; cases "fst p") auto

lemma edit_key_flags:
  "ed_forced_quit_pending (edit_key ev e) = ed_forced_quit_pending e" "ed_initialized (edit_key ev e) = ed_initialized e"
  by (cases "ke_key ev"; simp add: edit_key_def or_status move_flags byte_flags)+

text \<open>What a pending request means: the last pressed key was a request to quit, made with unsaved changes.\<close>

lemma handle_key_pending:
  "ed_forced_quit_pending (snd (handle_key ev e)) \<Longrightarrow> ed_initialized e \<Longrightarrow>
     if ke_pressed ev then quit_request ev \<and> ed_modified e \<and> \<not> ed_forced_quit_pending e else ed_forced_quit_pending e"
  by (auto simp: handle_key_def quit_request_def edit_key_flags split: if_splits)

lemma handle_key_initialized [simp]: "ed_initialized (snd (handle_key ev e)) = ed_initialized e"
  by (simp add: handle_key_def edit_key_flags)

lemma handle_keys_append:
  "handle_keys (xs @ ys) e = (fst (handle_keys xs e) @ fst (handle_keys ys (snd (handle_keys xs e))), snd (handle_keys ys (snd (handle_keys xs e))))"
  by (induction xs arbitrary: e) (auto split: prod.splits)

lemma handle_keys_initialized [simp]: "ed_initialized (snd (handle_keys evs e)) = ed_initialized e"
proof (induction evs arbitrary: e)
  case (Cons ev evs)
  then show ?case using handle_key_initialized [of ev e] by (simp add: split_beta)
qed simp

lemma pending_request:
  assumes "ed_forced_quit_pending (snd (handle_keys evs e))" "ed_initialized e" "\<not> ed_forced_quit_pending e"
  shows "filter ke_pressed evs \<noteq> [] \<and> quit_request (last (filter ke_pressed evs))"
  using assms
proof (induction evs rule: rev_induct)
  case (snoc ev evs)
  let ?e = "snd (handle_keys evs e)"
  have "ed_forced_quit_pending (snd (handle_key ev ?e))" using snoc.prems(1) by (simp add: handle_keys_append split_beta)
  from handle_key_pending [OF this] show ?case using snoc by (cases "ke_pressed ev") auto
qed simp

text \<open>
  C21: unsaved text is not given up on a single key.  If, after any sequence of keys, a key makes the editor quit while the text
  is modified, then that key and the last key pressed before it were both requests to quit.
\<close>

theorem quit_needs_confirmation:
  assumes "ed_initialized e" "\<not> ed_forced_quit_pending e" "fst (handle_key ev (snd (handle_keys evs e))) = Quit"
    and "ed_modified (snd (handle_keys evs e))"
  shows "quit_request ev \<and> filter ke_pressed evs \<noteq> [] \<and> quit_request (last (filter ke_pressed evs))"
proof
  let ?e = "snd (handle_keys evs e)"
  have "quit_request ev \<and> ed_forced_quit_pending ?e"
    using assms(3,4) by (auto simp: handle_key_def quit_request_def split: if_splits)
  then show "quit_request ev" "filter ke_pressed evs \<noteq> [] \<and> quit_request (last (filter ke_pressed evs))"
    using pending_request [OF _ assms(1,2)] by blast+
qed

subsection \<open>A sample text\<close>

definition key :: "key_code \<Rightarrow> u8 \<Rightarrow> bool \<Rightarrow> key_event" where
  "key k c ctrl = \<lparr>ke_key = k, ke_character = c, ke_ctrl = ctrl, ke_shift = False, ke_pressed = True\<rparr>"

text \<open>The text \<open>abc\<close>, a line break, \<open>d\<close>, with the cursor at the end.\<close>

definition demo_editor :: editor where
  "demo_editor = (editor_new (Some ([0x61, 0x62, 0x63, 0x0A, 0x64] @ replicate 65531 0)) 65536)
     \<lparr>ed_path := [0x41], ed_length := 5, ed_cursor := 5, ed_desired_column := 1, ed_initialized := True, ed_modified := True\<rparr>"

lemma demo_editor_ok: "ed_ok demo_editor" "ed_initialized demo_editor" "text_of demo_editor = [0x61, 0x62, 0x63, 0x0A, 0x64]"
  "cursor_location demo_editor = (1, 1)" "\<not> ed_forced_quit_pending demo_editor" "ed_desired_column demo_editor = 1"
proof -
  show t: "text_of demo_editor = [0x61, 0x62, 0x63, 0x0A, 0x64]" by (simp add: text_of_def demo_editor_def editor_new_def)
  show "ed_ok demo_editor" unfolding ed_ok_def t by (simp add: demo_editor_def editor_new_def kTextCapacity_def supported_text_byte_def)
qed (simp_all add: demo_editor_def editor_new_def cursor_location_def cursor_step_def upt_rec)

theorem editor_key_refines_witness:
  "cursor_location (snd (handle_key (key KeyArrowUp 0 False) demo_editor)) = (0, 1) \<and>
   text_of (snd (handle_key (key KeyBackspace 0 False) demo_editor)) = [0x61, 0x62, 0x63, 0x0A]"
proof -
  have "ed_cursor demo_editor = 5" by (simp add: demo_editor_def)
  then show ?thesis
    using editor_key_refines [OF demo_editor_ok(1,2) _ refl demo_editor_ok(4), of "key KeyArrowUp 0 False"]
      editor_key_refines [OF demo_editor_ok(1,2) _ refl demo_editor_ok(4), of "key KeyBackspace 0 False"]
    by (simp add: key_def demo_editor_ok edit_spec_def)
qed

theorem viewport_shows_cursor_witness:
  "ed_top_line (update_viewport 1 3 demo_editor) = 1 \<and> line_count demo_editor = 2"
proof -
  have "line_count demo_editor = 2" by (simp add: demo_editor_def editor_new_def line_count_def upt_rec)
  then show ?thesis using viewport_shows_cursor [OF demo_editor_ok(1,2), of 1 3, OF _ _ refl] by (simp add: demo_editor_ok)
qed

theorem quit_needs_confirmation_witness:
  "fst (handle_keys [key KeyCharacter 0x71 True, key KeyCharacter 0x71 True] demo_editor) = [NoEditorAction, Quit] \<and>
   quit_request (key KeyCharacter 0x71 True)"
proof -
  let ?q = "key KeyCharacter 0x71 True"
  have m: "ed_modified demo_editor" by (simp add: demo_editor_def)
  have one: "handle_keys [?q] demo_editor =
      ([NoEditorAction], set_status_message (Some (bytes_of ''Unsaved changes! Press Ctrl+Q again to quit without saving.'')) (demo_editor\<lparr>ed_forced_quit_pending := True\<rparr>))"
    using demo_editor_ok(2,5) m by (simp add: handle_key_def key_def)
  have two: "fst (handle_key ?q (snd (handle_keys [?q] demo_editor))) = Quit" "ed_modified (snd (handle_keys [?q] demo_editor))"
    unfolding one using demo_editor_ok(2) m by (simp_all add: handle_key_def key_def)
  from quit_needs_confirmation [OF demo_editor_ok(2,5) two] show ?thesis
    using one two handle_keys_append [of "[?q]" "[?q]" demo_editor] by (simp add: split_beta)
qed

end
