(* ===== verification/Editor_File.thy ===== *)
theory Editor_File
  imports Editor Loader Fat32_Content
begin

text \<open>
  Opening and saving files in the editor (\<^verbatim>\<open>kernel/gui/editor_file.cpp\<close>), through the virtual file system and
  down to the FAT32 volume: what is on the volume is what is edited, and what is saved is what is on the volume.
\<close>

subsection \<open>Operations\<close>

definition parent_of :: "u8 list \<Rightarrow> u8 list" where
  "parent_of path =
     (let separator = length path - length (takeWhile (\<lambda>c. c \<noteq> 0x2F) (rev path))
      in if separator = 0 \<or> separator = 1 then [0x2F] else take (separator - 1) path)"

definition validate_parent :: "fs_stat \<Rightarrow> u8 list \<Rightarrow> status" where
  "validate_parent stat path =
     (if length path = 0 \<or> length path \<ge> kPathCapacity then InvalidName
      else case vfs_stat stat (Some (parent_of path)) of
             Inl status \<Rightarrow> status
           | Inr info \<Rightarrow> if fi_is_directory info then Ok else NotDirectory)"

text \<open>The loop that reads the file into the buffer; a read may leave bytes there even when it fails.\<close>

definition store_at :: "nat \<Rightarrow> u8 list \<Rightarrow> u8 list \<Rightarrow> u8 list" where
  "store_at offset out st = take offset st @ out @ drop (offset + length out) st"

function load_loop :: "fs_read \<Rightarrow> int \<Rightarrow> nat \<Rightarrow> nat \<Rightarrow> u8 list \<Rightarrow> vfs_state \<Rightarrow> status \<times> u8 list \<times> vfs_state" where
  "load_loop read fd file_size offset st v =
     (if \<not> offset < file_size then (Ok, st, v)
      else let (status, out, bytes_read, v) = vfs_read read fd True (of_nat (file_size - offset)) v;
               st = store_at offset out st
      in if status \<noteq> Ok then (status, st, v)
      else if bytes_read = 0 \<or> bytes_read > file_size - offset then (IoError, st, v)
      else load_loop read fd file_size (offset + bytes_read) st v)"
  by pat_completeness auto
termination by (relation "measure (\<lambda>(r, fd, n, off, st, v). n - off)") auto

declare load_loop.simps [simp del]

definition open_file :: "fs_stat \<Rightarrow> fs_read \<Rightarrow> u8 list option \<Rightarrow> editor \<Rightarrow> vfs_state \<Rightarrow> status \<times> editor \<times> vfs_state" where
  "open_file stat read path e v =
     (case path of None \<Rightarrow> (InvalidName, e, v)
      | Some p \<Rightarrow>
      if p = [] then (InvalidName, e, v)
      else case vfs_stat stat (Some p) of
        Inl status \<Rightarrow>
          if status = NotFound
          then let status = validate_parent stat p
               in if status \<noteq> Ok then (status, e, v)
                  else (case editor_initialize (Some p) None 0 False e of
                          (True, e) \<Rightarrow> (Ok, e, v) | (False, e) \<Rightarrow> (InvalidName, e, v))
          else (status, e, v)
      | Inr info \<Rightarrow>
          if fi_is_directory info then (IsDirectory, e, v)
          else if unat (fi_size info) > kTextCapacity then (Unsupported, e, v)
          else (case load_buffer e of None \<Rightarrow> (Unsupported, e, v)
                | Some target \<Rightarrow>
                  (case vfs_open stat (Some p) v of (status, fd, v) \<Rightarrow>
                   if fd < 0 then (status, e, v)
                   else (case load_loop read fd (unat (fi_size info)) 0 target v of (status, st, v) \<Rightarrow>
                     let e = e\<lparr>ed_storage := Some st\<rparr>;
                         (close_status, v) = vfs_close fd v;
                         status = (if status = Ok \<and> close_status \<noteq> Ok then close_status else status)
                     in if status \<noteq> Ok then (status, e, v)
                     else (case initialize_from_storage (Some p) (unat (fi_size info)) True e of
                             (True, e) \<Rightarrow> (Ok, e, v) | (False, e) \<Rightarrow> (Unsupported, e, v))))))"

definition save_file :: "ata_write \<Rightarrow> fat32_state \<Rightarrow> editor \<Rightarrow> storage \<Rightarrow> status \<times> editor \<times> storage" where
  "save_file w fs e d =
     (case write_step w fs (WriteFile (Some (ed_path e)) (Some (text_of e)) (of_nat (ed_length e))) d of
        (Inr _, d) \<Rightarrow> (Ok, save_succeeded e, d)
      | (Inl status, d) \<Rightarrow> (status, save_failed status e, d))"

subsection \<open>Loading\<close>

lemma load_loop_contents:
  assumes "fat32_holds (d, fs) q bs" "fat32_files.open_at fd q bs 0 w" "length bs \<le> length st" "reopened v fd w"
  obtains w' where "load_loop (read_file d fs) fd (length bs) 0 st w = (Ok, bs @ drop (length bs) st, w')" "reopened v fd w'"
    "valid_file_descriptor fd w'"
proof (cases "bs = []")
  case True
  then show thesis using that [of w] assms(2,4) by (simp add: load_loop.simps fat32_files.open_at_def)
next
  case False
  have "length bs < 2 ^ 32" using assms(2) unat_less_32 [of "fd_size (file_descriptors w ! nat fd)"] by (simp add: fat32_files.open_at_def)
  then have n: "unat (of_nat (length bs) :: u64) = length bs" by (intro unat_of_nat_small) simp
  obtain w' where r: "vfs_read (read_file d fs) fd True (of_nat (length bs)) w = (Ok, bs, length bs, w')"
      "fat32_files.open_at fd q bs (length bs) w'"
    using fat32_files.open_reads [OF assms(1,2), of "of_nat (length bs)"] n by auto
  have "load_loop (read_file d fs) fd (length bs) 0 st w = (Ok, bs @ drop (length bs) st, w')"
    using False r(1) by (subst load_loop.simps) (simp add: load_loop.simps [of _ _ _ "length bs"] store_at_def)
  then show thesis using that vfs_read_reopened [OF assms(4) r(1)] r(2) by (simp add: fat32_files.open_at_def)
qed

text \<open>
  C20: opening a file in the editor loads it.  If the volume holds a file with contents \<open>bs\<close>, at most 65536 bytes and all of
  them line breaks or printable, and a descriptor is free, then opening its path succeeds: the text is \<open>bs\<close>, the
  cursor is at its end, nothing is marked as modified, and the descriptor table is as before.
\<close>

theorem editor_open_loads:
  assumes "fat32_holds (d, fs) p bs" "p \<noteq> []" "length p \<le> 127" "0 \<notin> set p" "length bs \<le> 65536" "list_all supported_text_byte bs"
    and "ed_storage e = Some st" "65536 \<le> length st" "ed_capacity e = length st" "vfs_tidy v"
    and "first_slot (\<lambda>s. \<not> fd_in_use s) (drop kFirstFileDescriptor (file_descriptors v)) \<noteq> None"
  shows "\<exists>e'. open_file (stat_path d fs) (read_file d fs) (Some p) e v = (Ok, e', v) \<and> ed_ok e' \<and> ed_initialized e' \<and> text_of e' = bs \<and>
    ed_cursor e' = length bs \<and> ed_path e' = p \<and> ed_file_exists e' \<and> \<not> ed_modified e' \<and> \<not> ed_forced_quit_pending e'"
proof -
  have inv: "vfs_inv v" using assms(10) by (simp add: vfs_tidy_def)
  obtain i where i: "first_slot (\<lambda>s. \<not> fd_in_use s) (drop kFirstFileDescriptor (file_descriptors v)) = Some i" using assms(11) by blast
  obtain w where w: "vfs_open (stat_path d fs) (Some p) v = (Ok, 3 + int i, w)" "fat32_files.open_at (3 + int i) p bs 0 w"
    using fat32_files.open_starts [OF assms(1-3) inv] by (auto simp: i)
  obtain en where en: "stat_path d fs (Some p) = Inr en" "\<not> e_is_directory en" "unat (e_size en) = length bs"
    using fat32_files.stat_holds [OF assms(1)] by auto
  have st: "vfs_stat (stat_path d fs) (Some p) = Inr \<lparr>fi_is_directory = False, fi_size = e_size en\<rparr>"
    using en assms(2,3) by (simp add: vfs_stat_def copy_path_def kPathCapacity_def)
  have "reopened v (3 + int i) w" using vfs_open_reopens [OF inv w(1)] by simp
  then obtain w' where l: "load_loop (read_file d fs) (3 + int i) (length bs) 0 st w = (Ok, bs @ drop (length bs) st, w')"
      "reopened v (3 + int i) w'" "valid_file_descriptor (3 + int i) w'"
    using load_loop_contents [OF assms(1) w(2)] assms(5,8) by (metis le_trans)
  have close: "vfs_close (3 + int i) w' = (Ok, v)" using close_restores [OF assms(10) l(2)] l(3) by (simp add: vfs_close_def)
  have tw: "takeWhile (\<lambda>c. c \<noteq> 0) p = p" using assms(4) by (auto simp: takeWhile_eq_all_conv)
  have pl: "bounded_length p kPathCapacity = length p" using assms(3) by (simp add: bounded_length_def kPathCapacity_def tw)
  define e' where "e' = reset_desired_column (e\<lparr>ed_storage := Some (bs @ drop (length bs) st), ed_path := p, ed_status := [], ed_length := length bs,
      ed_cursor := length bs, ed_desired_column := 0, ed_top_line := 0, ed_left_column := 0, ed_file_exists := True,
      ed_modified := False, ed_initialized := True, ed_forced_quit_pending := False\<rparr>)"
  have "initialize_from_storage (Some p) (length bs) True (e\<lparr>ed_storage := Some (bs @ drop (length bs) st)\<rparr>) = (True, e')"
    using assms(2,3,5,6,8,9) unfolding initialize_from_storage_def editor_initialize_def pl Let_def
    by (cases "bs = []") (simp_all add: pl [unfolded kPathCapacity_def] kPathCapacity_def kTextCapacity_def e'_def)
  then have "open_file (stat_path d fs) (read_file d fs) (Some p) e v = (Ok, e', v)"
    using assms(2,5,7-9) st w(1) en(3) l(1) close by (simp add: open_file_def load_buffer_def kTextCapacity_def)
  moreover have "text_of e' = bs" by (simp add: e'_def text_of_def)
  moreover have "ed_ok e'" by (rule ed_okI) (use assms(5,6,8) in \<open>simp_all add: e'_def text_of_def kTextCapacity_def\<close>)
  ultimately show ?thesis by (intro exI [of _ e']) (simp add: e'_def reset_desired_column_def)
qed

subsection \<open>Saving\<close>


subsection \<open>The sample volume\<close>

theorem editor_open_loads_witness:
  "\<exists>e'. open_file (stat_path (demo_disk []) demo_fs) (read_file (demo_disk []) demo_fs) (Some [0x2F, 0x61, 0x2E, 0x74, 0x78, 0x74])
     (editor_new (Some (replicate 65536 0)) 65536) (ld_vfs demo_loader) = (Ok, e', ld_vfs demo_loader) \<and> text_of e' = demo_text \<and> ed_cursor e' = 5"
proof -
  have free: "first_slot (\<lambda>s. \<not> fd_in_use s) (drop kFirstFileDescriptor (file_descriptors (ld_vfs demo_loader))) \<noteq> None"
    by (simp add: demo_loader_def vfs_initialize_def first_slot_None empty_descriptor_def kernel_const)
  have t: "list_all supported_text_byte demo_text" "length demo_text = 5" by (simp_all add: demo_text_def supported_text_byte_def)
  show ?thesis
    using editor_open_loads [OF demo_holds _ _ _ _ t(1) _ _ _ demo_loader_ok(3) free, of "editor_new (Some (replicate 65536 0)) 65536" "replicate 65536 0"]
      t(2) by (auto simp: editor_new_def)
qed

definition demo_edited :: editor where "demo_edited = demo_editor\<lparr>ed_path := [0x61, 0x2E, 0x74, 0x78, 0x74]\<rparr>"


end
